(* ===== verification/Prelude.thy ===== *)
theory Prelude
  imports Main "HOL-Library.Word"
begin

unbundle bit_operations_syntax

text \<open>
  What every component of the development shares: the port's machine types (the tile is a
  32-bit machine, so \<^verbatim>\<open>size_t\<close>, \<^verbatim>\<open>mp_uint_t\<close> and pointers have 32 bits), the
  exceptions that C code raises through \<^verbatim>\<open>nlr_jump\<close>, the effect of \<^verbatim>\<open>memcpy\<close>,
  \<^verbatim>\<open>memmove\<close> and \<^verbatim>\<open>memset\<close> on a buffer, and the generic facts on lists and on
  wrapped arithmetic that the component proofs use.
\<close>

subsection \<open>Machine types\<close>

type_synonym byte = "8 word"

text \<open>
  Sizes, counts and addresses are natural numbers; where a C expression can pass
  \<open>2 ^ 32\<close> its wrap-around is written with \<open>wrap32\<close> (sums and products) or \<open>sub32\<close>
  (differences).
\<close>

definition wrap32 :: "nat \<Rightarrow> nat" where
  "wrap32 n = n mod 2 ^ 32"

definition sub32 :: "nat \<Rightarrow> nat \<Rightarrow> nat" where
  "sub32 a b = (if b \<le> a then wrap32 (a - b) else wrap32 (2 ^ 32 - (b - a) mod 2 ^ 32))"

text \<open>A 32-bit pattern read as a signed integer, and an integer stored in 32 bits.\<close>

definition int32_of :: "int \<Rightarrow> int" where
  "int32_of x = (let y = x mod 2 ^ 32 in if y < 2 ^ 31 then y else y - 2 ^ 32)"

named_theorems wrap_simps \<open>facts that remove wrap-around where no overflow happens\<close>
named_theorems buf_simps \<open>facts on the contents of buffers after a copy\<close>

lemma wrap32_less [wrap_simps, simp]: "n < 2 ^ 32 \<Longrightarrow> wrap32 n = n"
  by (simp add: wrap32_def)

lemma wrap32_bound [simp]: "wrap32 n < 4294967296"
  by (simp add: wrap32_def)

lemma sub32_le [wrap_simps]: "b \<le> a \<Longrightarrow> a < 2 ^ 32 \<Longrightarrow> sub32 a b = a - b"
  by (simp add: sub32_def wrap32_def)

lemma sub32_negative: "a < b \<Longrightarrow> b - a < 2 ^ 32 \<Longrightarrow> sub32 a b = 2 ^ 32 - (b - a)"
  by (simp add: sub32_def wrap32_def)

lemma int32_of_range: "- (2 ^ 31) \<le> int32_of x \<and> int32_of x < 2 ^ 31"
  by (simp add: int32_of_def Let_def) (smt (verit) pos_mod_bound pos_mod_sign)

lemma int32_of_id [wrap_simps]: "- (2 ^ 31) \<le> x \<Longrightarrow> x < 2 ^ 31 \<Longrightarrow> int32_of x = x"
  by (simp add: int32_of_def Let_def) (smt (verit) mod_add_self2 mod_pos_pos_trivial)

subsection \<open>Exceptions\<close>

text \<open>
  The exceptions the modelled functions raise (\<^verbatim>\<open>mp_raise_*\<close>, \<^verbatim>\<open>m_malloc_fail\<close>). A C
  function that may raise returns \<open>Inl\<close> of the exception or \<open>Inr\<close> of its result.
\<close>

datatype mp_exc =
    MemoryError
  | RuntimeError
  | IndexError
  | ValueError
  | TypeError
  | ZeroDivisionError
  | KeyError
  | OverflowError
  | StopIteration
  | NotImplementedError
  | SyntaxError

type_synonym 'a result = "mp_exc + 'a"

text \<open>Running one function after another: an exception skips the rest.\<close>

fun rbind :: "'a result \<Rightarrow> ('a \<Rightarrow> 'b result) \<Rightarrow> 'b result" where
  "rbind (Inl e) f = Inl e"
| "rbind (Inr x) f = f x"

lemma rbind_cong [fundef_cong]:
  "r = r' \<Longrightarrow> (\<And>x. r' = Inr x \<Longrightarrow> f x = f' x) \<Longrightarrow> rbind r f = rbind r' f'"
  by (cases r') auto

lemma rbind_Inr: "rbind r f = Inr y \<longleftrightarrow> (\<exists>x. r = Inr x \<and> f x = Inr y)"
  by (cases r) auto

lemma rbind_Inl: "rbind r f = Inl e \<longleftrightarrow> r = Inl e \<or> (\<exists>x. r = Inr x \<and> f x = Inl e)"
  by (cases r) auto

subsection \<open>Buffers\<close>

text \<open>
  \<open>overwrite xs i ys\<close> is the buffer \<open>xs\<close> after the bytes \<open>ys\<close> were copied to offset
  \<open>i\<close>: what \<^verbatim>\<open>memcpy\<close> and \<^verbatim>\<open>memmove\<close> leave when the copied range lies inside it.
\<close>

definition overwrite :: "'a list \<Rightarrow> nat \<Rightarrow> 'a list \<Rightarrow> 'a list" where
  "overwrite xs i ys = take i xs @ ys @ drop (i + length ys) xs"

definition subbuf :: "nat \<Rightarrow> nat \<Rightarrow> 'a list \<Rightarrow> 'a list" where
  "subbuf i n xs = take n (drop i xs)"

lemma length_overwrite [simp, buf_simps]:
  "i + length ys \<le> length xs \<Longrightarrow> length (overwrite xs i ys) = length xs"
  by (simp add: overwrite_def)

lemma nth_overwrite [buf_simps]:
  assumes "i + length ys \<le> length xs" and "k < length xs"
  shows "overwrite xs i ys ! k =
    (if i \<le> k \<and> k < i + length ys then ys ! (k - i) else xs ! k)"
  using assms by (auto simp: overwrite_def nth_append min_def)

lemma take_overwrite_end [buf_simps]:
  "i + length ys \<le> length xs \<Longrightarrow> take (i + length ys) (overwrite xs i ys) = take i xs @ ys"
  by (simp add: overwrite_def)

lemma take_overwrite_before [buf_simps]:
  "k \<le> i \<Longrightarrow> i \<le> length xs \<Longrightarrow> take k (overwrite xs i ys) = take k xs"
  by (simp add: overwrite_def min_def)

lemma overwrite_Nil [simp]: "overwrite xs i [] = xs"
  by (simp add: overwrite_def)

lemma length_subbuf [simp]: "i + n \<le> length xs \<Longrightarrow> length (subbuf i n xs) = n"
  by (simp add: subbuf_def)

lemma nth_subbuf [buf_simps]: "i + n \<le> length xs \<Longrightarrow> k < n \<Longrightarrow> subbuf i n xs ! k = xs ! (i + k)"
  by (simp add: subbuf_def)

subsection \<open>Lists and counting\<close>

lemma count_less_if_changed:
  assumes "b < n" and "P b" and "\<not> Q b" and "\<And>x. x < n \<Longrightarrow> Q x \<Longrightarrow> P x"
  shows "card {x. x < n \<and> Q x} < card {x. x < (n::nat) \<and> P x}"
proof (rule psubset_card_mono)
  show "finite {x. x < n \<and> P x}" by simp
  show "{x. x < n \<and> Q x} \<subset> {x. x < n \<and> P x}" using assms by auto
qed

lemma align_down_le: "(n::nat) - n mod k \<le> n"
  by simp

lemma align_down_dvd: "(k::nat) dvd n - n mod k"
  by (simp add: dvd_minus_mod)

end
