(* ===== verification/Gc.thy ===== *)
theory Gc
  imports Prelude
begin

unbundle bit_operations_syntax

text \<open>
  The heap of the interpreter: \<^verbatim>\<open>py/gc.c\<close> as it stands in \<^verbatim>\<open>src/libIPUpy/libIPUpy.c\<close>,
  in the port's configuration (no finalisers, no allocation threshold, no threads, blocks
  cleared conservatively). The pool is a sequence of 16-byte blocks; the allocation table in
  front of it holds two bits per block. This theory has the allocator and the collector's
  operations; the theories \<open>Gc_Alloc\<close> and \<open>Gc_Mark\<close> prove them correct.
\<close>

subsection \<open>Constants\<close>

definition BYTES_PER_BLOCK :: nat where "BYTES_PER_BLOCK = 16"
definition WORDS_PER_BLOCK :: nat where "WORDS_PER_BLOCK = 4"
definition BLOCKS_PER_ATB :: nat where "BLOCKS_PER_ATB = 4"
definition GC_STACK_SIZE :: nat where "GC_STACK_SIZE = 64"

definition AT_FREE :: nat where "AT_FREE = 0"
definition AT_HEAD :: nat where "AT_HEAD = 1"
definition AT_TAIL :: nat where "AT_TAIL = 2"
definition AT_MARK :: nat where "AT_MARK = 3"

named_theorems gc_consts \<open>the numeric constants of gc.c\<close>

declare BYTES_PER_BLOCK_def [gc_consts] WORDS_PER_BLOCK_def [gc_consts]
  BLOCKS_PER_ATB_def [gc_consts] GC_STACK_SIZE_def [gc_consts]
  AT_FREE_def [gc_consts] AT_HEAD_def [gc_consts] AT_TAIL_def [gc_consts] AT_MARK_def [gc_consts]

subsection \<open>State\<close>

text \<open>
  \<open>gc_alloc_table\<close> holds the bytes of memory from \<^verbatim>\<open>gc_alloc_table_start\<close> up to
  \<^verbatim>\<open>gc_pool_start\<close>: the table proper (its first \<open>gc_alloc_table_byte_len\<close> bytes) and the
  padding left between the table and the pool. \<open>gc_pool\<close> holds the 32-bit words of the pool,
  the unit in which the collector reads it.
\<close>

record gc_state =
  gc_alloc_table :: "byte list"
  gc_alloc_table_byte_len :: nat
  gc_alloc_table_start :: nat
  gc_pool_start :: nat
  gc_pool_end :: nat
  gc_pool :: "nat list"
  gc_last_free_atb_index :: nat
  gc_lock_depth :: nat
  gc_auto_collect_enabled :: bool
  gc_stack_overflow :: bool

text \<open>The words that \<^verbatim>\<open>gc_collect\<close> treats as possible pointers into the heap.\<close>

record gc_roots =
  ctx_ptrs :: "nat list"      \<comment> \<open>the root pointer section of \<open>mp_state_ctx\<close>\<close>
  pystack_ptrs :: "nat list"  \<comment> \<open>the used part of the Python stack\<close>
  stack_ptrs :: "nat list"    \<comment> \<open>the scanned part of the C stack\<close>

definition max_block :: "gc_state \<Rightarrow> nat" where
  "max_block s = gc_alloc_table_byte_len s * BLOCKS_PER_ATB"

subsection \<open>The allocation table\<close>

text \<open>
  \<^verbatim>\<open>ATB_GET_KIND\<close> and the five updates. A read behind the bytes held by
  \<open>gc_alloc_table\<close> yields 0; the heap invariant keeps at least one padding byte, so the
  modelled functions never get there.
\<close>

definition block_shift :: "nat \<Rightarrow> nat" where
  "block_shift block = 2 * (block mod BLOCKS_PER_ATB)"

definition atb_byte :: "gc_state \<Rightarrow> nat \<Rightarrow> byte" where
  "atb_byte s i = (if i < length (gc_alloc_table s) then gc_alloc_table s ! i else 0)"

definition atb_get_kind :: "gc_state \<Rightarrow> nat \<Rightarrow> nat" where
  "atb_get_kind s block = unat (drop_bit (block_shift block) (atb_byte s (block div BLOCKS_PER_ATB)) AND 3)"

definition atb_update :: "nat \<Rightarrow> (byte \<Rightarrow> byte) \<Rightarrow> gc_state \<Rightarrow> gc_state" where
  "atb_update i f s = s\<lparr>gc_alloc_table := (gc_alloc_table s)[i := f (atb_byte s i)]\<rparr>"

definition atb_any_to_free :: "nat \<Rightarrow> gc_state \<Rightarrow> gc_state" where
  "atb_any_to_free block = atb_update (block div BLOCKS_PER_ATB)
     (\<lambda>a. a AND NOT (push_bit (block_shift block) (of_nat AT_MARK)))"

definition atb_free_to_head :: "nat \<Rightarrow> gc_state \<Rightarrow> gc_state" where
  "atb_free_to_head block = atb_update (block div BLOCKS_PER_ATB)
     (\<lambda>a. a OR push_bit (block_shift block) (of_nat AT_HEAD))"

definition atb_free_to_tail :: "nat \<Rightarrow> gc_state \<Rightarrow> gc_state" where
  "atb_free_to_tail block = atb_update (block div BLOCKS_PER_ATB)
     (\<lambda>a. a OR push_bit (block_shift block) (of_nat AT_TAIL))"

definition atb_head_to_mark :: "nat \<Rightarrow> gc_state \<Rightarrow> gc_state" where
  "atb_head_to_mark block = atb_update (block div BLOCKS_PER_ATB)
     (\<lambda>a. a OR push_bit (block_shift block) (of_nat AT_MARK))"

definition atb_mark_to_head :: "nat \<Rightarrow> gc_state \<Rightarrow> gc_state" where
  "atb_mark_to_head block = atb_update (block div BLOCKS_PER_ATB)
     (\<lambda>a. a AND NOT (push_bit (block_shift block) (of_nat AT_TAIL)))"

definition block_from_ptr :: "gc_state \<Rightarrow> nat \<Rightarrow> nat" where
  "block_from_ptr s ptr = (ptr - gc_pool_start s) div BYTES_PER_BLOCK"

definition ptr_from_block :: "gc_state \<Rightarrow> nat \<Rightarrow> nat" where
  "ptr_from_block s block = block * BYTES_PER_BLOCK + gc_pool_start s"

definition verify_ptr :: "gc_state \<Rightarrow> nat \<Rightarrow> bool" where
  "verify_ptr s ptr \<longleftrightarrow>
     ptr mod BYTES_PER_BLOCK = 0 \<and> ptr \<ge> gc_pool_start s \<and> ptr < gc_pool_end s"

subsection \<open>Reading the table: what the updates do\<close>

lemma take_bit_2_nat: "take_bit 2 (m::nat) = of_bool (bit m 0) + 2 * of_bool (bit m 1)"
proof -
  have "m mod 4 = of_bool (odd m) + 2 * of_bool (odd (m div 2))"
    by (cases "odd m"; cases "odd (m div 2)") (simp_all, presburger+)
  then show ?thesis by (simp add: take_bit_eq_mod bit_iff_odd)
qed

lemma kind_bits:
  fixes w :: byte
  shows "unat (drop_bit n w AND 3) = of_bool (bit w n) + 2 * of_bool (bit w (Suc n))"
proof -
  have "drop_bit n w AND 3 = take_bit 2 (drop_bit n w)"
    by (simp add: take_bit_eq_mask mask_eq_exp_minus_1)
  then have "unat (drop_bit n w AND 3) = take_bit 2 (unat (drop_bit n w))"
    by (simp add: unsigned_take_bit_eq)
  also have "\<dots> = of_bool (bit w n) + 2 * of_bool (bit w (Suc n))"
    unfolding take_bit_2_nat by (auto simp: bit_simps dest: bit_imp_le_length)
  finally show ?thesis .
qed

lemma bit_small_byte:
  "bit (1::byte) k \<longleftrightarrow> k = 0" "bit (2::byte) k \<longleftrightarrow> k = 1" "bit (3::byte) k \<longleftrightarrow> k < 2"
proof -
  have "(3::byte) = mask 2" by (simp add: mask_eq_exp_minus_1)
  then show "bit (3::byte) k \<longleftrightarrow> k < 2" by (simp only: bit_mask_iff) auto
qed (auto simp: bit_1_iff bit_2_iff)

text \<open>
  Where the bits of two blocks lie: the pairs of different blocks do not overlap. These facts
  reduce every update to the block it is meant for.
\<close>

lemma atb_byte_update:
  "i < length (gc_alloc_table s) \<Longrightarrow>
   atb_byte (atb_update i f s) j = (if i = j then f (atb_byte s i) else atb_byte s j)"
  by (auto simp: atb_byte_def atb_update_def)

lemma atb_get_kind_bits:
  "atb_get_kind s b =
     of_bool (bit (atb_byte s (b div 4)) (2 * (b mod 4)))
     + 2 * of_bool (bit (atb_byte s (b div 4)) (Suc (2 * (b mod 4))))"
  by (simp add: atb_get_kind_def kind_bits block_shift_def gc_consts)

lemma block_pair_disjoint:
  assumes "b div 4 = b' div 4" and "b \<noteq> (b'::nat)"
  shows "2 * (b mod 4) \<noteq> 2 * (b' mod 4)" "2 * (b mod 4) \<noteq> Suc (2 * (b' mod 4))"
    "Suc (2 * (b mod 4)) \<noteq> 2 * (b' mod 4)"
proof -
  have ne: "b mod 4 \<noteq> b' mod 4" using assms by (metis div_mod_decomp)
  have parity: "2 * m \<noteq> Suc (2 * n)" for m n :: nat by arith
  show "2 * (b mod 4) \<noteq> 2 * (b' mod 4)" using ne by simp
  show "2 * (b mod 4) \<noteq> Suc (2 * (b' mod 4))" by (rule parity)
  show "Suc (2 * (b mod 4)) \<noteq> 2 * (b' mod 4)" by (rule parity [THEN not_sym])
qed

lemma atb_kind_update_other:
  assumes "b div 4 < length (gc_alloc_table s)" and "b' \<noteq> b"
    and keep: "\<And>a k. k \<noteq> 2 * (b mod 4) \<Longrightarrow> k \<noteq> Suc (2 * (b mod 4)) \<Longrightarrow> bit (f a) k = bit a k"
  shows "atb_get_kind (atb_update (b div 4) f s) b' = atb_get_kind s b'"
proof (cases "b' div 4 = b div 4")
  case True
  from block_pair_disjoint [OF True assms(2)] show ?thesis
    using True assms(1) by (simp add: atb_get_kind_bits atb_byte_update keep)
next
  case False
  then show ?thesis using assms(1) by (simp add: atb_get_kind_bits atb_byte_update)
qed

lemma atb_kind_update_same:
  assumes "b div 4 < length (gc_alloc_table s)"
  shows "atb_get_kind (atb_update (b div 4) f s) b =
     of_bool (bit (f (atb_byte s (b div 4))) (2 * (b mod 4)))
     + 2 * of_bool (bit (f (atb_byte s (b div 4))) (Suc (2 * (b mod 4))))"
  using assms by (simp add: atb_get_kind_bits atb_byte_update)

lemma bit_push_mask:
  fixes b k :: nat
  defines "n \<equiv> 2 * (b mod 4)"
  shows "bit ((2::byte) ^ n) k \<longleftrightarrow> k = n"
    and "bit (push_bit n (2::byte)) k \<longleftrightarrow> k = Suc n"
    and "bit (push_bit n (3::byte)) k \<longleftrightarrow> k = n \<or> k = Suc n"
proof -
  have n: "n < 7" unfolding n_def by presburger
  have push: "bit (push_bit n w) k \<longleftrightarrow> n \<le> k \<and> k < 8 \<and> bit w (k - n)" for w :: byte
    by (simp add: bit_push_bit_iff)
  show "bit ((2::byte) ^ n) k \<longleftrightarrow> k = n"
    unfolding push_bit_of_1 [symmetric] push bit_small_byte using n by auto
  show "bit (push_bit n (2::byte)) k \<longleftrightarrow> k = Suc n"
    unfolding push bit_small_byte using n by auto
  show "bit (push_bit n (3::byte)) k \<longleftrightarrow> k = n \<or> k = Suc n"
    unfolding push bit_small_byte using n by auto
qed

lemma bit_and_not_byte: "bit (a AND NOT w) k \<longleftrightarrow> bit a k \<and> \<not> bit w k" for a :: byte
  by (auto simp: bit_and_iff bit_not_iff dest: bit_imp_le_length)

definition in_table :: "gc_state \<Rightarrow> nat \<Rightarrow> bool" where
  "in_table s b \<longleftrightarrow> b div 4 < length (gc_alloc_table s)"

lemmas atb_op_simps = in_table_def atb_any_to_free_def atb_free_to_head_def atb_free_to_tail_def
  atb_head_to_mark_def atb_mark_to_head_def gc_consts block_shift_def atb_kind_update_same
  bit_push_mask bit_or_iff bit_and_not_byte

lemma kind_any_to_free:
  "in_table s b \<Longrightarrow>
   atb_get_kind (atb_any_to_free b s) b' = (if b' = b then AT_FREE else atb_get_kind s b')"
  by (auto simp: atb_op_simps intro!: atb_kind_update_other)

lemma kind_free_to_head:
  "in_table s b \<Longrightarrow> atb_get_kind s b = AT_FREE \<Longrightarrow>
   atb_get_kind (atb_free_to_head b s) b' = (if b' = b then AT_HEAD else atb_get_kind s b')"
  by (auto simp: atb_op_simps atb_get_kind_bits [of s b] intro!: atb_kind_update_other)

lemma kind_free_to_tail:
  "in_table s b \<Longrightarrow> atb_get_kind s b = AT_FREE \<Longrightarrow>
   atb_get_kind (atb_free_to_tail b s) b' = (if b' = b then AT_TAIL else atb_get_kind s b')"
  by (auto simp: atb_op_simps atb_get_kind_bits [of s b] intro!: atb_kind_update_other)

lemma kind_head_to_mark:
  "in_table s b \<Longrightarrow>
   atb_get_kind (atb_head_to_mark b s) b' = (if b' = b then AT_MARK else atb_get_kind s b')"
  by (auto simp: atb_op_simps intro!: atb_kind_update_other)

lemma kind_mark_to_head:
  "in_table s b \<Longrightarrow> atb_get_kind s b = AT_MARK \<Longrightarrow>
   atb_get_kind (atb_mark_to_head b s) b' = (if b' = b then AT_HEAD else atb_get_kind s b')"
  by (cases "bit (atb_byte s (b div 4)) (2 * (b mod 4))")
    (auto simp: atb_op_simps atb_get_kind_bits [of s b] of_bool_def intro!: atb_kind_update_other
      split: if_splits)

lemma atb_get_kind_range: "atb_get_kind s b \<in> {AT_FREE, AT_HEAD, AT_TAIL, AT_MARK}"
  by (auto simp: atb_get_kind_bits gc_consts)

lemma kind_nonfree_in_table: "atb_get_kind s b \<noteq> AT_FREE \<Longrightarrow> in_table s b"
  by (rule ccontr) (simp add: in_table_def atb_get_kind_bits atb_byte_def gc_consts)

lemma atb_update_simps [simp]:
  "length (gc_alloc_table (atb_update i f s)) = length (gc_alloc_table s)"
  "gc_alloc_table_byte_len (atb_update i f s) = gc_alloc_table_byte_len s"
  "gc_alloc_table_start (atb_update i f s) = gc_alloc_table_start s"
  "gc_pool_start (atb_update i f s) = gc_pool_start s"
  "gc_pool_end (atb_update i f s) = gc_pool_end s"
  "gc_pool (atb_update i f s) = gc_pool s"
  "gc_last_free_atb_index (atb_update i f s) = gc_last_free_atb_index s"
  "gc_lock_depth (atb_update i f s) = gc_lock_depth s"
  "gc_auto_collect_enabled (atb_update i f s) = gc_auto_collect_enabled s"
  "gc_stack_overflow (atb_update i f s) = gc_stack_overflow s"
  by (simp_all add: atb_update_def)

text \<open>
  The frame of a step: everything but the table bytes, the overflow flag, the scan hint and
  the lock depth is as before. All table updates and all of marking and sweeping stay inside it.
\<close>

definition same_frame :: "gc_state \<Rightarrow> gc_state \<Rightarrow> bool" where
  "same_frame s t \<longleftrightarrow>
     length (gc_alloc_table t) = length (gc_alloc_table s) \<and>
     gc_alloc_table_byte_len t = gc_alloc_table_byte_len s \<and>
     gc_alloc_table_start t = gc_alloc_table_start s \<and>
     gc_pool_start t = gc_pool_start s \<and> gc_pool_end t = gc_pool_end s \<and>
     gc_pool t = gc_pool s \<and> gc_auto_collect_enabled t = gc_auto_collect_enabled s"

lemma same_frame_refl [simp, intro]: "same_frame s s"
  by (simp add: same_frame_def)

lemma same_frame_trans [trans]: "same_frame s t \<Longrightarrow> same_frame t u \<Longrightarrow> same_frame s u"
  by (simp add: same_frame_def)

lemma same_frame_ops [simp, intro]:
  "same_frame s (atb_any_to_free b s)" "same_frame s (atb_free_to_head b s)"
  "same_frame s (atb_free_to_tail b s)" "same_frame s (atb_head_to_mark b s)"
  "same_frame s (atb_mark_to_head b s)"
  "same_frame s (s\<lparr>gc_stack_overflow := x\<rparr>)" "same_frame s (s\<lparr>gc_lock_depth := d\<rparr>)"
  "same_frame s (s\<lparr>gc_last_free_atb_index := d\<rparr>)"
  by (simp_all add: same_frame_def atb_any_to_free_def atb_free_to_head_def atb_free_to_tail_def
      atb_head_to_mark_def atb_mark_to_head_def)

lemma same_frameD:
  assumes "same_frame s t"
  shows "in_table t b = in_table s b" "max_block t = max_block s" "verify_ptr t p = verify_ptr s p"
    "block_from_ptr t p = block_from_ptr s p" "ptr_from_block t b = ptr_from_block s b"
    "gc_pool t = gc_pool s" "gc_pool_start t = gc_pool_start s" "gc_pool_end t = gc_pool_end s"
    "gc_alloc_table_byte_len t = gc_alloc_table_byte_len s"
    "length (gc_alloc_table t) = length (gc_alloc_table s)"
    "gc_auto_collect_enabled t = gc_auto_collect_enabled s"
    "gc_alloc_table_start t = gc_alloc_table_start s"
  using assms
  by (simp_all add: same_frame_def in_table_def max_block_def verify_ptr_def block_from_ptr_def
      ptr_from_block_def)

lemma in_table_ops [simp]:
  "in_table (atb_any_to_free b s) x = in_table s x" "in_table (atb_free_to_head b s) x = in_table s x"
  "in_table (atb_free_to_tail b s) x = in_table s x" "in_table (atb_head_to_mark b s) x = in_table s x"
  "in_table (atb_mark_to_head b s) x = in_table s x"
  "in_table (s\<lparr>gc_stack_overflow := y\<rparr>) x = in_table s x"
  "in_table (s\<lparr>gc_lock_depth := d\<rparr>) x = in_table s x"
  "in_table (s\<lparr>gc_last_free_atb_index := d\<rparr>) x = in_table s x"
  by (simp_all add: in_table_def atb_any_to_free_def atb_free_to_head_def atb_free_to_tail_def
      atb_head_to_mark_def atb_mark_to_head_def)

lemma kind_field_updates [simp]:
  "atb_get_kind (s\<lparr>gc_stack_overflow := x\<rparr>) b = atb_get_kind s b"
  "atb_get_kind (s\<lparr>gc_lock_depth := d\<rparr>) b = atb_get_kind s b"
  "atb_get_kind (s\<lparr>gc_last_free_atb_index := i\<rparr>) b = atb_get_kind s b"
  "atb_get_kind (s\<lparr>gc_pool := q\<rparr>) b = atb_get_kind s b"
  by (simp_all add: atb_get_kind_def atb_byte_def)

subsection \<open>Initialisation and locking\<close>

text \<open>
  \<^verbatim>\<open>gc_init\<close>. \<open>mem\<close> is the memory before the call, byte by byte; the bytes between
  the table and the pool and the pool itself keep their contents, only the table is cleared.
\<close>

definition mem_word :: "(nat \<Rightarrow> byte) \<Rightarrow> nat \<Rightarrow> nat" where
  "mem_word mem a = unat (mem a) + 256 * unat (mem (a + 1)) + 65536 * unat (mem (a + 2))
     + 16777216 * unat (mem (a + 3))"

definition gc_init :: "(nat \<Rightarrow> byte) \<Rightarrow> nat \<Rightarrow> nat \<Rightarrow> gc_state" where
  "gc_init mem start end_in =
    (let end' = end_in - end_in mod BYTES_PER_BLOCK;
         total_byte_len = end' - start;
         atb_len = total_byte_len div (1 + 8 div 2 * BYTES_PER_BLOCK);
         gc_pool_block_len = atb_len * BLOCKS_PER_ATB;
         pool_start = end' - gc_pool_block_len * BYTES_PER_BLOCK
     in \<lparr>gc_alloc_table = replicate atb_len 0 @ map mem [start + atb_len ..< pool_start],
         gc_alloc_table_byte_len = atb_len,
         gc_alloc_table_start = start,
         gc_pool_start = pool_start,
         gc_pool_end = end',
         gc_pool = map (\<lambda>i. mem_word mem (pool_start + 4 * i)) [0 ..< gc_pool_block_len * WORDS_PER_BLOCK],
         gc_last_free_atb_index = 0,
         gc_lock_depth = 0,
         gc_auto_collect_enabled = True,
         gc_stack_overflow = False\<rparr>)"

text \<open>\<^verbatim>\<open>gc_lock_depth\<close> is a \<^verbatim>\<open>uint16_t\<close>.\<close>

definition gc_lock :: "gc_state \<Rightarrow> gc_state" where
  "gc_lock s = s\<lparr>gc_lock_depth := (gc_lock_depth s + 1) mod 2 ^ 16\<rparr>"

definition gc_unlock :: "gc_state \<Rightarrow> gc_state" where
  "gc_unlock s = s\<lparr>gc_lock_depth := (gc_lock_depth s + 2 ^ 16 - 1) mod 2 ^ 16\<rparr>"

definition gc_is_locked :: "gc_state \<Rightarrow> bool" where
  "gc_is_locked s \<longleftrightarrow> gc_lock_depth s \<noteq> 0"

subsection \<open>Marking\<close>

text \<open>
  The number of consecutive blocks of a chain: the loop
  \<^verbatim>\<open>do { n_blocks += 1; } while (ATB_GET_KIND(block + n_blocks) == AT_TAIL)\<close>, entered with
  \<open>n = 1\<close> after its first increment.
\<close>

function gc_count_tail :: "gc_state \<Rightarrow> nat \<Rightarrow> nat \<Rightarrow> nat" where
  "gc_count_tail s block n =
     (if atb_get_kind s (block + n) = AT_TAIL then gc_count_tail s block (n + 1) else n)"
  by pat_completeness auto
termination
proof (relation "measure (\<lambda>(s, block, n). 4 * length (gc_alloc_table s) - (block + n))")
  fix s block n
  assume "atb_get_kind s (block + n) = AT_TAIL"
  then have "in_table s (block + n)"
    by (intro kind_nonfree_in_table) (simp add: gc_consts)
  then show "((s, block, n + 1), s, block, n)
      \<in> measure (\<lambda>(s, block, n). 4 * length (gc_alloc_table s) - (block + n))"
    by (simp add: in_table_def)
qed simp

declare gc_count_tail.simps [simp del]

definition gc_chain_len :: "gc_state \<Rightarrow> nat \<Rightarrow> nat" where
  "gc_chain_len s block = gc_count_tail s block 1"

text \<open>
  The children of a chain, word by word. The gc stack is a list with its top in front: its
  length is \<^verbatim>\<open>sp\<close>.
\<close>

fun gc_mark_children :: "nat list \<Rightarrow> gc_state \<Rightarrow> nat list \<Rightarrow> gc_state \<times> nat list" where
  "gc_mark_children [] s stk = (s, stk)"
| "gc_mark_children (ptr # ptrs) s stk =
     (if verify_ptr s ptr then
        let childblock = block_from_ptr s ptr in
        if atb_get_kind s childblock = AT_HEAD then
          let s1 = atb_head_to_mark childblock s in
          if length stk < GC_STACK_SIZE
          then gc_mark_children ptrs s1 (childblock # stk)
          else gc_mark_children ptrs (s1\<lparr>gc_stack_overflow := True\<rparr>) stk
        else gc_mark_children ptrs s stk
      else gc_mark_children ptrs s stk)"

definition chain_words :: "gc_state \<Rightarrow> nat \<Rightarrow> nat list" where
  "chain_words s block =
     subbuf (block * WORDS_PER_BLOCK) (gc_chain_len s block * WORDS_PER_BLOCK) (gc_pool s)"

definition heads :: "gc_state \<Rightarrow> nat set" where
  "heads s = {b. b < 4 * length (gc_alloc_table s) \<and> atb_get_kind s b = AT_HEAD}"

lemma finite_heads [simp]: "finite (heads s)"
  by (simp add: heads_def)

lemma head_in_heads: "b \<in> heads s \<longleftrightarrow> atb_get_kind s b = AT_HEAD"
proof -
  have "atb_get_kind s b = AT_HEAD \<Longrightarrow> b < 4 * length (gc_alloc_table s)"
    using kind_nonfree_in_table [of s b] by (auto simp: in_table_def gc_consts)
  then show ?thesis by (auto simp: heads_def)
qed

lemma heads_mark:
  assumes "atb_get_kind s b = AT_HEAD"
  shows "heads (atb_head_to_mark b s) = heads s - {b}"
proof -
  have "in_table s b" using assms by (intro kind_nonfree_in_table) (simp add: gc_consts)
  then show ?thesis by (auto simp: head_in_heads kind_head_to_mark gc_consts split: if_splits)
qed

lemma gc_mark_children_measure:
  assumes "gc_mark_children ptrs s stk = (s', stk')"
  shows "card (heads s') + length stk' \<le> card (heads s) + length stk"
  using assms
proof (induction ptrs s stk rule: gc_mark_children.induct)
  case (1 s stk)
  then show ?case by simp
next
  case (2 ptr ptrs s stk)
  have "card (heads (atb_head_to_mark (block_from_ptr s ptr) s)) + 1 \<le> card (heads s)"
    if "atb_get_kind s (block_from_ptr s ptr) = AT_HEAD"
    using that card_Suc_Diff1 [of "heads s" "block_from_ptr s ptr"]
    by (simp add: heads_mark head_in_heads)
  moreover have "heads (s\<lparr>gc_stack_overflow := x\<rparr>) = heads s" for s x
    by (simp add: heads_def)
  ultimately show ?case using 2 by (fastforce simp: Let_def split: if_splits)
qed

text \<open>
  \<^verbatim>\<open>gc_mark_subtree\<close>: the loop with the block in hand and the stack. It ends because a
  round that pushes \<open>k\<close> blocks turns \<open>k\<close> heads into marks and takes one block off.
\<close>

function gc_mark_loop :: "nat \<Rightarrow> nat list \<Rightarrow> gc_state \<Rightarrow> gc_state" where
  "gc_mark_loop block stk s =
     (case gc_mark_children (chain_words s block) s stk of
        (s1, []) \<Rightarrow> s1
      | (s1, b # stk1) \<Rightarrow> gc_mark_loop b stk1 s1)"
  by pat_completeness auto
termination
proof (relation "measure (\<lambda>(block, stk, s). card (heads s) + length stk)")
  fix block stk s x1 x2 b stk1
  assume "(x1, x2) = gc_mark_children (chain_words s block) s stk" and "x2 = b # stk1"
  then have "card (heads x1) + length (b # stk1) \<le> card (heads s) + length stk"
    using gc_mark_children_measure by metis
  then show "((b, stk1, x1), block, stk, s) \<in> measure (\<lambda>(block, stk, s). card (heads s) + length stk)"
    by simp
qed simp

declare gc_mark_loop.simps [simp del]

definition gc_mark_subtree :: "nat \<Rightarrow> gc_state \<Rightarrow> gc_state" where
  "gc_mark_subtree block s = gc_mark_loop block [] s"

text \<open>
  What marking does to heads and to the overflow flag: heads only disappear, and the flag is
  raised only by a step that marked a head.
\<close>

definition mark_progress :: "gc_state \<Rightarrow> gc_state \<Rightarrow> bool" where
  "mark_progress s t \<longleftrightarrow> heads t \<subseteq> heads s \<and>
     (gc_stack_overflow t \<longrightarrow> gc_stack_overflow s \<or> heads t \<subset> heads s)"

lemma mark_progress_refl [simp, intro]: "mark_progress s s"
  by (simp add: mark_progress_def)

lemma mark_progress_trans: "mark_progress s t \<Longrightarrow> mark_progress t u \<Longrightarrow> mark_progress s u"
  unfolding mark_progress_def by blast

lemma mark_progress_head:
  assumes "atb_get_kind s b = AT_HEAD"
  shows "mark_progress s (atb_head_to_mark b s)"
    and "mark_progress s ((atb_head_to_mark b s)\<lparr>gc_stack_overflow := x\<rparr>)"
proof -
  have "heads (s\<lparr>gc_stack_overflow := x\<rparr>) = heads s" for s x
    by (simp add: heads_def)
  moreover have "b \<in> heads s" using assms by (simp add: head_in_heads)
  ultimately show "mark_progress s (atb_head_to_mark b s)"
    and "mark_progress s ((atb_head_to_mark b s)\<lparr>gc_stack_overflow := x\<rparr>)"
    using assms by (auto simp: mark_progress_def heads_mark)
qed

lemma gc_mark_children_progress:
  "gc_mark_children ptrs s stk = (s', stk') \<Longrightarrow> mark_progress s s'"
proof (induction ptrs s stk rule: gc_mark_children.induct)
  case (2 ptr ptrs s stk)
  then show ?case
    by (auto simp: Let_def split: if_splits
        intro: mark_progress_trans [OF mark_progress_head(1)] mark_progress_trans [OF mark_progress_head(2)])
qed simp

lemma gc_mark_loop_progress: "mark_progress s (gc_mark_loop block stk s)"
proof (induction block stk s rule: gc_mark_loop.induct)
  case (1 block stk s)
  obtain s1 stk1 where mc: "gc_mark_children (chain_words s block) s stk = (s1, stk1)"
    by fastforce
  then have "mark_progress s s1" by (rule gc_mark_children_progress)
  then show ?case
    using 1 mc by (cases stk1) (auto simp: gc_mark_loop.simps [of block stk s] intro: mark_progress_trans)
qed

fun gc_overflow_scan :: "nat \<Rightarrow> nat \<Rightarrow> gc_state \<Rightarrow> gc_state" where
  "gc_overflow_scan 0 block s = s"
| "gc_overflow_scan (Suc n) block s =
     gc_overflow_scan n (block + 1)
       (if atb_get_kind s block = AT_MARK then gc_mark_subtree block s else s)"

lemma gc_overflow_scan_progress: "mark_progress s (gc_overflow_scan n block s)"
proof (induction n arbitrary: block s)
  case (Suc n)
  have "mark_progress s (if atb_get_kind s block = AT_MARK then gc_mark_subtree block s else s)"
    by (simp add: gc_mark_subtree_def gc_mark_loop_progress)
  then show ?case using Suc by (auto intro: mark_progress_trans)
qed simp

function gc_deal_with_stack_overflow :: "gc_state \<Rightarrow> gc_state" where
  "gc_deal_with_stack_overflow s =
     (if gc_stack_overflow s
      then gc_deal_with_stack_overflow
             (gc_overflow_scan (max_block s) 0 (s\<lparr>gc_stack_overflow := False\<rparr>))
      else s)"
  by pat_completeness auto
termination
proof (relation "measures [\<lambda>s. card (heads s), \<lambda>s. of_bool (gc_stack_overflow s)]")
  fix s :: gc_state
  let ?t = "gc_overflow_scan (max_block s) 0 (s\<lparr>gc_stack_overflow := False\<rparr>)"
  assume "gc_stack_overflow s"
  have "mark_progress (s\<lparr>gc_stack_overflow := False\<rparr>) ?t" by (rule gc_overflow_scan_progress)
  then have "heads ?t \<subseteq> heads s" "gc_stack_overflow ?t \<longrightarrow> heads ?t \<subset> heads s"
    by (auto simp: mark_progress_def heads_def)
  then have "card (heads ?t) < card (heads s) \<or> card (heads ?t) = card (heads s) \<and> \<not> gc_stack_overflow ?t"
    by (metis card_mono finite_heads le_neq_implies_less psubset_card_mono)
  then show "(?t, s) \<in> measures [\<lambda>s. card (heads s), \<lambda>s. of_bool (gc_stack_overflow s)]"
    using \<open>gc_stack_overflow s\<close> by auto
qed simp

declare gc_deal_with_stack_overflow.simps [simp del]

subsection \<open>Sweeping and the collection\<close>

fun gc_sweep_from :: "nat \<Rightarrow> nat \<Rightarrow> bool \<Rightarrow> gc_state \<Rightarrow> gc_state" where
  "gc_sweep_from 0 block free_tail s = s"
| "gc_sweep_from (Suc n) block free_tail s =
     (let kind = atb_get_kind s block in
      if kind = AT_HEAD then gc_sweep_from n (block + 1) True (atb_any_to_free block s)
      else if kind = AT_TAIL then
        gc_sweep_from n (block + 1) free_tail (if free_tail then atb_any_to_free block s else s)
      else if kind = AT_MARK then gc_sweep_from n (block + 1) False (atb_mark_to_head block s)
      else gc_sweep_from n (block + 1) free_tail s)"

definition gc_sweep :: "gc_state \<Rightarrow> gc_state" where
  "gc_sweep s = gc_sweep_from (max_block s) 0 False s"

fun gc_collect_root :: "nat list \<Rightarrow> gc_state \<Rightarrow> gc_state" where
  "gc_collect_root [] s = s"
| "gc_collect_root (ptr # ptrs) s =
     gc_collect_root ptrs
       (if verify_ptr s ptr then
          let block = block_from_ptr s ptr in
          if atb_get_kind s block = AT_HEAD
          then gc_mark_subtree block (atb_head_to_mark block s)
          else s
        else s)"

definition gc_collect_start :: "gc_roots \<Rightarrow> gc_state \<Rightarrow> gc_state" where
  "gc_collect_start r s =
     gc_collect_root (pystack_ptrs r)
       (gc_collect_root (ctx_ptrs r)
         (s\<lparr>gc_lock_depth := (gc_lock_depth s + 1) mod 2 ^ 16, gc_stack_overflow := False\<rparr>))"

definition gc_collect_end :: "gc_state \<Rightarrow> gc_state" where
  "gc_collect_end s =
     (let s1 = gc_sweep (gc_deal_with_stack_overflow s)
      in s1\<lparr>gc_last_free_atb_index := 0,
            gc_lock_depth := (gc_lock_depth s1 + 2 ^ 16 - 1) mod 2 ^ 16\<rparr>)"

definition gc_sweep_all :: "gc_state \<Rightarrow> gc_state" where
  "gc_sweep_all s = gc_collect_end
     (s\<lparr>gc_lock_depth := (gc_lock_depth s + 1) mod 2 ^ 16, gc_stack_overflow := False\<rparr>)"

text \<open>The port's \<^verbatim>\<open>gc_collect\<close>; the range of the C stack it scans is in \<open>Port\<close>.\<close>

definition gc_collect :: "gc_roots \<Rightarrow> gc_state \<Rightarrow> gc_state" where
  "gc_collect r s = gc_collect_end (gc_collect_root (stack_ptrs r) (gc_collect_start r s))"

subsection \<open>Allocation\<close>

text \<open>
  The scan for a run of free blocks, one table byte at a time. \<open>ATB_j_IS_FREE\<close> tests the
  two bits of slot \<open>j\<close>. A hit is \<open>Inl (i, n_free)\<close>: the last block of the run and its length.
\<close>

definition atb_mask :: "nat \<Rightarrow> byte" where
  "atb_mask j = [0x03, 0x0c, 0x30, 0xc0] ! j"

definition atb_is_free :: "nat \<Rightarrow> byte \<Rightarrow> bool" where
  "atb_is_free j a \<longleftrightarrow> a AND atb_mask j = 0"

fun gc_scan_slots :: "nat \<Rightarrow> byte \<Rightarrow> nat \<Rightarrow> nat list \<Rightarrow> nat \<Rightarrow> (nat \<times> nat) + nat" where
  "gc_scan_slots n_blocks a i [] n_free = Inr n_free"
| "gc_scan_slots n_blocks a i (j # js) n_free =
     (if atb_is_free j a then
        if n_free + 1 \<ge> n_blocks then Inl (i * BLOCKS_PER_ATB + j, n_free + 1)
        else gc_scan_slots n_blocks a i js (n_free + 1)
      else gc_scan_slots n_blocks a i js 0)"

fun gc_scan :: "gc_state \<Rightarrow> nat \<Rightarrow> nat \<Rightarrow> nat \<Rightarrow> nat \<Rightarrow> (nat \<times> nat) option" where
  "gc_scan s n_blocks i n_free 0 = None"
| "gc_scan s n_blocks i n_free (Suc n) =
     (case gc_scan_slots n_blocks (atb_byte s i) i [0, 1, 2, 3] n_free of
        Inl hit \<Rightarrow> Some hit
      | Inr n_free' \<Rightarrow> gc_scan s n_blocks (i + 1) n_free' n)"

definition gc_find_free :: "gc_state \<Rightarrow> nat \<Rightarrow> (nat \<times> nat) option" where
  "gc_find_free s n_blocks =
     gc_scan s n_blocks (gc_last_free_atb_index s) 0
       (gc_alloc_table_byte_len s - gc_last_free_atb_index s)"

fun atb_mark_tails :: "nat \<Rightarrow> nat \<Rightarrow> gc_state \<Rightarrow> gc_state" where
  "atb_mark_tails bl 0 s = s"
| "atb_mark_tails bl (Suc n) s = atb_mark_tails (bl + 1) n (atb_free_to_tail bl s)"

definition pool_write :: "nat \<Rightarrow> nat list \<Rightarrow> gc_state \<Rightarrow> gc_state" where
  "pool_write w ws s = s\<lparr>gc_pool := overwrite (gc_pool s) w ws\<rparr>"

text \<open>
  The code behind the label \<^verbatim>\<open>found\<close>. The unsigned \<^verbatim>\<open>i - n_free + 1\<close> is written
  \<open>i + 1 - n_free\<close>: the two agree modulo \<open>2 ^ 32\<close> and the second does not go below 0.
\<close>

definition gc_take_run :: "nat \<Rightarrow> nat \<Rightarrow> gc_state \<Rightarrow> nat \<times> gc_state" where
  "gc_take_run i n_free s =
     (let end_block = i;
          start_block = i + 1 - n_free;
          s1 = (if n_free = 1 then s\<lparr>gc_last_free_atb_index := (i + 1) div BLOCKS_PER_ATB\<rparr> else s);
          s2 = atb_free_to_head start_block s1;
          s3 = atb_mark_tails (start_block + 1) (end_block - start_block) s2;
          ret_ptr = gc_pool_start s3 + start_block * BYTES_PER_BLOCK
      in (ret_ptr, pool_write (start_block * WORDS_PER_BLOCK)
            (replicate ((end_block - start_block + 1) * WORDS_PER_BLOCK) 0) s3))"

definition gc_alloc_blocks :: "nat \<Rightarrow> nat" where
  "gc_alloc_blocks n_bytes = wrap32 (n_bytes + (BYTES_PER_BLOCK - 1)) div BYTES_PER_BLOCK"

text \<open>\<open>None\<close> is the null pointer.\<close>

definition gc_alloc :: "gc_roots \<Rightarrow> nat \<Rightarrow> gc_state \<Rightarrow> nat option \<times> gc_state" where
  "gc_alloc r n_bytes s =
     (let n_blocks = gc_alloc_blocks n_bytes in
      if n_blocks = 0 then (None, s)
      else if gc_lock_depth s > 0 then (None, s)
      else case gc_find_free s n_blocks of
             Some (i, n_free) \<Rightarrow> (let (p, s') = gc_take_run i n_free s in (Some p, s'))
           | None \<Rightarrow>
               if \<not> gc_auto_collect_enabled s then (None, s)
               else let s1 = gc_collect r s in
                    case gc_find_free s1 n_blocks of
                      Some (i, n_free) \<Rightarrow> (let (p, s') = gc_take_run i n_free s1 in (Some p, s'))
                    | None \<Rightarrow> (None, s1))"

subsection \<open>Freeing and resizing\<close>

function gc_free_chain :: "nat \<Rightarrow> gc_state \<Rightarrow> gc_state" where
  "gc_free_chain block s =
     (let s1 = atb_any_to_free block s in
      if atb_get_kind s1 (block + 1) = AT_TAIL then gc_free_chain (block + 1) s1 else s1)"
  by pat_completeness auto
termination
proof (relation "measure (\<lambda>(block, s). 4 * length (gc_alloc_table s) - block)")
  fix block s x
  assume x: "x = atb_any_to_free block s" and "atb_get_kind x (block + 1) = AT_TAIL"
  then have "in_table x (block + 1)"
    by (intro kind_nonfree_in_table) (simp add: gc_consts)
  then have "in_table s (block + 1)" using x by simp
  then show "((block + 1, x), block, s) \<in> measure (\<lambda>(block, s). 4 * length (gc_alloc_table s) - block)"
    using x by (simp add: in_table_def atb_any_to_free_def)
qed simp

declare gc_free_chain.simps [simp del]

definition gc_free :: "nat option \<Rightarrow> gc_state \<Rightarrow> gc_state" where
  "gc_free ptr s =
     (if gc_lock_depth s > 0 then s
      else case ptr of
             None \<Rightarrow> s
           | Some p \<Rightarrow>
               let block = block_from_ptr s p;
                   s1 = (if block div BLOCKS_PER_ATB < gc_last_free_atb_index s
                         then s\<lparr>gc_last_free_atb_index := block div BLOCKS_PER_ATB\<rparr> else s)
               in gc_free_chain block s1)"

definition gc_nbytes :: "gc_state \<Rightarrow> nat \<Rightarrow> nat" where
  "gc_nbytes s ptr =
     (if verify_ptr s ptr then
        let block = block_from_ptr s ptr in
        if atb_get_kind s block = AT_HEAD then gc_chain_len s block * BYTES_PER_BLOCK else 0
      else 0)"

text \<open>
  The scan of \<^verbatim>\<open>gc_realloc\<close>: the length of the chain and the number of free blocks found
  behind it.
\<close>

fun gc_realloc_scan :: "gc_state \<Rightarrow> nat \<Rightarrow> nat \<Rightarrow> nat \<Rightarrow> nat \<Rightarrow> nat \<Rightarrow> nat \<times> nat" where
  "gc_realloc_scan s new_blocks bl n_blocks n_free 0 = (n_blocks, n_free)"
| "gc_realloc_scan s new_blocks bl n_blocks n_free (Suc n) =
     (let block_type = atb_get_kind s bl in
      if block_type = AT_TAIL then gc_realloc_scan s new_blocks (bl + 1) (n_blocks + 1) n_free n
      else if block_type = AT_FREE then
        if n_blocks + (n_free + 1) \<ge> new_blocks then (n_blocks, n_free + 1)
        else gc_realloc_scan s new_blocks (bl + 1) n_blocks (n_free + 1) n
      else (n_blocks, n_free))"

fun atb_free_run :: "nat \<Rightarrow> nat \<Rightarrow> gc_state \<Rightarrow> gc_state" where
  "atb_free_run bl 0 s = s"
| "atb_free_run bl (Suc n) s = atb_free_run (bl + 1) n (atb_any_to_free bl s)"

definition gc_realloc ::
    "gc_roots \<Rightarrow> nat option \<Rightarrow> nat \<Rightarrow> bool \<Rightarrow> gc_state \<Rightarrow> nat option \<times> gc_state" where
  "gc_realloc r ptr_in n_bytes allow_move s =
     (case ptr_in of
        None \<Rightarrow> gc_alloc r n_bytes s
      | Some ptr \<Rightarrow>
          if n_bytes = 0 then (None, gc_free ptr_in s)
          else if gc_lock_depth s > 0 then (None, s)
          else
            let block = block_from_ptr s ptr;
                new_blocks = wrap32 (n_bytes + BYTES_PER_BLOCK - 1) div BYTES_PER_BLOCK;
                (n_blocks, n_free) =
                  gc_realloc_scan s new_blocks (block + 1) 1 0 (max_block s - (block + 1))
            in
            if new_blocks = n_blocks then (ptr_in, s)
            else if new_blocks < n_blocks then
              let s1 = atb_free_run (block + new_blocks) (n_blocks - new_blocks) s;
                  s2 = (if (block + new_blocks) div BLOCKS_PER_ATB < gc_last_free_atb_index s1
                        then s1\<lparr>gc_last_free_atb_index := (block + new_blocks) div BLOCKS_PER_ATB\<rparr>
                        else s1)
              in (ptr_in, s2)
            else if new_blocks \<le> n_blocks + n_free then
              let s1 = atb_mark_tails (block + n_blocks) (new_blocks - n_blocks) s
              in (ptr_in, pool_write ((block + n_blocks) * WORDS_PER_BLOCK)
                            (replicate ((new_blocks - n_blocks) * WORDS_PER_BLOCK) 0) s1)
            else if \<not> allow_move then (None, s)
            else
              (case gc_alloc r n_bytes s of
                 (None, s1) \<Rightarrow> (None, s1)
               | (Some ptr_out, s1) \<Rightarrow>
                   let s2 = pool_write (block_from_ptr s1 ptr_out * WORDS_PER_BLOCK)
                              (subbuf (block * WORDS_PER_BLOCK) (n_blocks * WORDS_PER_BLOCK) (gc_pool s1)) s1
                   in (Some ptr_out, gc_free ptr_in s2)))"

subsection \<open>Statistics\<close>

record gc_info_t =
  gi_total :: nat
  gi_used :: nat
  gi_free :: nat
  gi_max_free :: nat
  gi_num_1block :: nat
  gi_num_2block :: nat
  gi_max_block :: nat

fun gc_info_from :: "gc_state \<Rightarrow> nat \<Rightarrow> nat \<Rightarrow> nat \<Rightarrow> nat \<Rightarrow> gc_info_t \<Rightarrow> gc_info_t" where
  "gc_info_from s 0 block len len_free info = info"
| "gc_info_from s (Suc n) block len len_free info =
     (let kind = atb_get_kind s block;
          (info1, len1, len_free1) =
            (if kind = AT_FREE then (info\<lparr>gi_free := gi_free info + 1\<rparr>, 0, len_free + 1)
             else if kind = AT_HEAD then (info\<lparr>gi_used := gi_used info + 1\<rparr>, 1, len_free)
             else if kind = AT_TAIL then (info\<lparr>gi_used := gi_used info + 1\<rparr>, len + 1, len_free)
             else (info, len, len_free));
          finish = (n = 0);
          kind' = (if finish then kind else atb_get_kind s (block + 1))
      in
      if finish \<or> kind' = AT_FREE \<or> kind' = AT_HEAD then
        let info2 = (if len1 = 1 then info1\<lparr>gi_num_1block := gi_num_1block info1 + 1\<rparr>
                     else if len1 = 2 then info1\<lparr>gi_num_2block := gi_num_2block info1 + 1\<rparr>
                     else info1);
            info3 = (if len1 > gi_max_block info2 then info2\<lparr>gi_max_block := len1\<rparr> else info2);
            (info4, len_free2) =
              (if finish \<or> kind' = AT_HEAD then
                 (if len_free1 > gi_max_free info3 then info3\<lparr>gi_max_free := len_free1\<rparr> else info3, 0)
               else (info3, len_free1))
        in gc_info_from s n (block + 1) len1 len_free2 info4
      else gc_info_from s n (block + 1) len1 len_free1 info1)"

definition gc_info :: "gc_state \<Rightarrow> gc_info_t" where
  "gc_info s =
     (let info = gc_info_from s (max_block s) 0 0 0
            \<lparr>gi_total = gc_pool_end s - gc_pool_start s, gi_used = 0, gi_free = 0, gi_max_free = 0,
             gi_num_1block = 0, gi_num_2block = 0, gi_max_block = 0\<rparr>
      in info\<lparr>gi_used := gi_used info * BYTES_PER_BLOCK, gi_free := gi_free info * BYTES_PER_BLOCK\<rparr>)"

end
