(* ===== verification/Gc_Alloc.thy ===== *)
theory Gc_Alloc
  imports Gc
begin

unbundle bit_operations_syntax

text \<open>
  Correctness of the allocator of \<open>Gc\<close>: the interface of the packed allocation table, the
  heap invariant, what \<open>gc_alloc\<close>, \<open>gc_free\<close>, \<open>gc_nbytes\<close> and \<open>gc_realloc\<close> do to the
  chains, and that allocation fails only when no run of free blocks is long enough.
\<close>

subsection \<open>The allocation table as an interface\<close>

text \<open>
  An update of a table of block kinds: where the block is in the table and its kind is one the
  update is meant for, that block and no other gets the new kind.
\<close>

locale block_update =
  fixes kind :: "'s \<Rightarrow> nat \<Rightarrow> nat"
    and valid :: "'s \<Rightarrow> nat \<Rightarrow> bool"
    and upd :: "nat \<Rightarrow> 's \<Rightarrow> 's"
    and pre :: "nat \<Rightarrow> bool"
    and new_kind :: nat
  assumes kind_upd: "valid s b \<Longrightarrow> pre (kind s b) \<Longrightarrow>
      kind (upd b s) b' = (if b' = b then new_kind else kind s b')"
    and valid_upd: "valid (upd b s) b' = valid s b'"
begin

lemma valid_fold: "valid (fold upd bs s) b = valid s b"
  by (induction bs arbitrary: s) (simp_all add: valid_upd)

lemma kind_fold:
  assumes "distinct bs" and "\<And>b. b \<in> set bs \<Longrightarrow> valid s b \<and> pre (kind s b)"
  shows "kind (fold upd bs s) b' = (if b' \<in> set bs then new_kind else kind s b')"
  using assms
proof (induction bs arbitrary: s)
  case (Cons b bs)
  then have "kind (upd b s) x = (if x = b then new_kind else kind s x)" for x
    by (simp add: kind_upd)
  moreover have "valid (upd b s) x \<and> pre (kind (upd b s) x)" if "x \<in> set bs" for x
    using Cons.prems that calculation by (auto simp: valid_upd)
  ultimately show ?case using Cons by auto
qed simp

end

interpretation to_free: block_update atb_get_kind in_table atb_any_to_free "\<lambda>_. True" AT_FREE
  by unfold_locales (simp_all add: kind_any_to_free)

interpretation to_tail: block_update atb_get_kind in_table atb_free_to_tail "\<lambda>k. k = AT_FREE" AT_TAIL
  by unfold_locales (simp_all add: kind_free_to_tail)

interpretation to_head: block_update atb_get_kind in_table atb_free_to_head "\<lambda>k. k = AT_FREE" AT_HEAD
  by unfold_locales (simp_all add: kind_free_to_head)

interpretation to_mark: block_update atb_get_kind in_table atb_head_to_mark "\<lambda>k. k = AT_HEAD" AT_MARK
  by unfold_locales (simp_all add: kind_head_to_mark)

interpretation unmark: block_update atb_get_kind in_table atb_mark_to_head "\<lambda>k. k = AT_MARK" AT_HEAD
  by unfold_locales (simp_all add: kind_mark_to_head)

lemma atb_mark_tails_fold: "atb_mark_tails bl n s = fold atb_free_to_tail [bl ..< bl + n] s"
  by (induction n arbitrary: bl s) (simp_all add: upt_conv_Cons del: upt_Suc)

lemma atb_free_run_fold: "atb_free_run bl n s = fold atb_any_to_free [bl ..< bl + n] s"
  by (induction n arbitrary: bl s) (simp_all add: upt_conv_Cons del: upt_Suc)

lemma same_frame_fold:
  "(\<And>b s. same_frame s (f b s)) \<Longrightarrow> same_frame s (fold f bs s)"
  by (induction bs arbitrary: s) (auto intro: same_frame_trans)

lemma same_frame_runs [simp, intro]:
  "same_frame s (atb_mark_tails bl n s)" "same_frame s (atb_free_run bl n s)"
  by (auto simp: atb_mark_tails_fold atb_free_run_fold intro: same_frame_fold)

lemma kind_mark_tails:
  assumes "\<And>b. bl \<le> b \<Longrightarrow> b < bl + n \<Longrightarrow> in_table s b \<and> atb_get_kind s b = AT_FREE"
  shows "atb_get_kind (atb_mark_tails bl n s) b =
    (if bl \<le> b \<and> b < bl + n then AT_TAIL else atb_get_kind s b)"
  using to_tail.kind_fold [of "[bl ..< bl + n]" s b] assms
  by (auto simp: atb_mark_tails_fold)

lemma kind_free_run:
  assumes "\<And>b. bl \<le> b \<Longrightarrow> b < bl + n \<Longrightarrow> in_table s b"
  shows "atb_get_kind (atb_free_run bl n s) b =
    (if bl \<le> b \<and> b < bl + n then AT_FREE else atb_get_kind s b)"
  using to_free.kind_fold [of "[bl ..< bl + n]" s b] assms
  by (auto simp: atb_free_run_fold)

lemma hint_runs [simp]:
  "gc_last_free_atb_index (atb_mark_tails bl n s) = gc_last_free_atb_index s"
  "gc_last_free_atb_index (atb_free_run bl n s) = gc_last_free_atb_index s"
  "gc_lock_depth (atb_mark_tails bl n s) = gc_lock_depth s"
  "gc_lock_depth (atb_free_run bl n s) = gc_lock_depth s"
  by (induction n arbitrary: bl s) (simp_all add: atb_free_to_tail_def atb_any_to_free_def)

subsection \<open>The heap invariant\<close>

text \<open>
  The table has a padding byte behind it whose blocks read as free, the pool has one 16-byte
  block per table slot and is aligned, a tail follows a head or a tail, and no free block lies
  in front of the scan hint. Between collections no block is marked.
\<close>

definition gc_layout :: "gc_state \<Rightarrow> bool" where
  "gc_layout s \<longleftrightarrow>
     gc_alloc_table_byte_len s < length (gc_alloc_table s) \<and>
     gc_pool_end s = gc_pool_start s + max_block s * 16 \<and>
     gc_pool_start s mod 16 = 0 \<and>
     length (gc_pool s) = max_block s * 4"

definition chains_ok :: "gc_state \<Rightarrow> bool" where
  "chains_ok s \<longleftrightarrow>
     (\<forall>b. max_block s \<le> b \<longrightarrow> atb_get_kind s b = AT_FREE) \<and>
     (\<forall>b. atb_get_kind s b = AT_TAIL \<longrightarrow>
        b > 0 \<and> atb_get_kind s (b - 1) \<noteq> AT_FREE)"

definition hint_ok :: "gc_state \<Rightarrow> bool" where
  "hint_ok s \<longleftrightarrow> (\<forall>b < 4 * gc_last_free_atb_index s. atb_get_kind s b \<noteq> AT_FREE)"

definition gc_wf :: "gc_state \<Rightarrow> bool" where
  "gc_wf s \<longleftrightarrow> gc_layout s \<and> chains_ok s \<and> hint_ok s \<and> (\<forall>b. atb_get_kind s b \<noteq> AT_MARK)"

lemma gc_layout_frame: "same_frame s t \<Longrightarrow> gc_layout t = gc_layout s"
  by (simp add: gc_layout_def same_frameD)

lemma in_table_max: "gc_layout s \<Longrightarrow> b < max_block s \<Longrightarrow> in_table s b"
  by (auto simp: gc_layout_def max_block_def in_table_def gc_consts)

lemma used_block: "chains_ok s \<Longrightarrow> atb_get_kind s b \<noteq> AT_FREE \<Longrightarrow> b < max_block s"
  unfolding chains_ok_def by (metis not_le)

lemma block_ptr_inverse [simp]: "block_from_ptr s (ptr_from_block s b) = b"
  by (simp add: block_from_ptr_def ptr_from_block_def gc_consts)

lemma verify_ptr_iff:
  assumes "gc_layout s"
  shows "verify_ptr s p \<longleftrightarrow> (\<exists>b < max_block s. p = ptr_from_block s b)"
proof
  assume v: "verify_ptr s p"
  obtain q where q: "gc_pool_start s = 16 * q" using assms by (auto simp: gc_layout_def)
  obtain k where k: "p = 16 * k" using v by (auto simp: verify_ptr_def gc_consts)
  have "q \<le> k" "k - q < max_block s"
    using v assms q k by (auto simp: verify_ptr_def gc_layout_def)
  moreover have "p = ptr_from_block s (k - q)"
    using \<open>q \<le> k\<close> by (simp add: ptr_from_block_def gc_consts q k algebra_simps)
  ultimately show "\<exists>b < max_block s. p = ptr_from_block s b" by blast
next
  assume "\<exists>b < max_block s. p = ptr_from_block s b"
  then show "verify_ptr s p"
    using assms by (auto simp: verify_ptr_def ptr_from_block_def gc_layout_def gc_consts mod_simps)
qed

lemma verify_block_less: "gc_layout s \<Longrightarrow> verify_ptr s p \<Longrightarrow> block_from_ptr s p < max_block s"
  by (auto simp: verify_ptr_iff)

subsection \<open>Chains\<close>

lemma gc_count_tail_props:
  "n \<le> gc_count_tail s b n \<and> atb_get_kind s (b + gc_count_tail s b n) \<noteq> AT_TAIL \<and>
   (\<forall>i. n \<le> i \<longrightarrow> i < gc_count_tail s b n \<longrightarrow> atb_get_kind s (b + i) = AT_TAIL)"
proof (induction s b n rule: gc_count_tail.induct)
  case (1 s b n)
  show ?case
  proof (cases "atb_get_kind s (b + n) = AT_TAIL")
    case True
    with 1 show ?thesis
      by (simp add: gc_count_tail.simps [of s b n]) (metis Suc_le_eq le_neq_implies_less)
  next
    case False
    then show ?thesis by (simp add: gc_count_tail.simps [of s b n])
  qed
qed

lemma gc_chain_len_props:
  shows gc_chain_len_pos: "1 \<le> gc_chain_len s b"
    and gc_chain_len_stop: "atb_get_kind s (b + gc_chain_len s b) \<noteq> AT_TAIL"
    and gc_chain_len_tail: "1 \<le> i \<Longrightarrow> i < gc_chain_len s b \<Longrightarrow> atb_get_kind s (b + i) = AT_TAIL"
  using gc_count_tail_props [of 1 s b] by (simp_all add: gc_chain_len_def)

lemma gc_chain_len_unique:
  assumes "1 \<le> n" and "atb_get_kind s (b + n) \<noteq> AT_TAIL"
    and "\<And>i. 1 \<le> i \<Longrightarrow> i < n \<Longrightarrow> atb_get_kind s (b + i) = AT_TAIL"
  shows "gc_chain_len s b = n"
proof (rule linorder_cases [of "gc_chain_len s b" n])
  assume "gc_chain_len s b < n"
  then show ?thesis using assms(3) [of "gc_chain_len s b"] gc_chain_len_pos [of s b] gc_chain_len_stop [of s b] by simp
next
  assume "n < gc_chain_len s b"
  then show ?thesis using assms(1,2) gc_chain_len_tail [of n s b] by simp
qed

lemma gc_chain_len_cong:
  "(\<And>x. b < x \<Longrightarrow> atb_get_kind t x = AT_TAIL \<longleftrightarrow> atb_get_kind s x = AT_TAIL) \<Longrightarrow>
   gc_chain_len t b = gc_chain_len s b"
  using gc_chain_len_pos [of s b]
  by (intro gc_chain_len_unique) (simp_all add: gc_chain_len_stop gc_chain_len_tail)

lemma gc_chain_inside:
  assumes "chains_ok s" and "atb_get_kind s b \<noteq> AT_FREE"
  shows "b + gc_chain_len s b \<le> max_block s"
proof -
  have "b + i < max_block s" if "i < gc_chain_len s b" for i
    using that assms gc_chain_len_tail [of i s b] used_block [of s "b + i"]
    by (cases i) (auto simp: gc_consts)
  from this [of "gc_chain_len s b - 1"] show ?thesis using gc_chain_len_pos [of s b] by simp
qed

subsection \<open>Initialisation\<close>

lemma gc_init_byte_zero:
  assumes "\<And>a. start \<le> a \<Longrightarrow> a < end_in \<Longrightarrow> mem a = 0"
  shows "atb_get_kind (gc_init mem start end_in) b = AT_FREE"
proof -
  have "set (gc_alloc_table (gc_init mem start end_in)) \<subseteq> {0}"
    using assms by (fastforce simp: gc_init_def Let_def)
  then have "atb_byte (gc_init mem start end_in) i = 0" for i
    by (auto simp: atb_byte_def dest: nth_mem)
  then show ?thesis by (simp add: atb_get_kind_def gc_consts)
qed

lemma gc_init_layout:
  assumes "start \<le> end_in - end_in mod 16" and "(end_in - end_in mod 16 - start) mod 65 \<noteq> 0"
  shows "gc_layout (gc_init mem start end_in)"
proof -
  define e where "e = end_in - end_in mod 16"
  define a where "a = (e - start) div 65"
  have le: "65 * a < e - start"
    using assms unfolding a_def e_def by (metis div_mod_decomp mult.commute less_add_same_cancel1 neq0_conv)
  have e16: "e mod 16 = 0" unfolding e_def by (simp add: minus_mod_eq_mult_div)
  have "(e - a * 4 * 16) mod 16 = 0"
    using e16 le by (simp add: mod_eq_0_iff_dvd dvd_diff_nat)
  then show ?thesis
    using le unfolding gc_layout_def max_block_def
    by (simp add: gc_init_def Let_def gc_consts e_def [symmetric] a_def [symmetric])
qed

lemma gc_init_wf:
  assumes "start \<le> end_in - end_in mod 16" and "(end_in - end_in mod 16 - start) mod 65 \<noteq> 0"
    and "\<And>a. start \<le> a \<Longrightarrow> a < end_in \<Longrightarrow> mem a = 0"
  shows "gc_wf (gc_init mem start end_in)"
  using gc_init_layout [OF assms(1,2), of mem] gc_init_byte_zero [of start end_in mem, OF assms(3)]
  by (simp add: gc_wf_def chains_ok_def hint_ok_def gc_consts) (simp add: gc_init_def Let_def)

subsection \<open>The scan for free blocks\<close>

text \<open>The same scan over single blocks, the reference the byte-wise loop is compared with.\<close>

fun scan_blocks :: "(nat \<Rightarrow> bool) \<Rightarrow> nat \<Rightarrow> nat \<Rightarrow> nat \<Rightarrow> nat \<Rightarrow> (nat \<times> nat) option" where
  "scan_blocks fr n b nf 0 = None"
| "scan_blocks fr n b nf (Suc k) =
     (if fr b then if nf + 1 \<ge> n then Some (b, nf + 1) else scan_blocks fr n (b + 1) (nf + 1) k
      else scan_blocks fr n (b + 1) 0 k)"

lemma atb_mask_push: "j < 4 \<Longrightarrow> atb_mask j = push_bit (2 * j) 3"
  by (simp add: atb_mask_def less_Suc_eq numeral_eq_Suc, elim disjE) (simp_all add: push_bit_eq_mult)

lemma byte_and_zero_iff: "a AND m = 0 \<longleftrightarrow> (\<forall>k. \<not> (bit a k \<and> bit m k))" for a :: byte
proof
  assume "a AND m = 0"
  then have "bit (a AND m) k = bit (0::byte) k" for k by simp
  then show "\<forall>k. \<not> (bit a k \<and> bit m k)" by (simp add: bit_and_iff)
qed (auto intro!: bit_eqI simp: bit_and_iff)

lemma atb_is_free_kind:
  assumes "j < 4"
  shows "atb_is_free j (atb_byte s i) \<longleftrightarrow> atb_get_kind s (4 * i + j) = AT_FREE"
proof -
  have "bit (atb_mask j) k \<longleftrightarrow> k = 2 * j \<or> k = Suc (2 * j)" for k
    using bit_push_mask(3) [of j k] assms by (simp add: atb_mask_push)
  then have "atb_is_free j a \<longleftrightarrow> \<not> bit a (2 * j) \<and> \<not> bit a (Suc (2 * j))" for a
    by (auto simp: atb_is_free_def byte_and_zero_iff)
  then show ?thesis using assms by (simp add: atb_get_kind_bits gc_consts)
qed

lemma gc_scan_blocks:
  "gc_scan s n i nf k = scan_blocks (\<lambda>b. atb_get_kind s b = AT_FREE) n (4 * i) nf (4 * k)"
proof (induction k arbitrary: i nf)
  case (Suc k)
  have four: "4 * Suc k = Suc (Suc (Suc (Suc (4 * k))))" "4 * (i + 1) = Suc (Suc (Suc (Suc (4 * i))))"
    by simp_all
  show ?case
    using Suc unfolding four
    by (simp add: atb_is_free_kind gc_consts numeral_eq_Suc algebra_simps)
qed simp

lemma scan_blocks_Some:
  assumes "scan_blocks fr n b nf k = Some (i, m)" and "nf < n"
    and "nf \<le> b" and "\<And>x. b - nf \<le> x \<Longrightarrow> x < b \<Longrightarrow> fr x"
  shows "m = n \<and> b \<le> i \<and> i < b + k \<and> n \<le> i + 1 \<and> (\<forall>x. i + 1 - n \<le> x \<longrightarrow> x \<le> i \<longrightarrow> fr x)
    \<and> (n = 1 \<longrightarrow> (\<forall>x. b \<le> x \<longrightarrow> x < i \<longrightarrow> \<not> fr x))"
  using assms
proof (induction k arbitrary: b nf)
  case (Suc k)
  show ?case
  proof (cases "fr b")
    case True
    show ?thesis
    proof (cases "n \<le> nf + 1")
      case hit: True
      with Suc.prems True have "i = b" "m = n" by auto
      moreover have "fr x" if "b + 1 - n \<le> x" "x \<le> b" for x
        using that Suc.prems True hit by (cases "x = b") auto
      ultimately show ?thesis using Suc.prems hit by auto
    next
      case False
      have "fr x" if "b + 1 - (nf + 1) \<le> x" "x < b + 1" for x
        using that Suc.prems(4) True by (cases "x = b") auto
      with Suc.IH [of "b + 1" "nf + 1"] Suc.prems False True show ?thesis by auto
    qed
  next
    case False
    have "m = n \<and> b + 1 \<le> i \<and> i < b + 1 + k \<and> n \<le> i + 1 \<and> (\<forall>x. i + 1 - n \<le> x \<longrightarrow> x \<le> i \<longrightarrow> fr x)
      \<and> (n = 1 \<longrightarrow> (\<forall>x. b + 1 \<le> x \<longrightarrow> x < i \<longrightarrow> \<not> fr x))"
      using False Suc.prems by (intro Suc.IH [of "b + 1" 0]) auto
    moreover have "(\<forall>x. b + 1 \<le> x \<longrightarrow> x < i \<longrightarrow> \<not> fr x) \<Longrightarrow> b \<le> x \<Longrightarrow> x < i \<Longrightarrow> \<not> fr x" for x
      using False by (cases "x = b") auto
    ultimately show ?thesis by auto
  qed
qed simp

lemma scan_blocks_None:
  assumes "scan_blocks fr n b nf k = None" and "nf < n" and "b - nf \<le> st" and "nf \<le> b"
    and "st + n \<le> b + k"
  shows "\<exists>x. st \<le> x \<and> x < st + n \<and> \<not> fr x"
  using assms
proof (induction k arbitrary: b nf)
  case (Suc k)
  show ?case
  proof (cases "fr b")
    case True
    then have "\<not> n \<le> nf + 1" using Suc.prems(1) by auto
    with Suc.IH [of "b + 1" "nf + 1"] Suc.prems True show ?thesis by auto
  next
    case False
    show ?thesis
    proof (cases "st \<le> b")
      case True
      with False Suc.prems show ?thesis by (intro exI [of _ b]) auto
    next
      case False
      with Suc.IH [of "b + 1" 0] Suc.prems \<open>\<not> fr b\<close> show ?thesis by auto
    qed
  qed
qed simp

definition free_run :: "gc_state \<Rightarrow> nat \<Rightarrow> nat \<Rightarrow> bool" where
  "free_run s st n \<longleftrightarrow> st + n \<le> max_block s \<and> (\<forall>b. st \<le> b \<longrightarrow> b < st + n \<longrightarrow> atb_get_kind s b = AT_FREE)"

lemma hint_bound:
  assumes "gc_wf s"
  shows "gc_last_free_atb_index s \<le> gc_alloc_table_byte_len s"
proof (rule ccontr)
  assume "\<not> ?thesis"
  then have "max_block s < 4 * gc_last_free_atb_index s" by (simp add: max_block_def gc_consts)
  then show False using assms by (auto simp: gc_wf_def hint_ok_def chains_ok_def)
qed

lemma gc_find_free_Some:
  assumes "gc_find_free s n = Some (i, m)" and "0 < n" and "gc_wf s"
  shows "m = n" "n \<le> i + 1" "free_run s (i + 1 - n) n"
    and "n = 1 \<Longrightarrow> \<forall>b < i. atb_get_kind s b \<noteq> AT_FREE"
proof -
  let ?fr = "\<lambda>b. atb_get_kind s b = AT_FREE" and ?h = "gc_last_free_atb_index s"
  have "scan_blocks ?fr n (4 * ?h) 0 (4 * (gc_alloc_table_byte_len s - ?h)) = Some (i, m)"
    using assms(1) by (simp add: gc_find_free_def gc_scan_blocks)
  then have "m = n \<and> 4 * ?h \<le> i \<and> i < 4 * ?h + 4 * (gc_alloc_table_byte_len s - ?h) \<and> n \<le> i + 1
    \<and> (\<forall>x. i + 1 - n \<le> x \<longrightarrow> x \<le> i \<longrightarrow> ?fr x)
    \<and> (n = 1 \<longrightarrow> (\<forall>x. 4 * ?h \<le> x \<longrightarrow> x < i \<longrightarrow> \<not> ?fr x))"
    using assms(2) by (intro scan_blocks_Some) auto
  then have n: "m = n" "n \<le> i + 1" and i: "i < 4 * ?h + 4 * (gc_alloc_table_byte_len s - ?h)"
    and run: "\<forall>x. i + 1 - n \<le> x \<longrightarrow> x \<le> i \<longrightarrow> ?fr x"
    and first: "n = 1 \<Longrightarrow> 4 * ?h \<le> x \<Longrightarrow> x < i \<Longrightarrow> \<not> ?fr x" for x
    by blast+
  show "m = n" "n \<le> i + 1" by (fact n)+
  have "i < max_block s" using i hint_bound [OF assms(3)] by (simp add: max_block_def gc_consts)
  then show "free_run s (i + 1 - n) n" using run n by (auto simp: free_run_def)
  have "\<forall>b < 4 * ?h. \<not> ?fr b" using assms(3) by (simp add: gc_wf_def hint_ok_def)
  then show "n = 1 \<Longrightarrow> \<forall>b < i. atb_get_kind s b \<noteq> AT_FREE" using first by (metis not_le)
qed

lemma gc_find_free_None:
  assumes "gc_find_free s n = None" and "0 < n" and "gc_wf s"
  shows "\<not> free_run s st n"
proof
  let ?fr = "\<lambda>b. atb_get_kind s b = AT_FREE" and ?h = "gc_last_free_atb_index s"
  assume run: "free_run s st n"
  have "scan_blocks ?fr n (4 * ?h) 0 (4 * (gc_alloc_table_byte_len s - ?h)) = None"
    using assms(1) by (simp add: gc_find_free_def gc_scan_blocks)
  moreover have "4 * ?h \<le> st"
  proof (rule ccontr)
    assume "\<not> 4 * ?h \<le> st"
    then show False using run assms(2,3) by (auto simp: free_run_def gc_wf_def hint_ok_def)
  qed
  ultimately have "\<exists>x. st \<le> x \<and> x < st + n \<and> \<not> ?fr x"
    using run hint_bound [OF assms(3)] assms(2)
    by (intro scan_blocks_None [of ?fr n "4 * ?h" 0]) (auto simp: free_run_def max_block_def gc_consts)
  then show False using run by (auto simp: free_run_def)
qed

subsection \<open>Taking a run\<close>

text \<open>
  \<open>chain_at s s' st n\<close>: the only difference between the tables of \<open>s\<close> and \<open>s'\<close> is a new
  chain of \<open>n\<close> blocks starting at \<open>st\<close>.
\<close>

definition chain_at :: "gc_state \<Rightarrow> gc_state \<Rightarrow> nat \<Rightarrow> nat \<Rightarrow> bool" where
  "chain_at s s' st n \<longleftrightarrow>
     (\<forall>b. atb_get_kind s' b = (if b = st then AT_HEAD
        else if st < b \<and> b < st + n then AT_TAIL else atb_get_kind s b))"

lemma gc_take_run_props:
  assumes run: "free_run s st n" and n: "0 < n" and lay: "gc_layout s"
    and take: "gc_take_run (st + n - 1) n s = (p, s')"
  shows "p = ptr_from_block s st" and "chain_at s s' st n"
    and "gc_pool s' = overwrite (gc_pool s) (st * 4) (replicate (n * 4) 0)"
    and "same_frame s (s'\<lparr>gc_pool := gc_pool s\<rparr>)"
    and "gc_last_free_atb_index s' = (if n = 1 then (st + n) div 4 else gc_last_free_atb_index s)"
    and "gc_lock_depth s' = gc_lock_depth s"
proof -
  let ?s1 = "if n = 1 then s\<lparr>gc_last_free_atb_index := (st + n - 1 + 1) div BLOCKS_PER_ATB\<rparr> else s"
  let ?s2 = "atb_free_to_head st ?s1"
  let ?s3 = "atb_mark_tails (st + 1) (n - 1) ?s2"
  have eqs: "st + n - 1 + 1 - n = st" "st + n - 1 - st = n - 1" using n by auto
  have res: "p = gc_pool_start ?s3 + st * 16" "s' = pool_write (st * 4) (replicate (n * 4) 0) ?s3"
    using take n unfolding gc_take_run_def eqs Let_def by (simp_all add: gc_consts)
  have inside: "in_table s b" if "b < st + n" for b
    using run that lay by (auto simp: free_run_def intro!: in_table_max)
  have frame3: "same_frame s ?s3"
    by (rule same_frame_trans [of _ ?s1], simp, rule same_frame_trans [of _ ?s2]) auto
  have free: "atb_get_kind ?s1 b = AT_FREE" if "st \<le> b" "b < st + n" for b
    using run that by (simp add: free_run_def)
  have "in_table ?s1 b = in_table s b" for b by simp
  then have kind2: "atb_get_kind ?s2 b = (if b = st then AT_HEAD else atb_get_kind s b)" for b
    using inside [of st] free [of st] n kind_free_to_head [of ?s1 st b] by simp
  have kind3: "atb_get_kind ?s3 b = (if st + 1 \<le> b \<and> b < st + 1 + (n - 1) then AT_TAIL
      else atb_get_kind ?s2 b)" for b
  proof (rule kind_mark_tails)
    fix x assume "st + 1 \<le> x" "x < st + 1 + (n - 1)"
    then show "in_table ?s2 x \<and> atb_get_kind ?s2 x = AT_FREE"
      using inside [of x] free [of x] kind2 [of x] by auto
  qed
  show "p = ptr_from_block s st"
    using res(1) same_frameD(7) [OF frame3] by (simp add: ptr_from_block_def gc_consts)
  show "chain_at s s' st n"
  proof -
    have "atb_get_kind s' b = atb_get_kind ?s3 b" for b by (simp add: res(2) pool_write_def)
    then show ?thesis using n unfolding chain_at_def kind3 kind2 by auto
  qed
  show "gc_pool s' = overwrite (gc_pool s) (st * 4) (replicate (n * 4) 0)"
    using same_frameD(6) [OF frame3] by (simp add: res(2) pool_write_def)
  show "same_frame s (s'\<lparr>gc_pool := gc_pool s\<rparr>)"
    using frame3 by (simp add: res(2) pool_write_def same_frame_def)
  show "gc_last_free_atb_index s' = (if n = 1 then (st + n) div 4 else gc_last_free_atb_index s)"
    using n by (simp add: res(2) pool_write_def atb_free_to_head_def gc_consts)
  show "gc_lock_depth s' = gc_lock_depth s"
    by (simp add: res(2) pool_write_def atb_free_to_head_def)
qed

lemma gc_take_run_wf:
  assumes wf: "gc_wf s" and run: "free_run s st n" and n: "0 < n"
    and first: "n = 1 \<Longrightarrow> \<forall>b < st. atb_get_kind s b \<noteq> AT_FREE"
    and take: "gc_take_run (st + n - 1) n s = (p, s')"
  shows "gc_wf s'"
proof -
  have lay: "gc_layout s" using wf by (simp add: gc_wf_def)
  note t = gc_take_run_props [OF run n lay take]
  have kind: "atb_get_kind s' b = (if b = st then AT_HEAD
        else if st < b \<and> b < st + n then AT_TAIL else atb_get_kind s b)" for b
    using t(2) by (simp add: chain_at_def)
  have frame: "max_block s' = max_block s"
    using same_frameD(2) [OF t(4)] by (simp add: max_block_def)
  have st: "st + n \<le> max_block s" using run by (simp add: free_run_def)
  have "length (gc_pool s') = length (gc_pool s)"
    using t(3) st lay by (simp add: gc_layout_def)
  then have "gc_layout s'"
    using lay t(4) frame by (simp add: gc_layout_def same_frame_def)
  moreover have "chains_ok s'"
  proof -
    have "0 < b \<and> atb_get_kind s' (b - 1) \<noteq> AT_FREE" if "atb_get_kind s' b = AT_TAIL" for b
    proof (cases "st < b \<and> b < st + n")
      case False
      with that have "atb_get_kind s b = AT_TAIL" by (auto simp: kind gc_consts split: if_splits)
      then have "0 < b" "atb_get_kind s (b - 1) \<noteq> AT_FREE"
        using wf by (auto simp: gc_wf_def chains_ok_def)
      then show ?thesis by (auto simp: kind gc_consts)
    qed (auto simp: kind gc_consts)
    moreover have "atb_get_kind s' b = AT_FREE" if "max_block s \<le> b" for b
      using wf that st n by (simp add: gc_wf_def chains_ok_def kind)
    ultimately show ?thesis by (simp add: chains_ok_def frame)
  qed
  moreover have "hint_ok s'"
  proof (cases "n = 1")
    case True
    have "b < st + n" if "b < 4 * ((st + n) div 4)" for b
      using that by (simp add: mult.commute)
    with True first show ?thesis unfolding hint_ok_def t(5)
      by (auto simp: kind gc_consts less_Suc_eq)
  next
    case False
    then show ?thesis using wf unfolding hint_ok_def t(5)
      by (auto simp: gc_wf_def hint_ok_def kind gc_consts)
  qed
  moreover have "atb_get_kind s' b \<noteq> AT_MARK" for b
    using wf by (auto simp: gc_wf_def kind gc_consts)
  ultimately show ?thesis by (simp add: gc_wf_def)
qed

subsection \<open>Freeing a chain\<close>

lemma gc_chain_len_Suc:
  "gc_chain_len s b = (if atb_get_kind s (b + 1) = AT_TAIL then gc_chain_len s (b + 1) + 1 else 1)"
proof (cases "atb_get_kind s (b + 1) = AT_TAIL")
  case True
  have "gc_chain_len s b = gc_chain_len s (b + 1) + 1"
  proof (rule gc_chain_len_unique)
    show "atb_get_kind s (b + (gc_chain_len s (b + 1) + 1)) \<noteq> AT_TAIL"
      using gc_chain_len_stop [of s "b + 1"] by (simp add: algebra_simps)
    show "atb_get_kind s (b + i) = AT_TAIL" if "1 \<le> i" "i < gc_chain_len s (b + 1) + 1" for i
      using that True gc_chain_len_tail [of "i - 1" s "b + 1"] by (cases "i = 1") auto
  qed simp
  with True show ?thesis by simp
next
  case False
  then show ?thesis by (simp add: gc_chain_len_unique)
qed

lemma gc_free_chain_run:
  "in_table s b \<Longrightarrow> gc_free_chain b s = atb_free_run b (gc_chain_len s b) s"
proof (induction b s rule: gc_free_chain.induct)
  case (1 b s)
  let ?s1 = "atb_any_to_free b s"
  have other: "atb_get_kind ?s1 x = atb_get_kind s x" if "b < x" for x
    using 1 that by (simp add: kind_any_to_free)
  show ?case
  proof (cases "atb_get_kind s (b + 1) = AT_TAIL")
    case True
    have "in_table s (b + 1)" using True by (intro kind_nonfree_in_table) (simp add: gc_consts)
    then have "gc_free_chain (b + 1) ?s1 = atb_free_run (b + 1) (gc_chain_len ?s1 (b + 1)) ?s1"
      using True other by (intro "1.IH") auto
    moreover have "gc_chain_len ?s1 (b + 1) = gc_chain_len s (b + 1)"
      by (rule gc_chain_len_cong) (simp add: other)
    ultimately show ?thesis
      using True other by (simp add: gc_free_chain.simps [of b s] gc_chain_len_Suc [of s b])
  next
    case False
    then show ?thesis
      using other by (simp add: gc_free_chain.simps [of b s] gc_chain_len_Suc [of s b])
  qed
qed

definition chain_freed :: "gc_state \<Rightarrow> gc_state \<Rightarrow> nat \<Rightarrow> nat \<Rightarrow> bool" where
  "chain_freed s s' st n \<longleftrightarrow>
     (\<forall>b. atb_get_kind s' b = (if st \<le> b \<and> b < st + n then AT_FREE else atb_get_kind s b))"

lemma chain_freed_wf:
  assumes wf: "gc_wf s" and freed: "chain_freed s s' st n" and frame: "same_frame s s'"
    and stop: "atb_get_kind s (st + n) \<noteq> AT_TAIL"
    and hint: "4 * gc_last_free_atb_index s' \<le> st \<or> n = 0"
    and hint_le: "gc_last_free_atb_index s' \<le> gc_last_free_atb_index s"
  shows "gc_wf s'"
proof -
  have kind: "atb_get_kind s' b = (if st \<le> b \<and> b < st + n then AT_FREE else atb_get_kind s b)" for b
    using freed by (simp add: chain_freed_def)
  have "gc_layout s'" using wf gc_layout_frame [OF frame] by (simp add: gc_wf_def)
  moreover have "chains_ok s'"
  proof -
    have "0 < b \<and> atb_get_kind s' (b - 1) \<noteq> AT_FREE" if "atb_get_kind s' b = AT_TAIL" for b
    proof -
      have tail: "atb_get_kind s b = AT_TAIL" "\<not> (st \<le> b \<and> b < st + n)"
        using that by (auto simp: kind gc_consts split: if_splits)
      then have "0 < b" "atb_get_kind s (b - 1) \<noteq> AT_FREE" using wf by (auto simp: gc_wf_def chains_ok_def)
      moreover have "b \<noteq> st + n" using tail stop by auto
      ultimately show ?thesis using tail by (auto simp: kind)
    qed
    then show ?thesis
      using wf same_frameD(2) [OF frame] by (auto simp: gc_wf_def chains_ok_def kind)
  qed
  moreover have "hint_ok s'"
    using wf hint hint_le by (auto simp: gc_wf_def hint_ok_def kind)
  moreover have "atb_get_kind s' b \<noteq> AT_MARK" for b
    using wf by (auto simp: gc_wf_def kind gc_consts)
  ultimately show ?thesis by (simp add: gc_wf_def)
qed

lemma same_frame_free_chain: "same_frame s (gc_free_chain b s)"
proof (induction b s rule: gc_free_chain.induct)
  case (1 b s)
  then show ?case by (auto simp: gc_free_chain.simps [of b s] Let_def intro: same_frame_trans)
qed

lemma gc_free_chain_fields [simp]:
  "gc_last_free_atb_index (gc_free_chain b s) = gc_last_free_atb_index s"
  "gc_lock_depth (gc_free_chain b s) = gc_lock_depth s"
  by (induction b s rule: gc_free_chain.induct)
    (subst gc_free_chain.simps, simp add: Let_def atb_any_to_free_def)+

lemma gc_free_props:
  assumes wf: "gc_wf s" and unlocked: "gc_lock_depth s = 0" and head: "atb_get_kind s b = AT_HEAD"
  defines "s' \<equiv> gc_free (Some (ptr_from_block s b)) s"
  shows "chain_freed s s' b (gc_chain_len s b)" and "same_frame s s'" and "gc_wf s'"
    and "gc_lock_depth s' = 0"
proof -
  let ?s1 = "if b div 4 < gc_last_free_atb_index s then s\<lparr>gc_last_free_atb_index := b div 4\<rparr> else s"
  have s': "s' = gc_free_chain b ?s1"
    using unlocked by (simp add: s'_def gc_free_def gc_consts Let_def)
  have len: "gc_chain_len ?s1 b = gc_chain_len s b" by (rule gc_chain_len_cong) simp
  have lay: "gc_layout s" and ok: "chains_ok s" using wf by (simp_all add: gc_wf_def)
  have "in_table ?s1 b" using head by (simp add: kind_nonfree_in_table gc_consts)
  then have run: "s' = atb_free_run b (gc_chain_len s b) ?s1"
    using gc_free_chain_run [of ?s1 b] by (simp only: s' len)
  have inside: "b + gc_chain_len s b \<le> max_block s"
    using gc_chain_inside [OF ok, of b] head by (simp add: gc_consts)
  show freed: "chain_freed s s' b (gc_chain_len s b)"
    unfolding chain_freed_def run
  proof (rule allI, subst kind_free_run)
    show "in_table ?s1 x" if "b \<le> x" "x < b + gc_chain_len s b" for x
      using that inside lay by (auto intro: in_table_max)
  qed simp
  show frame: "same_frame s s'"
    unfolding s' by (rule same_frame_trans [OF _ same_frame_free_chain]) simp
  have hint: "gc_last_free_atb_index s' = min (gc_last_free_atb_index s) (b div 4)"
    unfolding s' by (simp add: min_def)
  show "gc_wf s'"
  proof (rule chain_freed_wf [OF wf freed frame gc_chain_len_stop])
    have "4 * gc_last_free_atb_index s' \<le> 4 * (b div 4)" unfolding hint by simp
    also have "\<dots> \<le> b" by simp
    finally show "4 * gc_last_free_atb_index s' \<le> b \<or> gc_chain_len s b = 0" ..
    show "gc_last_free_atb_index s' \<le> gc_last_free_atb_index s" unfolding hint by simp
  qed
  show "gc_lock_depth s' = 0" using unlocked unfolding s' by simp
qed

subsection \<open>The scan of realloc\<close>

text \<open>
  While only tails were seen the scan counts the chain; behind its end it counts free blocks.
\<close>

lemma gc_realloc_scan_free:
  assumes "gc_realloc_scan s new bl nb nf k = (nb', nf')" and "atb_get_kind s bl \<noteq> AT_TAIL \<or> nf > 0"
    and "\<And>x. bl - nf \<le> x \<Longrightarrow> x < bl \<Longrightarrow> atb_get_kind s x = AT_FREE" and "nf \<le> bl"
    and "chains_ok s"
  shows "nb' = nb \<and> nf \<le> nf' \<and> (\<forall>x. bl - nf \<le> x \<longrightarrow> x < bl - nf + nf' \<longrightarrow> atb_get_kind s x = AT_FREE)
    \<and> bl - nf + nf' \<le> bl + k"
  using assms
proof (induction k arbitrary: bl nf)
  case 0
  then show ?case by auto
next
  case (Suc k)
  have nt: "atb_get_kind s bl \<noteq> AT_TAIL"
  proof
    assume "atb_get_kind s bl = AT_TAIL"
    then have "nf > 0" "atb_get_kind s (bl - 1) \<noteq> AT_FREE" using Suc.prems by (auto simp: chains_ok_def)
    moreover from \<open>nf > 0\<close> have "bl - nf \<le> bl - 1" "bl - 1 < bl" using Suc.prems(4) by linarith+
    ultimately show False using Suc.prems(3) [of "bl - 1"] by simp
  qed
  show ?case
  proof (cases "atb_get_kind s bl = AT_FREE")
    case True
    have ext: "atb_get_kind s x = AT_FREE" if "bl - nf \<le> x" "x < bl + 1" for x
      using that True Suc.prems(3) by (cases "x = bl") auto
    show ?thesis
    proof (cases "new \<le> nb + (nf + 1)")
      case hit: True
      with Suc.prems True nt have "nb' = nb" "nf' = nf + 1" by (auto simp: gc_consts)
      then show ?thesis using ext Suc.prems(4) by auto
    next
      case False
      then have "gc_realloc_scan s new (bl + 1) nb (nf + 1) k = (nb', nf')"
        using Suc.prems True nt by (simp add: gc_consts)
      then have "nb' = nb \<and> nf + 1 \<le> nf' \<and>
          (\<forall>x. bl + 1 - (nf + 1) \<le> x \<longrightarrow> x < bl + 1 - (nf + 1) + nf' \<longrightarrow> atb_get_kind s x = AT_FREE)
          \<and> bl + 1 - (nf + 1) + nf' \<le> bl + 1 + k"
        using ext Suc.prems(4,5) by (intro Suc.IH) auto
      then show ?thesis by auto
    qed
  next
    case False
    with Suc.prems nt show ?thesis by auto
  qed
qed

lemma gc_realloc_scan_props:
  assumes "gc_realloc_scan s new (b + i) i 0 (max_block s - (b + i)) = (nb, nf)" and "chains_ok s"
    and "1 \<le> i" and "i \<le> gc_chain_len s b" and "b + i \<le> max_block s" and "atb_get_kind s b \<noteq> AT_FREE"
  shows "nb = gc_chain_len s b" and "free_run s (b + nb) nf"
proof -
  have "nb = gc_chain_len s b \<and> free_run s (b + nb) nf"
    using assms
  proof (induction "gc_chain_len s b - i" arbitrary: i)
    case 0
    then have i: "i = gc_chain_len s b" by simp
    have "nb = i \<and> 0 \<le> nf \<and> (\<forall>x. b + i - 0 \<le> x \<longrightarrow> x < b + i - 0 + nf \<longrightarrow> atb_get_kind s x = AT_FREE)
        \<and> b + i - 0 + nf \<le> b + i + (max_block s - (b + i))"
      using 0 gc_chain_len_stop [of s b] i by (intro gc_realloc_scan_free) auto
    then show ?case using i 0 by (auto simp: free_run_def)
  next
    case (Suc d)
    then have tail: "atb_get_kind s (b + i) = AT_TAIL" by (intro gc_chain_len_tail) auto
    then have lt: "b + i < max_block s" using Suc.prems(2) by (intro used_block) (auto simp: gc_consts)
    then obtain k where k: "max_block s - (b + i) = Suc k" "k = max_block s - (b + (i + 1))"
      by (metis Suc_diff_Suc add.assoc add_Suc_right Suc_eq_plus1)
    then have "gc_realloc_scan s new (b + (i + 1)) (i + 1) 0 (max_block s - (b + (i + 1))) = (nb, nf)"
      using Suc.prems(1) tail by (simp add: gc_consts)
    moreover have "d = gc_chain_len s b - (i + 1)" "i + 1 \<le> gc_chain_len s b"
      using Suc.hyps(2) by linarith+
    ultimately show ?case using Suc.prems lt by (intro Suc.hyps(1) [of "i + 1"]) auto
  qed
  then show "nb = gc_chain_len s b" and "free_run s (b + nb) nf" by blast+
qed

end
