(* ===== verification/Gc_Mark.thy ===== *)
theory Gc_Mark
  imports Gc_Alloc
begin

text \<open>
  Correctness of the collector: marking with its bounded stack and the rescan after an
  overflow marks exactly the chains reachable from the roots, and the sweep frees exactly
  the others.
\<close>

subsection \<open>Marking only turns heads into marks\<close>

definition marks :: "gc_state \<Rightarrow> gc_state \<Rightarrow> bool" where
  "marks s t \<longleftrightarrow> same_frame s t \<and>
     (\<forall>b. atb_get_kind t b = atb_get_kind s b \<or>
          atb_get_kind s b = AT_HEAD \<and> atb_get_kind t b = AT_MARK)"

lemma marks_refl [simp, intro]: "marks s s"
  by (simp add: marks_def)

lemma marks_trans [trans]: "marks s t \<Longrightarrow> marks t u \<Longrightarrow> marks s u"
  unfolding marks_def by (metis same_frame_trans)

lemma marks_overflow [simp, intro]: "marks s (s\<lparr>gc_stack_overflow := x\<rparr>)"
  by (simp add: marks_def)

lemma marks_head: "atb_get_kind s b = AT_HEAD \<Longrightarrow> marks s (atb_head_to_mark b s)"
  using kind_nonfree_in_table [of s b]
  by (auto simp: marks_def kind_head_to_mark gc_consts)

lemma marks_kind:
  assumes "marks s t"
  shows marks_tail: "atb_get_kind t b = AT_TAIL \<longleftrightarrow> atb_get_kind s b = AT_TAIL"
    and marks_free: "atb_get_kind t b = AT_FREE \<longleftrightarrow> atb_get_kind s b = AT_FREE"
    and marks_mark: "atb_get_kind s b = AT_MARK \<Longrightarrow> atb_get_kind t b = AT_MARK"
    and marks_head_back: "atb_get_kind t b = AT_HEAD \<Longrightarrow> atb_get_kind s b = AT_HEAD"
    and marks_new: "atb_get_kind t b = AT_MARK \<Longrightarrow> atb_get_kind s b \<noteq> AT_HEAD \<Longrightarrow> atb_get_kind s b = AT_MARK"
proof -
  have "atb_get_kind t b = atb_get_kind s b \<or> atb_get_kind s b = AT_HEAD \<and> atb_get_kind t b = AT_MARK"
    using assms by (simp add: marks_def)
  then show "atb_get_kind t b = AT_TAIL \<longleftrightarrow> atb_get_kind s b = AT_TAIL"
    and "atb_get_kind t b = AT_FREE \<longleftrightarrow> atb_get_kind s b = AT_FREE"
    and "atb_get_kind s b = AT_MARK \<Longrightarrow> atb_get_kind t b = AT_MARK"
    and "atb_get_kind t b = AT_HEAD \<Longrightarrow> atb_get_kind s b = AT_HEAD"
    and "atb_get_kind t b = AT_MARK \<Longrightarrow> atb_get_kind s b \<noteq> AT_HEAD \<Longrightarrow> atb_get_kind s b = AT_MARK"
    by (auto simp: gc_consts)
qed

lemma marks_same:
  assumes "marks s t"
  shows "chain_words t b = chain_words s b" "verify_ptr t p = verify_ptr s p"
    "block_from_ptr t p = block_from_ptr s p" "max_block t = max_block s"
proof -
  have fr: "same_frame s t" using assms by (simp add: marks_def)
  have "gc_chain_len t b = gc_chain_len s b"
    by (rule gc_chain_len_cong) (simp add: marks_tail [OF assms])
  then show "chain_words t b = chain_words s b" by (simp add: chain_words_def same_frameD(6) [OF fr])
  show "verify_ptr t p = verify_ptr s p" "block_from_ptr t p = block_from_ptr s p" "max_block t = max_block s"
    using same_frameD [OF fr] by simp_all
qed

lemma marks_chains_ok: "marks s t \<Longrightarrow> chains_ok t = chains_ok s"
  unfolding chains_ok_def by (simp add: marks_tail marks_free marks_same)

subsection \<open>Children that are still unmarked\<close>

definition closed :: "gc_state \<Rightarrow> nat \<Rightarrow> bool" where
  "closed s b \<longleftrightarrow> (\<forall>p \<in> set (chain_words s b). verify_ptr s p \<longrightarrow> atb_get_kind s (block_from_ptr s p) \<noteq> AT_HEAD)"

definition unclosed :: "gc_state \<Rightarrow> nat set" where
  "unclosed s = {b. atb_get_kind s b = AT_MARK \<and> \<not> closed s b}"

lemma closed_mono: "marks s t \<Longrightarrow> closed s b \<Longrightarrow> closed t b"
  unfolding closed_def by (metis marks_head_back marks_same(1,2,3))

lemma gc_mark_children_props:
  assumes "gc_mark_children ptrs s stk = (t, stk')"
  shows "marks s t \<and> set stk \<subseteq> set stk' \<and> (gc_stack_overflow s \<longrightarrow> gc_stack_overflow t) \<and>
    (\<forall>p \<in> set ptrs. verify_ptr s p \<longrightarrow> atb_get_kind t (block_from_ptr s p) \<noteq> AT_HEAD) \<and>
    (gc_stack_overflow t \<or> (\<forall>b. atb_get_kind s b = AT_HEAD \<longrightarrow> atb_get_kind t b = AT_MARK \<longrightarrow> b \<in> set stk'))"
  using assms
proof (induction ptrs s stk rule: gc_mark_children.induct)
  case (1 s stk)
  then show ?case by (auto simp: gc_consts)
next
  case (2 ptr ptrs s stk)
  let ?c = "block_from_ptr s ptr" and ?s1 = "atb_head_to_mark (block_from_ptr s ptr) s"
  show ?case
  proof (cases "verify_ptr s ptr \<and> atb_get_kind s ?c = AT_HEAD")
    case False
    then have "gc_mark_children ptrs s stk = (t, stk')" using 2 by (auto split: if_splits)
    with False 2 have IH: "marks s t \<and> set stk \<subseteq> set stk' \<and> (gc_stack_overflow s \<longrightarrow> gc_stack_overflow t) \<and>
      (\<forall>p \<in> set ptrs. verify_ptr s p \<longrightarrow> atb_get_kind t (block_from_ptr s p) \<noteq> AT_HEAD) \<and>
      (gc_stack_overflow t \<or> (\<forall>b. atb_get_kind s b = AT_HEAD \<longrightarrow> atb_get_kind t b = AT_MARK \<longrightarrow> b \<in> set stk'))"
      by meson
    with False show ?thesis by (auto dest: marks_head_back)
  next
    case True
    have m1: "marks s ?s1" using True by (intro marks_head) simp
    have kind1: "atb_get_kind ?s1 ?c = AT_MARK"
      using True kind_nonfree_in_table [of s ?c] by (simp add: kind_head_to_mark gc_consts)
    define s2 stk2 where "s2 = (if length stk < GC_STACK_SIZE then ?s1 else ?s1\<lparr>gc_stack_overflow := True\<rparr>)"
      and "stk2 = (if length stk < GC_STACK_SIZE then ?c # stk else stk)"
    have m2: "marks s s2" unfolding s2_def using m1 marks_trans marks_overflow by auto
    have kind2: "atb_get_kind s2 ?c = AT_MARK" using kind1 by (simp add: s2_def)
    have IH: "marks s2 t \<and> set stk2 \<subseteq> set stk' \<and> (gc_stack_overflow s2 \<longrightarrow> gc_stack_overflow t) \<and>
      (\<forall>p \<in> set ptrs. verify_ptr s2 p \<longrightarrow> atb_get_kind t (block_from_ptr s2 p) \<noteq> AT_HEAD) \<and>
      (gc_stack_overflow t \<or> (\<forall>b. atb_get_kind s2 b = AT_HEAD \<longrightarrow> atb_get_kind t b = AT_MARK \<longrightarrow> b \<in> set stk'))"
      using 2 True by (simp add: s2_def stk2_def Let_def split: if_splits)
    have "atb_get_kind t ?c = AT_MARK" using IH kind2 marks_mark by blast
    moreover have "marks s t" using m2 IH marks_trans by blast
    moreover have "gc_stack_overflow s \<longrightarrow> gc_stack_overflow s2"
      by (simp add: s2_def atb_head_to_mark_def)
    moreover have "gc_stack_overflow t \<or> b \<in> set stk'"
      if "atb_get_kind s b = AT_HEAD" "atb_get_kind t b = AT_MARK" for b
    proof (cases "b = ?c")
      case True
      then show ?thesis using IH by (auto simp: s2_def stk2_def split: if_splits)
    next
      case False
      then have "atb_get_kind s2 b = AT_HEAD"
        using that True kind_nonfree_in_table [of s ?c] by (simp add: s2_def kind_head_to_mark gc_consts)
      then show ?thesis using IH that by blast
    qed
    moreover have "set stk \<subseteq> set stk2" by (auto simp: stk2_def)
    ultimately show ?thesis
      using IH by (auto simp: marks_same(2,3) [OF m2] gc_consts)
  qed
qed

lemma gc_mark_loop_props:
  "marks s (gc_mark_loop block stk s) \<and>
   (gc_stack_overflow s \<longrightarrow> gc_stack_overflow (gc_mark_loop block stk s)) \<and>
   (\<not> gc_stack_overflow (gc_mark_loop block stk s) \<longrightarrow>
      unclosed (gc_mark_loop block stk s) \<subseteq> unclosed s - ({block} \<union> set stk))"
proof (induction block stk s rule: gc_mark_loop.induct)
  case (1 block stk s)
  obtain s1 stk1 where mc: "gc_mark_children (chain_words s block) s stk = (s1, stk1)" by fastforce
  note c = gc_mark_children_props [OF mc]
  have m: "marks s s1" using c by blast
  have closed1: "closed s1 block"
    using c unfolding closed_def by (simp add: marks_same [OF m])
  have unc: "unclosed s1 \<subseteq> (unclosed s \<union> set stk1) - {block}" if "\<not> gc_stack_overflow s1"
    using c that closed1 closed_mono [OF m] marks_new [OF m] unfolding unclosed_def by blast
  show ?case
  proof (cases stk1)
    case Nil
    then have "gc_mark_loop block stk s = s1" by (simp add: gc_mark_loop.simps [of block stk s] mc)
    then show ?thesis using c unc Nil by auto
  next
    case (Cons b stk2)
    then have eq: "gc_mark_loop block stk s = gc_mark_loop b stk2 s1"
      by (simp add: gc_mark_loop.simps [of block stk s] mc)
    have IH: "marks s1 (gc_mark_loop b stk2 s1) \<and>
       (gc_stack_overflow s1 \<longrightarrow> gc_stack_overflow (gc_mark_loop b stk2 s1)) \<and>
       (\<not> gc_stack_overflow (gc_mark_loop b stk2 s1) \<longrightarrow>
          unclosed (gc_mark_loop b stk2 s1) \<subseteq> unclosed s1 - ({b} \<union> set stk2))"
      using "1" [OF mc [symmetric] Cons] by simp
    have "unclosed (gc_mark_loop b stk2 s1) \<subseteq> unclosed s - ({block} \<union> set stk)"
      if "\<not> gc_stack_overflow (gc_mark_loop b stk2 s1)"
    proof -
      have "unclosed (gc_mark_loop b stk2 s1) \<subseteq> unclosed s1 - set stk1"
        and "unclosed s1 \<subseteq> (unclosed s \<union> set stk1) - {block}" and "set stk \<subseteq> set stk1"
        using IH that unc c Cons by auto
      then show ?thesis by blast
    qed
    then show ?thesis unfolding eq using c IH marks_trans [OF m] by blast
  qed
qed

lemma gc_mark_subtree_props:
  shows "marks s (gc_mark_subtree block s)"
    and "gc_stack_overflow s \<Longrightarrow> gc_stack_overflow (gc_mark_subtree block s)"
    and "\<not> gc_stack_overflow (gc_mark_subtree block s) \<Longrightarrow>
         unclosed (gc_mark_subtree block s) \<subseteq> unclosed s - {block}"
  using gc_mark_loop_props [of s block "[]"] by (auto simp: gc_mark_subtree_def)

subsection \<open>Reachability\<close>

text \<open>
  A block is an object when it heads a chain. The objects reachable from a list of root words:
  a root or a word of a reachable chain that is a valid pointer to an object reaches it.
\<close>

definition is_obj :: "gc_state \<Rightarrow> nat \<Rightarrow> bool" where
  "is_obj s b \<longleftrightarrow> atb_get_kind s b = AT_HEAD \<or> atb_get_kind s b = AT_MARK"

inductive gc_reach :: "gc_state \<Rightarrow> nat list \<Rightarrow> nat \<Rightarrow> bool" for s roots where
  from_root: "p \<in> set roots \<Longrightarrow> verify_ptr s p \<Longrightarrow> is_obj s (block_from_ptr s p) \<Longrightarrow>
    gc_reach s roots (block_from_ptr s p)"
| from_child: "gc_reach s roots b \<Longrightarrow> p \<in> set (chain_words s b) \<Longrightarrow> verify_ptr s p \<Longrightarrow>
    is_obj s (block_from_ptr s p) \<Longrightarrow> gc_reach s roots (block_from_ptr s p)"

lemma marks_is_obj: "marks s t \<Longrightarrow> is_obj t b = is_obj s b"
  unfolding is_obj_def by (metis marks_head_back marks_def)

text \<open>A set of blocks closed under following pointers contains all that marking marks.\<close>

definition pointer_closed :: "gc_state \<Rightarrow> nat set \<Rightarrow> bool" where
  "pointer_closed s P \<longleftrightarrow> (\<forall>b \<in> P. \<forall>p \<in> set (chain_words s b). verify_ptr s p \<longrightarrow>
     is_obj s (block_from_ptr s p) \<longrightarrow> block_from_ptr s p \<in> P)"

definition marked_in :: "gc_state \<Rightarrow> nat set \<Rightarrow> bool" where
  "marked_in s P \<longleftrightarrow> (\<forall>b. atb_get_kind s b = AT_MARK \<longrightarrow> b \<in> P)"

lemma pointer_closed_marks: "marks s t \<Longrightarrow> pointer_closed t P = pointer_closed s P"
  by (simp add: pointer_closed_def marks_same marks_is_obj)

lemma marked_in_head:
  "marked_in s P \<Longrightarrow> atb_get_kind s b = AT_HEAD \<Longrightarrow> b \<in> P \<Longrightarrow> marked_in (atb_head_to_mark b s) P"
  using kind_nonfree_in_table [of s b]
  by (auto simp: marked_in_def kind_head_to_mark gc_consts split: if_splits)

lemma gc_mark_children_sound:
  assumes "gc_mark_children ptrs s stk = (t, stk')" and "marked_in s P" and "set stk \<subseteq> P"
    and "\<And>p. p \<in> set ptrs \<Longrightarrow> verify_ptr s p \<Longrightarrow> is_obj s (block_from_ptr s p) \<Longrightarrow> block_from_ptr s p \<in> P"
  shows "marked_in t P \<and> set stk' \<subseteq> P"
  using assms
proof (induction ptrs s stk rule: gc_mark_children.induct)
  case (2 ptr ptrs s stk)
  let ?c = "block_from_ptr s ptr" and ?s1 = "atb_head_to_mark (block_from_ptr s ptr) s"
  show ?case
  proof (cases "verify_ptr s ptr \<and> atb_get_kind s ?c = AT_HEAD")
    case False
    then have "gc_mark_children ptrs s stk = (t, stk')" using 2 by (auto split: if_splits)
    then show ?thesis using False "2.IH" "2.prems" by (meson list.set_intros(2))
  next
    case True
    then have c: "?c \<in> P" using "2.prems"(4) [of ptr] by (simp add: is_obj_def)
    have m: "marks s ?s1" using True by (intro marks_head) simp
    have obj: "block_from_ptr s p \<in> P" if "p \<in> set ptrs" "verify_ptr s p" "is_obj ?s1 (block_from_ptr s p)" for p
      using that "2.prems"(4) by (simp add: marks_is_obj [OF m])
    have in1: "marked_in ?s1 P" using "2.prems"(2) True c by (intro marked_in_head) auto
    then have in2: "marked_in (?s1\<lparr>gc_stack_overflow := True\<rparr>) P" by (simp add: marked_in_def)
    have m2: "marks s (?s1\<lparr>gc_stack_overflow := True\<rparr>)" using m marks_trans by blast
    show ?thesis
    proof (cases "length stk < GC_STACK_SIZE")
      case len: True
      show ?thesis
        by (rule "2.IH"(1) [OF _ refl _ refl len])
          (use True len "2.prems" c in1 obj in \<open>simp_all add: Let_def marks_same [OF m]\<close>)
    next
      case len: False
      show ?thesis
        by (rule "2.IH"(2) [OF _ refl _ refl len])
          (use True len "2.prems" in2 obj in \<open>simp_all add: Let_def marks_same [OF m2] is_obj_def\<close>)
    qed
  qed
qed simp

lemma gc_mark_loop_sound:
  assumes "marked_in s P" and "pointer_closed s P" and "block \<in> P" and "set stk \<subseteq> P"
  shows "marked_in (gc_mark_loop block stk s) P"
  using assms
proof (induction block stk s rule: gc_mark_loop.induct)
  case (1 block stk s)
  obtain s1 stk1 where mc: "gc_mark_children (chain_words s block) s stk = (s1, stk1)" by fastforce
  have sound: "marked_in s1 P \<and> set stk1 \<subseteq> P"
    by (rule gc_mark_children_sound [OF mc])
      (use "1.prems" in \<open>auto simp: pointer_closed_def\<close>)
  have "marks s s1" using gc_mark_children_props [OF mc] by blast
  then have "pointer_closed s1 P" using "1.prems" by (simp add: pointer_closed_marks)
  then show ?case
    using sound "1.IH" [OF mc [symmetric]] by (cases stk1) (auto simp: gc_mark_loop.simps [of block stk s] mc)
qed

subsection \<open>Roots and the rescan after an overflow\<close>

lemma gc_collect_root_props:
  "marks s (gc_collect_root ptrs s) \<and>
   (gc_stack_overflow s \<longrightarrow> gc_stack_overflow (gc_collect_root ptrs s)) \<and>
   (\<forall>p \<in> set ptrs. verify_ptr s p \<longrightarrow> atb_get_kind (gc_collect_root ptrs s) (block_from_ptr s p) \<noteq> AT_HEAD) \<and>
   (\<not> gc_stack_overflow (gc_collect_root ptrs s) \<longrightarrow> unclosed (gc_collect_root ptrs s) \<subseteq> unclosed s)"
proof (induction ptrs arbitrary: s)
  case Nil
  then show ?case by simp
next
  case (Cons ptr ptrs)
  let ?c = "block_from_ptr s ptr" and ?m = "atb_head_to_mark (block_from_ptr s ptr) s"
  define s1 where "s1 = (if verify_ptr s ptr \<and> atb_get_kind s ?c = AT_HEAD then gc_mark_subtree ?c ?m else s)"
  have step: "gc_collect_root (ptr # ptrs) s = gc_collect_root ptrs s1"
    by (simp add: s1_def Let_def)
  have one: "marks s s1 \<and> (gc_stack_overflow s \<longrightarrow> gc_stack_overflow s1) \<and>
      (verify_ptr s ptr \<longrightarrow> atb_get_kind s1 ?c \<noteq> AT_HEAD) \<and>
      (\<not> gc_stack_overflow s1 \<longrightarrow> unclosed s1 \<subseteq> unclosed s)"
  proof (cases "verify_ptr s ptr \<and> atb_get_kind s ?c = AT_HEAD")
    case True
    have m: "marks s ?m" using True by (intro marks_head) simp
    have km: "atb_get_kind ?m ?c = AT_MARK"
      using True kind_nonfree_in_table [of s ?c] by (simp add: kind_head_to_mark gc_consts)
    have s1: "s1 = gc_mark_subtree ?c ?m" using True by (simp add: s1_def)
    have "unclosed ?m \<subseteq> unclosed s \<union> {?c}"
    proof
      fix x assume x: "x \<in> unclosed ?m"
      show "x \<in> unclosed s \<union> {?c}"
      proof (cases "x = ?c")
        case False
        then have "atb_get_kind s x = AT_MARK"
          using x True kind_nonfree_in_table [of s ?c]
          by (simp add: unclosed_def kind_head_to_mark gc_consts)
        then show ?thesis using x closed_mono [OF m] by (auto simp: unclosed_def)
      qed simp
    qed
    moreover have "atb_get_kind s1 ?c = AT_MARK"
      unfolding s1 using marks_mark [OF gc_mark_subtree_props(1)] km by blast
    moreover have "gc_stack_overflow s \<longrightarrow> gc_stack_overflow s1"
      unfolding s1 using gc_mark_subtree_props(2) [of ?m] by (simp add: atb_head_to_mark_def)
    ultimately show ?thesis
      using gc_mark_subtree_props(3) [of ?c ?m] marks_trans [OF m gc_mark_subtree_props(1)]
      by (auto simp: s1 gc_consts)
  qed (auto simp: s1_def)
  have m: "marks s s1" using one by blast
  note IH = Cons.IH [of s1, unfolded marks_same [OF m]]
  have "atb_get_kind (gc_collect_root ptrs s1) ?c \<noteq> AT_HEAD" if "verify_ptr s ptr"
    using one that IH marks_head_back by blast
  moreover have "marks s (gc_collect_root ptrs s1)" using IH marks_trans [OF m] by blast
  ultimately show ?case unfolding step using one IH by auto
qed

lemma gc_collect_root_sound:
  assumes "marked_in s P" and "pointer_closed s P"
    and "\<And>p. p \<in> set ptrs \<Longrightarrow> verify_ptr s p \<Longrightarrow> is_obj s (block_from_ptr s p) \<Longrightarrow> block_from_ptr s p \<in> P"
  shows "marked_in (gc_collect_root ptrs s) P"
  using assms
proof (induction ptrs arbitrary: s)
  case (Cons ptr ptrs)
  let ?c = "block_from_ptr s ptr" and ?m = "atb_head_to_mark (block_from_ptr s ptr) s"
  show ?case
  proof (cases "verify_ptr s ptr \<and> atb_get_kind s ?c = AT_HEAD")
    case True
    have c: "?c \<in> P" using Cons.prems(3) [of ptr] True by (simp add: is_obj_def)
    have m: "marks s ?m" using True by (intro marks_head) simp
    have m2: "marks s (gc_mark_subtree ?c ?m)" using m gc_mark_subtree_props(1) marks_trans by blast
    have "marked_in ?m P" using Cons.prems(1) True c by (intro marked_in_head) auto
    then have "marked_in (gc_mark_subtree ?c ?m) P"
      unfolding gc_mark_subtree_def using c Cons.prems(2) m
      by (intro gc_mark_loop_sound) (auto simp: pointer_closed_marks)
    then have "marked_in (gc_collect_root ptrs (gc_mark_subtree ?c ?m)) P"
      using Cons.prems m2 by (intro Cons.IH) (auto simp: pointer_closed_marks marks_same marks_is_obj)
    then show ?thesis using True by (simp add: Let_def)
  next
    case False
    then have "gc_collect_root (ptr # ptrs) s = gc_collect_root ptrs s" by (auto simp: Let_def)
    then show ?thesis using Cons by simp
  qed
qed simp

lemma gc_overflow_scan_props:
  "marks s (gc_overflow_scan n block s) \<and>
   (gc_stack_overflow s \<longrightarrow> gc_stack_overflow (gc_overflow_scan n block s)) \<and>
   (\<not> gc_stack_overflow (gc_overflow_scan n block s) \<longrightarrow>
      unclosed (gc_overflow_scan n block s) \<subseteq> unclosed s - {block ..< block + n})"
proof (induction n arbitrary: block s)
  case (Suc n)
  define s1 where "s1 = (if atb_get_kind s block = AT_MARK then gc_mark_subtree block s else s)"
  have one: "marks s s1" "gc_stack_overflow s \<longrightarrow> gc_stack_overflow s1"
    "\<not> gc_stack_overflow s1 \<longrightarrow> unclosed s1 \<subseteq> unclosed s - {block}"
    using gc_mark_subtree_props(1,2) [of s block] gc_mark_subtree_props(3) [of block s]
    by (auto simp: s1_def unclosed_def)
  have range: "{block ..< block + Suc n} = insert block {block + 1 ..< block + 1 + n}" by auto
  have "unclosed (gc_overflow_scan n (block + 1) s1) \<subseteq> unclosed s - {block ..< block + Suc n}"
    if "\<not> gc_stack_overflow (gc_overflow_scan n (block + 1) s1)"
    using Suc [of s1 "block + 1"] one that unfolding range by blast
  then show ?case
    using Suc [of s1 "block + 1"] one marks_trans [OF one(1)] by (auto simp: s1_def [symmetric])
qed simp

lemma gc_overflow_scan_sound:
  "marked_in s P \<Longrightarrow> pointer_closed s P \<Longrightarrow> marked_in (gc_overflow_scan n block s) P"
proof (induction n arbitrary: block s)
  case (Suc n)
  have "marked_in (gc_mark_subtree block s) P" if "atb_get_kind s block = AT_MARK"
    unfolding gc_mark_subtree_def using that Suc.prems
    by (intro gc_mark_loop_sound) (auto simp: marked_in_def)
  moreover have "pointer_closed (gc_mark_subtree block s) P"
    using Suc.prems(2) by (simp add: pointer_closed_marks [OF gc_mark_subtree_props(1)])
  ultimately show ?case using Suc by simp
qed simp

lemma gc_deal_props:
  assumes "chains_ok s" and "\<not> gc_stack_overflow s \<Longrightarrow> unclosed s = {}"
    and "marked_in s P" and "pointer_closed s P"
  shows "marks s (gc_deal_with_stack_overflow s) \<and> unclosed (gc_deal_with_stack_overflow s) = {}
    \<and> marked_in (gc_deal_with_stack_overflow s) P"
  using assms
proof (induction s rule: gc_deal_with_stack_overflow.induct)
  case (1 s)
  show ?case
  proof (cases "gc_stack_overflow s")
    case True
    let ?s0 = "s\<lparr>gc_stack_overflow := False\<rparr>" and ?t = "gc_overflow_scan (max_block s) 0 (s\<lparr>gc_stack_overflow := False\<rparr>)"
    have m: "marks s ?t" using gc_overflow_scan_props marks_trans marks_overflow by blast
    have "b \<notin> unclosed ?t" if "\<not> gc_stack_overflow ?t" for b
    proof
      assume "b \<in> unclosed ?t"
      then have "b \<in> unclosed ?s0 - {0 ..< 0 + max_block s}"
        using gc_overflow_scan_props [of ?s0 "max_block s" 0] that by blast
      then have "max_block s \<le> b" "atb_get_kind s b = AT_MARK" by (auto simp: unclosed_def)
      then show False using "1.prems"(1) by (simp add: chains_ok_def gc_consts)
    qed
    moreover have "marked_in ?t P"
      using "1.prems"(3,4) by (intro gc_overflow_scan_sound)
        (auto simp: marked_in_def pointer_closed_marks [OF marks_overflow])
    ultimately have "marks ?t (gc_deal_with_stack_overflow ?t) \<and> unclosed (gc_deal_with_stack_overflow ?t) = {}
        \<and> marked_in (gc_deal_with_stack_overflow ?t) P"
      using "1.prems" True m by (intro "1.IH") (auto simp: marks_chains_ok pointer_closed_marks)
    then show ?thesis using True marks_trans [OF m] by (simp add: gc_deal_with_stack_overflow.simps [of s])
  next
    case False
    then show ?thesis using "1.prems" by (simp add: gc_deal_with_stack_overflow.simps [of s])
  qed
qed

subsection \<open>Sweeping\<close>

text \<open>The head of the chain a block belongs to: the nearest block at or before it that is no tail.\<close>

fun owner :: "gc_state \<Rightarrow> nat \<Rightarrow> nat" where
  "owner s 0 = 0"
| "owner s (Suc b) = (if atb_get_kind s (Suc b) = AT_TAIL then owner s b else Suc b)"

lemma owner_cong:
  "(\<And>x. atb_get_kind t x = AT_TAIL \<longleftrightarrow> atb_get_kind s x = AT_TAIL) \<Longrightarrow> owner t b = owner s b"
  by (induction b) auto

lemma owner_no_tail: "atb_get_kind s b \<noteq> AT_TAIL \<Longrightarrow> owner s b = b"
  by (cases b) auto

lemma owner_used: "chains_ok s \<Longrightarrow> atb_get_kind s b \<noteq> AT_FREE \<Longrightarrow>
    atb_get_kind s (owner s b) \<noteq> AT_FREE \<and> atb_get_kind s (owner s b) \<noteq> AT_TAIL"
proof (induction b)
  case (Suc b)
  show ?case
  proof (cases "atb_get_kind s (Suc b) = AT_TAIL")
    case True
    then have "atb_get_kind s b \<noteq> AT_FREE" using Suc.prems(1) unfolding chains_ok_def by (metis diff_Suc_1)
    with Suc True show ?thesis by simp
  qed (use Suc in simp)
qed (auto simp: chains_ok_def)

definition swept :: "gc_state \<Rightarrow> nat \<Rightarrow> nat" where
  "swept s b =
     (if atb_get_kind s b \<noteq> AT_FREE \<and> atb_get_kind s (owner s b) = AT_MARK
      then (if atb_get_kind s b = AT_MARK then AT_HEAD else atb_get_kind s b) else AT_FREE)"

lemma gc_sweep_from_props:
  assumes "chains_ok s0" and "\<And>x. block \<le> x \<Longrightarrow> atb_get_kind s x = atb_get_kind s0 x"
    and "atb_get_kind s0 block = AT_TAIL \<Longrightarrow> ft = (atb_get_kind s0 (owner s0 block) \<noteq> AT_MARK)"
  shows "atb_get_kind (gc_sweep_from n block ft s) b =
      (if block \<le> b \<and> b < block + n then swept s0 b else atb_get_kind s b)"
  using assms
proof (induction n arbitrary: block ft s)
  case (Suc n)
  let ?k = "atb_get_kind s0 block"
  define s1 where "s1 = (if ?k = AT_HEAD then atb_any_to_free block s
      else if ?k = AT_TAIL then (if ft then atb_any_to_free block s else s)
      else if ?k = AT_MARK then atb_mark_to_head block s else s)"
  define ft1 where "ft1 = (if ?k = AT_HEAD then True else if ?k = AT_MARK then False else ft)"
  have k: "atb_get_kind s block = ?k" using Suc.prems(2) by simp
  have step: "gc_sweep_from (Suc n) block ft s = gc_sweep_from n (block + 1) ft1 s1"
    using k by (auto simp: s1_def ft1_def Let_def gc_consts)
  have tab: "?k \<noteq> AT_FREE \<Longrightarrow> in_table s block" using k kind_nonfree_in_table [of s block] by simp
  have kind1: "atb_get_kind s1 x = (if x = block then swept s0 block else atb_get_kind s x)" for x
    using tab k Suc.prems(3) owner_no_tail [of s0 block] atb_get_kind_range [of s0 block]
    by (auto simp: s1_def swept_def kind_any_to_free kind_mark_to_head gc_consts)
  have "ft1 = (atb_get_kind s0 (owner s0 (block + 1)) \<noteq> AT_MARK)" if "atb_get_kind s0 (block + 1) = AT_TAIL"
  proof -
    have "?k \<noteq> AT_FREE" using that Suc.prems(1) unfolding chains_ok_def by (metis diff_add_inverse2)
    then show ?thesis
      using that Suc.prems(3) owner_no_tail [of s0 block] atb_get_kind_range [of s0 block]
      by (auto simp: ft1_def gc_consts)
  qed
  then have "atb_get_kind (gc_sweep_from n (block + 1) ft1 s1) b =
      (if block + 1 \<le> b \<and> b < block + 1 + n then swept s0 b else atb_get_kind s1 b)"
    using Suc.prems by (intro Suc.IH) (auto simp: kind1)
  then show ?case unfolding step by (auto simp: kind1)
qed simp

lemma same_frame_sweep: "same_frame s (gc_sweep_from n block ft s)"
proof (induction n arbitrary: block ft s)
  case (Suc n)
  have free: "same_frame s (gc_sweep_from n b f (atb_any_to_free c s))" for b f c
    by (rule same_frame_trans [OF same_frame_ops(1) Suc])
  have unmark: "same_frame s (gc_sweep_from n b f (atb_mark_to_head c s))" for b f c
    by (rule same_frame_trans [OF same_frame_ops(5) Suc])
  show ?case by (simp add: Let_def free unmark Suc)
qed simp

lemma sweep_fields:
  "gc_lock_depth (gc_sweep_from n block ft s) = gc_lock_depth s"
  by (induction n arbitrary: block ft s)
    (simp_all add: Let_def atb_any_to_free_def atb_mark_to_head_def)

lemma gc_sweep_kind:
  assumes "chains_ok s"
  shows "atb_get_kind (gc_sweep s) b = swept s b"
proof -
  have "atb_get_kind s 0 \<noteq> AT_TAIL" using assms by (auto simp: chains_ok_def)
  then have "atb_get_kind (gc_sweep s) b = (if 0 \<le> b \<and> b < 0 + max_block s then swept s b else atb_get_kind s b)"
    unfolding gc_sweep_def using assms by (intro gc_sweep_from_props) auto
  moreover have "swept s b = atb_get_kind s b" if "max_block s \<le> b"
    using that assms by (simp add: swept_def chains_ok_def)
  ultimately show ?thesis by (auto simp: not_less)
qed

subsection \<open>A whole collection\<close>

lemma gc_collect_root_append:
  "gc_collect_root (ps @ qs) s = gc_collect_root qs (gc_collect_root ps s)"
  by (induction ps arbitrary: s) simp_all

lemma mark_children_lock:
  "gc_mark_children ptrs s stk = (t, stk') \<Longrightarrow> gc_lock_depth t = gc_lock_depth s"
  by (induction ptrs s stk rule: gc_mark_children.induct)
    (auto simp: Let_def atb_head_to_mark_def split: if_splits)

lemma mark_loop_lock: "gc_lock_depth (gc_mark_loop block stk s) = gc_lock_depth s"
proof (induction block stk s rule: gc_mark_loop.induct)
  case (1 block stk s)
  obtain s1 stk1 where mc: "gc_mark_children (chain_words s block) s stk = (s1, stk1)" by fastforce
  then show ?case
    using 1 [OF mc [symmetric]] mark_children_lock [OF mc]
    by (cases stk1) (simp_all add: gc_mark_loop.simps [of block stk s])
qed

lemma collect_root_lock: "gc_lock_depth (gc_collect_root ptrs s) = gc_lock_depth s"
  by (induction ptrs arbitrary: s)
    (simp_all add: Let_def gc_mark_subtree_def mark_loop_lock atb_head_to_mark_def)

lemma overflow_scan_lock: "gc_lock_depth (gc_overflow_scan n block s) = gc_lock_depth s"
  by (induction n arbitrary: block s) (simp_all add: gc_mark_subtree_def mark_loop_lock)

lemma deal_lock: "gc_lock_depth (gc_deal_with_stack_overflow s) = gc_lock_depth s"
proof (induction s rule: gc_deal_with_stack_overflow.induct)
  case (1 s)
  then show ?case
    by (cases "gc_stack_overflow s")
      (simp_all add: gc_deal_with_stack_overflow.simps [of s] overflow_scan_lock)
qed

definition root_words :: "gc_roots \<Rightarrow> nat list" where
  "root_words r = ctx_ptrs r @ pystack_ptrs r @ stack_ptrs r"

definition gc_marked :: "gc_roots \<Rightarrow> gc_state \<Rightarrow> gc_state" where
  "gc_marked r s = gc_deal_with_stack_overflow (gc_collect_root (root_words r)
     (s\<lparr>gc_lock_depth := (gc_lock_depth s + 1) mod 2 ^ 16, gc_stack_overflow := False\<rparr>))"

lemma gc_collect_marked:
  "gc_collect r s = (gc_sweep (gc_marked r s))\<lparr>gc_last_free_atb_index := 0,
     gc_lock_depth := (gc_lock_depth (gc_sweep (gc_marked r s)) + 2 ^ 16 - 1) mod 2 ^ 16\<rparr>"
  by (simp add: gc_collect_def gc_collect_end_def gc_collect_start_def gc_marked_def root_words_def
      gc_collect_root_append Let_def)

lemma gc_reach_obj: "gc_reach s roots b \<Longrightarrow> is_obj s b"
  by (induction rule: gc_reach.induct) auto

lemma gc_marked_props:
  assumes "gc_wf s"
  shows "marks s (gc_marked r s)"
    and "atb_get_kind (gc_marked r s) b = AT_MARK \<longleftrightarrow> gc_reach s (root_words r) b"
proof -
  define s0 where "s0 = s\<lparr>gc_lock_depth := (gc_lock_depth s + 1) mod 2 ^ 16, gc_stack_overflow := False\<rparr>"
  let ?s1 = "gc_collect_root (root_words r) s0" and ?P = "Collect (gc_reach s (root_words r))"
  have m0: "marks s s0" by (simp add: marks_def same_frame_def s0_def)
  have ov: "\<not> gc_stack_overflow s0" by (simp add: s0_def)
  have pc0: "pointer_closed s ?P" by (auto simp: pointer_closed_def intro: from_child)
  then have pc: "pointer_closed s0 ?P" using pointer_closed_marks [OF m0] by blast
  have un0: "unclosed s0 = {}" and in0: "marked_in s0 ?P"
    using assms by (simp_all add: unclosed_def marked_in_def gc_wf_def s0_def)
  note root = gc_collect_root_props [of s0 "root_words r"]
  have m1: "marks s ?s1" using root marks_trans [OF m0] by blast
  have "marked_in ?s1 ?P"
    using in0 pc by (intro gc_collect_root_sound)
      (auto simp: marks_same [OF m0] marks_is_obj [OF m0] intro: from_root)
  then have deal: "marks ?s1 (gc_marked r s) \<and> unclosed (gc_marked r s) = {} \<and> marked_in (gc_marked r s) ?P"
    unfolding gc_marked_def s0_def [symmetric] using assms root un0 pc0 ov
    by (intro gc_deal_props) (auto simp: marks_chains_ok [OF m1] pointer_closed_marks [OF m1] gc_wf_def)
  then show m: "marks s (gc_marked r s)" using marks_trans [OF m1] by blast
  have "atb_get_kind (gc_marked r s) b = AT_MARK" if "gc_reach s (root_words r) b" for b
    using that
  proof (induction rule: gc_reach.induct)
    case (from_root p)
    then have "atb_get_kind ?s1 (block_from_ptr s p) \<noteq> AT_HEAD"
      using root by (auto simp: marks_same [OF m0])
    then have "atb_get_kind (gc_marked r s) (block_from_ptr s p) \<noteq> AT_HEAD"
      using deal marks_head_back by blast
    then show ?case using from_root(3) marks_is_obj [OF m] by (auto simp: is_obj_def)
  next
    case (from_child b p)
    then have "closed (gc_marked r s) b" using deal by (auto simp: unclosed_def)
    then have "atb_get_kind (gc_marked r s) (block_from_ptr s p) \<noteq> AT_HEAD"
      using from_child by (simp add: closed_def marks_same [OF m])
    then show ?case using from_child(4) marks_is_obj [OF m] by (auto simp: is_obj_def)
  qed
  then show "atb_get_kind (gc_marked r s) b = AT_MARK \<longleftrightarrow> gc_reach s (root_words r) b"
    using deal by (auto simp: marked_in_def)
qed

definition survives :: "gc_roots \<Rightarrow> gc_state \<Rightarrow> nat \<Rightarrow> bool" where
  "survives r s b \<longleftrightarrow> atb_get_kind s b \<noteq> AT_FREE \<and> gc_reach s (root_words r) (owner s b)"

lemma gc_collect_kind:
  assumes "gc_wf s"
  shows "atb_get_kind (gc_collect r s) b = (if survives r s b then atb_get_kind s b else AT_FREE)"
proof -
  let ?m = "gc_marked r s"
  have m: "marks s ?m" by (rule gc_marked_props(1) [OF assms])
  have own: "owner ?m b = owner s b" by (rule owner_cong) (simp add: marks_tail [OF m])
  have "chains_ok ?m" using assms by (simp add: marks_chains_ok [OF m] gc_wf_def)
  then have "atb_get_kind (gc_collect r s) b = swept ?m b"
    by (simp add: gc_collect_marked gc_sweep_kind)
  moreover have "(if atb_get_kind ?m b = AT_MARK then AT_HEAD else atb_get_kind ?m b) = atb_get_kind s b"
    using m assms unfolding marks_def gc_wf_def by metis
  ultimately show ?thesis
    by (simp add: swept_def survives_def own gc_marked_props(2) [OF assms] marks_free [OF m])
qed

lemma gc_collect_frame: "gc_wf s \<Longrightarrow> same_frame s (gc_collect r s)"
proof -
  assume "gc_wf s"
  then have "same_frame s (gc_marked r s)" using gc_marked_props(1) [of s r] by (simp add: marks_def)
  then have "same_frame s (gc_sweep (gc_marked r s))"
    unfolding gc_sweep_def using same_frame_sweep same_frame_trans by blast
  then show ?thesis by (simp add: gc_collect_marked same_frame_def)
qed

lemma gc_collect_lock:
  "gc_lock_depth s < 2 ^ 16 \<Longrightarrow> gc_lock_depth (gc_collect r s) = gc_lock_depth s"
  by (simp add: gc_collect_marked gc_sweep_def sweep_fields gc_marked_def deal_lock collect_root_lock
      mod_simps)

lemma survives_prev:
  assumes "gc_wf s" and "survives r s b" and "atb_get_kind s b = AT_TAIL"
  shows "0 < b \<and> survives r s (b - 1)"
proof -
  have "0 < b \<and> atb_get_kind s (b - 1) \<noteq> AT_FREE"
    using assms by (simp add: gc_wf_def chains_ok_def)
  then show ?thesis using assms(2,3) by (cases b) (auto simp: survives_def)
qed

lemma gc_collect_wf:
  assumes "gc_wf s"
  shows "gc_wf (gc_collect r s)"
proof -
  let ?t = "gc_collect r s"
  note kind = gc_collect_kind [OF assms, of r]
  have frame: "same_frame s ?t" by (rule gc_collect_frame [OF assms])
  have "gc_layout ?t" using assms gc_layout_frame [OF frame] by (simp add: gc_wf_def)
  moreover have "chains_ok ?t"
    unfolding chains_ok_def same_frameD(2) [OF frame]
    using assms survives_prev [OF assms, of r]
    by (auto simp: kind gc_wf_def chains_ok_def gc_consts survives_def split: if_splits)
  moreover have "hint_ok ?t" by (simp add: hint_ok_def gc_collect_marked)
  moreover have "\<forall>b. atb_get_kind ?t b \<noteq> AT_MARK"
    using assms by (simp add: kind gc_wf_def gc_consts)
  ultimately show ?thesis by (simp add: gc_wf_def)
qed

end
