(* ===== verification/Gc_Heap.thy ===== *)
theory Gc_Heap
  imports Gc_Mark
begin

text \<open>
  The heap as its clients see it: what \<^verbatim>\<open>gc_init\<close>, \<^verbatim>\<open>gc_alloc\<close>, \<^verbatim>\<open>gc_free\<close>,
  \<^verbatim>\<open>gc_realloc\<close>, \<^verbatim>\<open>gc_nbytes\<close>, \<^verbatim>\<open>gc_info\<close> and \<^verbatim>\<open>gc_collect\<close> promise on a
  well-formed heap.
\<close>

subsection \<open>A successful allocation\<close>

text \<open>
  \<open>fresh_chain t s' p k\<close>: \<open>s'\<close> is \<open>t\<close> with \<open>k\<close> blocks that were free in \<open>t\<close> made into the
  chain at \<open>p\<close>, all of its words 0, and nothing else of the table or the pool changed.
\<close>

definition fresh_chain :: "gc_state \<Rightarrow> gc_state \<Rightarrow> nat \<Rightarrow> nat \<Rightarrow> bool" where
  "fresh_chain t s' p k \<longleftrightarrow>
     (let st = block_from_ptr t p in
      p = ptr_from_block t st \<and> free_run t st k \<and> chain_at t s' st k \<and>
      gc_pool s' = overwrite (gc_pool t) (st * 4) (replicate (k * 4) 0) \<and>
      same_frame t (s'\<lparr>gc_pool := gc_pool t\<rparr>))"

lemma alloc_found:
  assumes "gc_find_free t k = Some (i, m)" and "gc_take_run i m t = (p, s')" and wf: "gc_wf t" and k: "0 < k"
  shows "fresh_chain t s' p k" and "gc_wf s'" and "gc_lock_depth s' = gc_lock_depth t"
proof -
  note f = gc_find_free_Some [OF assms(1) k wf]
  define st where "st = i + 1 - k"
  have i: "i = st + k - 1" using f(2) k by (simp add: st_def)
  have run: "free_run t st k" using f(3) by (simp add: st_def)
  have take: "gc_take_run (st + k - 1) k t = (p, s')" using assms(2) f(1) i by simp
  have lay: "gc_layout t" using wf by (simp add: gc_wf_def)
  note t = gc_take_run_props [OF run k lay take]
  have first: "\<forall>b < st. atb_get_kind t b \<noteq> AT_FREE" if "k = 1"
    using f(4) [OF that] i that by simp
  show "gc_wf s'" by (rule gc_take_run_wf [OF wf run k first take])
  have "block_from_ptr t p = st" using t(1) by simp
  then show "fresh_chain t s' p k" using t run by (simp add: fresh_chain_def)
  show "gc_lock_depth s' = gc_lock_depth t" by (rule t(6))
qed

lemma gc_alloc_cases:
  assumes "gc_alloc r n s = (res, s')" and "gc_wf s"
  obtains (refused) "res = None" "s' = s" "gc_alloc_blocks n = 0 \<or> gc_lock_depth s > 0"
  | (found) p t where "res = Some p" "t = s \<or> gc_auto_collect_enabled s \<and> t = gc_collect r s"
      "fresh_chain t s' p (gc_alloc_blocks n)" "gc_wf t" "gc_wf s'" "0 < gc_alloc_blocks n"
      "gc_lock_depth s = 0" "gc_lock_depth s' = 0"
  | (full) "res = None" "s' = (if gc_auto_collect_enabled s then gc_collect r s else s)"
      "gc_lock_depth s = 0" "\<And>st. \<not> free_run s' st (gc_alloc_blocks n)"
proof (cases "gc_alloc_blocks n = 0 \<or> gc_lock_depth s > 0")
  case True
  then show ?thesis using assms(1) by (intro refused) (auto simp: gc_alloc_def Let_def split: if_splits)
next
  case False
  then have k: "0 < gc_alloc_blocks n" and l: "gc_lock_depth s = 0" by simp_all
  let ?c = "gc_collect r s"
  have wfc: "gc_wf ?c" using assms(2) by (rule gc_collect_wf)
  have lc: "gc_lock_depth ?c = 0" using gc_collect_lock [of s r] l by simp
  show ?thesis
  proof (cases "gc_find_free s (gc_alloc_blocks n)")
    case (Some im)
    obtain p u where take: "gc_take_run (fst im) (snd im) s = (p, u)" by fastforce
    have im: "gc_find_free s (gc_alloc_blocks n) = Some (fst im, snd im)" using Some by simp
    have "res = Some p" "s' = u"
      using assms(1) k l Some take by (auto simp: gc_alloc_def Let_def split: prod.splits)
    then show ?thesis
      using found [of p s] alloc_found [OF im take assms(2) k] assms(2) k l by simp
  next
    case none: None
    show ?thesis
    proof (cases "gc_auto_collect_enabled s")
      case False
      then have "res = None" "s' = s" using assms(1) k l none by (simp_all add: gc_alloc_def Let_def)
      then show ?thesis using full False l gc_find_free_None [OF none k assms(2)] by simp
    next
      case auto: True
      show ?thesis
      proof (cases "gc_find_free ?c (gc_alloc_blocks n)")
        case None
        then have "res = None" "s' = ?c" using assms(1) k l none auto by (simp_all add: gc_alloc_def Let_def)
        then show ?thesis using full auto l gc_find_free_None [OF None k wfc] by simp
      next
        case (Some im)
        obtain p u where take: "gc_take_run (fst im) (snd im) ?c = (p, u)" by fastforce
        have im: "gc_find_free ?c (gc_alloc_blocks n) = Some (fst im, snd im)" using Some by simp
        have "res = Some p" "s' = u"
          using assms(1) k l none auto Some take by (auto simp: gc_alloc_def Let_def split: prod.splits)
        then show ?thesis
          using found [of p ?c] alloc_found [OF im take wfc k] wfc k l lc auto by simp
      qed
    qed
  qed
qed

lemma gc_alloc_wf: "gc_wf s \<Longrightarrow> gc_wf (snd (gc_alloc r n s))"
proof -
  assume wf: "gc_wf s"
  obtain res s' where "gc_alloc r n s = (res, s')" by fastforce
  then show ?thesis
    by (rule gc_alloc_cases [OF _ wf]) (use wf gc_collect_wf [OF wf, of r] in \<open>auto simp: \<open>gc_alloc r n s = (res, s')\<close>\<close>)
qed

lemma gc_alloc_blocks_enough:
  "n \<le> 2 ^ 32 - 16 \<Longrightarrow> n \<le> 16 * gc_alloc_blocks n \<and> 16 * gc_alloc_blocks n < n + 16"
proof -
  assume "n \<le> 2 ^ 32 - 16"
  then have "gc_alloc_blocks n = (n + 15) div 16" by (simp add: gc_alloc_blocks_def gc_consts wrap32_def)
  then show ?thesis by linarith
qed

lemma fresh_chain_len:
  assumes "fresh_chain t s' p k" and "0 < k" and "chains_ok t"
  shows "gc_chain_len s' (block_from_ptr t p) = k"
proof (rule gc_chain_len_unique)
  let ?st = "block_from_ptr t p"
  have kind: "atb_get_kind s' b = (if b = ?st then AT_HEAD
      else if ?st < b \<and> b < ?st + k then AT_TAIL else atb_get_kind t b)" for b
    using assms(1) by (simp add: fresh_chain_def chain_at_def Let_def)
  have "atb_get_kind t (?st + k - 1) = AT_FREE"
    using assms(1,2) by (simp add: fresh_chain_def free_run_def Let_def)
  then have "atb_get_kind t (?st + k) \<noteq> AT_TAIL"
    using assms(2,3) unfolding chains_ok_def by (metis diff_is_0_eq' le_add2 less_eq_nat.simps(1))
  then show "atb_get_kind s' (?st + k) \<noteq> AT_TAIL" using assms(2) by (simp add: kind)
  show "atb_get_kind s' (?st + i) = AT_TAIL" if "1 \<le> i" "i < k" for i
    using that by (simp add: kind)
qed (use assms in simp)

lemma fresh_chain_head:
  "fresh_chain t s' p k \<Longrightarrow> 0 < k \<Longrightarrow> gc_layout t \<Longrightarrow>
   verify_ptr t p \<and> atb_get_kind s' (block_from_ptr t p) = AT_HEAD"
  by (simp add: fresh_chain_def chain_at_def free_run_def Let_def verify_ptr_iff)
    (metis add_lessD1 less_add_same_cancel1 order_less_le_trans)

lemma fresh_chain_frame:
  assumes "fresh_chain t s' p k"
  shows "verify_ptr s' q = verify_ptr t q" "block_from_ptr s' q = block_from_ptr t q"
    "ptr_from_block s' b = ptr_from_block t b" "max_block s' = max_block t"
  using assms by (simp_all add: fresh_chain_def Let_def same_frame_def verify_ptr_def block_from_ptr_def
      ptr_from_block_def max_block_def)

subsection \<open>Objects that an operation leaves alone\<close>

definition object_kept :: "gc_state \<Rightarrow> gc_state \<Rightarrow> nat \<Rightarrow> bool" where
  "object_kept s s' c \<longleftrightarrow> atb_get_kind s' c = AT_HEAD \<and> gc_chain_len s' c = gc_chain_len s c \<and>
     chain_words s' c = chain_words s c"

lemma object_kept_trans: "object_kept s t c \<Longrightarrow> object_kept t u c \<Longrightarrow> object_kept s u c"
  by (simp add: object_kept_def)

text \<open>An object is kept when the blocks of its chain and the block behind it keep their role.\<close>

lemma object_kept_intro:
  assumes "atb_get_kind s' c = AT_HEAD"
    and "\<And>i. 1 \<le> i \<Longrightarrow> i \<le> gc_chain_len s c \<Longrightarrow>
      atb_get_kind s' (c + i) = AT_TAIL \<longleftrightarrow> atb_get_kind s (c + i) = AT_TAIL"
    and "subbuf (c * 4) (gc_chain_len s c * 4) (gc_pool s') = subbuf (c * 4) (gc_chain_len s c * 4) (gc_pool s)"
  shows "object_kept s s' c"
proof -
  have "gc_chain_len s' c = gc_chain_len s c"
    using gc_chain_len_pos [of s c]
    by (intro gc_chain_len_unique) (simp_all add: assms(2) gc_chain_len_stop gc_chain_len_tail)
  then show ?thesis using assms(1,3) by (simp add: object_kept_def chain_words_def gc_consts)
qed

lemma head_chains_disjoint:
  assumes "atb_get_kind s b = AT_HEAD" and "atb_get_kind s c = AT_HEAD" and "b \<noteq> c"
  shows "b + gc_chain_len s b \<le> c \<or> c + gc_chain_len s c \<le> b"
proof (rule ccontr)
  assume no: "\<not> ?thesis"
  show False
  proof (cases "b < c")
    case True
    then have "atb_get_kind s (b + (c - b)) = AT_TAIL" using no by (intro gc_chain_len_tail) auto
    then show False using True assms by (simp add: gc_consts)
  next
    case False
    then have "atb_get_kind s (c + (b - c)) = AT_TAIL" using no assms(3) by (intro gc_chain_len_tail) auto
    then show False using False assms by (simp add: gc_consts)
  qed
qed

lemma subbuf_overwrite_other:
  assumes "i + n \<le> j \<or> j + length ys \<le> i" and "j + length ys \<le> length xs" and "i + n \<le> length xs"
  shows "subbuf i n (overwrite xs j ys) = subbuf i n xs"
  using assms by (intro nth_equalityI) (auto simp: nth_subbuf nth_overwrite)

lemma fresh_chain_keeps:
  assumes "fresh_chain t s' p k" and "atb_get_kind t c = AT_HEAD" and "gc_wf t" and "0 < k"
  shows "object_kept t s' c"
proof (rule object_kept_intro)
  let ?st = "block_from_ptr t p"
  have kind: "atb_get_kind s' b = (if b = ?st then AT_HEAD
      else if ?st < b \<and> b < ?st + k then AT_TAIL else atb_get_kind t b)" for b
    using assms(1) by (simp add: fresh_chain_def chain_at_def Let_def)
  have run: "\<And>b. ?st \<le> b \<Longrightarrow> b < ?st + k \<Longrightarrow> atb_get_kind t b = AT_FREE" and max: "?st + k \<le> max_block t"
    using assms(1) by (simp_all add: fresh_chain_def free_run_def Let_def)
  have used: "atb_get_kind t (c + i) \<noteq> AT_FREE" if "i < gc_chain_len t c" for i
    using that assms(2) gc_chain_len_tail [of i t c] by (cases i) (auto simp: gc_consts)
  show "atb_get_kind s' c = AT_HEAD" using assms(2) run [of c] by (auto simp: kind gc_consts)
  have disj: "c + gc_chain_len t c \<le> ?st \<or> ?st + k \<le> c"
  proof (rule ccontr)
    assume no: "\<not> ?thesis"
    show False
    proof (cases "c \<le> ?st")
      case True
      then have "?st - c < gc_chain_len t c" "c + (?st - c) = ?st" using no by auto
      then show False using used [of "?st - c"] run [of ?st] assms(4) by simp
    next
      case False
      then show False using no used [of 0] run [of c] gc_chain_len_pos [of t c] by simp
    qed
  qed
  show "atb_get_kind s' (c + i) = AT_TAIL \<longleftrightarrow> atb_get_kind t (c + i) = AT_TAIL"
    if "1 \<le> i" "i \<le> gc_chain_len t c" for i
    using disj that run [of "c + i"] assms(4) by (auto simp: kind gc_consts)
  have inside: "c + gc_chain_len t c \<le> max_block t"
    using assms(2,3) by (intro gc_chain_inside) (simp_all add: gc_wf_def gc_consts)
  have pool: "gc_pool s' = overwrite (gc_pool t) (?st * 4) (replicate (k * 4) 0)"
    "length (gc_pool t) = max_block t * 4"
    using assms(1,3) by (simp_all add: fresh_chain_def Let_def gc_wf_def gc_layout_def)
  show "subbuf (c * 4) (gc_chain_len t c * 4) (gc_pool s') = subbuf (c * 4) (gc_chain_len t c * 4) (gc_pool t)"
    unfolding pool(1) using disj max inside pool(2) by (intro subbuf_overwrite_other) auto
qed

lemma gc_reach_head: "gc_wf s \<Longrightarrow> gc_reach s roots b \<Longrightarrow> atb_get_kind s b = AT_HEAD"
  using gc_reach_obj [of s roots b] by (auto simp: is_obj_def gc_wf_def)

lemma gc_collect_keeps:
  assumes "gc_wf s" and "gc_reach s (root_words r) c"
  shows "object_kept s (gc_collect r s) c"
proof (rule object_kept_intro)
  have head: "atb_get_kind s c = AT_HEAD" by (rule gc_reach_head [OF assms])
  then have own: "owner s c = c" by (intro owner_no_tail) (simp add: gc_consts)
  have surv: "survives r s c" using assms(2) head own by (simp add: survives_def gc_consts)
  show "atb_get_kind (gc_collect r s) c = AT_HEAD" using surv head by (simp add: gc_collect_kind [OF assms(1)])
  have own_i: "owner s (c + i) = c" if "i < gc_chain_len s c" for i
    using that
  proof (induction i)
    case (Suc i)
    then have "atb_get_kind s (c + Suc i) = AT_TAIL" by (intro gc_chain_len_tail) auto
    then show ?case using Suc by simp
  qed (simp add: own)
  show "atb_get_kind (gc_collect r s) (c + i) = AT_TAIL \<longleftrightarrow> atb_get_kind s (c + i) = AT_TAIL"
    if "1 \<le> i" "i \<le> gc_chain_len s c" for i
  proof (cases "i < gc_chain_len s c")
    case True
    then have "atb_get_kind s (c + i) = AT_TAIL" using that(1) by (intro gc_chain_len_tail) auto
    then show ?thesis
      using own_i [OF True] assms(2) by (simp add: gc_collect_kind [OF assms(1)] survives_def gc_consts)
  next
    case False
    then have "i = gc_chain_len s c" using that by simp
    then show ?thesis
      using gc_chain_len_stop [of s c] by (simp add: gc_collect_kind [OF assms(1)] gc_consts)
  qed
  show "subbuf (c * 4) (gc_chain_len s c * 4) (gc_pool (gc_collect r s)) = subbuf (c * 4) (gc_chain_len s c * 4) (gc_pool s)"
    using same_frameD(6) [OF gc_collect_frame [OF assms(1)]] by simp
qed

lemma chain_freed_keeps:
  assumes "chain_freed s s' st n" and "same_frame s s'" and "atb_get_kind s c = AT_HEAD"
    and "st + n \<le> c \<or> c + gc_chain_len s c \<le> st"
  shows "object_kept s s' c"
proof (rule object_kept_intro)
  have kind: "atb_get_kind s' b = (if st \<le> b \<and> b < st + n then AT_FREE else atb_get_kind s b)" for b
    using assms(1) by (simp add: chain_freed_def)
  show "atb_get_kind s' c = AT_HEAD"
    using assms(3,4) gc_chain_len_pos [of s c] by (auto simp: kind gc_consts)
  show "atb_get_kind s' (c + i) = AT_TAIL \<longleftrightarrow> atb_get_kind s (c + i) = AT_TAIL"
    if "1 \<le> i" "i \<le> gc_chain_len s c" for i
  proof (cases "st \<le> c + i \<and> c + i < st + n")
    case True
    then have "c + i = st" "i = gc_chain_len s c" using that assms(4) by auto
    then show ?thesis using True gc_chain_len_stop [of s c] by (simp add: kind gc_consts)
  next
    case False
    then show ?thesis by (simp only: kind if_False)
  qed
  show "subbuf (c * 4) (gc_chain_len s c * 4) (gc_pool s') = subbuf (c * 4) (gc_chain_len s c * 4) (gc_pool s)"
    using same_frameD(6) [OF assms(2)] by simp
qed

subsection \<open>Resizing\<close>

lemma gc_realloc_unfold:
  assumes wf: "gc_wf s" and l: "gc_lock_depth s = 0" and head: "atb_get_kind s b = AT_HEAD" and n: "n \<noteq> 0"
  obtains n_free where "free_run s (b + gc_chain_len s b) n_free"
    and "gc_realloc r (Some (ptr_from_block s b)) n mv s =
      (let k = gc_alloc_blocks n; nb = gc_chain_len s b; ptr = ptr_from_block s b in
       if k = nb then (Some ptr, s)
       else if k < nb then
         (Some ptr, (if (b + k) div 4 < gc_last_free_atb_index s
            then (atb_free_run (b + k) (nb - k) s)\<lparr>gc_last_free_atb_index := (b + k) div 4\<rparr>
            else atb_free_run (b + k) (nb - k) s))
       else if k \<le> nb + n_free then
         (Some ptr, pool_write ((b + nb) * 4) (replicate ((k - nb) * 4) 0) (atb_mark_tails (b + nb) (k - nb) s))
       else if \<not> mv then (None, s)
       else (case gc_alloc r n s of (None, s1) \<Rightarrow> (None, s1)
         | (Some q, s1) \<Rightarrow> (Some q, gc_free (Some ptr)
              (pool_write (block_from_ptr s1 q * 4) (subbuf (b * 4) (nb * 4) (gc_pool s1)) s1))))"
proof -
  have ok: "chains_ok s" and nf: "atb_get_kind s b \<noteq> AT_FREE" using wf head by (simp_all add: gc_wf_def gc_consts)
  obtain nb nf where scan: "gc_realloc_scan s (gc_alloc_blocks n) (b + 1) 1 0 (max_block s - (b + 1)) = (nb, nf)"
    by fastforce
  have "b + 1 \<le> max_block s" using used_block [OF ok nf] by simp
  then have "nb = gc_chain_len s b" "free_run s (b + nb) nf"
    using gc_realloc_scan_props [OF scan ok _ gc_chain_len_pos] nf by simp_all
  moreover have new: "wrap32 (n + 16 - 1) div 16 = gc_alloc_blocks n" by (simp add: gc_alloc_blocks_def gc_consts add.commute)
  ultimately show thesis
  proof (intro that [of nf], goal_cases)
    case 2
    then show ?case
      using scan n l unfolding gc_realloc_def gc_consts Let_def
      unfolding new
      by (cases "gc_alloc r n s"; cases "fst (gc_alloc r n s)")
        (simp_all add: if_distrib [of "Pair _"] split del: if_split cong: if_cong)
  qed simp
qed

lemma gc_realloc_shrink:
  assumes wf: "gc_wf s" and head: "atb_get_kind s b = AT_HEAD" and k: "0 < k" "k \<le> gc_chain_len s b"
    and t: "t = atb_free_run (b + k) (gc_chain_len s b - k) s"
    and s': "s' = (if (b + k) div 4 < gc_last_free_atb_index s then t\<lparr>gc_last_free_atb_index := (b + k) div 4\<rparr> else t)"
  shows "gc_wf s'" and "chain_freed s s' (b + k) (gc_chain_len s b - k)" and "same_frame s s'"
    and "gc_lock_depth s' = gc_lock_depth s"
proof -
  have ok: "chains_ok s" and lay: "gc_layout s" using wf by (simp_all add: gc_wf_def)
  have inside: "b + gc_chain_len s b \<le> max_block s"
    using head by (intro gc_chain_inside [OF ok]) (simp add: gc_consts)
  have "atb_get_kind t x = (if b + k \<le> x \<and> x < b + k + (gc_chain_len s b - k) then AT_FREE else atb_get_kind s x)" for x
    unfolding t using inside k by (intro kind_free_run in_table_max [OF lay]) auto
  then show freed: "chain_freed s s' (b + k) (gc_chain_len s b - k)" by (simp add: chain_freed_def s')
  have frame_t: "same_frame s t" by (simp add: t)
  then show frame: "same_frame s s'" by (simp add: s' same_frame_def)
  show "gc_lock_depth s' = gc_lock_depth s" by (simp add: s' t)
  have stop: "atb_get_kind s (b + k + (gc_chain_len s b - k)) \<noteq> AT_TAIL"
    using k gc_chain_len_stop [of s b] by simp
  have hint: "gc_last_free_atb_index s' = min (gc_last_free_atb_index s) ((b + k) div 4)"
    by (simp add: s' t)
  show "gc_wf s'"
    by (rule chain_freed_wf [OF wf freed frame stop]) (auto simp: hint min_def)
qed

lemma gc_realloc_grow:
  assumes wf: "gc_wf s" and head: "atb_get_kind s b = AT_HEAD" and k: "gc_chain_len s b < k"
    and run: "free_run s (b + gc_chain_len s b) n_free" and fits: "k \<le> gc_chain_len s b + n_free"
    and s': "s' = pool_write ((b + gc_chain_len s b) * 4) (replicate ((k - gc_chain_len s b) * 4) 0)
        (atb_mark_tails (b + gc_chain_len s b) (k - gc_chain_len s b) s)"
  shows "gc_wf s'" and "gc_chain_len s' b = k"
    and "atb_get_kind s' x = (if b + gc_chain_len s b \<le> x \<and> x < b + k then AT_TAIL else atb_get_kind s x)"
    and "same_frame s (s'\<lparr>gc_pool := gc_pool s\<rparr>)" and "gc_lock_depth s' = gc_lock_depth s"
proof -
  let ?nb = "gc_chain_len s b"
  let ?t = "atb_mark_tails (b + ?nb) (k - ?nb) s"
  have ok: "chains_ok s" and lay: "gc_layout s" using wf by (simp_all add: gc_wf_def)
  have free: "x < max_block s \<and> atb_get_kind s x = AT_FREE" if "b + ?nb \<le> x" "x < b + k" for x
    using run that fits by (simp add: free_run_def)
  have "atb_get_kind ?t x = (if b + ?nb \<le> x \<and> x < b + ?nb + (k - ?nb) then AT_TAIL else atb_get_kind s x)" for x
    using free k by (intro kind_mark_tails) (simp add: in_table_max [OF lay])
  then have kind: "atb_get_kind s' x = (if b + ?nb \<le> x \<and> x < b + k then AT_TAIL else atb_get_kind s x)" for x
    using k by (simp add: s' pool_write_def)
  then show "atb_get_kind s' x = (if b + ?nb \<le> x \<and> x < b + k then AT_TAIL else atb_get_kind s x)" .
  have frame_t: "same_frame s ?t" by simp
  then show frame: "same_frame s (s'\<lparr>gc_pool := gc_pool s\<rparr>)"
    by (simp add: s' pool_write_def same_frame_def)
  show "gc_lock_depth s' = gc_lock_depth s" by (simp add: s' pool_write_def)
  have "atb_get_kind s (b + k) \<noteq> AT_TAIL"
  proof -
    have "b + ?nb \<le> b + k - 1" "b + k - 1 < b + k" using k by auto
    then have "atb_get_kind s (b + k - 1) = AT_FREE" using free by blast
    then show ?thesis using ok by (auto simp: chains_ok_def)
  qed
  then show "gc_chain_len s' b = k"
    using k gc_chain_len_tail [of _ s b] gc_chain_len_pos [of s b]
    by (intro gc_chain_len_unique) (auto simp: kind)
  have last_used: "atb_get_kind s (b + ?nb - 1) \<noteq> AT_FREE"
    using head gc_chain_len_tail [of "?nb - 1" s b] gc_chain_len_pos [of s b]
    by (cases "?nb = 1") (auto simp: gc_consts)
  have max: "max_block s' = max_block s" using frame by (simp add: same_frame_def max_block_def)
  have "b + k \<le> max_block s" using run fits by (simp add: free_run_def)
  then have len: "length (gc_pool s') = length (gc_pool s)"
    using frame_t k lay by (simp add: s' pool_write_def same_frame_def gc_layout_def)
  have "chains_ok s'" unfolding chains_ok_def max
  proof (intro conjI allI impI)
    show "atb_get_kind s' x = AT_FREE" if "x \<ge> max_block s" for x
      using that ok free [of x] by (auto simp: kind chains_ok_def)
    fix x assume x: "atb_get_kind s' x = AT_TAIL"
    show "0 < x" using x ok kind [of x] gc_chain_len_pos [of s b] by (auto simp: chains_ok_def split: if_splits)
    show "atb_get_kind s' (x - 1) \<noteq> AT_FREE"
    proof (cases "b + ?nb \<le> x \<and> x < b + k")
      case True
      then show ?thesis using last_used by (cases "x = b + ?nb") (auto simp: kind gc_consts)
    next
      case False
      then have "atb_get_kind s (x - 1) \<noteq> AT_FREE" using x ok kind [of x] by (auto simp: chains_ok_def split: if_splits)
      then show ?thesis by (simp add: kind gc_consts)
    qed
  qed
  moreover have "gc_layout s'" using lay frame len by (simp add: gc_layout_def same_frame_def max_block_def)
  moreover have "hint_ok s'"
    using wf kind by (simp add: gc_wf_def hint_ok_def s' pool_write_def gc_consts)
  ultimately show "gc_wf s'" using wf kind by (simp add: gc_wf_def gc_consts)
qed

lemma gc_realloc_contents_in_place:
  assumes wf: "gc_wf s" and head: "atb_get_kind s b = AT_HEAD" and k: "0 < k" "k \<le> gc_chain_len s b"
    and freed: "chain_freed s s' (b + k) (gc_chain_len s b - k)" and frame: "same_frame s s'"
  shows "atb_get_kind s' b = AT_HEAD" and "gc_chain_len s' b = k" and "gc_pool s' = gc_pool s"
proof -
  have kind: "atb_get_kind s' x = (if b + k \<le> x \<and> x < b + k + (gc_chain_len s b - k) then AT_FREE else atb_get_kind s x)" for x
    using freed by (simp add: chain_freed_def)
  show "atb_get_kind s' b = AT_HEAD" using head k by (simp add: kind)
  have "atb_get_kind s' (b + k) \<noteq> AT_TAIL"
    using k gc_chain_len_stop [of s b] by (cases "k = gc_chain_len s b") (auto simp: kind gc_consts)
  then show "gc_chain_len s' b = k"
    using k by (intro gc_chain_len_unique) (auto simp: kind intro!: gc_chain_len_tail)
  show "gc_pool s' = gc_pool s" by (rule same_frameD(6) [OF frame])
qed

text \<open>
  \<open>resized s s' b c n\<close>: the object at block \<open>b\<close> of \<open>s\<close> is, in \<open>s'\<close>, the object at block
  \<open>c\<close> with \<open>n\<close> blocks, its contents a prefix of the old ones or the old ones followed by zeros.
\<close>

definition resized :: "gc_state \<Rightarrow> gc_state \<Rightarrow> nat \<Rightarrow> nat \<Rightarrow> nat \<Rightarrow> bool" where
  "resized s s' b c n \<longleftrightarrow>
     atb_get_kind s' c = AT_HEAD \<and> gc_chain_len s' c = n \<and>
     chain_words s' c = take (4 * n) (chain_words s b) @ replicate (4 * (n - gc_chain_len s b)) 0"

lemma length_chain_words:
  "gc_wf s \<Longrightarrow> atb_get_kind s b = AT_HEAD \<Longrightarrow> length (chain_words s b) = 4 * gc_chain_len s b"
  using gc_chain_inside [of s b]
  by (simp add: chain_words_def gc_wf_def gc_layout_def gc_consts)

lemma subbuf_append_zeros:
  assumes "i + n + m \<le> length xs"
  shows "subbuf i (n + m) (overwrite xs (i + n) (replicate m z)) = subbuf i n xs @ replicate m z"
  using assms by (intro nth_equalityI) (auto simp: nth_subbuf nth_overwrite nth_append)

lemma gc_realloc_resized_in_place:
  assumes wf: "gc_wf s" and head: "atb_get_kind s b = AT_HEAD" and k: "0 < k" "k \<le> gc_chain_len s b"
    and freed: "chain_freed s s' (b + k) (gc_chain_len s b - k)" and frame: "same_frame s s'"
  shows "resized s s' b b k"
proof -
  note c = gc_realloc_contents_in_place [OF assms]
  have "chain_words s' b = take (4 * k) (chain_words s b)"
    using c(2,3) k by (simp add: chain_words_def subbuf_def gc_consts min_def mult.commute)
  then show ?thesis using c k by (simp add: resized_def)
qed

lemma gc_realloc_resized_grow:
  assumes wf: "gc_wf s" and head: "atb_get_kind s b = AT_HEAD" and k: "gc_chain_len s b < k"
    and run: "free_run s (b + gc_chain_len s b) n_free" and fits: "k \<le> gc_chain_len s b + n_free"
    and s': "s' = pool_write ((b + gc_chain_len s b) * 4) (replicate ((k - gc_chain_len s b) * 4) 0)
        (atb_mark_tails (b + gc_chain_len s b) (k - gc_chain_len s b) s)"
  shows "resized s s' b b k"
proof -
  let ?nb = "gc_chain_len s b"
  note g = gc_realloc_grow [OF assms]
  have "b + k \<le> max_block s" using run fits by (simp add: free_run_def)
  then have "b * 4 + ?nb * 4 + (k - ?nb) * 4 \<le> length (gc_pool s)"
    using wf k by (simp add: gc_wf_def gc_layout_def)
  then have sub: "subbuf (b * 4) (?nb * 4 + (k - ?nb) * 4) (overwrite (gc_pool s) (b * 4 + ?nb * 4) (replicate ((k - ?nb) * 4) 0)) =
      subbuf (b * 4) (?nb * 4) (gc_pool s) @ replicate ((k - ?nb) * 4) 0"
    by (rule subbuf_append_zeros)
  have pool: "gc_pool s' = overwrite (gc_pool s) (b * 4 + ?nb * 4) (replicate ((k - ?nb) * 4) 0)"
    using same_frameD(6) [OF same_frame_runs(1)] by (simp add: s' pool_write_def add_mult_distrib)
  have len: "?nb * 4 + (k - ?nb) * 4 = k * 4" using k by simp
  have "chain_words s' b = chain_words s b @ replicate ((k - ?nb) * 4) 0"
    using sub unfolding len by (simp add: chain_words_def g(2) pool gc_consts)
  moreover have "take (4 * k) (chain_words s b) = chain_words s b"
    using length_chain_words [OF wf head] k by simp
  moreover have "atb_get_kind s' b = AT_HEAD"
    using g(3) [of b] head gc_chain_len_pos [of s b] by simp
  ultimately show ?thesis using g(2) by (simp add: resized_def mult.commute)
qed

lemma gc_realloc_grow_keeps:
  assumes wf: "gc_wf s" and head: "atb_get_kind s b = AT_HEAD" and k: "gc_chain_len s b < k"
    and run: "free_run s (b + gc_chain_len s b) n_free" and fits: "k \<le> gc_chain_len s b + n_free"
    and s': "s' = pool_write ((b + gc_chain_len s b) * 4) (replicate ((k - gc_chain_len s b) * 4) 0)
        (atb_mark_tails (b + gc_chain_len s b) (k - gc_chain_len s b) s)"
    and c: "atb_get_kind s c = AT_HEAD" and ne: "c \<noteq> b"
  shows "object_kept s s' c"
proof (rule object_kept_intro)
  let ?nb = "gc_chain_len s b"
  note kind = gc_realloc_grow(3) [OF wf head k run fits s']
  have free: "atb_get_kind s x = AT_FREE" if "b + ?nb \<le> x" "x < b + k" for x
    using run that fits by (simp add: free_run_def)
  have used: "atb_get_kind s (c + i) \<noteq> AT_FREE" if "i < gc_chain_len s c" for i
    using that c gc_chain_len_tail [of i s c] by (cases i) (auto simp: gc_consts)
  have disj: "b + ?nb \<le> c \<or> c + gc_chain_len s c \<le> b"
    by (rule head_chains_disjoint [OF head c]) (use ne in simp)
  have far: "b + k \<le> c \<or> c + gc_chain_len s c \<le> b"
    using disj free [of c] c by (cases "b + k \<le> c") (auto simp: gc_consts)
  show "atb_get_kind s' c = AT_HEAD" using far c gc_chain_len_pos [of s c] by (auto simp: kind)
  show "atb_get_kind s' (c + i) = AT_TAIL \<longleftrightarrow> atb_get_kind s (c + i) = AT_TAIL"
    if "1 \<le> i" "i \<le> gc_chain_len s c" for i
    using far that gc_chain_len_pos [of s b] by (auto simp: kind)
  have "c + gc_chain_len s c \<le> max_block s" "b + k \<le> max_block s" "length (gc_pool s) = max_block s * 4"
    using gc_chain_inside [of s c] wf c run fits by (auto simp: gc_wf_def gc_layout_def free_run_def gc_consts)
  then show "subbuf (c * 4) (gc_chain_len s c * 4) (gc_pool s') = subbuf (c * 4) (gc_chain_len s c * 4) (gc_pool s)"
    using far k same_frameD(6) [OF same_frame_runs(1)]
    by (auto simp: s' pool_write_def intro!: subbuf_overwrite_other)
qed

text \<open>
  The last branch of \<^verbatim>\<open>gc_realloc\<close>: allocate elsewhere, copy, free. The old object must be
  reachable, since the allocation may collect.
\<close>

lemma pool_write_simps [simp]:
  "atb_get_kind (pool_write w ws s) b = atb_get_kind s b"
  "gc_lock_depth (pool_write w ws s) = gc_lock_depth s"
  "gc_last_free_atb_index (pool_write w ws s) = gc_last_free_atb_index s"
  "ptr_from_block (pool_write w ws s) b = ptr_from_block s b"
  "block_from_ptr (pool_write w ws s) p = block_from_ptr s p"
  "max_block (pool_write w ws s) = max_block s"
  by (simp_all add: pool_write_def ptr_from_block_def block_from_ptr_def max_block_def)

lemma pool_write_chain_len [simp]: "gc_chain_len (pool_write w ws s) b = gc_chain_len s b"
  by (rule gc_chain_len_cong) simp

lemma pool_write_wf:
  assumes "gc_wf s" and "w + length ws \<le> length (gc_pool s)"
  shows "gc_wf (pool_write w ws s)"
  using assms
  by (simp add: gc_wf_def gc_layout_def chains_ok_def hint_ok_def) (simp add: pool_write_def)

lemma subbuf_overwrite_prefix:
  assumes "i + n \<le> length xs" and "length ys \<le> n"
  shows "subbuf i n (overwrite xs i ys) = ys @ subbuf (i + length ys) (n - length ys) xs"
  using assms by (intro nth_equalityI) (auto simp: nth_subbuf nth_overwrite nth_append)

lemma gc_realloc_moved:
  assumes wf: "gc_wf s" and head: "atb_get_kind s b = AT_HEAD" and reach: "gc_reach s (root_words r) b"
    and alloc: "gc_alloc r n s = (Some q, s1)" and k: "gc_chain_len s b < gc_alloc_blocks n"
    and s2: "s2 = pool_write (block_from_ptr s1 q * 4) (subbuf (b * 4) (gc_chain_len s b * 4) (gc_pool s1)) s1"
    and s': "s' = gc_free (Some (ptr_from_block s b)) s2"
  shows "gc_wf s'" and "resized s s' b (block_from_ptr s q) (gc_alloc_blocks n)" and "gc_lock_depth s' = 0"
    and "\<And>c. gc_reach s (root_words r) c \<Longrightarrow> c \<noteq> b \<Longrightarrow> object_kept s s' c"
proof -
  let ?k = "gc_alloc_blocks n" and ?nb = "gc_chain_len s b" and ?st = "block_from_ptr s q"
  obtain t where t: "t = s \<or> gc_auto_collect_enabled s \<and> t = gc_collect r s"
    and fresh: "fresh_chain t s1 q ?k" and wft: "gc_wf t" and wf1: "gc_wf s1" and k0: "0 < ?k"
    and l1: "gc_lock_depth s1 = 0"
    using alloc wf by (elim gc_alloc_cases) auto
  have kept_t: "object_kept s t c" if "gc_reach s (root_words r) c" for c
    using t gc_collect_keeps [OF wf that] gc_reach_head [OF wf that] by (auto simp: object_kept_def)
  then have kept1: "object_kept s s1 c" if "gc_reach s (root_words r) c" for c
    using that fresh_chain_keeps [OF fresh _ wft k0, of c] by (auto simp: object_kept_def)
  have "same_frame s t" using t gc_collect_frame [OF wf] by auto
  then have st: "block_from_ptr t q = ?st" and st1: "block_from_ptr s1 p = block_from_ptr s p"
    and ptr1: "ptr_from_block s1 c = ptr_from_block s c" for c p
    using fresh_chain_frame [OF fresh] by (simp_all add: same_frameD)
  have b1: "atb_get_kind s1 b = AT_HEAD" and nb1: "gc_chain_len s1 b = ?nb" and w1: "chain_words s1 b = chain_words s b"
    using kept1 [OF reach] by (simp_all add: object_kept_def)
  have q1: "atb_get_kind s1 ?st = AT_HEAD" and qlen: "gc_chain_len s1 ?st = ?k"
    using fresh_chain_head [OF fresh k0] fresh_chain_len [OF fresh k0] wft st by (simp_all add: gc_wf_def)
  have words: "subbuf (b * 4) (?nb * 4) (gc_pool s1) = chain_words s b"
    using w1 nb1 by (simp add: chain_words_def gc_consts)
  have len: "length (chain_words s b) = ?nb * 4" using length_chain_words [OF wf head] by simp
  have s2: "s2 = pool_write (?st * 4) (chain_words s b) s1" using s2 words st1 by simp
  have in1: "?st + ?k \<le> max_block s1" "length (gc_pool s1) = max_block s1 * 4"
    using gc_chain_inside [of s1 ?st] q1 qlen wf1 by (simp_all add: gc_wf_def gc_layout_def gc_consts)
  have wf2: "gc_wf s2" unfolding s2 using wf1 in1 len k by (intro pool_write_wf) auto
  have "ptr_from_block s b = ptr_from_block s2 b" by (simp add: s2 ptr1)
  then have free: "s' = gc_free (Some (ptr_from_block s2 b)) s2" using s' by simp
  have l2: "gc_lock_depth s2 = 0" and b2: "atb_get_kind s2 b = AT_HEAD" using l1 b1 by (simp_all add: s2)
  note fr = gc_free_props [OF wf2 l2 b2, folded free]
  show "gc_wf s'" "gc_lock_depth s' = 0" by (rule fr(3), rule fr(4))
  have ne: "?st \<noteq> b" using qlen nb1 k by auto
  have keep2: "object_kept s2 s' c" if "atb_get_kind s1 c = AT_HEAD" "c \<noteq> b" for c
    using that head_chains_disjoint [OF b1 that(1)] fr(1,2) by (intro chain_freed_keeps) (auto simp: s2)
  have pool0: "subbuf (?st * 4) (?k * 4) (gc_pool s1) = replicate (?k * 4) 0"
    using fresh st in1 subbuf_overwrite_prefix [of "?st * 4" "?k * 4" "gc_pool t" "replicate (?k * 4) 0"]
      fresh_chain_frame(4) [OF fresh] wft
    by (simp add: fresh_chain_def Let_def gc_wf_def gc_layout_def subbuf_def)
  have "subbuf (?st * 4) (?k * 4) (gc_pool s2) =
      chain_words s b @ subbuf (?st * 4 + ?nb * 4) (?k * 4 - ?nb * 4) (gc_pool s1)"
    using subbuf_overwrite_prefix [of "?st * 4" "?k * 4" "gc_pool s1" "chain_words s b"] in1 len k
    by (simp add: s2 pool_write_def)
  also have "subbuf (?st * 4 + ?nb * 4) (?k * 4 - ?nb * 4) (gc_pool s1)
      = drop (?nb * 4) (subbuf (?st * 4) (?k * 4) (gc_pool s1))"
    by (simp add: subbuf_def drop_take add.commute)
  finally have new: "chain_words s2 ?st = chain_words s b @ replicate (?k * 4 - ?nb * 4) 0"
    by (simp add: chain_words_def pool0 gc_consts s2 qlen)
  have "object_kept s2 s' ?st" using keep2 [OF q1 ne] .
  then show "resized s s' b ?st ?k"
    using new len k qlen by (simp add: resized_def object_kept_def s2 diff_mult_distrib mult.commute)
  fix c assume c: "gc_reach s (root_words r) c" and cb: "c \<noteq> b"
  have c1: "atb_get_kind s1 c = AT_HEAD" using kept1 [OF c] by (simp add: object_kept_def)
  have "c \<noteq> ?st"
    using c gc_reach_head [OF wf c] kept_t [OF c] fresh st k0
    by (auto simp: object_kept_def fresh_chain_def free_run_def Let_def gc_consts)
  then have "object_kept s1 s2 c"
    using c1 head_chains_disjoint [OF q1 c1] gc_chain_inside [of s1 c] wf1 in1 len k qlen
    by (intro object_kept_intro) (auto simp: s2 pool_write_def gc_wf_def gc_consts intro!: subbuf_overwrite_other)
  then show "object_kept s s' c" using kept1 [OF c] keep2 [OF c1 cb] by (blast intro: object_kept_trans)
qed

text \<open>The outcomes of resizing an object.\<close>

lemma gc_realloc_cases:
  assumes wf: "gc_wf s" and l: "gc_lock_depth s = 0" and head: "atb_get_kind s b = AT_HEAD" and n: "n \<noteq> 0"
    and eq: "gc_realloc r (Some (ptr_from_block s b)) n mv s = (res, s')"
  obtains (same) "gc_alloc_blocks n = gc_chain_len s b" "res = Some (ptr_from_block s b)" "s' = s"
  | (shrink) "gc_alloc_blocks n < gc_chain_len s b" "res = Some (ptr_from_block s b)"
      "s' = (if (b + gc_alloc_blocks n) div 4 < gc_last_free_atb_index s
         then (atb_free_run (b + gc_alloc_blocks n) (gc_chain_len s b - gc_alloc_blocks n) s)
           \<lparr>gc_last_free_atb_index := (b + gc_alloc_blocks n) div 4\<rparr>
         else atb_free_run (b + gc_alloc_blocks n) (gc_chain_len s b - gc_alloc_blocks n) s)"
  | (grow) n_free where "gc_chain_len s b < gc_alloc_blocks n" "free_run s (b + gc_chain_len s b) n_free"
      "gc_alloc_blocks n \<le> gc_chain_len s b + n_free" "res = Some (ptr_from_block s b)"
      "s' = pool_write ((b + gc_chain_len s b) * 4) (replicate ((gc_alloc_blocks n - gc_chain_len s b) * 4) 0)
        (atb_mark_tails (b + gc_chain_len s b) (gc_alloc_blocks n - gc_chain_len s b) s)"
  | (stuck) "res = None" "s' = s"
  | (failed) "res = None" "gc_alloc r n s = (None, s')"
  | (moved) q s1 where "gc_chain_len s b < gc_alloc_blocks n" "res = Some q" "gc_alloc r n s = (Some q, s1)"
      "s' = gc_free (Some (ptr_from_block s b))
        (pool_write (block_from_ptr s1 q * 4) (subbuf (b * 4) (gc_chain_len s b * 4) (gc_pool s1)) s1)"
proof (rule gc_realloc_unfold [OF wf l head n, of r mv])
  fix n_free assume run: "free_run s (b + gc_chain_len s b) n_free"
    and u: "gc_realloc r (Some (ptr_from_block s b)) n mv s =
      (let k = gc_alloc_blocks n; nb = gc_chain_len s b; ptr = ptr_from_block s b in
       if k = nb then (Some ptr, s)
       else if k < nb then
         (Some ptr, (if (b + k) div 4 < gc_last_free_atb_index s
            then (atb_free_run (b + k) (nb - k) s)\<lparr>gc_last_free_atb_index := (b + k) div 4\<rparr>
            else atb_free_run (b + k) (nb - k) s))
       else if k \<le> nb + n_free then
         (Some ptr, pool_write ((b + nb) * 4) (replicate ((k - nb) * 4) 0) (atb_mark_tails (b + nb) (k - nb) s))
       else if \<not> mv then (None, s)
       else (case gc_alloc r n s of (None, s1) \<Rightarrow> (None, s1)
         | (Some q, s1) \<Rightarrow> (Some q, gc_free (Some ptr)
              (pool_write (block_from_ptr s1 q * 4) (subbuf (b * 4) (nb * 4) (gc_pool s1)) s1))))"
  let ?k = "gc_alloc_blocks n" and ?nb = "gc_chain_len s b"
  consider "?k = ?nb" | "?k < ?nb" | "?nb < ?k" "?k \<le> ?nb + n_free" | "?nb < ?k" "?nb + n_free < ?k" by linarith
  then show thesis
  proof cases
    case 1
    then have "(res, s') = (Some (ptr_from_block s b), s)" unfolding eq [symmetric] u by (simp add: Let_def)
    then show thesis by (intro same [OF 1]) simp_all
  next
    case 2
    then have "res = Some (ptr_from_block s b)" "s' = (if (b + ?k) div 4 < gc_last_free_atb_index s
         then (atb_free_run (b + ?k) (?nb - ?k) s)\<lparr>gc_last_free_atb_index := (b + ?k) div 4\<rparr>
         else atb_free_run (b + ?k) (?nb - ?k) s)" using eq u by (simp_all add: Let_def)
    then show thesis by (rule shrink [OF 2])
  next
    case 3
    then have "res = Some (ptr_from_block s b)"
      "s' = pool_write ((b + ?nb) * 4) (replicate ((?k - ?nb) * 4) 0) (atb_mark_tails (b + ?nb) (?k - ?nb) s)"
      using eq u by (simp_all add: Let_def)
    then show thesis by (rule grow [OF 3(1) run 3(2)])
  next
    case 4
    obtain a s1 where a: "gc_alloc r n s = (a, s1)" by fastforce
    show thesis
    proof (cases mv)
      case False
      then have "res = None" "s' = s" using 4 eq u by (simp_all add: Let_def)
      then show thesis by (rule stuck)
    next
      case True
      show thesis
      proof (cases a)
        case None
        then have "res = None" "gc_alloc r n s = (None, s')" using 4 True a eq u by (simp_all add: Let_def)
        then show thesis by (rule failed)
      next
        case (Some q)
        then have "res = Some q" "gc_alloc r n s = (Some q, s1)" "s' = gc_free (Some (ptr_from_block s b))
            (pool_write (block_from_ptr s1 q * 4) (subbuf (b * 4) (?nb * 4) (gc_pool s1)) s1)"
          using 4 True a eq u by (simp_all add: Let_def)
        then show thesis by (rule moved [OF 4(1)])
      qed
    qed
  qed
qed

end
