(* ===== verification/Gc_Info.thy ===== *)
theory Gc_Info
  imports Gc_Alloc
begin

text \<open>
  What \<^verbatim>\<open>gc_info\<close> reports: the used and free bytes, and the length of the longest run of free
  blocks.
\<close>

subsection \<open>Statistics\<close>

lemma count_range_Suc:
  "card {x. b \<le> x \<and> x < b + Suc n \<and> P x} = of_bool (P b) + card {x. b + 1 \<le> x \<and> x < b + 1 + n \<and> P x}"
proof -
  have "{x. b \<le> x \<and> x < b + Suc n \<and> P x} =
      {x. x = b \<and> P x} \<union> {x. b + 1 \<le> x \<and> x < b + 1 + n \<and> P x}" by auto
  moreover have "{x. x = b \<and> P x} = (if P b then {b} else {})" by auto
  ultimately show ?thesis by (auto simp: card_insert_if)
qed

lemma gc_info_counts:
  assumes "\<And>b. atb_get_kind s b \<noteq> AT_MARK"
  shows "gi_free (gc_info_from s n b l lf info) =
      gi_free info + card {x. b \<le> x \<and> x < b + n \<and> atb_get_kind s x = AT_FREE} \<and>
    gi_used (gc_info_from s n b l lf info) =
      gi_used info + card {x. b \<le> x \<and> x < b + n \<and> atb_get_kind s x \<noteq> AT_FREE} \<and>
    gi_total (gc_info_from s n b l lf info) = gi_total info"
proof (induction n arbitrary: b l lf info)
  case (Suc n)
  have range: "atb_get_kind s b = AT_FREE \<or> atb_get_kind s b = AT_HEAD \<or> atb_get_kind s b = AT_TAIL"
    using assms [of b] atb_get_kind_range [of s b] by auto
  show ?case
    unfolding count_range_Suc using range
    by (elim disjE) (simp_all add: Let_def Suc AT_FREE_def AT_HEAD_def AT_TAIL_def)
qed simp

text \<open>
  The length of the longest free run: the loop keeps the length of the free run that ends at the
  current block and the longest one completed so far.
\<close>

definition run_within :: "gc_state \<Rightarrow> nat \<Rightarrow> nat \<Rightarrow> nat \<Rightarrow> bool" where
  "run_within s b st k \<longleftrightarrow> st + k \<le> b \<and> (\<forall>x. st \<le> x \<longrightarrow> x < st + k \<longrightarrow> atb_get_kind s x = AT_FREE)"

definition max_free_inv :: "gc_state \<Rightarrow> nat \<Rightarrow> nat \<Rightarrow> nat \<Rightarrow> bool" where
  "max_free_inv s b lf mf \<longleftrightarrow>
     (\<forall>st k. run_within s b st k \<longrightarrow> k \<le> max mf lf \<and> (st + k = b \<longrightarrow> atb_get_kind s b = AT_FREE \<longrightarrow> k \<le> lf)) \<and>
     (\<exists>st. run_within s b st mf) \<and> lf \<le> b \<and> run_within s b (b - lf) lf \<and>
     (atb_get_kind s b \<noteq> AT_FREE \<longrightarrow> lf = 0)"

lemma run_within_Suc:
  "run_within s (Suc b) st k \<longleftrightarrow> run_within s b st k \<or>
     st + k = Suc b \<and> (k = 0 \<or> atb_get_kind s b = AT_FREE \<and> run_within s b st (k - 1))"
proof (cases "st + k = Suc b")
  case True
  show ?thesis
  proof (cases k)
    case (Suc j)
    then have "st + j = b" using True by simp
    then have "(\<forall>x. st \<le> x \<longrightarrow> x < Suc b \<longrightarrow> atb_get_kind s x = AT_FREE) \<longleftrightarrow>
        atb_get_kind s b = AT_FREE \<and> (\<forall>x. st \<le> x \<longrightarrow> x < b \<longrightarrow> atb_get_kind s x = AT_FREE)"
      by (metis le_add1 less_Suc_eq)
    then show ?thesis using Suc True \<open>st + j = b\<close> by (simp add: run_within_def)
  qed (use True in \<open>auto simp: run_within_def\<close>)
qed (auto simp: run_within_def)

lemma max_free_step:
  assumes inv: "max_free_inv s b lf mf" and ok: "chains_ok s" and nm: "\<And>x. atb_get_kind s x \<noteq> AT_MARK"
    and lf1: "lf1 = (if atb_get_kind s b = AT_FREE then lf + 1 else lf)"
  shows "max_free_inv s (Suc b) (if atb_get_kind s (Suc b) = AT_HEAD then 0 else lf1)
      (if atb_get_kind s (Suc b) = AT_HEAD then max mf lf1 else mf)"
    and "run_within s (Suc b) st k \<Longrightarrow> k \<le> max mf lf1" and "\<exists>st. run_within s (Suc b) st (max mf lf1)"
proof -
  have all: "\<And>st k. run_within s b st k \<Longrightarrow> k \<le> max mf lf \<and> (st + k = b \<longrightarrow> atb_get_kind s b = AT_FREE \<longrightarrow> k \<le> lf)"
    and ex: "\<exists>st. run_within s b st mf" and lfb: "lf \<le> b" and tr: "run_within s b (b - lf) lf"
    and used: "atb_get_kind s b \<noteq> AT_FREE \<Longrightarrow> lf = 0"
    using inv by (simp_all add: max_free_inv_def)
  have bound: "k \<le> max mf lf1 \<and> (st + k = Suc b \<longrightarrow> k \<le> lf1)" if "run_within s (Suc b) st k" for st k
  proof (cases "run_within s b st k")
    case True
    then show ?thesis using all [OF True] lf1 by (auto simp: run_within_def)
  next
    case False
    then have e: "st + k = Suc b" and c: "k = 0 \<or> atb_get_kind s b = AT_FREE \<and> run_within s b st (k - 1)"
      using that run_within_Suc by blast+
    show ?thesis
    proof (cases "k = 0")
      case False
      then have "st + (k - 1) = b" "atb_get_kind s b = AT_FREE" "run_within s b st (k - 1)" using c e by auto
      then show ?thesis using all [of st "k - 1"] lf1 by auto
    qed simp
  qed
  show "run_within s (Suc b) st k \<Longrightarrow> k \<le> max mf lf1" using bound by blast
  have mono: "run_within s b st k \<Longrightarrow> run_within s (Suc b) st k" for st k by (simp add: run_within_Suc)
  have tr1: "lf1 \<le> Suc b" "run_within s (Suc b) (Suc b - lf1) lf1"
    using tr lfb used by (cases "atb_get_kind s b = AT_FREE"; simp add: lf1 run_within_Suc; simp add: run_within_def)+
  show ex1: "\<exists>st. run_within s (Suc b) st (max mf lf1)" using ex mono tr1(2) by (metis max_def)
  have "lf1 = 0" if "atb_get_kind s (Suc b) = AT_TAIL"
  proof -
    have "atb_get_kind s b \<noteq> AT_FREE" using that ok unfolding chains_ok_def by (metis diff_Suc_1)
    then show ?thesis using used by (simp add: lf1)
  qed
  then have zero: "lf1 = 0" if "atb_get_kind s (Suc b) \<noteq> AT_FREE" "atb_get_kind s (Suc b) \<noteq> AT_HEAD"
    using that nm [of "Suc b"] atb_get_kind_range [of s "Suc b"] by auto
  have exm: "\<exists>st. run_within s (Suc b) st mf" using ex mono by blast
  show "max_free_inv s (Suc b) (if atb_get_kind s (Suc b) = AT_HEAD then 0 else lf1)
      (if atb_get_kind s (Suc b) = AT_HEAD then max mf lf1 else mf)"
  proof (cases "atb_get_kind s (Suc b) = AT_HEAD")
    case True
    then have "atb_get_kind s (Suc b) \<noteq> AT_FREE" by (simp add: gc_consts)
    moreover have "run_within s (Suc b) (Suc b - 0) 0" by (simp add: run_within_def)
    ultimately show ?thesis using True bound ex1 unfolding max_free_inv_def by simp
  next
    case False
    then show ?thesis using bound tr1 exm zero unfolding max_free_inv_def by auto
  qed
qed

lemma gc_info_step:
  fixes s b n lf and info :: gc_info_t
  defines "lf1 \<equiv> (if atb_get_kind s b = AT_FREE then lf + 1 else lf)"
    and "new \<equiv> n = 0 \<or> atb_get_kind s (b + 1) = AT_HEAD"
  obtains l' info' where "gc_info_from s (Suc n) b l lf info =
      gc_info_from s n (b + 1) l' (if new then 0 else lf1) info'"
    and "gi_max_free info' = (if new then max (gi_max_free info) lf1 else gi_max_free info)"
proof -
  define k where "k = atb_get_kind s b"
  define l1 where "l1 = (if k = AT_FREE then 0 else if k = AT_HEAD then 1 else if k = AT_TAIL then l + 1 else l)"
  define info1 where "info1 = (if k = AT_FREE then info\<lparr>gi_free := gi_free info + 1\<rparr>
      else if k = AT_HEAD \<or> k = AT_TAIL then info\<lparr>gi_used := gi_used info + 1\<rparr> else info)"
  define k' where "k' = (if n = 0 then k else atb_get_kind s (b + 1))"
  define info2 where "info2 = (if l1 = 1 then info1\<lparr>gi_num_1block := gi_num_1block info1 + 1\<rparr>
      else if l1 = 2 then info1\<lparr>gi_num_2block := gi_num_2block info1 + 1\<rparr> else info1)"
  define info3 where "info3 = (if l1 > gi_max_block info2 then info2\<lparr>gi_max_block := l1\<rparr> else info2)"
  define info' where "info' = (if n = 0 \<or> k' = AT_FREE \<or> k' = AT_HEAD
      then if new then if lf1 > gi_max_free info3 then info3\<lparr>gi_max_free := lf1\<rparr> else info3 else info3
      else info1)"
  have "gi_max_free info3 = gi_max_free info" "gi_max_free info1 = gi_max_free info"
    by (simp_all add: info3_def info2_def info1_def)
  then have max: "gi_max_free info' = (if new then max (gi_max_free info) lf1 else gi_max_free info)"
    by (auto simp: info'_def new_def k'_def max_def)
  have new': "new \<longleftrightarrow> n = 0 \<or> k' = AT_HEAD" by (auto simp: new_def k'_def)
  have tup: "(if k = AT_FREE then (info\<lparr>gi_free := gi_free info + 1\<rparr>, 0, lf + 1)
       else if k = AT_HEAD then (info\<lparr>gi_used := gi_used info + 1\<rparr>, 1, lf)
       else if k = AT_TAIL then (info\<lparr>gi_used := gi_used info + 1\<rparr>, l + 1, lf)
       else (info, l, lf)) = (info1, l1, lf1)"
    by (simp add: info1_def l1_def lf1_def k_def gc_consts)
  have "gc_info_from s (Suc n) b l lf info = gc_info_from s n (b + 1) l1 (if new then 0 else lf1) info'"
    unfolding gc_info_from.simps k_def [symmetric] Let_def tup prod.case k'_def [symmetric]
      info2_def [symmetric] info3_def [symmetric]
    by (simp add: info'_def new')
  then show thesis using max that by blast
qed

lemma gc_info_max_free:
  fixes l :: nat
  assumes "max_free_inv s b lf (gi_max_free info)" and "chains_ok s" and "\<And>x. atb_get_kind s x \<noteq> AT_MARK"
    and "0 < n"
    and "mf = gi_max_free (gc_info_from s n b l lf info)"
  shows "(\<forall>st k. run_within s (b + n) st k \<longrightarrow> k \<le> mf) \<and> (\<exists>st. run_within s (b + n) st mf)"
  using assms(1,4) unfolding assms(5)
proof (induction n arbitrary: b l lf info)
  case (Suc n)
  let ?lf1 = "if atb_get_kind s b = AT_FREE then lf + 1 else lf"
  note step = max_free_step [OF Suc.prems(1) assms(2,3) refl]
  obtain l' info' where eq: "gc_info_from s (Suc n) b l lf info = gc_info_from s n (b + 1) l'
      (if n = 0 \<or> atb_get_kind s (b + 1) = AT_HEAD then 0 else ?lf1) info'"
    and mf: "gi_max_free info' = (if n = 0 \<or> atb_get_kind s (b + 1) = AT_HEAD
      then max (gi_max_free info) ?lf1 else gi_max_free info)"
    by (rule gc_info_step)
  show ?case
  proof (cases "n = 0")
    case True
    then have "gi_max_free (gc_info_from s (Suc n) b l lf info) = max (gi_max_free info) ?lf1"
      unfolding eq using mf by simp
    then show ?thesis using step(2,3) True by simp
  next
    case False
    then have "max_free_inv s (b + 1) (if n = 0 \<or> atb_get_kind s (b + 1) = AT_HEAD then 0 else ?lf1) (gi_max_free info')"
      using step(1) mf by (simp cong: if_cong)
    from Suc.IH [OF this] show ?thesis unfolding eq using False by simp
  qed
qed simp

end
