(* ===== verification/Gc_Correct.thy ===== *)
theory Gc_Correct
  imports Gc_Heap Gc_Info
begin

text \<open>
  The correctness statements of the heap, one theorem per operation, over the definitions of
  \<open>Gc\<close>. The concrete heap used to instantiate them has eight blocks.
\<close>

subsection \<open>A small heap\<close>

definition small_heap :: gc_state where
  "small_heap = gc_init (\<lambda>_. 0) 0 144"

definition no_roots :: gc_roots where
  "no_roots = \<lparr>ctx_ptrs = [], pystack_ptrs = [], stack_ptrs = []\<rparr>"

definition root_at :: "nat \<Rightarrow> gc_roots" where
  "root_at p = \<lparr>ctx_ptrs = [], pystack_ptrs = [], stack_ptrs = [p]\<rparr>"

lemma small_heap_wf: "gc_wf small_heap"
  unfolding small_heap_def by (rule gc_init_wf) simp_all

lemma small_heap_eq:
  "small_heap = \<lparr>gc_alloc_table = replicate 16 0, gc_alloc_table_byte_len = 2,
     gc_alloc_table_start = 0, gc_pool_start = 16, gc_pool_end = 144, gc_pool = replicate 32 0,
     gc_last_free_atb_index = 0, gc_lock_depth = 0, gc_auto_collect_enabled = True,
     gc_stack_overflow = False\<rparr>"
  by (simp add: small_heap_def gc_init_def gc_consts mem_word_def map_replicate_const Let_def)
    (simp add: numeral_eq_Suc)

lemma small_heap_find: "gc_find_free small_heap 2 = Some (1, 2)"
  by (simp add: gc_find_free_def small_heap_eq gc_consts Let_def atb_is_free_def atb_byte_def
      atb_mask_def numeral_eq_Suc)

text \<open>The heap after \<^verbatim>\<open>gc_alloc(20)\<close>: blocks 0 and 1 form a chain, at address 16.\<close>

definition small_heap2 :: gc_state where
  "small_heap2 = snd (gc_take_run 1 2 small_heap)"

lemma small_heap_alloc: "gc_alloc no_roots 20 small_heap = (Some 16, small_heap2)"
proof -
  have "gc_alloc_blocks 20 = 2" by (simp add: gc_alloc_blocks_def gc_consts wrap32_def)
  moreover have "fst (gc_take_run 1 2 small_heap) = 16"
    using same_frameD(7) [OF same_frame_runs(1)] same_frameD(7) [OF same_frame_ops(2)]
    by (simp add: gc_take_run_def Let_def gc_consts) (simp add: small_heap_eq)
  moreover have "gc_lock_depth small_heap = 0" by (simp add: small_heap_eq)
  ultimately show ?thesis
    using small_heap_find by (auto simp: gc_alloc_def small_heap2_def Let_def split: prod.split)
qed

lemma small_heap2_props:
  shows small_heap2_fresh: "fresh_chain small_heap small_heap2 16 2"
    and small_heap2_wf: "gc_wf small_heap2" and small_heap2_lock: "gc_lock_depth small_heap2 = 0"
proof -
  obtain p u where take: "gc_take_run 1 2 small_heap = (p, u)" by fastforce
  have "(0::nat) < 2" by simp
  note a = alloc_found [OF small_heap_find take small_heap_wf this]
  have "p = 16" "u = small_heap2"
    using small_heap_alloc small_heap_find take
    by (auto simp: small_heap2_def gc_alloc_def gc_alloc_blocks_def gc_consts Let_def wrap32_def split: if_splits)
  moreover have "gc_lock_depth small_heap = 0" by (simp add: small_heap_eq)
  ultimately show "fresh_chain small_heap small_heap2 16 2" "gc_wf small_heap2" "gc_lock_depth small_heap2 = 0"
    using a by simp_all
qed

lemma small_heap2_ptrs: "block_from_ptr small_heap 16 = 0" "ptr_from_block small_heap2 0 = 16"
    "block_from_ptr small_heap2 16 = 0" "verify_ptr small_heap2 16"
  unfolding fresh_chain_frame [OF small_heap2_fresh]
  by (simp_all add: block_from_ptr_def ptr_from_block_def verify_ptr_def small_heap_eq gc_consts)

lemma small_heap2_head: "atb_get_kind small_heap2 0 = AT_HEAD" and small_heap2_len: "gc_chain_len small_heap2 0 = 2"
  using fresh_chain_head [OF small_heap2_fresh] fresh_chain_len [OF small_heap2_fresh] small_heap_wf small_heap2_ptrs
  by (simp_all add: gc_wf_def)

lemma small_heap2_reach: "gc_reach small_heap2 (root_words (root_at 16)) 0"
  using gc_reach.from_root [of 16 "root_words (root_at 16)" small_heap2] small_heap2_ptrs small_heap2_head
  by (simp add: root_words_def root_at_def is_obj_def)

subsection \<open>Theorems\<close>

text \<open>
  C1. A collection frees exactly the unreachable objects: a block keeps its kind when it belongs
  to a chain whose head is reachable from the root words, and is free otherwise. The contents of the
  pool do not change and the heap stays well formed. The bounded mark stack and the rescan after
  its overflow are part of the model.
\<close>

theorem gc_collect_exact:
  assumes "gc_wf s"
  shows "gc_wf (gc_collect r s) \<and> gc_pool (gc_collect r s) = gc_pool s \<and>
    (\<forall>b. atb_get_kind (gc_collect r s) b =
      (if atb_get_kind s b \<noteq> AT_FREE \<and> gc_reach s (root_words r) (owner s b)
       then atb_get_kind s b else AT_FREE))"
  using gc_collect_wf [OF assms, of r] gc_collect_kind [OF assms, of r]
    same_frameD(6) [OF gc_collect_frame [OF assms, of r]]
  by (simp add: survives_def)

theorem gc_collect_exact_witness:
  "gc_wf small_heap2 \<and> atb_get_kind (gc_collect (root_at 16) small_heap2) 0 = AT_HEAD"
  using gc_collect_exact [OF small_heap2_wf, of "root_at 16"] small_heap2_wf small_heap2_head small_heap2_reach
  by (simp add: AT_FREE_def AT_HEAD_def)

text \<open>
  C2. A successful \<^verbatim>\<open>gc_alloc\<close> returns a fresh object: the blocks of the new chain were free
  (before the call, or after the collection it ran), they are now one chain of the rounded-up size
  with all words 0, every object reachable from the roots is kept with its contents, and the heap stays
  well formed.
\<close>

theorem gc_alloc_fresh:
  assumes "gc_wf s" and "gc_alloc r n s = (Some p, s')" and "n \<le> 2 ^ 32 - 16"
  shows "gc_wf s' \<and> verify_ptr s p \<and>
    atb_get_kind s' (block_from_ptr s p) = AT_HEAD \<and>
    n \<le> gc_nbytes s' p \<and> gc_nbytes s' p < n + 16 \<and>
    chain_words s' (block_from_ptr s p) = replicate (gc_nbytes s' p div 4) 0 \<and>
    (\<forall>c. gc_reach s (root_words r) c \<longrightarrow> c \<noteq> block_from_ptr s p \<and> object_kept s s' c)"
proof -
  let ?k = "gc_alloc_blocks n" and ?st = "block_from_ptr s p"
  obtain t where t: "t = s \<or> gc_auto_collect_enabled s \<and> t = gc_collect r s"
    and fresh: "fresh_chain t s' p ?k" and wft: "gc_wf t" and wf': "gc_wf s'" and k: "0 < ?k"
    using assms(1,2) by (elim gc_alloc_cases) auto
  have fr: "same_frame s t" using t gc_collect_frame [OF assms(1)] by auto
  have st: "block_from_ptr t p = ?st" by (rule same_frameD(4) [OF fr])
  have head: "verify_ptr s p" "atb_get_kind s' ?st = AT_HEAD"
    using fresh_chain_head [OF fresh k] wft st same_frameD(3) [OF fr] by (simp_all add: gc_wf_def)
  have len: "gc_chain_len s' ?st = ?k" using fresh_chain_len [OF fresh k] wft st by (simp add: gc_wf_def)
  have nb: "gc_nbytes s' p = 16 * ?k"
    using head len fresh_chain_frame [OF fresh] st same_frameD(3) [OF fr]
    by (simp add: gc_nbytes_def Let_def gc_consts)
  have run: "?st + ?k \<le> max_block t" "atb_get_kind t ?st = AT_FREE"
    using fresh k st by (auto simp: fresh_chain_def free_run_def Let_def)
  have "subbuf (?st * 4) (?k * 4) (gc_pool s') = replicate (?k * 4) 0"
    using subbuf_overwrite_prefix [of "?st * 4" "?k * 4" "gc_pool t" "replicate (?k * 4) 0"] fresh st run wft
    by (simp add: fresh_chain_def Let_def gc_wf_def gc_layout_def subbuf_def)
  then have zero: "chain_words s' ?st = replicate (gc_nbytes s' p div 4) 0"
    by (simp add: chain_words_def len nb gc_consts mult.commute)
  have kept: "c \<noteq> ?st \<and> object_kept s s' c" if c: "gc_reach s (root_words r) c" for c
  proof -
    have "object_kept s t c"
      using t gc_collect_keeps [OF assms(1) c] gc_reach_head [OF assms(1) c] by (auto simp: object_kept_def)
    then show ?thesis
      using fresh_chain_keeps [OF fresh _ wft k, of c] run(2) by (auto simp: object_kept_def gc_consts)
  qed
  show ?thesis using wf' head nb gc_alloc_blocks_enough [OF assms(3)] zero kept by simp
qed

theorem gc_alloc_fresh_witness:
  "gc_wf small_heap \<and> gc_alloc no_roots 20 small_heap = (Some 16, small_heap2) \<and> (20::nat) \<le> 2 ^ 32 - 16 \<and>
   20 \<le> gc_nbytes small_heap2 16 \<and> chain_words small_heap2 0 = replicate (gc_nbytes small_heap2 16 div 4) 0"
  using gc_alloc_fresh [OF small_heap_wf small_heap_alloc] small_heap_wf small_heap_alloc small_heap2_ptrs by simp

text \<open>
  C3. \<^verbatim>\<open>gc_alloc\<close> of a positive size on an unlocked heap fails only when there is no run of
  enough free blocks, after a collection where automatic collection is on.
\<close>

theorem gc_alloc_complete:
  assumes "gc_wf s" and "gc_lock_depth s = 0" and "0 < gc_alloc_blocks n"
    and "free_run (if gc_auto_collect_enabled s then gc_collect r s else s) st (gc_alloc_blocks n)"
  shows "\<exists>p s'. gc_alloc r n s = (Some p, s')"
proof -
  obtain res s' where eq: "gc_alloc r n s = (res, s')" by fastforce
  from eq assms(1) show ?thesis
  proof (cases rule: gc_alloc_cases)
    case (found p t)
    then show ?thesis using eq by blast
  qed (use assms in auto)
qed

theorem gc_alloc_complete_witness:
  "gc_wf small_heap2 \<and> gc_lock_depth small_heap2 = 0 \<and>
   (\<exists>p s'. gc_alloc no_roots 16 (small_heap2\<lparr>gc_auto_collect_enabled := False\<rparr>) = (Some p, s'))"
proof -
  let ?s = "small_heap2\<lparr>gc_auto_collect_enabled := False\<rparr>"
  have kind: "atb_get_kind ?s b = atb_get_kind small_heap2 b" for b by (simp add: atb_get_kind_def atb_byte_def)
  have wf: "gc_wf ?s" using small_heap2_wf
    by (simp add: gc_wf_def gc_layout_def chains_ok_def hint_ok_def kind max_block_def)
  have b: "gc_alloc_blocks 16 = 1" by (simp add: gc_alloc_blocks_def gc_consts)
  have "atb_get_kind small_heap2 2 = atb_get_kind small_heap 2" "max_block small_heap2 = max_block small_heap"
    using small_heap2_fresh small_heap2_ptrs fresh_chain_frame(4) [OF small_heap2_fresh]
    by (auto simp: fresh_chain_def chain_at_def Let_def)
  moreover have "atb_get_kind small_heap 2 = AT_FREE" unfolding small_heap_def by (rule gc_init_byte_zero) simp
  moreover have "max_block small_heap = 8" by (simp add: small_heap_eq max_block_def gc_consts)
  moreover have "x = 2" if "2 \<le> x" "x < 3" for x :: nat using that by simp
  ultimately have run: "free_run ?s 2 (gc_alloc_blocks 16)"
    unfolding free_run_def b kind max_block_def by (simp, metis)
  show ?thesis using gc_alloc_complete [OF wf, of 16 no_roots 2] run small_heap2_lock small_heap2_wf b by simp
qed

lemma gc_realloc_contents:
  assumes wf: "gc_wf s" and l: "gc_lock_depth s = 0" and n: "0 < n" "n \<le> 2 ^ 32 - 16"
    and reach: "gc_reach s (root_words r) b"
    and eq: "gc_realloc r (Some (ptr_from_block s b)) n mv s = (Some q, s')"
  shows "gc_wf s' \<and> resized s s' b (block_from_ptr s q) (gc_alloc_blocks n) \<and>
    (\<forall>c. gc_reach s (root_words r) c \<longrightarrow> c \<noteq> b \<longrightarrow> object_kept s s' c)"
proof -
  let ?k = "gc_alloc_blocks n" and ?nb = "gc_chain_len s b"
  have head: "atb_get_kind s b = AT_HEAD" by (rule gc_reach_head [OF wf reach])
  have k: "0 < ?k" using gc_alloc_blocks_enough [OF n(2)] n(1) by linarith
  have heads: "atb_get_kind s c = AT_HEAD" if "gc_reach s (root_words r) c" for c
    by (rule gc_reach_head [OF wf that])
  have n0: "n \<noteq> 0" using n by simp
  from wf l head n0 eq show ?thesis
  proof (cases rule: gc_realloc_cases)
    case same
    then have "q = ptr_from_block s b" by simp
    moreover have "chain_freed s s (b + ?k) (?nb - ?k)" using same by (simp add: chain_freed_def)
    ultimately show ?thesis
      using same wf heads gc_realloc_resized_in_place [OF wf head k, of s] by (auto simp: object_kept_def)
  next
    case shrink
    note sh = gc_realloc_shrink [OF wf head k less_imp_le [OF shrink(1)] refl shrink(3)]
    have "object_kept s s' c" if "gc_reach s (root_words r) c" "c \<noteq> b" for c
      using chain_freed_keeps [OF sh(2,3) heads [OF that(1)]] head_chains_disjoint [OF head heads [OF that(1)]] that shrink(1)
      by auto
    then show ?thesis
      using sh gc_realloc_resized_in_place [OF wf head k _ sh(2,3)] shrink(1,2) by simp
  next
    case (grow n_free)
    have "object_kept s s' c" if "gc_reach s (root_words r) c" "c \<noteq> b" for c
      by (rule gc_realloc_grow_keeps [OF wf head grow(1,2,3,5) heads [OF that(1)] that(2)])
    then show ?thesis
      using gc_realloc_grow(1) [OF wf head grow(1,2,3,5)] gc_realloc_resized_grow [OF wf head grow(1,2,3,5)] grow(4) by simp
  next
    case (moved p s1)
    from gc_realloc_moved [OF wf head reach moved(3,1) refl moved(4)] show ?thesis using moved(2) by blast
  qed simp_all
qed

lemma gc_realloc_fails:
  assumes wf: "gc_wf s" and l: "gc_lock_depth s = 0" and n: "0 < n"
    and reach: "gc_reach s (root_words r) b"
    and eq: "gc_realloc r (Some (ptr_from_block s b)) n mv s = (None, s')"
  shows "gc_wf s' \<and> (\<forall>c. gc_reach s (root_words r) c \<longrightarrow> object_kept s s' c)"
proof -
  have head: "atb_get_kind s b = AT_HEAD" by (rule gc_reach_head [OF wf reach])
  have kept: "object_kept s s c" if "gc_reach s (root_words r) c" for c
    using gc_reach_head [OF wf that] by (simp add: object_kept_def)
  have n0: "n \<noteq> 0" using n by simp
  from wf l head n0 eq have "s' = s \<or> gc_alloc r n s = (None, s')"
    by (cases rule: gc_realloc_cases) auto
  then show ?thesis
  proof
    assume "gc_alloc r n s = (None, s')"
    from this wf show ?thesis
    proof (cases rule: gc_alloc_cases)
      case full
      then show ?thesis using wf kept gc_collect_wf [OF wf, of r] gc_collect_keeps [OF wf, of r] by simp
    qed (use wf kept in auto)
  qed (use wf kept in simp)
qed

text \<open>
  C4. \<^verbatim>\<open>gc_realloc\<close> of a reachable object keeps what is in the heap. When it succeeds, the resulting
  object has the requested number of blocks, its words are the old words, cut off at the new size or
  followed by zeros, and every other reachable object is kept. When it fails, every reachable object, the one to be
  resized included, is still there with its contents. The heap stays well formed. This covers
  shrinking, growing in place and moving, with a collection in between or not.
\<close>

theorem gc_realloc_preserves:
  assumes wf: "gc_wf s" and l: "gc_lock_depth s = 0" and n: "0 < n" "n \<le> 2 ^ 32 - 16"
    and reach: "gc_reach s (root_words r) b"
    and eq: "gc_realloc r (Some (ptr_from_block s b)) n mv s = (p, s')"
  shows "gc_wf s' \<and>
    (case p of
       None \<Rightarrow> \<forall>c. gc_reach s (root_words r) c \<longrightarrow> object_kept s s' c
     | Some q \<Rightarrow> resized s s' b (block_from_ptr s q) (gc_alloc_blocks n) \<and>
         (\<forall>c. gc_reach s (root_words r) c \<longrightarrow> c \<noteq> b \<longrightarrow> object_kept s s' c))"
proof (cases p)
  case None
  show ?thesis using gc_realloc_fails [OF wf l n(1) reach eq [unfolded None]] None by simp
next
  case (Some q)
  show ?thesis using gc_realloc_contents [OF wf l n reach eq [unfolded Some]] Some by simp
qed

theorem gc_realloc_preserves_witness:
  "gc_wf small_heap2 \<and> gc_lock_depth small_heap2 = 0 \<and> gc_reach small_heap2 (root_words (root_at 16)) 0 \<and>
   (\<exists>s'. gc_realloc (root_at 16) (Some 16) 10 True small_heap2 = (Some 16, s') \<and> resized small_heap2 s' 0 0 1) \<and>
   (\<exists>s'. gc_realloc (root_at 16) (Some 16) 500 False small_heap2 = (None, s') \<and> object_kept small_heap2 s' 0)"
proof -
  note pre = small_heap2_wf small_heap2_lock small_heap2_head
  have b: "gc_alloc_blocks 10 = 1" "gc_alloc_blocks 500 = 32" by (simp_all add: gc_alloc_blocks_def gc_consts)
  have m8: "max_block small_heap2 = 8"
    using fresh_chain_frame(4) [OF small_heap2_fresh] by (simp add: small_heap_eq max_block_def gc_consts)
  obtain s' where eq: "gc_realloc (root_at 16) (Some (ptr_from_block small_heap2 0)) 10 True small_heap2 = (Some 16, s')"
    by (rule gc_realloc_unfold [OF pre, of 10 "root_at 16" True])
      (use b small_heap2_len small_heap2_ptrs in \<open>auto simp: Let_def\<close>)
  have eq2: "gc_realloc (root_at 16) (Some (ptr_from_block small_heap2 0)) 500 False small_heap2 = (None, small_heap2)"
    by (rule gc_realloc_unfold [OF pre, of 500 "root_at 16" False])
      (use b m8 small_heap2_len in \<open>auto simp: Let_def free_run_def\<close>)
  note p = gc_realloc_preserves [OF small_heap2_wf small_heap2_lock _ _ small_heap2_reach]
  have "resized small_heap2 s' 0 (block_from_ptr small_heap2 16) (gc_alloc_blocks 10)" using p [OF _ _ eq] by simp
  moreover have "object_kept small_heap2 small_heap2 0" using p [OF _ _ eq2] small_heap2_reach by simp
  ultimately show ?thesis
    using eq eq2 b small_heap2_wf small_heap2_lock small_heap2_reach small_heap2_ptrs by auto
qed

text \<open>
  C6. \<^verbatim>\<open>gc_realloc\<close> computes the new number of blocks modulo \<open>2 ^ 32\<close> bytes: for a request of
  more than \<open>2 ^ 32 - 16\<close> bytes it frees every block of the chain, head and tails, and no other,
  and still returns the old pointer.
\<close>

theorem gc_realloc_huge_frees:
  assumes wf: "gc_wf s" and l: "gc_lock_depth s = 0" and head: "atb_get_kind s b = AT_HEAD"
    and n: "2 ^ 32 - 16 < n" "n < 2 ^ 32"
  shows "\<exists>s'. gc_realloc r (Some (ptr_from_block s b)) n mv s = (Some (ptr_from_block s b), s') \<and>
    (\<forall>x. atb_get_kind s' x = (if b \<le> x \<and> x < b + gc_chain_len s b then AT_FREE else atb_get_kind s x)) \<and>
    0 < gc_chain_len s b"
proof -
  have k: "gc_alloc_blocks n = 0"
  proof -
    have "wrap32 (n + 15) = n + 15 - 2 ^ 32"
      using n unfolding wrap32_def by (subst le_mod_geq) auto
    then show ?thesis using n by (simp add: gc_alloc_blocks_def gc_consts)
  qed
  have lay: "gc_layout s" and ok: "chains_ok s" using wf by (simp_all add: gc_wf_def)
  have "b + gc_chain_len s b \<le> max_block s"
    using head by (intro gc_chain_inside [OF ok]) (simp add: gc_consts)
  then have freed: "atb_get_kind (atb_free_run b (gc_chain_len s b) s) x =
      (if b \<le> x \<and> x < b + gc_chain_len s b then AT_FREE else atb_get_kind s x)" for x
    by (intro kind_free_run in_table_max [OF lay]) auto
  show ?thesis
    by (rule gc_realloc_unfold [OF wf l head, of n r mv])
      (use k n freed gc_chain_len_pos [of s b] in \<open>auto simp: Let_def\<close>)
qed

theorem gc_realloc_huge_frees_witness:
  "gc_wf small_heap2 \<and> atb_get_kind small_heap2 0 = AT_HEAD \<and>
   (\<exists>s'. gc_realloc no_roots (Some 16) 4294967290 True small_heap2 = (Some 16, s') \<and>
      atb_get_kind s' 0 = AT_FREE \<and> atb_get_kind s' 1 = AT_FREE)"
  using gc_realloc_huge_frees [OF small_heap2_wf small_heap2_lock small_heap2_head, of 4294967290 no_roots True]
    small_heap2_wf small_heap2_head small_heap2_ptrs small_heap2_len by auto

text \<open>
  C7. \<^verbatim>\<open>gc_free\<close> of an object releases exactly the blocks of its chain, keeps every other object
  and the invariant, and undoes a preceding \<^verbatim>\<open>gc_alloc\<close> on the table.
\<close>

theorem gc_free_exact:
  assumes "gc_wf s" and "gc_lock_depth s = 0" and "atb_get_kind s b = AT_HEAD"
    and "s' = gc_free (Some (ptr_from_block s b)) s"
  shows "gc_wf s' \<and> gc_pool s' = gc_pool s \<and>
    (\<forall>x. atb_get_kind s' x = (if b \<le> x \<and> x < b + gc_chain_len s b then AT_FREE else atb_get_kind s x)) \<and>
    (\<forall>c. atb_get_kind s c = AT_HEAD \<longrightarrow> c \<noteq> b \<longrightarrow> object_kept s s' c)"
proof -
  note f = gc_free_props [OF assms(1,2,3), folded assms(4)]
  have "object_kept s s' c" if "atb_get_kind s c = AT_HEAD" "c \<noteq> b" for c
    using chain_freed_keeps [OF f(1,2) that(1)] head_chains_disjoint [OF assms(3) that(1)] that(2) by auto
  then show ?thesis using f same_frameD(6) [OF f(2)] by (simp add: chain_freed_def)
qed

theorem gc_free_exact_witness:
  "gc_wf small_heap2 \<and> gc_lock_depth small_heap2 = 0 \<and> atb_get_kind small_heap2 0 = AT_HEAD \<and>
   gc_wf (gc_free (Some 16) small_heap2) \<and> atb_get_kind (gc_free (Some 16) small_heap2) 0 = AT_FREE"
  using gc_free_exact [OF small_heap2_wf small_heap2_lock small_heap2_head refl]
    small_heap2_wf small_heap2_lock small_heap2_head small_heap2_ptrs small_heap2_len by simp

text \<open>
  C8. \<^verbatim>\<open>gc_info\<close> is exact: used and free bytes count the blocks of each kind and add up to the
  total, and \<^verbatim>\<open>max_free\<close> is the length of the longest free run. So with automatic collection off
  \<^verbatim>\<open>gc_alloc\<close> succeeds exactly for the sizes that fit \<^verbatim>\<open>max_free\<close> blocks.
\<close>

theorem gc_info_exact:
  assumes wf: "gc_wf s" and m: "0 < max_block s"
  shows "gi_total (gc_info s) = gi_used (gc_info s) + gi_free (gc_info s) \<and>
    gi_free (gc_info s) = 16 * card {b. b < max_block s \<and> atb_get_kind s b = AT_FREE} \<and>
    (\<forall>k. k \<le> gi_max_free (gc_info s) \<longleftrightarrow> (\<exists>st. free_run s st k))"
proof -
  let ?i0 = "\<lparr>gi_total = gc_pool_end s - gc_pool_start s, gi_used = 0, gi_free = 0, gi_max_free = 0,
      gi_num_1block = 0, gi_num_2block = 0, gi_max_block = 0\<rparr>"
  let ?F = "{b. b < max_block s \<and> atb_get_kind s b = AT_FREE}" and ?U = "{b. b < max_block s \<and> atb_get_kind s b \<noteq> AT_FREE}"
  have nm: "\<And>x. atb_get_kind s x \<noteq> AT_MARK" and ok: "chains_ok s" and lay: "gc_layout s"
    using wf by (simp_all add: gc_wf_def)
  have c: "gi_free (gc_info s) = 16 * card ?F" "gi_used (gc_info s) = 16 * card ?U" "gi_total (gc_info s) = 16 * max_block s"
    using gc_info_counts [OF nm, of "max_block s" 0 0 0 ?i0] lay
    by (simp_all add: gc_info_def Let_def BYTES_PER_BLOCK_def gc_layout_def)
  have "?F \<union> ?U = {..< max_block s}" "?F \<inter> ?U = {}" by auto
  then have "card ?F + card ?U = max_block s" by (metis (no_types, lifting) card_Un_disjoint card_lessThan finite_Un finite_lessThan)
  then have total: "gi_total (gc_info s) = gi_used (gc_info s) + gi_free (gc_info s)" using c by simp
  have inv: "max_free_inv s 0 0 (gi_max_free ?i0)" by (simp add: max_free_inv_def run_within_def)
  have runs: "free_run s st k = run_within s (max_block s) st k" for st k by (simp add: free_run_def run_within_def)
  have mf: "(\<forall>st k. free_run s st k \<longrightarrow> k \<le> gi_max_free (gc_info s)) \<and> (\<exists>st. free_run s st (gi_max_free (gc_info s)))"
    using gc_info_max_free [OF inv ok nm m refl, of 0] by (simp add: runs gc_info_def Let_def)
  have "\<exists>st. free_run s st k" if "k \<le> gi_max_free (gc_info s)" for k
    using mf that unfolding free_run_def by (meson add_le_mono1 add_left_mono le_trans less_le_trans)
  then show ?thesis using c total mf by blast
qed

theorem gc_info_exact_witness:
  "gc_wf small_heap \<and> 0 < max_block small_heap \<and>
   gi_total (gc_info small_heap) = gi_used (gc_info small_heap) + gi_free (gc_info small_heap)"
proof -
  have m: "0 < max_block small_heap" by (simp add: small_heap_eq max_block_def gc_consts)
  show ?thesis using gc_info_exact [OF small_heap_wf m] small_heap_wf m by simp
qed

end
