(* ===== verification/Qstr.thy ===== *)
theory Qstr
  imports Prelude
begin

unbundle bit_operations_syntax

text \<open>
  Interned strings, \<^verbatim>\<open>py/qstr.c\<close>: the hash, the chain of pools, and \<^verbatim>\<open>qstr_from_strn\<close> with
  its chunk memory. The port stores one byte of hash and one byte of length per string; the
  characters live in memory, behind the pointer of the entry. The constant pool is generated by
  the build; it enters as the argument of \<open>qstr_init\<close>.
\<close>

subsection \<open>The hash\<close>

definition Q_HASH_MASK :: "32 word" where "Q_HASH_MASK = 0xff"

definition qstr_hash_step :: "32 word \<Rightarrow> byte \<Rightarrow> 32 word" where
  "qstr_hash_step hash b = (push_bit 5 hash + hash) XOR ucast b"

definition qstr_compute_hash :: "byte list \<Rightarrow> nat" where
  "qstr_compute_hash data =
     (let hash = foldl qstr_hash_step 5381 data AND Q_HASH_MASK
      in unat (if hash = 0 then hash + 1 else hash))"

lemma qstr_compute_hash_range: "0 < qstr_compute_hash data \<and> qstr_compute_hash data < 256"
proof -
  let ?h = "foldl qstr_hash_step 5381 data"
  have "?h AND Q_HASH_MASK = take_bit 8 ?h"
    by (simp add: Q_HASH_MASK_def take_bit_eq_mask mask_eq_exp_minus_1)
  then have "unat (?h AND Q_HASH_MASK) = take_bit 8 (unat ?h)" by (simp add: unsigned_take_bit_eq)
  then have less: "unat (?h AND Q_HASH_MASK) < 256" using take_bit_nat_less_exp [of 8 "unat ?h"] by simp
  show ?thesis
  proof (cases "?h AND Q_HASH_MASK = 0")
    case False
    then show ?thesis using less by (simp add: qstr_compute_hash_def Let_def unat_gt_0)
  qed (simp add: qstr_compute_hash_def Let_def)
qed

subsection \<open>Memory\<close>

text \<open>The bytes behind a pointer, and what \<^verbatim>\<open>memcpy\<close> leaves in memory.\<close>

type_synonym mem_fun = "nat \<Rightarrow> byte"

definition read_bytes :: "mem_fun \<Rightarrow> nat \<Rightarrow> nat \<Rightarrow> byte list" where
  "read_bytes b a n = map (\<lambda>i. b (a + i)) [0..<n]"

definition write_bytes :: "nat \<Rightarrow> byte list \<Rightarrow> mem_fun \<Rightarrow> mem_fun" where
  "write_bytes a xs b = (\<lambda>x. if a \<le> x \<and> x < a + length xs then xs ! (x - a) else b x)"

lemma length_read_bytes [simp]: "length (read_bytes b a n) = n"
  by (simp add: read_bytes_def)

lemma read_bytes_cong: "(\<And>x. a \<le> x \<Longrightarrow> x < a + n \<Longrightarrow> b x = b' x) \<Longrightarrow> read_bytes b a n = read_bytes b' a n"
  by (simp add: read_bytes_def)

lemma read_write_bytes [simp]: "read_bytes (write_bytes a xs b) a (length xs) = xs"
  by (rule nth_equalityI) (simp_all add: read_bytes_def write_bytes_def)

lemma write_bytes_outside: "x < a \<or> a + length xs \<le> x \<Longrightarrow> write_bytes a xs b x = b x"
  by (auto simp: write_bytes_def)

subsection \<open>Pools\<close>

text \<open>
  One entry: the hash and length fields and the pointer to the characters. A pool's entries are
  those in use, \<^verbatim>\<open>len\<close> is their number. The list of pools starts with \<^verbatim>\<open>last_pool\<close> and
  follows \<^verbatim>\<open>prev\<close>. The chunk in which new strings are placed is an address, 0 for \<^verbatim>\<open>NULL\<close>.
\<close>

record qstr_entry =
  q_hash :: nat
  q_len :: nat
  q_str :: nat

record qstr_pool =
  total_prev_len :: nat
  p_alloc :: nat
  entries :: "qstr_entry list"

record qstr_state =
  pools :: "qstr_pool list"
  qstr_last_chunk :: nat
  qstr_last_alloc :: nat
  qstr_last_used :: nat
  memory :: mem_fun

text \<open>
  What the memory manager answers: whether it grows the last chunk in place to a size
  (\<^verbatim>\<open>m_renew_maybe\<close> that may not move), the address of a new chunk of a size or 0, and whether
  there is room for a pool with a number of entries.
\<close>

record qstr_mem =
  m_grow :: "nat \<Rightarrow> bool"
  m_chunk :: "nat \<Rightarrow> nat"
  m_pool :: "nat \<Rightarrow> bool"

definition MICROPY_ALLOC_QSTR_ENTRIES_INIT :: nat where "MICROPY_ALLOC_QSTR_ENTRIES_INIT = 10"
definition MICROPY_ALLOC_QSTR_CHUNK_INIT :: nat where "MICROPY_ALLOC_QSTR_CHUNK_INIT = 128"

definition qstr_init :: "qstr_entry list \<Rightarrow> qstr_state \<Rightarrow> qstr_state" where
  "qstr_init const_pool s =
     s\<lparr>pools := [\<lparr>total_prev_len = 0, p_alloc = MICROPY_ALLOC_QSTR_ENTRIES_INIT, entries = const_pool\<rparr>],
       qstr_last_chunk := 0\<rparr>"

fun find_qstr :: "qstr_pool list \<Rightarrow> nat \<Rightarrow> (qstr_pool \<times> nat) option" where
  "find_qstr [] q = None"
| "find_qstr (pool # prev) q =
     (if q < total_prev_len pool then find_qstr prev q else Some (pool, q - total_prev_len pool))"

definition qstr_add :: "qstr_mem \<Rightarrow> nat \<Rightarrow> nat \<Rightarrow> nat \<Rightarrow> qstr_state \<Rightarrow> nat result \<times> qstr_state" where
  "qstr_add mem hash len q_ptr s =
     (let last = hd (pools s);
          new_alloc = p_alloc last * 2;
          full = length (entries last) \<ge> p_alloc last
      in
      if full \<and> \<not> m_pool mem new_alloc then (Inl MemoryError, s\<lparr>qstr_last_chunk := 0\<rparr>)
      else
        let ps = (if full
                  then \<lparr>total_prev_len = total_prev_len last + length (entries last), p_alloc = new_alloc,
                        entries = []\<rparr> # pools s
                  else pools s);
            pool = hd ps;
            at = length (entries pool);
            pool' = pool\<lparr>entries := entries pool @ [\<lparr>q_hash = hash, q_len = len, q_str = q_ptr\<rparr>]\<rparr>
        in (Inr (total_prev_len pool + at), s\<lparr>pools := pool' # tl ps\<rparr>))"

fun find_in_pool :: "mem_fun \<Rightarrow> nat \<Rightarrow> byte list \<Rightarrow> nat \<Rightarrow> qstr_entry list \<Rightarrow> nat option" where
  "find_in_pool b hash str at [] = None"
| "find_in_pool b hash str at (e # es) =
     (if q_hash e = hash \<and> q_len e = length str \<and> read_bytes b (q_str e) (length str) = str then Some at
      else find_in_pool b hash str (at + 1) es)"

fun find_in_pools :: "mem_fun \<Rightarrow> nat \<Rightarrow> byte list \<Rightarrow> qstr_pool list \<Rightarrow> nat" where
  "find_in_pools b hash str [] = 0"
| "find_in_pools b hash str (pool # prev) =
     (case find_in_pool b hash str 0 (entries pool) of
        Some at \<Rightarrow> total_prev_len pool + at
      | None \<Rightarrow> find_in_pools b hash str prev)"

definition qstr_find_strn :: "byte list \<Rightarrow> qstr_state \<Rightarrow> nat" where
  "qstr_find_strn str s = find_in_pools (memory s) (qstr_compute_hash str) str (pools s)"

text \<open>
  The two steps of \<^verbatim>\<open>qstr_from_strn\<close> that provide \<^verbatim>\<open>n_bytes\<close> of chunk memory: grow the last
  chunk (or give it up), then make a new one where there is none.
\<close>

definition qstr_grow_chunk :: "qstr_mem \<Rightarrow> nat \<Rightarrow> qstr_state \<Rightarrow> qstr_state" where
  "qstr_grow_chunk mem n_bytes s =
     (if qstr_last_chunk s \<noteq> 0 \<and> qstr_last_used s + n_bytes > qstr_last_alloc s then
        if m_grow mem (qstr_last_alloc s + n_bytes)
        then s\<lparr>qstr_last_alloc := qstr_last_alloc s + n_bytes\<rparr>
        else s\<lparr>qstr_last_chunk := 0\<rparr>
      else s)"

definition qstr_new_chunk :: "qstr_mem \<Rightarrow> nat \<Rightarrow> qstr_state \<Rightarrow> unit result \<times> qstr_state" where
  "qstr_new_chunk mem n_bytes s =
     (if qstr_last_chunk s \<noteq> 0 then (Inr (), s)
      else
        let al = (if n_bytes < MICROPY_ALLOC_QSTR_CHUNK_INIT then MICROPY_ALLOC_QSTR_CHUNK_INIT else n_bytes) in
        if m_chunk mem al \<noteq> 0
        then (Inr (), s\<lparr>qstr_last_chunk := m_chunk mem al, qstr_last_alloc := al, qstr_last_used := 0\<rparr>)
        else if m_chunk mem n_bytes \<noteq> 0
        then (Inr (), s\<lparr>qstr_last_chunk := m_chunk mem n_bytes, qstr_last_alloc := n_bytes, qstr_last_used := 0\<rparr>)
        else (Inl MemoryError, s))"

definition qstr_from_strn :: "qstr_mem \<Rightarrow> byte list \<Rightarrow> qstr_state \<Rightarrow> nat result \<times> qstr_state" where
  "qstr_from_strn mem str s =
     (let q = qstr_find_strn str s; len = length str in
      if q \<noteq> 0 then (Inr q, s)
      else if len \<ge> 2 ^ 8 then (Inl RuntimeError, s)
      else
        let n_bytes = len + 1 in
        case qstr_new_chunk mem n_bytes (qstr_grow_chunk mem n_bytes s) of
          (Inl e, s1) \<Rightarrow> (Inl e, s1)
        | (Inr _, s1) \<Rightarrow>
            let q_ptr = qstr_last_chunk s1 + qstr_last_used s1;
                s2 = s1\<lparr>qstr_last_used := qstr_last_used s1 + n_bytes\<rparr>;
                hash = qstr_compute_hash str;
                s3 = s2\<lparr>memory := write_bytes q_ptr str (memory s2)\<rparr>;
                s4 = s3\<lparr>memory := (memory s3)(q_ptr + len := 0)\<rparr>
            in qstr_add mem hash len q_ptr s4)"

definition qstr_hash :: "qstr_state \<Rightarrow> nat \<Rightarrow> nat option" where
  "qstr_hash s q = map_option (\<lambda>(pool, i). q_hash (entries pool ! i)) (find_qstr (pools s) q)"

definition qstr_len :: "qstr_state \<Rightarrow> nat \<Rightarrow> nat option" where
  "qstr_len s q = map_option (\<lambda>(pool, i). q_len (entries pool ! i)) (find_qstr (pools s) q)"

definition qstr_str :: "qstr_state \<Rightarrow> nat \<Rightarrow> nat option" where
  "qstr_str s q = map_option (\<lambda>(pool, i). q_str (entries pool ! i)) (find_qstr (pools s) q)"

text \<open>\<^verbatim>\<open>qstr_data\<close> returns pointer and length; here with the bytes they stand for.\<close>

definition qstr_data :: "qstr_state \<Rightarrow> nat \<Rightarrow> byte list option" where
  "qstr_data s q =
     map_option (\<lambda>(pool, i). read_bytes (memory s) (q_str (entries pool ! i)) (q_len (entries pool ! i)))
       (find_qstr (pools s) q)"

text \<open>\<^verbatim>\<open>qstr_pool_info\<close>: pools, strings and string bytes outside the constant pool, and the total
  with the heap bytes of each pool (\<open>nbytes\<close> is \<^verbatim>\<open>gc_nbytes\<close> of a pool).\<close>

fun pool_info :: "(qstr_pool \<Rightarrow> nat) \<Rightarrow> qstr_pool list \<Rightarrow> nat \<times> nat \<times> nat \<times> nat" where
  "pool_info nbytes (pool # prev # ps) =
     (let (n_pool, n_qstr, n_str, n_total) = pool_info nbytes (prev # ps)
      in (n_pool + 1, n_qstr + length (entries pool),
          n_str + sum_list (map (\<lambda>e. q_len e + 1) (entries pool)), n_total + nbytes pool))"
| "pool_info nbytes _ = (0, 0, 0, 0)"

definition qstr_pool_info :: "(qstr_pool \<Rightarrow> nat) \<Rightarrow> qstr_state \<Rightarrow> nat \<times> nat \<times> nat \<times> nat" where
  "qstr_pool_info nbytes s =
     (let (n_pool, n_qstr, n_str, n_total) = pool_info nbytes (pools s)
      in (n_pool, n_qstr, n_str, n_total + n_str))"

subsection \<open>The table of strings behind the pools\<close>

definition all_entries :: "qstr_pool list \<Rightarrow> qstr_entry list" where
  "all_entries ps = concat (map entries (rev ps))"

text \<open>
  The pool chain: offsets add up and the last pool is the constant one at offset 0, which has no
  room left. The strings: entry 0 is the null string with hash 0; every other entry has the hash
  of its data and a zero byte behind it, and no two have the same data.
\<close>

fun chain_ok :: "qstr_pool list \<Rightarrow> bool" where
  "chain_ok [] = False"
| "chain_ok [pool] \<longleftrightarrow> total_prev_len pool = 0 \<and> p_alloc pool \<le> length (entries pool)"
| "chain_ok (pool # prev # ps) \<longleftrightarrow>
     total_prev_len pool = total_prev_len prev + length (entries prev) \<and> chain_ok (prev # ps)"

definition e_data :: "mem_fun \<Rightarrow> qstr_entry \<Rightarrow> byte list" where
  "e_data b e = read_bytes b (q_str e) (q_len e)"

definition entry_ok :: "mem_fun \<Rightarrow> qstr_entry \<Rightarrow> bool" where
  "entry_ok b e \<longleftrightarrow> q_len e < 256 \<and> q_hash e = qstr_compute_hash (e_data b e) \<and> b (q_str e + q_len e) = 0"

definition table_ok :: "mem_fun \<Rightarrow> qstr_entry list \<Rightarrow> bool" where
  "table_ok b es \<longleftrightarrow> es \<noteq> [] \<and> q_hash (hd es) = 0 \<and> (\<forall>e \<in> set (tl es). entry_ok b e) \<and>
     distinct (map (e_data b) (tl es))"

text \<open>
  The bytes a string occupies with its terminator, the strings of a state, and a region of memory
  in which none of them lies.
\<close>

definition extent :: "qstr_entry \<Rightarrow> nat set" where
  "extent e = {q_str e..<q_str e + q_len e + 1}"

definition strings :: "qstr_state \<Rightarrow> qstr_entry list" where
  "strings s = tl (all_entries (pools s))"

definition region_free :: "qstr_state \<Rightarrow> nat \<Rightarrow> nat \<Rightarrow> bool" where
  "region_free s a n \<longleftrightarrow> (\<forall>e \<in> set (strings s). extent e \<inter> {a..<a + n} = {})"

text \<open>
  The rest of the chunk is free. This is what keeps a new string from overwriting an old one; the
  memory manager has to promise it of the memory it hands out.
\<close>

definition qstr_wf :: "qstr_state \<Rightarrow> bool" where
  "qstr_wf s \<longleftrightarrow> chain_ok (pools s) \<and> table_ok (memory s) (all_entries (pools s)) \<and>
     (qstr_last_chunk s \<noteq> 0 \<longrightarrow> qstr_last_used s \<le> qstr_last_alloc s \<and>
        region_free s (qstr_last_chunk s + qstr_last_used s) (qstr_last_alloc s - qstr_last_used s))"

definition alloc_ok :: "qstr_mem \<Rightarrow> qstr_state \<Rightarrow> bool" where
  "alloc_ok mem s \<longleftrightarrow>
     (\<forall>n. m_chunk mem n \<noteq> 0 \<longrightarrow> region_free s (m_chunk mem n) n) \<and>
     (\<forall>n. qstr_last_chunk s \<noteq> 0 \<and> m_grow mem n \<longrightarrow>
        region_free s (qstr_last_chunk s + qstr_last_alloc s) (n - qstr_last_alloc s))"

lemma all_entries_Cons [simp]: "all_entries (p # ps) = all_entries ps @ entries p"
  by (simp add: all_entries_def)

lemma all_entries_Nil [simp]: "all_entries [] = []"
  by (simp add: all_entries_def)

lemma chain_length: "chain_ok (p # ps) \<Longrightarrow> total_prev_len p = length (all_entries ps)"
  by (induction "p # ps" arbitrary: p ps rule: chain_ok.induct) auto

text \<open>\<open>find_qstr\<close> is indexing into the flat table.\<close>

lemma find_qstr_nth:
  assumes "chain_ok ps" and "q < length (all_entries ps)"
  shows "\<exists>pool i. find_qstr ps q = Some (pool, i) \<and> i < length (entries pool) \<and>
    entries pool ! i = all_entries ps ! q"
  using assms
proof (induction ps rule: chain_ok.induct)
  case (3 pool prev ps)
  have t: "total_prev_len pool = length (all_entries (prev # ps))" using 3(2) by (rule chain_length)
  show ?case
  proof (cases "q < total_prev_len pool")
    case True
    then show ?thesis using 3 t by (auto simp: nth_append)
  next
    case False
    then show ?thesis using 3 t by (auto simp: nth_append)
  qed
qed auto

definition matches :: "mem_fun \<Rightarrow> nat \<Rightarrow> byte list \<Rightarrow> qstr_entry \<Rightarrow> bool" where
  "matches b h str e \<longleftrightarrow> q_hash e = h \<and> e_data b e = str"

lemma matches_iff:
  "q_hash e = h \<and> q_len e = length str \<and> read_bytes b (q_str e) (length str) = str \<longleftrightarrow> matches b h str e"
  by (auto simp: matches_def e_data_def)

lemma find_in_pool_props:
  "case find_in_pool b h str at es of
     None \<Rightarrow> \<forall>e \<in> set es. \<not> matches b h str e
   | Some a \<Rightarrow> at \<le> a \<and> a < at + length es \<and> matches b h str (es ! (a - at))"
proof (induction es arbitrary: at)
  case (Cons e es)
  show ?case
    using Cons [of "at + 1"] by (auto simp: matches_iff nth_Cons' split: option.splits)
qed simp

lemma find_in_pools_props:
  assumes "chain_ok ps"
  shows "(\<exists>e \<in> set (all_entries ps). matches b h str e) \<longrightarrow>
      find_in_pools b h str ps < length (all_entries ps) \<and> matches b h str (all_entries ps ! find_in_pools b h str ps)"
    and "\<not> (\<exists>e \<in> set (all_entries ps). matches b h str e) \<longrightarrow> find_in_pools b h str ps = 0"
proof -
  note fp = find_in_pool_props [where b = b and h = h and str = str and at = 0]
  have "(\<forall>e \<in> set (all_entries ps). \<not> matches b h str e) \<and> find_in_pools b h str ps = 0 \<or>
      find_in_pools b h str ps < length (all_entries ps) \<and> matches b h str (all_entries ps ! find_in_pools b h str ps)"
    using assms
  proof (induction ps rule: chain_ok.induct)
    case (2 pool)
    then show ?case using fp [of "entries pool"] by (auto split: option.splits)
  next
    case (3 pool prev ps)
    have t: "total_prev_len pool = length (all_entries (prev # ps))" using 3(2) by (rule chain_length)
    have IH: "(\<forall>e \<in> set (all_entries (prev # ps)). \<not> matches b h str e) \<and> find_in_pools b h str (prev # ps) = 0 \<or>
        find_in_pools b h str (prev # ps) < length (all_entries (prev # ps)) \<and>
        matches b h str (all_entries (prev # ps) ! find_in_pools b h str (prev # ps))" using 3 by simp
    show ?case
    proof (cases "find_in_pool b h str 0 (entries pool)")
      case None
      then have "\<forall>e \<in> set (entries pool). \<not> matches b h str e" using fp [of "entries pool"] by simp
      then show ?thesis
        using IH None by (subst all_entries_Cons, subst (2 3) find_in_pools.simps(2)) (auto simp: nth_append)
    next
      case (Some i)
      then have "i < length (entries pool)" "matches b h str (entries pool ! i)" using fp [of "entries pool"] by auto
      then show ?thesis using Some t by (auto simp: nth_append)
    qed
  qed simp
  then show "(\<exists>e \<in> set (all_entries ps). matches b h str e) \<longrightarrow>
      find_in_pools b h str ps < length (all_entries ps) \<and> matches b h str (all_entries ps ! find_in_pools b h str ps)"
    and "\<not> (\<exists>e \<in> set (all_entries ps). matches b h str e) \<longrightarrow> find_in_pools b h str ps = 0"
    by (blast, metis nth_mem)
qed

text \<open>The accessors read the flat table.\<close>

lemma table_nth:
  assumes "qstr_wf s" and "0 < q" and "q < length (all_entries (pools s))"
  shows "all_entries (pools s) ! q \<in> set (strings s)" and "entry_ok (memory s) (all_entries (pools s) ! q)"
proof -
  show "all_entries (pools s) ! q \<in> set (strings s)"
    using assms(2,3) by (cases "all_entries (pools s)") (auto simp: nth_Cons' strings_def)
  then show "entry_ok (memory s) (all_entries (pools s) ! q)"
    using assms(1) by (simp add: qstr_wf_def table_ok_def strings_def)
qed

lemma qstr_data_nth:
  assumes "qstr_wf s" and "0 < q" and "q < length (all_entries (pools s))"
  shows "qstr_data s q = Some (e_data (memory s) (all_entries (pools s) ! q))"
    and "qstr_hash s q = Some (qstr_compute_hash (e_data (memory s) (all_entries (pools s) ! q)))"
    and "qstr_len s q = Some (length (e_data (memory s) (all_entries (pools s) ! q)))"
    and "qstr_str s q = Some (q_str (all_entries (pools s) ! q))"
proof -
  let ?es = "all_entries (pools s)"
  obtain pool i where f: "find_qstr (pools s) q = Some (pool, i)" "entries pool ! i = ?es ! q"
    using find_qstr_nth [OF _ assms(3)] assms(1) by (auto simp: qstr_wf_def)
  show "qstr_data s q = Some (e_data (memory s) (?es ! q))"
    "qstr_hash s q = Some (qstr_compute_hash (e_data (memory s) (?es ! q)))"
    "qstr_len s q = Some (length (e_data (memory s) (?es ! q)))" "qstr_str s q = Some (q_str (?es ! q))"
    using f table_nth(2) [OF assms]
    by (simp_all add: qstr_data_def qstr_hash_def qstr_len_def qstr_str_def entry_ok_def e_data_def)
qed

text \<open>In a well-formed table the search finds a string exactly when it is interned.\<close>

lemma qstr_find_interned:
  assumes wf: "qstr_wf s"
  shows "qstr_find_strn str s \<noteq> 0 \<Longrightarrow> qstr_find_strn str s < length (all_entries (pools s)) \<and>
      e_data (memory s) (all_entries (pools s) ! qstr_find_strn str s) = str"
    and "qstr_find_strn str s = 0 \<Longrightarrow> str \<notin> set (map (e_data (memory s)) (strings s))"
    and "0 < q \<Longrightarrow> q < length (all_entries (pools s)) \<Longrightarrow> e_data (memory s) (all_entries (pools s) ! q) = str \<Longrightarrow>
      qstr_find_strn str s = q"
proof -
  let ?es = "all_entries (pools s)" and ?h = "qstr_compute_hash str" and ?b = "memory s"
  have ch: "chain_ok (pools s)" and tab: "table_ok ?b ?es" using wf by (simp_all add: qstr_wf_def)
  note f = find_in_pools_props [OF ch, of ?b ?h str, folded qstr_find_strn_def]
  obtain e0 es where es: "?es = e0 # es" "q_hash e0 = 0" "\<forall>e \<in> set es. entry_ok ?b e" "distinct (map (e_data ?b) es)"
    using tab by (cases ?es) (auto simp: table_ok_def)
  have m0: "\<not> matches ?b ?h str e0" using es(2) qstr_compute_hash_range [of str] by (auto simp: matches_def)
  have m: "matches ?b ?h str e \<longleftrightarrow> e_data ?b e = str" if "e \<in> set es" for e
    using es(3) that by (auto simp: matches_def entry_ok_def)
  have some: "qstr_find_strn str s < length ?es \<and> qstr_find_strn str s \<noteq> 0 \<and> e_data ?b (?es ! qstr_find_strn str s) = str"
    if "e \<in> set es" "e_data ?b e = str" for e
  proof -
    have "matches ?b ?h str e" "e \<in> set ?es" using m that es(1) by auto
    then have "qstr_find_strn str s < length ?es" "matches ?b ?h str (?es ! qstr_find_strn str s)" using f(1) by blast+
    then show ?thesis using m0 es(1) by (cases "qstr_find_strn str s") (auto simp: matches_def)
  qed
  show "qstr_find_strn str s < length ?es \<and> e_data ?b (?es ! qstr_find_strn str s) = str" if "qstr_find_strn str s \<noteq> 0"
    using f that by (auto simp: matches_def)
  show "str \<notin> set (map (e_data ?b) (strings s))" if "qstr_find_strn str s = 0"
    using some that es(1) by (auto simp: strings_def)
  show "qstr_find_strn str s = q" if q: "0 < q" "q < length ?es" "e_data ?b (?es ! q) = str"
  proof -
    obtain i where i: "q = Suc i" "i < length es" using q es(1) by (cases q) auto
    have "es ! i \<in> set es" "e_data ?b (es ! i) = str" using i q es(1) by auto
    from some [OF this] obtain j where j: "qstr_find_strn str s = Suc j" "j < length es" "e_data ?b (es ! j) = str"
      using es(1) by (cases "qstr_find_strn str s") auto
    have "j = i" using es(4) i j \<open>e_data ?b (es ! i) = str\<close> by (metis distinct_conv_nth length_map nth_map)
    then show ?thesis using i j by simp
  qed
qed

subsection \<open>Writing beside the strings\<close>

text \<open>A table whose strings lie outside the bytes that change stays as it is.\<close>

lemma entry_frame:
  assumes "\<And>x. x \<in> extent e \<Longrightarrow> b' x = b x"
  shows "e_data b' e = e_data b e" and "entry_ok b' e \<longleftrightarrow> entry_ok b e"
proof -
  show d: "e_data b' e = e_data b e"
    unfolding e_data_def by (rule read_bytes_cong) (use assms in \<open>auto simp: extent_def\<close>)
  show "entry_ok b' e \<longleftrightarrow> entry_ok b e" using assms [of "q_str e + q_len e"] by (simp add: entry_ok_def d extent_def)
qed

lemma table_frame:
  assumes "\<And>e x. e \<in> set (tl es) \<Longrightarrow> x \<in> extent e \<Longrightarrow> b' x = b x"
  shows "map (e_data b') (tl es) = map (e_data b) (tl es)" and "table_ok b' es \<longleftrightarrow> table_ok b es"
proof -
  show m: "map (e_data b') (tl es) = map (e_data b) (tl es)"
    using entry_frame(1) [of _ b' b] assms by (intro map_cong) auto
  show "table_ok b' es \<longleftrightarrow> table_ok b es"
    unfolding table_ok_def m using entry_frame(2) [of _ b' b] assms by auto
qed

lemma region_free_sub: "region_free s a n \<Longrightarrow> a \<le> a' \<Longrightarrow> a' + n' \<le> a + n \<Longrightarrow> region_free s a' n'"
  unfolding region_free_def by fastforce

lemma region_free_join:
  "region_free s a n \<Longrightarrow> region_free s (a + n) k \<Longrightarrow> region_free s a (n + k)"
  unfolding region_free_def by (auto simp: disjoint_iff) (metis linorder_not_le add.assoc)

lemma region_free_cong: "pools s = pools s' \<Longrightarrow> region_free s a n = region_free s' a n"
  by (simp add: region_free_def strings_def)

text \<open>The chunk with room: \<open>n\<close> bytes at its used end belong to no string.\<close>

lemma chunk_props:
  assumes wf: "qstr_wf s" and al: "alloc_ok mem s" and n: "0 < n"
    and eq: "qstr_new_chunk mem n (qstr_grow_chunk mem n s) = (r, s')"
  shows "pools s' = pools s" and "memory s' = memory s"
    and "r = Inr () \<Longrightarrow> qstr_last_chunk s' \<noteq> 0 \<and> qstr_last_used s' + n \<le> qstr_last_alloc s' \<and>
      region_free s (qstr_last_chunk s' + qstr_last_used s') (qstr_last_alloc s' - qstr_last_used s')"
    and "r = Inl e \<Longrightarrow> e = MemoryError \<and> qstr_last_chunk s' = 0"
proof -
  show "pools s' = pools s" "memory s' = memory s"
    using eq by (auto simp: qstr_new_chunk_def qstr_grow_chunk_def Let_def split: if_splits)
  show "r = Inl e \<Longrightarrow> e = MemoryError \<and> qstr_last_chunk s' = 0"
    using eq by (auto simp: qstr_new_chunk_def qstr_grow_chunk_def Let_def split: if_splits)
  have fresh: "region_free s (m_chunk mem k) k" if "m_chunk mem k \<noteq> 0" for k
    using al that by (simp add: alloc_ok_def)
  have kept: "qstr_last_used s \<le> qstr_last_alloc s"
      "region_free s (qstr_last_chunk s + qstr_last_used s) (qstr_last_alloc s - qstr_last_used s)"
    if "qstr_last_chunk s \<noteq> 0" using wf that by (simp_all add: qstr_wf_def)
  have grown: "region_free s (qstr_last_chunk s + qstr_last_used s) (qstr_last_alloc s + n - qstr_last_used s)"
    if "qstr_last_chunk s \<noteq> 0" "m_grow mem (qstr_last_alloc s + n)"
  proof -
    have "region_free s (qstr_last_chunk s + qstr_last_alloc s) n"
      using al that unfolding alloc_ok_def by (metis add_diff_cancel_left')
    then show ?thesis
      using region_free_join [OF kept(2) [OF that(1)], of n] kept(1) [OF that(1)] by (simp add: add.assoc)
  qed
  show "qstr_last_chunk s' \<noteq> 0 \<and> qstr_last_used s' + n \<le> qstr_last_alloc s' \<and>
      region_free s (qstr_last_chunk s' + qstr_last_used s') (qstr_last_alloc s' - qstr_last_used s')" if "r = Inr ()"
    using eq that fresh kept grown by (auto simp: qstr_new_chunk_def qstr_grow_chunk_def Let_def split: if_splits)
qed

text \<open>When a string is there already, and when the chunk and the pool cannot be had.\<close>

definition interned :: "qstr_state \<Rightarrow> byte list \<Rightarrow> bool" where
  "interned s str \<longleftrightarrow> (\<exists>q. 0 < q \<and> q < length (all_entries (pools s)) \<and> qstr_data s q = Some str)"

definition chunk_refused :: "qstr_mem \<Rightarrow> qstr_state \<Rightarrow> nat \<Rightarrow> bool" where
  "chunk_refused mem s n \<longleftrightarrow>
     (qstr_last_chunk s = 0 \<or> qstr_last_alloc s < qstr_last_used s + n \<and> \<not> m_grow mem (qstr_last_alloc s + n)) \<and>
     m_chunk mem (max n 128) = 0 \<and> m_chunk mem n = 0"

definition pool_refused :: "qstr_mem \<Rightarrow> qstr_state \<Rightarrow> bool" where
  "pool_refused mem s \<longleftrightarrow>
     p_alloc (hd (pools s)) \<le> length (entries (hd (pools s))) \<and> \<not> m_pool mem (2 * p_alloc (hd (pools s)))"

lemma chunk_fails:
  "fst (qstr_new_chunk mem n (qstr_grow_chunk mem n s)) = (if chunk_refused mem s n then Inl MemoryError else Inr ())"
  by (auto simp: qstr_new_chunk_def qstr_grow_chunk_def chunk_refused_def Let_def max_def
      MICROPY_ALLOC_QSTR_CHUNK_INIT_def)

lemma qstr_add_props:
  assumes ch: "chain_ok (pools s)"
  shows "if pool_refused mem s then qstr_add mem h len a s = (Inl MemoryError, s\<lparr>qstr_last_chunk := 0\<rparr>)
    else \<exists>ps. qstr_add mem h len a s = (Inr (length (all_entries (pools s))), s\<lparr>pools := ps\<rparr>) \<and> chain_ok ps \<and>
      all_entries ps = all_entries (pools s) @ [\<lparr>q_hash = h, q_len = len, q_str = a\<rparr>] \<and> last ps = last (pools s)"
proof -
  obtain p ps where ps: "pools s = p # ps" using ch by (cases "pools s") auto
  have t: "total_prev_len p = length (all_entries ps)" using ch ps by (metis chain_length)
  have cons: "chain_ok (p\<lparr>entries := es\<rparr> # ps)" if "length (entries p) < p_alloc p" for es
    using ch ps that by (cases ps) auto
  have one: "ps \<noteq> []" if "length (entries p) < p_alloc p"
    using ch ps that by (cases ps) auto
  have new: "chain_ok (\<lparr>total_prev_len = total_prev_len p + length (entries p), p_alloc = k, entries = es\<rparr> # p # ps)" for k es
    using ch ps by simp
  show ?thesis
    using t new cons one unfolding qstr_add_def pool_refused_def ps Let_def
    by (auto simp: ps mult.commute)
qed

text \<open>What one call of \<open>qstr_from_strn\<close> does.\<close>

definition new_entry :: "byte list \<Rightarrow> nat \<Rightarrow> qstr_entry" where
  "new_entry str a = \<lparr>q_hash = qstr_compute_hash str, q_len = length str, q_str = a\<rparr>"

lemma write_frame:
  assumes "region_free s a n" and "length str + 1 \<le> n" and "e \<in> set (strings s)" and "x \<in> extent e"
  shows "((write_bytes a str b)(a + length str := 0)) x = b x"
proof -
  have "x \<notin> {a..<a + n}" using assms unfolding region_free_def by blast
  then show ?thesis using assms(2) by (auto simp: write_bytes_def)
qed

lemma new_entry_ok:
  fixes a :: nat and b0 :: mem_fun
  assumes "length str < 256"
  defines "b \<equiv> (write_bytes a str b0)(a + length str := 0)"
  shows "e_data b (new_entry str a) = str" and "entry_ok b (new_entry str a)"
proof -
  have "read_bytes b a (length str) = read_bytes (write_bytes a str b0) a (length str)"
    unfolding b_def by (rule read_bytes_cong) auto
  then show d: "e_data b (new_entry str a) = str" by (simp add: e_data_def new_entry_def)
  show "entry_ok b (new_entry str a)" using assms d by (simp add: entry_ok_def) (simp add: new_entry_def)
qed

text \<open>The part of \<open>qstr_from_strn\<close> after the chunk: the copy and \<open>qstr_add\<close>.\<close>

lemma qstr_store_cases:
  assumes wf: "qstr_wf s" and z: "qstr_find_strn str s = 0" and len: "length str < 256"
    and s1: "pools s1 = pools s" "memory s1 = memory s" "qstr_last_chunk s1 \<noteq> 0"
      "qstr_last_used s1 + (length str + 1) \<le> qstr_last_alloc s1"
    and a: "a = qstr_last_chunk s1 + qstr_last_used s1"
    and free: "region_free s a (qstr_last_alloc s1 - qstr_last_used s1)"
    and b: "b = (write_bytes a str (memory s))(a + length str := 0)"
    and add: "qstr_add mem (qstr_compute_hash str) (length str) a
      (s1\<lparr>qstr_last_used := qstr_last_used s1 + (length str + 1), memory := b\<rparr>) = (r, s')"
  obtains (refused) "r = Inl MemoryError" "pools s' = pools s" "qstr_wf s'" "memory s' = b" "pool_refused mem s"
  | (added) "r = Inr (length (all_entries (pools s)))" "qstr_wf s'" "memory s' = b" "\<not> pool_refused mem s"
      "all_entries (pools s') = all_entries (pools s) @ [new_entry str a]" "last (pools s') = last (pools s)"
proof -
  let ?n = "length str + 1"
  let ?s4 = "s1\<lparr>qstr_last_used := qstr_last_used s1 + ?n, memory := b\<rparr>"
  have frame: "b x = memory s x" if "e \<in> set (strings s)" "x \<in> extent e" for e x
    unfolding b by (rule write_frame [OF free _ that]) (use s1 in simp)
  have tab: "map (e_data b) (strings s) = map (e_data (memory s)) (strings s)" "table_ok b (all_entries (pools s))"
    using table_frame [of "all_entries (pools s)" b "memory s"] frame wf by (auto simp: strings_def qstr_wf_def)
  have ref: "pool_refused mem ?s4 = pool_refused mem s" by (simp add: pool_refused_def s1)
  have ch: "chain_ok (pools ?s4)" using wf s1 by (simp add: qstr_wf_def)
  note ap = qstr_add_props [OF ch, of mem "qstr_compute_hash str" "length str" a, unfolded ref, unfolded add]
  show thesis
  proof (cases "pool_refused mem s")
    case True
    then have "r = Inl MemoryError" "s' = ?s4\<lparr>qstr_last_chunk := 0\<rparr>" using ap by simp_all
    moreover have "qstr_wf (?s4\<lparr>qstr_last_chunk := 0\<rparr>)" using tab ch s1 by (simp add: qstr_wf_def)
    ultimately show thesis using refused True s1 by simp
  next
    case ok: False
    then obtain qs where qs: "r = Inr (length (all_entries (pools s)))" "s' = ?s4\<lparr>pools := qs\<rparr>" "chain_ok qs"
        "all_entries qs = all_entries (pools s) @ [new_entry str a]" "last qs = last (pools s)"
      using ap s1 by (auto simp: new_entry_def)
    have ne: "all_entries (pools s) \<noteq> []" using wf by (auto simp: qstr_wf_def table_ok_def)
    have "table_ok b (all_entries qs)"
      using tab new_entry_ok [OF len, of a "memory s", folded b] ne qstr_find_interned(2) [OF wf z]
      unfolding qs(4) tab(1) [symmetric] by (auto simp: table_ok_def strings_def)
    moreover have "region_free s' (a + ?n) (qstr_last_alloc s1 - (qstr_last_used s1 + ?n))"
    proof -
      have "region_free s (a + ?n) (qstr_last_alloc s1 - (qstr_last_used s1 + ?n))"
        using s1 by (intro region_free_sub [OF free]) auto
      moreover have "strings s' = strings s @ [new_entry str a]" using qs ne by (simp add: strings_def)
      ultimately show ?thesis by (auto simp: region_free_def) (auto simp: extent_def new_entry_def)
    qed
    ultimately have "qstr_wf s'" using qs s1 a by (simp add: qstr_wf_def add.assoc)
    then show thesis using added qs ok by simp
  qed
qed

lemma qstr_from_strn_cases:
  assumes wf: "qstr_wf s" and al: "alloc_ok mem s" and eq: "qstr_from_strn mem str s = (r, s')"
  obtains (found) q where "r = Inr q" "s' = s" "q \<noteq> 0" "qstr_find_strn str s = q"
  | (long) "r = Inl RuntimeError" "s' = s" "256 \<le> length str" "qstr_find_strn str s = 0"
  | (refused) "r = Inl MemoryError" "pools s' = pools s" "qstr_wf s'" "qstr_find_strn str s = 0" "length str < 256"
      "\<And>e x. e \<in> set (strings s) \<Longrightarrow> x \<in> extent e \<Longrightarrow> memory s' x = memory s x"
      "chunk_refused mem s (length str + 1) \<or> pool_refused mem s"
  | (added) a where "r = Inr (length (all_entries (pools s)))" "qstr_wf s'" "qstr_find_strn str s = 0" "length str < 256"
      "all_entries (pools s') = all_entries (pools s) @ [new_entry str a]" "e_data (memory s') (new_entry str a) = str"
      "\<And>e x. e \<in> set (strings s) \<Longrightarrow> x \<in> extent e \<Longrightarrow> memory s' x = memory s x" "last (pools s') = last (pools s)"
      "\<not> chunk_refused mem s (length str + 1)" "\<not> pool_refused mem s"
proof -
  consider "qstr_find_strn str s \<noteq> 0" | "qstr_find_strn str s = 0" "256 \<le> length str"
    | "qstr_find_strn str s = 0" "length str < 256" by linarith
  then show thesis
  proof cases
    case 3
    let ?n = "length str + 1"
    obtain c s1 where c: "qstr_new_chunk mem ?n (qstr_grow_chunk mem ?n s) = (c, s1)" by fastforce
    have cf: "c = (if chunk_refused mem s ?n then Inl MemoryError else Inr ())"
      using chunk_fails [of mem ?n s] c by simp
    note cp = chunk_props [OF wf al _ c]
    show thesis
    proof (cases "chunk_refused mem s ?n")
      case True
      then have r: "r = Inl MemoryError" "s' = s1" using eq 3 c cf by (auto simp: qstr_from_strn_def Let_def)
      have "qstr_wf s1" using wf cp(1,2) cp(4) [of MemoryError] cf True by (simp add: qstr_wf_def)
      then show thesis using refused r cp(1,2) 3 True by simp
    next
      case room: False
      define a where "a = qstr_last_chunk s1 + qstr_last_used s1"
      define b where "b = (write_bytes a str (memory s))(a + length str := 0)"
      have s1: "pools s1 = pools s" "memory s1 = memory s" "qstr_last_chunk s1 \<noteq> 0"
          "qstr_last_used s1 + ?n \<le> qstr_last_alloc s1" "region_free s a (qstr_last_alloc s1 - qstr_last_used s1)"
        using cp cf room by (auto simp: a_def)
      have add: "qstr_add mem (qstr_compute_hash str) (length str) a
          (s1\<lparr>qstr_last_used := qstr_last_used s1 + ?n, memory := b\<rparr>) = (r, s')"
        using eq 3 c cf room s1 by (simp add: qstr_from_strn_def Let_def a_def b_def)
      have frame: "b x = memory s x" if "e \<in> set (strings s)" "x \<in> extent e" for e x
        unfolding b_def by (rule write_frame [OF s1(5) _ that]) (use s1 in simp)
      show thesis
        by (rule qstr_store_cases [OF wf 3 s1(1-4) a_def s1(5) b_def add])
          (use refused added [of a] new_entry_ok [OF 3(2), of a "memory s", folded b_def] 3 room frame in simp_all)
    qed
  qed (use found long eq in \<open>auto simp: qstr_from_strn_def Let_def\<close>)
qed

subsection \<open>Later states\<close>

text \<open>
  A later state has the entries of the earlier one, with the same characters behind them, perhaps
  more, and the same constant pool.
\<close>

definition extends :: "qstr_state \<Rightarrow> qstr_state \<Rightarrow> bool" where
  "extends s s' \<longleftrightarrow> (\<exists>es. all_entries (pools s') = all_entries (pools s) @ es) \<and>
     (\<forall>e \<in> set (strings s). e_data (memory s') e = e_data (memory s) e) \<and> last (pools s') = last (pools s)"

lemma extends_refl [simp]: "extends s s"
  by (simp add: extends_def)

lemma extends_strings: "extends s s' \<Longrightarrow> all_entries (pools s) \<noteq> [] \<Longrightarrow> set (strings s) \<subseteq> set (strings s')"
  by (auto simp: extends_def strings_def)

lemma extends_trans:
  assumes "extends s s'" and "extends s' s''" and "all_entries (pools s) \<noteq> []"
  shows "extends s s''"
  using assms extends_strings [OF assms(1,3)] unfolding extends_def by fastforce

lemma wf_nonempty: "qstr_wf s \<Longrightarrow> 0 < length (all_entries (pools s))"
  by (auto simp: qstr_wf_def table_ok_def)

lemma extends_data:
  assumes "extends s s'" and wf: "qstr_wf s" "qstr_wf s'" and q: "0 < q" "q < length (all_entries (pools s))"
  shows "q < length (all_entries (pools s'))" and "qstr_data s' q = qstr_data s q"
proof -
  obtain es where es: "all_entries (pools s') = all_entries (pools s) @ es" using assms(1) by (auto simp: extends_def)
  then show l: "q < length (all_entries (pools s'))" using q by simp
  show "qstr_data s' q = qstr_data s q"
    using qstr_data_nth(1) [OF wf(1) q] qstr_data_nth(1) [OF wf(2) q(1) l] assms(1) table_nth(1) [OF wf(1) q]
    by (simp add: es nth_append q extends_def)
qed

lemma frame_extends:
  assumes "all_entries (pools s') = all_entries (pools s) @ es" and "last (pools s') = last (pools s)"
    and "\<And>e x. e \<in> set (strings s) \<Longrightarrow> x \<in> extent e \<Longrightarrow> memory s' x = memory s x"
  shows "extends s s'"
  using assms entry_frame(1) [of _ "memory s'" "memory s"] by (auto simp: extends_def)

text \<open>Whether it succeeds or not, interning keeps the pool well formed and every string in place.\<close>

lemma qstr_from_strn_extends:
  assumes "qstr_wf s" and "alloc_ok mem s" and "qstr_from_strn mem str s = (r, s')"
  shows "qstr_wf s' \<and> extends s s'"
  using assms
proof (cases rule: qstr_from_strn_cases)
  case refused
  then show ?thesis using frame_extends [of s' s "[]"] by simp
next
  case (added a)
  then show ?thesis using frame_extends [of s' s "[new_entry str a]"] by simp
qed (use assms in simp_all)

text \<open>
  Runs: strings are interned, with whatever the memory manager answers, and the rest of the program
  writes to memory, though not where the strings are.
\<close>

inductive qstr_run :: "qstr_state \<Rightarrow> qstr_state \<Rightarrow> bool" where
  run_refl: "qstr_run s s"
| run_intern: "qstr_run s s1 \<Longrightarrow> alloc_ok mem s1 \<Longrightarrow> qstr_from_strn mem str s1 = (r, s2) \<Longrightarrow> qstr_run s s2"
| run_other: "qstr_run s s1 \<Longrightarrow> \<forall>e \<in> set (strings s1). \<forall>x \<in> extent e. b x = memory s1 x \<Longrightarrow>
    qstr_run s (s1\<lparr>memory := b\<rparr>)"

lemma other_wf:
  assumes "qstr_wf s" and "\<forall>e \<in> set (strings s). \<forall>x \<in> extent e. b x = memory s x"
  shows "qstr_wf (s\<lparr>memory := b\<rparr>) \<and> extends s (s\<lparr>memory := b\<rparr>)"
proof -
  have "region_free (s\<lparr>memory := b\<rparr>) a n = region_free s a n" for a n by (simp add: region_free_def strings_def)
  moreover have "table_ok b (all_entries (pools s))"
    using assms table_frame(2) [of "all_entries (pools s)" b "memory s"] by (simp add: qstr_wf_def strings_def)
  ultimately show ?thesis
    using assms frame_extends [of "s\<lparr>memory := b\<rparr>" s "[]"] by (simp add: qstr_wf_def)
qed

lemma qstr_run_extends: "qstr_run s s' \<Longrightarrow> qstr_wf s \<Longrightarrow> qstr_wf s' \<and> extends s s'"
proof (induction rule: qstr_run.induct)
  case (run_intern s s1 mem str r s2)
  then show ?case using qstr_from_strn_extends [of s1 mem str r s2] extends_trans wf_nonempty by blast
next
  case (run_other s s1 b)
  then show ?case using other_wf [of s1 b] extends_trans wf_nonempty by blast
qed simp

text \<open>
  What the build's \<^verbatim>\<open>makeqstrdata.py\<close> promises of the constant pool: at least
  \<^verbatim>\<open>MICROPY_ALLOC_QSTR_ENTRIES_INIT\<close> entries, the null string first, the others with their
  hash and length, no string twice.
\<close>

definition const_pool_ok :: "mem_fun \<Rightarrow> qstr_entry list \<Rightarrow> bool" where
  "const_pool_ok b es \<longleftrightarrow> MICROPY_ALLOC_QSTR_ENTRIES_INIT \<le> length es \<and> table_ok b es"

lemma qstr_init_wf: "const_pool_ok (memory s) es \<Longrightarrow> qstr_wf (qstr_init es s)"
  by (simp add: const_pool_ok_def qstr_init_def qstr_wf_def)

lemma interned_data:
  assumes wf: "qstr_wf s" and al: "alloc_ok mem s" and eq: "qstr_from_strn mem str s = (Inr q, s')"
  shows "0 < q \<and> q < length (all_entries (pools s')) \<and> qstr_data s' q = Some str \<and> qstr_find_strn str s' = q"
  using assms
proof (cases rule: qstr_from_strn_cases)
  case (found p)
  then show ?thesis using qstr_find_interned(1) [OF wf, of str] qstr_data_nth(1) [OF wf, of q] by simp
next
  case (added a)
  have q: "0 < q" "q < length (all_entries (pools s'))" using added wf_nonempty [OF wf] by auto
  have "e_data (memory s') (all_entries (pools s') ! q) = str" using added by simp
  then show ?thesis
    using q qstr_data_nth(1) [OF added(2) q] qstr_find_interned(3) [OF added(2) q] by simp
qed auto

subsection \<open>Theorems\<close>

text \<open>An example: ten constant strings of one byte, the letters from \<open>a\<close>, at 1001, 1003, ...\<close>

definition example_memory :: mem_fun where
  "example_memory = (\<lambda>x. if odd x \<and> 1001 \<le> x \<and> x < 1021 then 97 + of_nat ((x - 1001) div 2) else 0)"

definition example_const_pool :: "qstr_entry list" where
  "example_const_pool = \<lparr>q_hash = 0, q_len = 0, q_str = 1000\<rparr> #
     map (\<lambda>i. \<lparr>q_hash = qstr_compute_hash [97 + of_nat i], q_len = 1, q_str = 1001 + 2 * i\<rparr>) [0..<10]"

definition example_start :: qstr_state where
  "example_start = \<lparr>pools = [], qstr_last_chunk = 0, qstr_last_alloc = 0, qstr_last_used = 0, memory = example_memory\<rparr>"

definition example_pool :: qstr_state where
  "example_pool = qstr_init example_const_pool example_start"

definition example_mem :: qstr_mem where
  "example_mem = \<lparr>m_grow = (\<lambda>_. False), m_chunk = (\<lambda>n. 5000), m_pool = (\<lambda>_. True)\<rparr>"

definition no_mem :: qstr_mem where
  "no_mem = \<lparr>m_grow = (\<lambda>_. False), m_chunk = (\<lambda>n. 0), m_pool = (\<lambda>_. False)\<rparr>"

lemma upt_10: "[0..<10] = [0, 1, 2, 3, 4, 5, 6, 7, 8, 9::nat]"
  by code_simp

lemma example_const_pool_ok: "const_pool_ok example_memory example_const_pool"
  by (simp add: const_pool_ok_def table_ok_def example_const_pool_def entry_ok_def e_data_def read_bytes_def
      example_memory_def upt_10 MICROPY_ALLOC_QSTR_ENTRIES_INIT_def)

lemma example_pool_wf: "qstr_wf example_pool"
  unfolding example_pool_def by (rule qstr_init_wf) (simp add: example_const_pool_ok example_start_def)

lemma example_alloc_ok: "alloc_ok example_mem example_pool" "alloc_ok no_mem s"
  by (auto simp: alloc_ok_def example_mem_def no_mem_def example_pool_def qstr_init_def region_free_def strings_def
      all_entries_def example_const_pool_def extent_def)

lemma example_length: "length (all_entries (pools example_pool)) = 11"
  by (simp add: example_pool_def qstr_init_def example_const_pool_def)

text \<open>
  C9. Interning a string yields its qstr: the bytes read back through the entry's pointer are the
  string and a zero byte follows them, interning it again (whatever the memory manager then
  answers) gives the same qstr and changes nothing, and the characters of the strings interned
  before are not overwritten, provided that the chunks the memory manager hands out overlap no
  interned string.
\<close>

theorem qstr_from_strn_interns:
  assumes wf: "qstr_wf s" and al: "alloc_ok mem s" and eq: "qstr_from_strn mem str s = (Inr q, s')"
  shows "qstr_wf s' \<and> q \<noteq> 0 \<and> qstr_data s' q = Some str \<and>
    (\<exists>a. qstr_str s' q = Some a \<and> read_bytes (memory s') a (length str + 1) = str @ [0]) \<and>
    qstr_from_strn mem' str s' = (Inr q, s') \<and>
    (\<forall>i. 0 < i \<and> i < length (all_entries (pools s)) \<longrightarrow> qstr_data s' i = qstr_data s i)"
proof -
  have s': "qstr_wf s'" "extends s s'" using qstr_from_strn_extends [OF assms] by simp_all
  have q: "0 < q" "q < length (all_entries (pools s'))" "qstr_data s' q = Some str" "qstr_find_strn str s' = q"
    using interned_data [OF assms] by simp_all
  let ?e = "all_entries (pools s') ! q"
  have "e_data (memory s') ?e = str" "q_len ?e = length str"
    using q qstr_data_nth(1) [OF s'(1) q(1,2)] by (auto simp: e_data_def)
  then have "read_bytes (memory s') (q_str ?e) (length str + 1) = str @ [0]"
    using table_nth(2) [OF s'(1) q(1,2)] by (simp add: entry_ok_def e_data_def read_bytes_def)
  then show ?thesis
    using s' q extends_data(2) [OF s'(2) wf s'(1)] qstr_data_nth(4) [OF s'(1) q(1,2)]
    by (simp add: qstr_from_strn_def Let_def)
qed

lemma example_interns: "\<exists>s'. qstr_from_strn example_mem [98, 99] example_pool = (Inr 11, s')"
proof -
  have "qstr_find_strn [98, 99] example_pool = 0"
    by (simp add: qstr_find_strn_def example_pool_def qstr_init_def example_const_pool_def upt_10)
  then show ?thesis
    by (simp add: qstr_from_strn_def qstr_new_chunk_def qstr_grow_chunk_def qstr_add_def example_mem_def)
      (simp add: example_pool_def qstr_init_def MICROPY_ALLOC_QSTR_ENTRIES_INIT_def example_const_pool_def)
qed

theorem qstr_from_strn_interns_witness:
  "\<exists>s'. qstr_wf example_pool \<and> alloc_ok example_mem example_pool \<and>
     qstr_from_strn example_mem [98, 99] example_pool = (Inr 11, s') \<and>
     qstr_data s' 11 = Some [98, 99] \<and> qstr_data s' 2 = qstr_data example_pool 2"
proof -
  obtain s' where eq: "qstr_from_strn example_mem [98, 99] example_pool = (Inr 11, s')" using example_interns by blast
  show ?thesis
    using qstr_from_strn_interns [OF example_pool_wf example_alloc_ok(1) eq] eq example_pool_wf example_alloc_ok(1)
    by (auto simp: example_length)
qed

text \<open>
  C10. Comparing qstrs compares strings. From the constant pool on, let a string be interned, then
  other strings in any number, with the rest of the program writing to memory outside them, then
  a second string: the two qstrs are the same number exactly when the two strings are the same. At
  the end both still have their data, length and hash, and the constant pool is as it was built.
\<close>

theorem qstr_equality_is_identity:
  assumes "const_pool_ok (memory s0) es" and "qstr_run (qstr_init es s0) s"
    and "alloc_ok mem s" and "qstr_from_strn mem str s = (Inr q, s1)"
    and "qstr_run s1 s2" and "alloc_ok mem' s2" and "qstr_from_strn mem' str' s2 = (Inr q', s3)"
  shows "(q = q' \<longleftrightarrow> str = str') \<and> qstr_data s3 q = Some str \<and> qstr_data s3 q' = Some str' \<and>
    qstr_len s3 q = Some (length str) \<and> qstr_hash s3 q = Some (qstr_compute_hash str) \<and>
    entries (last (pools s3)) = es"
proof -
  let ?s = "qstr_init es s0"
  have wf0: "qstr_wf ?s" using assms(1) by (rule qstr_init_wf)
  then have wf: "qstr_wf s" and e: "extends ?s s" using qstr_run_extends [OF assms(2)] by simp_all
  have wf1: "qstr_wf s1" and e1: "extends s s1" using qstr_from_strn_extends [OF wf assms(3,4)] by simp_all
  have wf2: "qstr_wf s2" and e2: "extends s1 s2" using qstr_run_extends [OF assms(5) wf1] by simp_all
  have wf3: "qstr_wf s3" and e3: "extends s2 s3" using qstr_from_strn_extends [OF wf2 assms(6,7)] by simp_all
  have e13: "extends s1 s3" using extends_trans [OF e2 e3] wf_nonempty [OF wf1] by simp
  have q: "0 < q" "q < length (all_entries (pools s1))" "qstr_data s1 q = Some str"
    using interned_data [OF wf assms(3,4)] by simp_all
  have q': "0 < q'" "q' < length (all_entries (pools s3))" "qstr_data s3 q' = Some str'"
    using interned_data [OF wf2 assms(6,7)] by simp_all
  have q3: "q < length (all_entries (pools s3))" "qstr_data s3 q = Some str"
    using extends_data [OF e13 wf1 wf3 q(1,2)] q(3) by simp_all
  note n = qstr_data_nth [OF wf3 q(1) q3(1)] and n' = qstr_data_nth [OF wf3 q'(1,2)]
  have d: "e_data (memory s3) (all_entries (pools s3) ! q) = str" "e_data (memory s3) (all_entries (pools s3) ! q') = str'"
    using n(1) q3(2) n'(1) q'(3) by simp_all
  have "q = q'" if "str = str'"
    using qstr_find_interned(3) [OF wf3 q(1) q3(1) d(1)] qstr_find_interned(3) [OF wf3 q'(1,2) d(2)] that by simp
  moreover have "entries (last (pools s3)) = es"
    using e e1 e2 e3 by (simp add: extends_def) (simp add: qstr_init_def)
  ultimately show ?thesis using n(2,3) q3(2) q'(3) d(1) by auto
qed

theorem qstr_equality_is_identity_witness:
  "\<exists>s1. qstr_from_strn example_mem [98, 99] example_pool = (Inr 11, s1) \<and>
     qstr_from_strn no_mem [98, 99] s1 = (Inr 11, s1) \<and> qstr_hash s1 11 = Some (qstr_compute_hash [98, 99])"
proof -
  obtain s1 where eq: "qstr_from_strn example_mem [98, 99] example_pool = (Inr 11, s1)" using example_interns by blast
  have "qstr_find_strn [98, 99] s1 = 11" using interned_data [OF example_pool_wf example_alloc_ok(1) eq] by simp
  then have eq': "qstr_from_strn no_mem [98, 99] s1 = (Inr 11, s1)" by (simp add: qstr_from_strn_def)
  have start: "const_pool_ok (memory example_start) example_const_pool" by (simp add: example_const_pool_ok example_start_def)
  have "qstr_hash s1 11 = Some (qstr_compute_hash [98, 99])"
    using qstr_equality_is_identity [OF start run_refl example_alloc_ok(1) [unfolded example_pool_def]
        eq [unfolded example_pool_def] run_refl example_alloc_ok(2) eq'] by simp
  then show ?thesis using eq eq' by blast
qed

text \<open>
  C11. Exactly when interning fails: \<^verbatim>\<open>RuntimeError\<close> for a new string of 256 bytes or more,
  \<^verbatim>\<open>MemoryError\<close> for a shorter new string when there is no chunk with room for it, growing
  is refused and neither a chunk of the usual size nor one of just its size is to be had, or when the
  pool is full and there is no memory for one of twice its size. In every other case
  there is a result. After a failure the pools, the data of all qstrs and the invariant are as
  before.
\<close>

theorem qstr_from_strn_fails:
  assumes wf: "qstr_wf s" and al: "alloc_ok mem s"
  shows "case qstr_from_strn mem str s of
     (Inr q, s') \<Rightarrow> interned s str \<or> length str < 256 \<and> \<not> chunk_refused mem s (length str + 1) \<and> \<not> pool_refused mem s
   | (Inl e, s') \<Rightarrow> \<not> interned s str \<and>
       e = (if 256 \<le> length str then RuntimeError else MemoryError) \<and>
       (256 \<le> length str \<or> chunk_refused mem s (length str + 1) \<or> pool_refused mem s) \<and>
       qstr_wf s' \<and> pools s' = pools s \<and>
       (\<forall>i. 0 < i \<and> i < length (all_entries (pools s)) \<longrightarrow> qstr_data s' i = qstr_data s i)"
proof -
  obtain r s' where eq: "qstr_from_strn mem str s = (r, s')" by fastforce
  have i: "interned s str \<longleftrightarrow> qstr_find_strn str s \<noteq> 0"
    using qstr_find_interned(1) [OF wf, of str] qstr_find_interned(3) [OF wf, where str = str] qstr_data_nth(1) [OF wf]
    unfolding interned_def by (metis neq0_conv option.inject)
  have s': "qstr_wf s'" "extends s s'" using qstr_from_strn_extends [OF wf al eq] by simp_all
  show ?thesis
    unfolding eq i using wf al eq extends_data(2) [OF s'(2) wf s'(1)] s'(1)
    by (cases rule: qstr_from_strn_cases) simp_all
qed

theorem qstr_from_strn_fails_witness:
  "qstr_wf example_pool \<and> alloc_ok no_mem example_pool \<and> fst (qstr_from_strn no_mem [98, 99] example_pool) = Inl MemoryError \<and>
   (chunk_refused no_mem example_pool 3 \<or> pool_refused no_mem example_pool)"
proof -
  have z: "qstr_find_strn [98, 99] example_pool = 0"
    by (simp add: qstr_find_strn_def example_pool_def qstr_init_def example_const_pool_def upt_10)
  obtain s' where eq: "qstr_from_strn no_mem [98, 99] example_pool = (Inl MemoryError, s')"
    using z by (simp add: qstr_from_strn_def qstr_new_chunk_def qstr_grow_chunk_def no_mem_def)
      (simp add: example_pool_def qstr_init_def)
  show ?thesis
    using qstr_from_strn_fails [OF example_pool_wf example_alloc_ok(2), where str = "[98, 99]"] example_pool_wf
      example_alloc_ok(2) by (simp add: eq numeral_3_eq_3)
qed

end
