(* ===== verification/Hash_Map.thy ===== *)
theory Hash_Map
  imports Prelude
begin

unbundle bit_operations_syntax

text \<open>
  The hash tables of \<^verbatim>\<open>py/map.c\<close> as they stand in \<^verbatim>\<open>src/libIPUpy/libIPUpy.c\<close>: \<^verbatim>\<open>mp_map_t\<close>
  (dictionaries, namespaces) and \<^verbatim>\<open>mp_set_t\<close>, both with linear probing, deleted-slot markers
  and growth by rehashing. The port has no ordered dictionaries and no lookup cache.
\<close>

subsection \<open>Data\<close>

text \<open>A key field is \<^verbatim>\<open>MP_OBJ_NULL\<close> (never used), \<^verbatim>\<open>MP_OBJ_SENTINEL\<close> (deleted) or an object.\<close>

datatype 'k slot_key = Null | Sentinel | Key 'k

datatype lookup_kind = LOOKUP | ADD_IF_NOT_FOUND | REMOVE_IF_FOUND | ADD_IF_NOT_FOUND_OR_REMOVE_IF_FOUND

text \<open>The two bits of \<^verbatim>\<open>mp_map_lookup_kind_t\<close> that \<^verbatim>\<open>mp_set_lookup\<close> tests.\<close>

fun kind_adds :: "lookup_kind \<Rightarrow> bool" where
  "kind_adds ADD_IF_NOT_FOUND = True"
| "kind_adds ADD_IF_NOT_FOUND_OR_REMOVE_IF_FOUND = True"
| "kind_adds _ = False"

fun kind_removes :: "lookup_kind \<Rightarrow> bool" where
  "kind_removes REMOVE_IF_FOUND = True"
| "kind_removes ADD_IF_NOT_FOUND_OR_REMOVE_IF_FOUND = True"
| "kind_removes _ = False"

record ('k, 'v) mp_map =
  m_alloc :: nat
  m_used :: nat
  all_keys_are_qstrs :: bool
  is_fixed :: bool
  is_ordered :: bool
  m_keys :: "'k slot_key list"   \<comment> \<open>the key fields of the table\<close>
  m_values :: "'v option list"   \<comment> \<open>the value fields; \<open>None\<close> is \<open>MP_OBJ_NULL\<close>\<close>

record 'k mp_set =
  s_alloc :: nat
  s_used :: nat
  s_table :: "'k slot_key list"

text \<open>
  What the tables use of the objects: equality (\<^verbatim>\<open>mp_obj_equal\<close>), the hash as an unsigned
  word, and the two type tests. \<open>can_new n\<close> says whether \<^verbatim>\<open>m_new0\<close> of a table with \<open>n\<close> slots
  succeeds; where it does not, the caller raises \<^verbatim>\<open>MemoryError\<close>.
\<close>

record 'k obj_ops =
  obj_equal :: "'k \<Rightarrow> 'k \<Rightarrow> bool"
  obj_hash :: "'k \<Rightarrow> nat"
  obj_is_qstr :: "'k \<Rightarrow> bool"
  obj_is_str :: "'k \<Rightarrow> bool"
  can_new :: "nat \<Rightarrow> bool"

subsection \<open>Table sizes\<close>

definition hash_allocation_sizes :: "nat list" where
  "hash_allocation_sizes =
    [0, 2, 4, 6, 8, 10, 12,
     17, 23, 29, 37, 47, 59, 73,
     97, 127, 167, 223, 293, 389, 521, 691, 919, 1223, 1627, 2161,
     3229, 4831, 7243, 10861, 16273, 24407, 36607, 54907]"

definition get_hash_alloc_greater_or_equal_to :: "nat \<Rightarrow> nat" where
  "get_hash_alloc_greater_or_equal_to x =
     (case find (\<lambda>n. n \<ge> x) hash_allocation_sizes of
        Some n \<Rightarrow> n
      | None \<Rightarrow> (x + x div 2) OR 1)"

lemma get_hash_alloc_ge: "x \<le> get_hash_alloc_greater_or_equal_to x"
proof (cases "find (\<lambda>n. n \<ge> x) hash_allocation_sizes")
  case None
  have "x + x div 2 \<le> (x + x div 2) OR 1" by (simp add: or_Suc_0_eq)
  then show ?thesis using None by (simp add: get_hash_alloc_greater_or_equal_to_def)
next
  case (Some n)
  then have "x \<le> n" by (auto simp: find_Some_iff)
  then show ?thesis using Some by (simp add: get_hash_alloc_greater_or_equal_to_def)
qed

subsection \<open>Probing\<close>

text \<open>
  The search loop shared by \<^verbatim>\<open>mp_map_lookup\<close> and \<^verbatim>\<open>mp_set_lookup\<close>: from \<open>pos\<close> on,
  remembering the first deleted slot, until a null slot, a matching key, or (after one round of
  \<^verbatim>\<open>alloc\<close> slots) the starting position again.
\<close>

datatype probe_result =
    AtNull nat "nat option"   \<comment> \<open>the null slot and \<open>avail_slot\<close>\<close>
  | AtKey nat
  | Wrapped "nat option"      \<comment> \<open>\<open>avail_slot\<close>\<close>

fun probe :: "('k \<Rightarrow> bool) \<Rightarrow> 'k slot_key list \<Rightarrow> nat \<Rightarrow> nat option \<Rightarrow> nat \<Rightarrow> probe_result" where
  "probe same tab pos avail_slot 0 = Wrapped avail_slot"
| "probe same tab pos avail_slot (Suc n) =
     (case tab ! pos of
        Null \<Rightarrow> AtNull pos avail_slot
      | Sentinel \<Rightarrow>
          probe same tab ((pos + 1) mod length tab)
            (case avail_slot of None \<Rightarrow> Some pos | Some a \<Rightarrow> Some a) n
      | Key k \<Rightarrow>
          if same k then AtKey pos
          else probe same tab ((pos + 1) mod length tab) avail_slot n)"

text \<open>What deleting the key at \<open>pos\<close> leaves in its slot.\<close>

definition delete_slot :: "'k slot_key list \<Rightarrow> nat \<Rightarrow> 'k slot_key list" where
  "delete_slot tab pos =
     tab[pos := (if tab ! ((pos + 1) mod length tab) = Null then Null else Sentinel)]"

subsection \<open>Maps\<close>

definition mp_map_init :: "'k obj_ops \<Rightarrow> nat \<Rightarrow> ('k, 'v) mp_map result" where
  "mp_map_init ops n =
     (if n \<noteq> 0 \<and> \<not> can_new ops n then Inl MemoryError
      else Inr \<lparr>m_alloc = n, m_used = 0, all_keys_are_qstrs = True, is_fixed = False,
                is_ordered = False, m_keys = replicate n Null, m_values = replicate n None\<rparr>)"

definition mp_map_init_fixed_table :: "('k \<times> 'v) list \<Rightarrow> ('k, 'v) mp_map" where
  "mp_map_init_fixed_table table =
     \<lparr>m_alloc = length table, m_used = length table, all_keys_are_qstrs = True, is_fixed = True,
      is_ordered = True, m_keys = map (Key \<circ> fst) table, m_values = map (Some \<circ> snd) table\<rparr>"

definition mp_map_deinit :: "('k, 'v) mp_map \<Rightarrow> ('k, 'v) mp_map" where
  "mp_map_deinit m = m\<lparr>m_used := 0, m_alloc := 0\<rparr>"

definition mp_map_clear :: "('k, 'v) mp_map \<Rightarrow> ('k, 'v) mp_map" where
  "mp_map_clear m =
     m\<lparr>m_alloc := 0, m_used := 0, all_keys_are_qstrs := True, is_fixed := False,
       m_keys := [], m_values := []\<rparr>"

text \<open>
  \<open>slot->key = index; slot->value = MP_OBJ_NULL\<close> with the count and the flag: how a new key
  enters the table.
\<close>

definition map_put_key :: "'k obj_ops \<Rightarrow> 'k \<Rightarrow> nat \<Rightarrow> ('k, 'v) mp_map \<Rightarrow> ('k, 'v) mp_map" where
  "map_put_key ops index p m =
     m\<lparr>m_used := m_used m + 1, m_keys := (m_keys m)[p := Key index],
       m_values := (m_values m)[p := None],
       all_keys_are_qstrs := (all_keys_are_qstrs m \<and> obj_is_qstr ops index)\<rparr>"

definition map_set_value :: "nat \<Rightarrow> 'v option \<Rightarrow> ('k, 'v) mp_map \<Rightarrow> ('k, 'v) mp_map" where
  "map_set_value p v m = m\<lparr>m_values := (m_values m)[p := v]\<rparr>"

text \<open>The linear search of an ordered table: the first \<^verbatim>\<open>used\<close> slots.\<close>

fun ordered_search :: "('k \<Rightarrow> bool) \<Rightarrow> 'k slot_key list \<Rightarrow> nat \<Rightarrow> nat \<Rightarrow> nat option" where
  "ordered_search same tab i 0 = None"
| "ordered_search same tab i (Suc n) =
     (case tab ! i of
        Key k \<Rightarrow> if same k then Some i else ordered_search same tab (i + 1) n
      | _ \<Rightarrow> ordered_search same tab (i + 1) n)"

text \<open>
  \<^verbatim>\<open>mp_map_lookup\<close> and \<^verbatim>\<open>mp_map_rehash\<close> call each other: a lookup that adds may rehash,
  which looks up every key in the new table. The model ties the knot with a bound \<open>d\<close> on the
  depth of this nesting and on the number of restarts of one search; \<open>None\<close> is running out of
  it, which \<open>Map_Correct\<close> rules out for \<open>d \<ge> 2\<close>. A result is the slot (\<open>Inr None\<close> for
  \<^verbatim>\<open>NULL\<close>) or the exception, with the map as it then is. \<open>map_search\<close> is the loop behind the
  comment \<^emph>\<open>map is a hash table\<close>, entered with \<open>compare_only_ptrs\<close> and the hash.
\<close>

type_synonym ('k, 'v) map_result = "(nat option result \<times> ('k, 'v) mp_map) option"
type_synonym ('k, 'v) map_rehash = "('k, 'v) mp_map \<Rightarrow> (unit result \<times> ('k, 'v) mp_map) option"

fun map_search :: "'k obj_ops \<Rightarrow> ('k, 'v) map_rehash \<Rightarrow> nat \<Rightarrow> bool \<Rightarrow> nat \<Rightarrow> 'k \<Rightarrow> lookup_kind \<Rightarrow>
    ('k, 'v) mp_map \<Rightarrow> ('k, 'v) map_result" where
  "map_search ops rehash 0 cop hash index kind m = None"
| "map_search ops rehash (Suc n) cop hash index kind m =
     (case probe (\<lambda>k. k = index \<or> \<not> cop \<and> obj_equal ops k index) (m_keys m) (hash mod m_alloc m) None (m_alloc m) of
        AtNull p avail \<Rightarrow>
          if kind = ADD_IF_NOT_FOUND then
            (let q = (case avail of None \<Rightarrow> p | Some a \<Rightarrow> a) in Some (Inr (Some q), map_put_key ops index q m))
          else Some (Inr None, m)
      | AtKey p \<Rightarrow>
          if kind = REMOVE_IF_FOUND then
            Some (Inr (Some p), m\<lparr>m_used := m_used m - 1, m_keys := delete_slot (m_keys m) p\<rparr>)
          else Some (Inr (Some p), m)
      | Wrapped avail \<Rightarrow>
          if kind = ADD_IF_NOT_FOUND then
            (case avail of
               Some q \<Rightarrow> Some (Inr (Some q), map_put_key ops index q m)
             | None \<Rightarrow>
                 (case rehash m of
                    None \<Rightarrow> None
                  | Some (Inl e, m') \<Rightarrow> Some (Inl e, m')
                  | Some (Inr _, m') \<Rightarrow> map_search ops rehash n cop hash index kind m'))
          else Some (Inr None, m))"

definition map_lookup_with :: "'k obj_ops \<Rightarrow> ('k, 'v) map_rehash \<Rightarrow> nat \<Rightarrow> 'k \<Rightarrow> lookup_kind \<Rightarrow>
    ('k, 'v) mp_map \<Rightarrow> ('k, 'v) map_result" where
  "map_lookup_with ops rehash n index kind m =
     (let cop0 = all_keys_are_qstrs m;
          cop = (if cop0 \<and> \<not> obj_is_qstr ops index \<and> obj_is_str ops index then False else cop0)
      in
      if cop0 \<and> \<not> obj_is_qstr ops index \<and> \<not> obj_is_str ops index \<and> kind \<noteq> ADD_IF_NOT_FOUND
      then Some (Inr None, m)
      else if is_ordered m then
        Some (Inr (ordered_search (\<lambda>k. k = index \<or> \<not> cop \<and> obj_equal ops k index) (m_keys m) 0 (m_used m)), m)
      else if m_alloc m = 0 then
        if kind = ADD_IF_NOT_FOUND then
          (case rehash m of
             None \<Rightarrow> None
           | Some (Inl e, m') \<Rightarrow> Some (Inl e, m')
           | Some (Inr _, m') \<Rightarrow> map_search ops rehash n cop (obj_hash ops index) index kind m')
        else Some (Inr None, m)
      else map_search ops rehash n cop (obj_hash ops index) index kind m)"

text \<open>The loop of \<^verbatim>\<open>mp_map_rehash\<close> over the old table, with the lookup it uses as argument.\<close>

fun rehash_loop :: "('k \<Rightarrow> ('k, 'v) mp_map \<Rightarrow> ('k, 'v) map_result) \<Rightarrow>
    ('k slot_key \<times> 'v option) list \<Rightarrow> ('k, 'v) map_rehash" where
  "rehash_loop look [] m = Some (Inr (), m)"
| "rehash_loop look ((Key k, v) # old) m =
     (case look k m of
        None \<Rightarrow> None
      | Some (Inl e, m') \<Rightarrow> Some (Inl e, m')
      | Some (Inr None, m') \<Rightarrow> rehash_loop look old m'
      | Some (Inr (Some p), m') \<Rightarrow> rehash_loop look old (map_set_value p v m'))"
| "rehash_loop look (_ # old) m = rehash_loop look old m"

definition map_new_table :: "'k obj_ops \<Rightarrow> ('k, 'v) mp_map \<Rightarrow> ('k, 'v) mp_map result" where
  "map_new_table ops m =
     (let new_alloc = get_hash_alloc_greater_or_equal_to (m_alloc m + 1) in
      if \<not> can_new ops new_alloc then Inl MemoryError
      else Inr (m\<lparr>m_alloc := new_alloc, m_used := 0, all_keys_are_qstrs := True,
                  m_keys := replicate new_alloc Null, m_values := replicate new_alloc None\<rparr>))"

primrec mp_map_rehash :: "nat \<Rightarrow> 'k obj_ops \<Rightarrow> ('k, 'v) map_rehash" where
  "mp_map_rehash 0 ops m = None"
| "mp_map_rehash (Suc d) ops m =
     (case map_new_table ops m of
        Inl e \<Rightarrow> Some (Inl e, m)
      | Inr m' \<Rightarrow>
          rehash_loop (\<lambda>k. map_lookup_with ops (mp_map_rehash d ops) d k ADD_IF_NOT_FOUND)
            (zip (m_keys m) (m_values m)) m')"

definition mp_map_lookup :: "nat \<Rightarrow> 'k obj_ops \<Rightarrow> 'k \<Rightarrow> lookup_kind \<Rightarrow> ('k, 'v) mp_map \<Rightarrow> ('k, 'v) map_result" where
  "mp_map_lookup d ops = map_lookup_with ops (mp_map_rehash d ops) d"

subsection \<open>Sets\<close>

definition mp_set_init :: "'k obj_ops \<Rightarrow> nat \<Rightarrow> 'k mp_set result" where
  "mp_set_init ops n =
     (if n \<noteq> 0 \<and> \<not> can_new ops n then Inl MemoryError else Inr \<lparr>s_alloc = n, s_used = 0, s_table = replicate n Null\<rparr>)"

type_synonym 'k set_result = "('k option result \<times> 'k mp_set) option"
type_synonym 'k set_rehash = "'k mp_set \<Rightarrow> (unit result \<times> 'k mp_set) option"

definition set_put :: "'k \<Rightarrow> nat \<Rightarrow> 'k mp_set \<Rightarrow> 'k mp_set" where
  "set_put index p s = s\<lparr>s_used := s_used s + 1, s_table := (s_table s)[p := Key index]\<rparr>"

fun set_search :: "'k obj_ops \<Rightarrow> 'k set_rehash \<Rightarrow> nat \<Rightarrow> nat \<Rightarrow> 'k \<Rightarrow> lookup_kind \<Rightarrow> 'k mp_set \<Rightarrow> 'k set_result" where
  "set_search ops rehash 0 hash index kind s = None"
| "set_search ops rehash (Suc n) hash index kind s =
     (case probe (\<lambda>k. obj_equal ops k index) (s_table s) (hash mod s_alloc s) None (s_alloc s) of
        AtNull p avail \<Rightarrow>
          if kind_adds kind
          then Some (Inr (Some index), set_put index (case avail of None \<Rightarrow> p | Some a \<Rightarrow> a) s)
          else Some (Inr None, s)
      | AtKey p \<Rightarrow>
          let elem = (case s_table s ! p of Key k \<Rightarrow> Some k | _ \<Rightarrow> None) in
          if kind_removes kind
          then Some (Inr elem, s\<lparr>s_used := s_used s - 1, s_table := delete_slot (s_table s) p\<rparr>)
          else Some (Inr elem, s)
      | Wrapped avail \<Rightarrow>
          if kind_adds kind then
            (case avail of
               Some q \<Rightarrow> Some (Inr (Some index), set_put index q s)
             | None \<Rightarrow>
                 (case rehash s of
                    None \<Rightarrow> None
                  | Some (Inl e, s') \<Rightarrow> Some (Inl e, s')
                  | Some (Inr _, s') \<Rightarrow> set_search ops rehash n hash index kind s'))
          else Some (Inr None, s))"

definition set_lookup_with :: "'k obj_ops \<Rightarrow> 'k set_rehash \<Rightarrow> nat \<Rightarrow> 'k \<Rightarrow> lookup_kind \<Rightarrow> 'k mp_set \<Rightarrow> 'k set_result" where
  "set_lookup_with ops rehash n index kind s =
     (if s_alloc s = 0 then
        if kind_adds kind then
          (case rehash s of
             None \<Rightarrow> None
           | Some (Inl e, s') \<Rightarrow> Some (Inl e, s')
           | Some (Inr _, s') \<Rightarrow> set_search ops rehash n (obj_hash ops index) index kind s')
        else Some (Inr None, s)
      else set_search ops rehash n (obj_hash ops index) index kind s)"

fun set_rehash_loop :: "('k \<Rightarrow> 'k mp_set \<Rightarrow> 'k set_result) \<Rightarrow> 'k slot_key list \<Rightarrow> 'k set_rehash" where
  "set_rehash_loop look [] s = Some (Inr (), s)"
| "set_rehash_loop look (Key k # old) s =
     (case look k s of
        None \<Rightarrow> None
      | Some (Inl e, s') \<Rightarrow> Some (Inl e, s')
      | Some (Inr _, s') \<Rightarrow> set_rehash_loop look old s')"
| "set_rehash_loop look (_ # old) s = set_rehash_loop look old s"

text \<open>
  \<^verbatim>\<open>mp_set_rehash\<close> sets \<^verbatim>\<open>alloc\<close> and \<^verbatim>\<open>used\<close> before it allocates the new table: when the
  allocation fails these two keep their new values while the table is still the old one.
\<close>

primrec mp_set_rehash :: "nat \<Rightarrow> 'k obj_ops \<Rightarrow> 'k set_rehash" where
  "mp_set_rehash 0 ops s = None"
| "mp_set_rehash (Suc d) ops s =
     (let new_alloc = get_hash_alloc_greater_or_equal_to (s_alloc s + 1);
          s1 = s\<lparr>s_alloc := new_alloc, s_used := 0\<rparr>
      in if \<not> can_new ops new_alloc then Some (Inl MemoryError, s1)
         else set_rehash_loop (\<lambda>k. set_lookup_with ops (mp_set_rehash d ops) d k ADD_IF_NOT_FOUND) (s_table s)
                (s1\<lparr>s_table := replicate new_alloc Null\<rparr>))"

definition mp_set_lookup :: "nat \<Rightarrow> 'k obj_ops \<Rightarrow> 'k \<Rightarrow> lookup_kind \<Rightarrow> 'k mp_set \<Rightarrow> 'k set_result" where
  "mp_set_lookup d ops = set_lookup_with ops (mp_set_rehash d ops) d"

fun remove_first_from :: "nat \<Rightarrow> nat \<Rightarrow> 'k mp_set \<Rightarrow> 'k option \<times> 'k mp_set" where
  "remove_first_from pos 0 s = (None, s)"
| "remove_first_from pos (Suc n) s =
     (case s_table s ! pos of
        Key k \<Rightarrow> (Some k, s\<lparr>s_used := s_used s - 1, s_table := delete_slot (s_table s) pos\<rparr>)
      | _ \<Rightarrow> remove_first_from (pos + 1) n s)"

definition mp_set_remove_first :: "'k mp_set \<Rightarrow> 'k option \<times> 'k mp_set" where
  "mp_set_remove_first s = remove_first_from 0 (s_alloc s) s"

definition mp_set_clear :: "'k mp_set \<Rightarrow> 'k mp_set" where
  "mp_set_clear s = s\<lparr>s_alloc := 0, s_used := 0, s_table := []\<rparr>"

end
