(* ===== verification/Map_Correct.thy ===== *)
theory Map_Correct
  imports Hash_Map
begin

text \<open>
  Correctness of the hash tables, over any objects whose equality is an equivalence that the
  hash respects (the locale \<open>hashable\<close>): probing finds a key exactly when it is in the table,
  adding and removing keep the probe invariant, and rehashing keeps the contents. \<open>Obj\<close>
  interprets the locale on the interpreter's objects.
\<close>

subsection \<open>The interface of keys\<close>

locale hashable =
  fixes ops :: "'k obj_ops"
  assumes eq_refl: "obj_equal ops x x"
    and eq_sym: "obj_equal ops x y \<Longrightarrow> obj_equal ops y x"
    and eq_trans: "obj_equal ops x y \<Longrightarrow> obj_equal ops y z \<Longrightarrow> obj_equal ops x z"
    and eq_hash: "obj_equal ops x y \<Longrightarrow> obj_hash ops x = obj_hash ops y"
    and qstr_equal: "obj_is_qstr ops x \<Longrightarrow> obj_is_qstr ops y \<Longrightarrow> obj_equal ops x y \<Longrightarrow> x = y"
    and qstr_equal_str: "obj_is_qstr ops x \<Longrightarrow> obj_equal ops x y \<Longrightarrow> obj_is_qstr ops y \<or> obj_is_str ops y"

subsection \<open>The probe loop\<close>

text \<open>\<open>clear_path tab h j\<close>: the first \<open>j\<close> slots probed from \<open>h\<close> are not null.\<close>

definition clear_path :: "'k slot_key list \<Rightarrow> nat \<Rightarrow> nat \<Rightarrow> bool" where
  "clear_path tab h j \<longleftrightarrow> (\<forall>i < j. tab ! ((h + i) mod length tab) \<noteq> Null)"

definition no_match :: "('k \<Rightarrow> bool) \<Rightarrow> 'k slot_key list \<Rightarrow> nat \<Rightarrow> nat \<Rightarrow> bool" where
  "no_match same tab h j \<longleftrightarrow> (\<forall>i < j. \<forall>k. tab ! ((h + i) mod length tab) = Key k \<longrightarrow> \<not> same k)"

definition avail_ok :: "'k slot_key list \<Rightarrow> nat \<Rightarrow> nat \<Rightarrow> nat option \<Rightarrow> bool" where
  "avail_ok tab h j av \<longleftrightarrow>
     (case av of
        None \<Rightarrow> \<forall>i < j. tab ! ((h + i) mod length tab) \<noteq> Sentinel
      | Some a \<Rightarrow> \<exists>i < j. a = (h + i) mod length tab \<and> tab ! a = Sentinel \<and> clear_path tab h i)"

text \<open>What the loop has established when it stops.\<close>

fun probe_spec :: "('k \<Rightarrow> bool) \<Rightarrow> 'k slot_key list \<Rightarrow> nat \<Rightarrow> probe_result \<Rightarrow> bool" where
  "probe_spec same tab h (AtNull p av) \<longleftrightarrow>
     (\<exists>j < length tab. p = (h + j) mod length tab \<and> tab ! p = Null \<and>
        clear_path tab h j \<and> no_match same tab h j \<and> avail_ok tab h j av)"
| "probe_spec same tab h (AtKey p) \<longleftrightarrow>
     (\<exists>j k. j < length tab \<and> p = (h + j) mod length tab \<and> tab ! p = Key k \<and> same k \<and>
        clear_path tab h j \<and> no_match same tab h j)"
| "probe_spec same tab h (Wrapped av) \<longleftrightarrow>
     clear_path tab h (length tab) \<and> no_match same tab h (length tab) \<and> avail_ok tab h (length tab) av"

lemma probe_correct:
  assumes "j + n = length tab" and "clear_path tab h j" and "no_match same tab h j" and "avail_ok tab h j av"
  shows "probe_spec same tab h (probe same tab ((h + j) mod length tab) av n)"
  using assms
proof (induction n arbitrary: j av)
  case (Suc n)
  let ?p = "(h + j) mod length tab"
  have next_pos: "(?p + 1) mod length tab = (h + Suc j) mod length tab" by (simp add: mod_simps)
  have less: "i < Suc j \<longleftrightarrow> i < j \<or> i = j" for i by auto
  show ?case
  proof (cases "tab ! ?p")
    case Null
    then show ?thesis using Suc.prems by (auto intro!: exI [of _ j])
  next
    case Sentinel
    let ?av = "case av of None \<Rightarrow> Some ?p | Some a \<Rightarrow> Some a"
    have "avail_ok tab h (Suc j) ?av"
      using Suc.prems Sentinel by (cases av) (auto simp: avail_ok_def less intro: less_SucI)
    moreover have "clear_path tab h (Suc j)" "no_match same tab h (Suc j)"
      using Suc.prems Sentinel by (auto simp: clear_path_def no_match_def less)
    ultimately have "probe_spec same tab h (probe same tab ((h + Suc j) mod length tab) ?av n)"
      using Suc.prems(1) by (intro Suc.IH) auto
    then show ?thesis using Sentinel next_pos by (cases av) simp_all
  next
    case (Key k)
    show ?thesis
    proof (cases "same k")
      case True
      then show ?thesis using Suc.prems Key by (auto intro!: exI [of _ j] exI [of _ k])
    next
      case False
      have "avail_ok tab h (Suc j) av"
        using Suc.prems Key by (cases av) (auto simp: avail_ok_def less intro: less_SucI)
      moreover have "clear_path tab h (Suc j)" "no_match same tab h (Suc j)"
        using Suc.prems Key False by (auto simp: clear_path_def no_match_def less)
      ultimately have "probe_spec same tab h (probe same tab ((h + Suc j) mod length tab) av n)"
        using Suc.prems(1) by (intro Suc.IH) auto
      then show ?thesis using Key False next_pos by simp
    qed
  qed
qed simp

lemma probe_from_start:
  "probe_spec same tab h (probe same tab (h mod length tab) None (length tab))"
  using probe_correct [of 0 "length tab" tab h same None]
  by (simp add: clear_path_def no_match_def avail_ok_def)

subsection \<open>Tables\<close>

definition keys_of :: "'k slot_key list \<Rightarrow> 'k set" where
  "keys_of tab = {k. Key k \<in> set tab}"

definition count_keys :: "'k slot_key list \<Rightarrow> nat" where
  "count_keys tab = length (filter (\<lambda>x. x \<noteq> Null \<and> x \<noteq> Sentinel) tab)"

lemma count_keys_update:
  assumes "p < length tab"
  shows "count_keys (tab[p := x]) + of_bool (tab ! p \<noteq> Null \<and> tab ! p \<noteq> Sentinel) =
    count_keys tab + of_bool (x \<noteq> Null \<and> x \<noteq> Sentinel)"
proof -
  let ?P = "\<lambda>x. x \<noteq> Null \<and> x \<noteq> Sentinel"
  have split: "tab = take p tab @ tab ! p # drop (Suc p) tab" by (rule id_take_nth_drop [OF assms])
  have "length (filter ?P tab) = length (filter ?P (take p tab)) + of_bool (?P (tab ! p)) + length (filter ?P (drop (Suc p) tab))"
    by (subst split) (simp del: de_Morgan_conj)
  moreover have "length (filter ?P (tab[p := x])) = length (filter ?P (take p tab)) + of_bool (?P x) + length (filter ?P (drop (Suc p) tab))"
    by (subst upd_conv_take_nth_drop [OF assms]) (simp del: de_Morgan_conj)
  ultimately show ?thesis by (simp add: count_keys_def)
qed

lemma count_keys_full:
  assumes "count_keys tab < length tab"
  shows "\<exists>p < length tab. tab ! p = Null \<or> tab ! p = Sentinel"
proof (rule ccontr)
  assume "\<not> ?thesis"
  then have "\<forall>x \<in> set tab. x \<noteq> Null \<and> x \<noteq> Sentinel" by (auto simp: in_set_conv_nth)
  then have "filter (\<lambda>x. x \<noteq> Null \<and> x \<noteq> Sentinel) tab = tab" by (simp add: filter_True)
  then show False using assms by (simp add: count_keys_def)
qed

lemma probe_all_positions:
  assumes "p < length tab"
  obtains i where "i < length tab" "p = (h + i) mod length tab"
proof -
  let ?n = "length tab"
  define i where "i = (p + ?n - h mod ?n) mod ?n"
  have n: "0 < ?n" using assms by linarith
  have "(h + i) mod ?n = (h mod ?n + (p + ?n - h mod ?n)) mod ?n" by (simp add: i_def mod_simps)
  also have "\<dots> = (p + ?n) mod ?n" using n mod_less_divisor [OF n, of h] by (metis add.commute le_add_diff_inverse2 less_imp_le_nat trans_le_add2)
  also have "\<dots> = p" using assms by simp
  finally have "p = (h + i) mod ?n" by simp
  moreover have "i < ?n" using n by (simp add: i_def)
  ultimately show thesis using that by blast
qed

text \<open>
  The probe invariant of a table: from the home slot of every key no null slot comes before it,
  and no two keys are equal.
\<close>

definition table_inv :: "'k obj_ops \<Rightarrow> 'k slot_key list \<Rightarrow> bool" where
  "table_inv ops tab \<longleftrightarrow>
     (\<forall>p < length tab. \<forall>k. tab ! p = Key k \<longrightarrow>
        (\<exists>j < length tab. p = (obj_hash ops k + j) mod length tab \<and> clear_path tab (obj_hash ops k) j)) \<and>
     (\<forall>p < length tab. \<forall>q < length tab. \<forall>k l. tab ! p = Key k \<longrightarrow> tab ! q = Key l \<longrightarrow> obj_equal ops k l \<longrightarrow> p = q)"

lemma table_inv_empty [simp]: "table_inv ops (replicate n Null)"
  by (simp add: table_inv_def)

lemma keys_of_nth: "p < length tab \<Longrightarrow> tab ! p = Key k \<Longrightarrow> k \<in> keys_of tab"
  unfolding keys_of_def by (metis mem_Collect_eq nth_mem)

lemma keys_of_ex: "k \<in> keys_of tab \<longleftrightarrow> (\<exists>p < length tab. tab ! p = Key k)"
  by (auto simp: keys_of_def in_set_conv_nth)

lemma probe_cong:
  assumes "\<And>k. k \<in> keys_of tab \<Longrightarrow> same k = same' k" and "pos < length tab"
  shows "probe same tab pos av n = probe same' tab pos av n"
  using assms(2)
proof (induction n arbitrary: pos av)
  case (Suc n)
  have "0 < length tab" using Suc.prems by linarith
  then have "(pos + 1) mod length tab < length tab" by (rule mod_less_divisor)
  then show ?case
    using Suc.IH assms(1) [OF keys_of_nth [OF Suc.prems]] by (auto split: slot_key.splits)
qed simp

text \<open>The slot a probe offers for a new key: reached over non-null slots, and not a key.\<close>

definition free_slot :: "'k slot_key list \<Rightarrow> nat \<Rightarrow> nat \<Rightarrow> bool" where
  "free_slot tab h q \<longleftrightarrow> q < length tab \<and> (tab ! q = Null \<or> tab ! q = Sentinel) \<and>
     (\<exists>j < length tab. q = (h + j) mod length tab \<and> clear_path tab h j)"

lemma avail_free_slot: "avail_ok tab h j (Some a) \<Longrightarrow> j \<le> length tab \<Longrightarrow> free_slot tab h a"
  unfolding avail_ok_def free_slot_def by (auto intro: mod_less_divisor dest: less_le_trans)

lemma null_free_slot:
  "probe_spec same tab h (AtNull p av) \<Longrightarrow> free_slot tab h (case av of None \<Rightarrow> p | Some a \<Rightarrow> a)"
proof -
  assume "probe_spec same tab h (AtNull p av)"
  then obtain j where j: "j < length tab" "p = (h + j) mod length tab" "tab ! p = Null" "clear_path tab h j"
    and av: "avail_ok tab h j av" by auto
  have "p < length tab" unfolding j(2) by (rule mod_less_divisor) (use j(1) in linarith)
  then show ?thesis
    using j av avail_free_slot [of tab h j] by (cases av) (auto simp: free_slot_def)
qed

lemma clear_path_update:
  "x \<noteq> Null \<Longrightarrow> clear_path tab h j \<Longrightarrow> clear_path (tab[q := x]) h j"
  by (auto simp: clear_path_def nth_list_update) (metis nth_list_update_eq nth_list_update_neq list_update_beyond not_le)

lemma table_inv_insert:
  assumes inv: "table_inv ops tab" and free: "free_slot tab (obj_hash ops x) q"
    and new: "\<And>k. k \<in> keys_of tab \<Longrightarrow> \<not> obj_equal ops k x \<and> \<not> obj_equal ops x k"
  shows "table_inv ops (tab[q := Key x])"
proof -
  have q: "q < length tab" using free by (simp add: free_slot_def)
  have "\<exists>j < length tab. p = (obj_hash ops k + j) mod length tab \<and> clear_path (tab[q := Key x]) (obj_hash ops k) j"
    if "p < length tab" "tab[q := Key x] ! p = Key k" for p k
  proof (cases "p = q")
    case True
    then have "k = x" using that q by simp
    then show ?thesis using free True by (auto simp: free_slot_def intro: clear_path_update)
  next
    case False
    then have "tab ! p = Key k" using that by simp
    then show ?thesis using inv that(1) clear_path_update [of "Key x" tab _ _ q] unfolding table_inv_def by blast
  qed
  moreover have "p = p'"
    if "p < length tab" "p' < length tab" "tab[q := Key x] ! p = Key k" "tab[q := Key x] ! p' = Key l" "obj_equal ops k l" for p p' k l
  proof (cases "p = q"; cases "p' = q")
    assume "p \<noteq> q" "p' \<noteq> q"
    then show ?thesis using that inv unfolding table_inv_def by auto
  next
    assume pq: "p = q" "p' \<noteq> q"
    then have "k = x" "l \<in> keys_of tab" using that q keys_of_nth [of p' tab l] by auto
    then show ?thesis using new that(5) by blast
  next
    assume pq: "p \<noteq> q" "p' = q"
    then have "l = x" "k \<in> keys_of tab" using that q keys_of_nth [of p tab k] by auto
    then show ?thesis using new that(5) by blast
  qed simp
  ultimately show ?thesis by (simp add: table_inv_def)
qed

lemma table_inv_delete:
  assumes inv: "table_inv ops tab" and p: "p < length tab" and key: "tab ! p = Key x"
  shows "table_inv ops (delete_slot tab p)"
proof -
  let ?n = "length tab"
  let ?x = "if tab ! ((p + 1) mod ?n) = Null then Null else Sentinel"
  have path: "clear_path (tab[p := ?x]) h j"
    if c: "clear_path tab h j" and j: "j < ?n" and e: "r = (h + j) mod ?n" "tab ! r = Key k" "r \<noteq> p" for h j r k
    unfolding clear_path_def
  proof (intro allI impI)
    fix i assume i: "i < j"
    show "tab[p := ?x] ! ((h + i) mod length (tab[p := ?x])) \<noteq> Null"
    proof (cases "(h + i) mod ?n = p")
      case True
      have next_pos: "(p + 1) mod ?n = (h + Suc i) mod ?n" using True by (metis add_Suc_right mod_Suc_eq Suc_eq_plus1)
      have "tab ! ((h + Suc i) mod ?n) \<noteq> Null"
      proof (cases "Suc i = j")
        case True
        then show ?thesis using e by simp
      next
        case False
        then have "Suc i < j" using i by simp
        then show ?thesis using c unfolding clear_path_def by blast
      qed
      then show ?thesis using True next_pos p by simp
    next
      case False
      then show ?thesis using c i by (simp add: clear_path_def)
    qed
  qed
  have old: "tab ! r = Key k \<and> r \<noteq> p" if "r < ?n" "tab[p := ?x] ! r = Key k" for r k
    using that p by (cases "r = p") (auto split: if_splits)
  have "\<exists>j < ?n. r = (obj_hash ops k + j) mod ?n \<and> clear_path (tab[p := ?x]) (obj_hash ops k) j"
    if r: "r < ?n" "tab[p := ?x] ! r = Key k" for r k
  proof -
    have k: "tab ! r = Key k" "r \<noteq> p" using old [OF r] by auto
    obtain j where j: "j < ?n" "r = (obj_hash ops k + j) mod ?n" "clear_path tab (obj_hash ops k) j"
      using inv r(1) k(1) unfolding table_inv_def by blast
    show ?thesis using j path [OF j(3,1,2) k] by blast
  qed
  moreover have "r = r'"
    if "r < ?n" "r' < ?n" "tab[p := ?x] ! r = Key k" "tab[p := ?x] ! r' = Key l" "obj_equal ops k l" for r r' k l
    using that old inv unfolding table_inv_def by blast
  ultimately show ?thesis by (simp add: table_inv_def delete_slot_def)
qed

subsection \<open>Looking up\<close>

context hashable
begin

lemma probe_finds:
  assumes inv: "table_inv ops tab" and p: "p < length tab" "tab ! p = Key k" and eq: "obj_equal ops k x"
  shows "probe (\<lambda>k. obj_equal ops k x) tab (obj_hash ops x mod length tab) None (length tab) = AtKey p"
proof -
  let ?h = "obj_hash ops x" and ?same = "\<lambda>k. obj_equal ops k x"
  have "obj_hash ops k = ?h" by (rule eq_hash [OF eq])
  then obtain j where j: "j < length tab" "p = (?h + j) mod length tab" "clear_path tab ?h j"
    using inv p unfolding table_inv_def by metis
  have clash: False if "no_match ?same tab ?h i" "j < i" for i
    using that j p eq unfolding no_match_def by blast
  have spec: "probe_spec ?same tab ?h (probe ?same tab (?h mod length tab) None (length tab))"
    by (rule probe_from_start)
  show ?thesis
  proof (cases "probe ?same tab (?h mod length tab) None (length tab)")
    case (AtNull q av)
    then obtain i where i: "q = (?h + i) mod length tab" "tab ! q = Null" "no_match ?same tab ?h i"
      using spec by auto
    have "\<not> j < i" using clash i(3) by blast
    moreover have "i \<noteq> j" using i j p by auto
    ultimately have "i < j" by simp
    then show ?thesis using j(3) i unfolding clear_path_def by blast
  next
    case (AtKey q)
    then obtain i l where i: "i < length tab" "q = (?h + i) mod length tab" "tab ! q = Key l" "obj_equal ops l x"
      using spec by auto
    have "q < length tab" unfolding i(2) by (rule mod_less_divisor) (use i(1) in linarith)
    moreover have "obj_equal ops l k" using i(4) eq eq_sym eq_trans by blast
    ultimately have "q = p" using inv p i(3) unfolding table_inv_def by blast
    then show ?thesis using AtKey by simp
  next
    case (Wrapped av)
    then show ?thesis using spec clash j(1) by auto
  qed
qed

lemma probe_misses:
  assumes "\<And>k. k \<in> keys_of tab \<Longrightarrow> \<not> obj_equal ops k x"
  shows "probe (\<lambda>k. obj_equal ops k x) tab (obj_hash ops x mod length tab) None (length tab) \<noteq> AtKey p"
proof
  assume "probe (\<lambda>k. obj_equal ops k x) tab (obj_hash ops x mod length tab) None (length tab) = AtKey p"
  then have "probe_spec (\<lambda>k. obj_equal ops k x) tab (obj_hash ops x) (AtKey p)"
    using probe_from_start [of "\<lambda>k. obj_equal ops k x" tab "obj_hash ops x"] by simp
  then obtain j k where j: "j < length tab" "p = (obj_hash ops x + j) mod length tab" "tab ! p = Key k" "obj_equal ops k x"
    by auto
  have "p < length tab" unfolding j(2) by (rule mod_less_divisor) (use j(1) in linarith)
  then show False using j assms keys_of_nth by metis
qed

text \<open>A table that is not full always offers a slot.\<close>

lemma probe_offers:
  assumes miss: "\<And>k. k \<in> keys_of tab \<Longrightarrow> \<not> obj_equal ops k x" and room: "count_keys tab < length tab"
  obtains p av where "probe (\<lambda>k. obj_equal ops k x) tab (obj_hash ops x mod length tab) None (length tab) = AtNull p av"
    and "free_slot tab (obj_hash ops x) (case av of None \<Rightarrow> p | Some a \<Rightarrow> a)"
  | q where "probe (\<lambda>k. obj_equal ops k x) tab (obj_hash ops x mod length tab) None (length tab) = Wrapped (Some q)"
    and "free_slot tab (obj_hash ops x) q"
proof -
  let ?h = "obj_hash ops x" and ?same = "\<lambda>k. obj_equal ops k x"
  have spec: "probe_spec ?same tab ?h (probe ?same tab (?h mod length tab) None (length tab))"
    by (rule probe_from_start)
  show thesis
  proof (cases "probe ?same tab (?h mod length tab) None (length tab)")
    case (AtNull p av)
    then have "probe_spec ?same tab ?h (AtNull p av)" using spec by simp
    from null_free_slot [OF this] show thesis using AtNull that(1) by blast
  next
    case (AtKey p)
    then show thesis using probe_misses [OF miss] by blast
  next
    case (Wrapped av)
    have w: "clear_path tab ?h (length tab)" "avail_ok tab ?h (length tab) av" using spec Wrapped by simp_all
    obtain p where p: "p < length tab" "tab ! p = Null \<or> tab ! p = Sentinel" using count_keys_full [OF room] by blast
    obtain i where i: "i < length tab" "p = (?h + i) mod length tab" by (rule probe_all_positions [OF p(1)])
    have "tab ! p = Sentinel" using p(2) i w(1) by (auto simp: clear_path_def)
    then obtain q where "av = Some q" using w(2) i by (cases av) (auto simp: avail_ok_def)
    then show thesis using Wrapped that(2) avail_free_slot [OF w(2) [unfolded \<open>av = Some q\<close>]] by simp
  qed
qed

end

text \<open>A table without a null or deleted slot sends the search for a missing key once round.\<close>

lemma probe_full:
  assumes "\<And>p. p < length tab \<Longrightarrow> \<exists>k. tab ! p = Key k \<and> \<not> same k" and "pos < length tab"
  shows "probe same tab pos av n = Wrapped av"
  using assms(2)
proof (induction n arbitrary: pos)
  case (Suc n)
  obtain k where "tab ! pos = Key k" "\<not> same k" using assms(1) Suc.prems by blast
  moreover have "(pos + 1) mod length tab < length tab" by (rule mod_less_divisor) (use Suc.prems in linarith)
  ultimately show ?case using Suc.IH by simp
qed simp

lemma count_keys_all:
  assumes "count_keys tab = length tab" and "p < length tab"
  shows "\<exists>k. tab ! p = Key k"
proof (rule ccontr)
  assume "\<not> ?thesis"
  then have "\<not> (tab ! p \<noteq> Null \<and> tab ! p \<noteq> Sentinel)" by (cases "tab ! p") auto
  then have "length (filter (\<lambda>x. x \<noteq> Null \<and> x \<noteq> Sentinel) tab) < length tab"
    using assms(2) by (intro length_filter_less [OF nth_mem])
  then show False using assms(1) by (simp add: count_keys_def)
qed

subsection \<open>Maps\<close>

definition map_inv :: "'k obj_ops \<Rightarrow> ('k, 'v) mp_map \<Rightarrow> bool" where
  "map_inv ops m \<longleftrightarrow> \<not> is_ordered m \<and> length (m_keys m) = m_alloc m \<and> length (m_values m) = m_alloc m \<and>
     m_used m = count_keys (m_keys m) \<and> table_inv ops (m_keys m) \<and>
     (all_keys_are_qstrs m \<longrightarrow> (\<forall>k \<in> keys_of (m_keys m). obj_is_qstr ops k))"

text \<open>The dictionary a map stands for: \<open>map_entry ops m x v\<close>, a key equal to \<open>x\<close> has the value \<open>v\<close>.\<close>

definition map_entry :: "'k obj_ops \<Rightarrow> ('k, 'v) mp_map \<Rightarrow> 'k \<Rightarrow> 'v option \<Rightarrow> bool" where
  "map_entry ops m x v \<longleftrightarrow>
     (\<exists>p k. p < m_alloc m \<and> m_keys m ! p = Key k \<and> obj_equal ops k x \<and> m_values m ! p = v)"

definition ptr_test_ok :: "'k obj_ops \<Rightarrow> bool \<Rightarrow> 'k \<Rightarrow> 'k slot_key list \<Rightarrow> bool" where
  "ptr_test_ok ops cop x tab \<longleftrightarrow> (\<forall>k \<in> keys_of tab. (k = x \<or> \<not> cop \<and> obj_equal ops k x) = obj_equal ops k x)"

context hashable
begin

lemma ptr_test_qstrs:
  assumes "cop \<Longrightarrow> (\<forall>k \<in> keys_of tab. obj_is_qstr ops k)"
    and "cop \<Longrightarrow> obj_is_qstr ops x \<or> \<not> obj_is_str ops x"
  shows "ptr_test_ok ops cop x tab"
  unfolding ptr_test_ok_def using assms eq_refl qstr_equal qstr_equal_str by metis

lemma probe_ptr_test:
  assumes "ptr_test_ok ops cop x tab" and "0 < length tab"
  shows "probe (\<lambda>k. k = x \<or> \<not> cop \<and> obj_equal ops k x) tab (h mod length tab) None n =
    probe (\<lambda>k. obj_equal ops k x) tab (h mod length tab) None n"
  using assms by (intro probe_cong) (auto simp: ptr_test_ok_def)

lemma put_key_inv:
  assumes inv: "map_inv ops m" and free: "free_slot (m_keys m) (obj_hash ops x) q"
    and miss: "\<And>k. k \<in> keys_of (m_keys m) \<Longrightarrow> \<not> obj_equal ops k x"
  shows "map_inv ops (map_put_key ops x q m)" and "m_used (map_put_key ops x q m) = m_used m + 1"
    and "map_entry ops (map_put_key ops x q m) y v \<longleftrightarrow>
      (if obj_equal ops x y then v = None else map_entry ops m y v)"
    and "q < m_alloc m" and "m_keys (map_put_key ops x q m) ! q = Key x"
proof -
  have len: "length (m_keys m) = m_alloc m" "length (m_values m) = m_alloc m" using inv by (simp_all add: map_inv_def)
  show q: "q < m_alloc m" using free len by (simp add: free_slot_def)
  have old: "m_keys m ! q = Null \<or> m_keys m ! q = Sentinel" using free by (simp add: free_slot_def)
  have "\<not> obj_equal ops x k" if "k \<in> keys_of (m_keys m)" for k using miss [OF that] eq_sym by blast
  then have "table_inv ops ((m_keys m)[q := Key x])"
    using inv free miss by (intro table_inv_insert) (auto simp: map_inv_def)
  moreover have "count_keys ((m_keys m)[q := Key x]) = count_keys (m_keys m) + 1"
    using count_keys_update [of q "m_keys m" "Key x"] old q len by auto
  moreover have "keys_of ((m_keys m)[q := Key x]) \<subseteq> insert x (keys_of (m_keys m))"
    using set_update_subset_insert [of "m_keys m" q "Key x"] by (auto simp: keys_of_def)
  ultimately show "map_inv ops (map_put_key ops x q m)" "m_used (map_put_key ops x q m) = m_used m + 1"
    using inv by (auto simp: map_inv_def map_put_key_def)
  show "m_keys (map_put_key ops x q m) ! q = Key x" using q len by (simp add: map_put_key_def)
  have other: "map_entry ops (map_put_key ops x q m) y v \<longleftrightarrow> obj_equal ops x y \<and> v = None \<or> map_entry ops m y v"
  proof
    assume "map_entry ops (map_put_key ops x q m) y v"
    then show "obj_equal ops x y \<and> v = None \<or> map_entry ops m y v"
      using q len by (auto simp: map_entry_def map_put_key_def nth_list_update split: if_splits)
  next
    assume "obj_equal ops x y \<and> v = None \<or> map_entry ops m y v"
    then show "map_entry ops (map_put_key ops x q m) y v"
    proof
      assume "obj_equal ops x y \<and> v = None"
      then show ?thesis using q len by (auto simp: map_entry_def map_put_key_def intro!: exI [of _ q])
    next
      assume "map_entry ops m y v"
      then obtain p k where p: "p < m_alloc m" "m_keys m ! p = Key k" "obj_equal ops k y" "m_values m ! p = v"
        by (auto simp: map_entry_def)
      then have "p \<noteq> q" using old by auto
      then show ?thesis using p q len by (auto simp: map_entry_def map_put_key_def intro!: exI [of _ p])
    qed
  qed
  moreover have "\<not> map_entry ops m y v" if "obj_equal ops x y"
  proof
    assume "map_entry ops m y v"
    then obtain p k where "p < m_alloc m" "m_keys m ! p = Key k" "obj_equal ops k y" by (auto simp: map_entry_def)
    then show False using miss keys_of_nth [of p "m_keys m" k] that len eq_sym eq_trans by metis
  qed
  ultimately show "map_entry ops (map_put_key ops x q m) y v \<longleftrightarrow>
      (if obj_equal ops x y then v = None else map_entry ops m y v)" by auto
qed

lemma lookup_with_search:
  assumes inv: "map_inv ops m"
  obtains (trivial) "\<And>rehash n. map_lookup_with ops rehash n x kind m = Some (Inr None, m)"
      "kind \<noteq> ADD_IF_NOT_FOUND" "\<And>k. k \<in> keys_of (m_keys m) \<Longrightarrow> \<not> obj_equal ops k x"
  | (search) cop where "\<And>rehash n. map_lookup_with ops rehash n x kind m =
        map_search ops rehash n cop (obj_hash ops x) x kind m"
      "0 < m_alloc m" "ptr_test_ok ops cop x (m_keys m)" "cop \<Longrightarrow> obj_is_qstr ops x \<or> \<not> obj_is_str ops x"
      "cop \<Longrightarrow> all_keys_are_qstrs m"
  | (empty) cop where "\<And>rehash n. map_lookup_with ops rehash n x kind m =
        (case rehash m of None \<Rightarrow> None | Some (Inl e, m') \<Rightarrow> Some (Inl e, m')
         | Some (Inr _, m') \<Rightarrow> map_search ops rehash n cop (obj_hash ops x) x kind m')"
      "m_alloc m = 0" "kind = ADD_IF_NOT_FOUND" "cop \<Longrightarrow> obj_is_qstr ops x \<or> \<not> obj_is_str ops x"
proof -
  let ?allq = "all_keys_are_qstrs m"
  let ?cop = "if ?allq \<and> \<not> obj_is_qstr ops x \<and> obj_is_str ops x then False else ?allq"
  let ?skip = "?allq \<and> \<not> obj_is_qstr ops x \<and> \<not> obj_is_str ops x \<and> kind \<noteq> ADD_IF_NOT_FOUND"
  have no: "\<not> is_ordered m" and q: "?allq \<Longrightarrow> \<forall>k \<in> keys_of (m_keys m). obj_is_qstr ops k"
    and len: "length (m_keys m) = m_alloc m" using inv by (simp_all add: map_inv_def)
  have c: "?cop \<Longrightarrow> obj_is_qstr ops x \<or> \<not> obj_is_str ops x" "?cop \<Longrightarrow> ?allq" by (auto split: if_splits)
  consider "?skip" | "\<not> ?skip" "m_alloc m \<noteq> 0" | "\<not> ?skip" "m_alloc m = 0" "kind = ADD_IF_NOT_FOUND"
    | "\<not> ?skip" "m_alloc m = 0" "kind \<noteq> ADD_IF_NOT_FOUND" by blast
  then show thesis
  proof cases
    case 1
    have "\<not> obj_equal ops k x" if "k \<in> keys_of (m_keys m)" for k
      using 1 q that qstr_equal_str by blast
    moreover have "map_lookup_with ops rehash n x kind m = Some (Inr None, m)" for rehash n
      using 1 by (simp add: map_lookup_with_def)
    ultimately show thesis using 1 by (intro trivial) simp_all
  next
    case 2
    have "ptr_test_ok ops ?cop x (m_keys m)" by (rule ptr_test_qstrs, rule q, erule c(2), erule c(1))
    moreover have "map_lookup_with ops rehash n x kind m = map_search ops rehash n ?cop (obj_hash ops x) x kind m" for rehash n
      using 2 no unfolding map_lookup_with_def Let_def by (simp only: if_False refl simp_thms)
    ultimately show thesis using 2 c by (intro search [of ?cop]) simp_all
  next
    case 3
    have "map_lookup_with ops rehash n x kind m =
        (case rehash m of None \<Rightarrow> None | Some (Inl e, m') \<Rightarrow> Some (Inl e, m')
         | Some (Inr _, m') \<Rightarrow> map_search ops rehash n ?cop (obj_hash ops x) x kind m')" for rehash n
      using 3 no unfolding map_lookup_with_def Let_def by (simp only: if_False if_True refl simp_thms)
    then show thesis using 3 c by (intro empty [of ?cop]) simp_all
  next
    case 4
    then show thesis using no len
      by (intro trivial) (simp_all add: map_lookup_with_def Let_def keys_of_def)
  qed
qed

lemma search_add_room:
  assumes inv: "map_inv ops m" and ptr: "ptr_test_ok ops cop x (m_keys m)" and room: "m_used m < m_alloc m"
    and miss: "\<forall>k \<in> keys_of (m_keys m). \<not> obj_equal ops k x"
  shows "\<exists>q. (\<forall>rehash n. map_search ops rehash (Suc n) cop (obj_hash ops x) x ADD_IF_NOT_FOUND m =
      Some (Inr (Some q), map_put_key ops x q m)) \<and> free_slot (m_keys m) (obj_hash ops x) q"
proof -
  have len: "length (m_keys m) = m_alloc m" and cnt: "count_keys (m_keys m) < length (m_keys m)"
    using inv room by (simp_all add: map_inv_def)
  have "0 < length (m_keys m)" using cnt by linarith
  note pr = probe_ptr_test [OF ptr this, of "obj_hash ops x" "length (m_keys m)", unfolded len]
  have miss': "\<And>k. k \<in> keys_of (m_keys m) \<Longrightarrow> \<not> obj_equal ops k x" using miss by blast
  show ?thesis
    by (rule probe_offers [OF miss' cnt, unfolded len]) (use pr in \<open>auto simp: Let_def\<close>)
qed

lemma search_found:
  assumes inv: "map_inv ops m" and ptr: "ptr_test_ok ops cop x (m_keys m)"
    and p: "p < m_alloc m" "m_keys m ! p = Key k" "obj_equal ops k x"
  shows "map_search ops rehash (Suc n) cop (obj_hash ops x) x kind m =
    Some (Inr (Some p), if kind = REMOVE_IF_FOUND
      then m\<lparr>m_used := m_used m - 1, m_keys := delete_slot (m_keys m) p\<rparr> else m)"
proof -
  have len: "length (m_keys m) = m_alloc m" and ti: "table_inv ops (m_keys m)" using inv by (simp_all add: map_inv_def)
  have "0 < length (m_keys m)" using p len by linarith
  note pr = probe_ptr_test [OF ptr this, of "obj_hash ops x" "length (m_keys m)", unfolded len]
  have "probe (\<lambda>k. obj_equal ops k x) (m_keys m) (obj_hash ops x mod m_alloc m) None (m_alloc m) = AtKey p"
    using probe_finds [OF ti _ p(2,3)] p(1) len by simp
  then show ?thesis using pr by simp
qed

lemma search_missing:
  assumes inv: "map_inv ops m" and ptr: "ptr_test_ok ops cop x (m_keys m)" and a: "0 < m_alloc m"
    and miss: "\<And>k. k \<in> keys_of (m_keys m) \<Longrightarrow> \<not> obj_equal ops k x" and kind: "kind \<noteq> ADD_IF_NOT_FOUND"
  shows "map_search ops rehash (Suc n) cop (obj_hash ops x) x kind m = Some (Inr None, m)"
proof -
  have len: "length (m_keys m) = m_alloc m" using inv by (simp add: map_inv_def)
  have "0 < length (m_keys m)" using a len by simp
  note pr = probe_ptr_test [OF ptr this, of "obj_hash ops x" "length (m_keys m)", unfolded len]
  have "probe (\<lambda>k. obj_equal ops k x) (m_keys m) (obj_hash ops x mod m_alloc m) None (m_alloc m) \<noteq> AtKey p" for p
    using probe_misses [OF miss] len by metis
  then show ?thesis using pr kind by (auto split: probe_result.splits)
qed

text \<open>Looking a key up, and removing it.\<close>

lemma missing_iff:
  "length (m_keys m) = m_alloc m \<Longrightarrow>
   (\<forall>k \<in> keys_of (m_keys m). \<not> obj_equal ops k x) \<longleftrightarrow> (\<nexists>v. map_entry ops m x v)"
  unfolding map_entry_def Bex_def Ball_def keys_of_ex by metis

lemma lookup_found:
  assumes inv: "map_inv ops m" and p: "p < m_alloc m" "m_keys m ! p = Key k" "obj_equal ops k x"
  shows "map_lookup_with ops rehash (Suc n) x kind m =
    Some (Inr (Some p), if kind = REMOVE_IF_FOUND
      then m\<lparr>m_used := m_used m - 1, m_keys := delete_slot (m_keys m) p\<rparr> else m)"
proof -
  have k: "k \<in> keys_of (m_keys m)" using p inv by (intro keys_of_nth) (auto simp: map_inv_def)
  show ?thesis
    by (rule lookup_with_search [OF inv, of x kind])
      (use k p search_found [OF inv _ p] in auto)
qed

lemma lookup_missing:
  assumes inv: "map_inv ops m" and miss: "\<And>k. k \<in> keys_of (m_keys m) \<Longrightarrow> \<not> obj_equal ops k x"
    and kind: "kind \<noteq> ADD_IF_NOT_FOUND"
  shows "map_lookup_with ops rehash (Suc n) x kind m = Some (Inr None, m)"
  by (rule lookup_with_search [OF inv, of x kind])
    (use search_missing [OF inv _ _ miss kind] kind in auto)

lemma remove_inv:
  assumes inv: "map_inv ops m" and p: "p < m_alloc m" "m_keys m ! p = Key k" "obj_equal ops k x"
  defines "m' \<equiv> m\<lparr>m_used := m_used m - 1, m_keys := delete_slot (m_keys m) p\<rparr>"
  shows "map_inv ops m'" and "map_entry ops m' y v \<longleftrightarrow> \<not> obj_equal ops x y \<and> map_entry ops m y v"
    and "m_used m = m_used m' + 1" and "m_values m' = m_values m"
proof -
  let ?z = "if m_keys m ! ((p + 1) mod length (m_keys m)) = Null then Null else Sentinel"
  have len: "length (m_keys m) = m_alloc m" and ti: "table_inv ops (m_keys m)" and u: "m_used m = count_keys (m_keys m)"
    using inv by (simp_all add: map_inv_def)
  have cnt: "count_keys (delete_slot (m_keys m) p) + 1 = count_keys (m_keys m)"
    using count_keys_update [of p "m_keys m" ?z] p len by (auto simp: delete_slot_def split: if_splits)
  then show "m_used m = m_used m' + 1" using u by (simp add: m'_def)
  have sub: "keys_of (delete_slot (m_keys m) p) \<subseteq> keys_of (m_keys m)"
    using set_update_subset_insert [of "m_keys m" p ?z] by (auto simp: keys_of_def delete_slot_def split: if_splits)
  have del: "table_inv ops (delete_slot (m_keys m) p)" using table_inv_delete [OF ti _ p(2)] p(1) len by simp
  have "length (delete_slot (m_keys m) p) = m_alloc m" by (simp add: delete_slot_def len)
  moreover have "m_used m - 1 = count_keys (delete_slot (m_keys m) p)" using cnt u by simp
  ultimately show "map_inv ops m'" using inv sub del unfolding map_inv_def m'_def by (simp add: subset_eq)
  have key: "m_keys m' ! r = Key l \<longleftrightarrow> r \<noteq> p \<and> m_keys m ! r = Key l" if "r < m_alloc m" for r l
    using p that len by (auto simp: m'_def delete_slot_def nth_list_update split: if_splits)
  have same: "r = p \<longleftrightarrow> obj_equal ops x y" if "r < m_alloc m" "m_keys m ! r = Key l" "obj_equal ops l y" for r l
  proof
    assume "r = p"
    then show "obj_equal ops x y" using that p eq_sym eq_trans by (metis slot_key.inject)
  next
    assume "obj_equal ops x y"
    then have "obj_equal ops l k" using that(3) p(3) eq_sym eq_trans by blast
    then show "r = p" using ti that p len unfolding table_inv_def by metis
  qed
  show "map_entry ops m' y v \<longleftrightarrow> \<not> obj_equal ops x y \<and> map_entry ops m y v"
  proof -
    have "m_alloc m' = m_alloc m" "m_values m' = m_values m" by (simp_all add: m'_def)
    then have "map_entry ops m' y v \<longleftrightarrow>
        (\<exists>r l. r < m_alloc m \<and> (r \<noteq> p \<and> m_keys m ! r = Key l) \<and> obj_equal ops l y \<and> m_values m ! r = v)"
      using key by (auto simp: map_entry_def)
    also have "\<dots> \<longleftrightarrow> (\<exists>r l. (r < m_alloc m \<and> m_keys m ! r = Key l \<and> obj_equal ops l y \<and> m_values m ! r = v) \<and> \<not> obj_equal ops x y)"
      using same by auto
    finally show ?thesis by (auto simp: map_entry_def)
  qed
  show "m_values m' = m_values m" by (simp add: m'_def)
qed

text \<open>Setting the value of the slot a lookup returned.\<close>

lemma set_value_inv: "map_inv ops m \<Longrightarrow> map_inv ops (map_set_value p v m)"
  by (simp add: map_inv_def map_set_value_def)

lemma set_value_entry:
  assumes inv: "map_inv ops m" and p: "p < m_alloc m" "m_keys m ! p = Key k" "obj_equal ops k x"
  shows "map_entry ops (map_set_value p w m) y v \<longleftrightarrow> (if obj_equal ops x y then v = w else map_entry ops m y v)"
proof -
  have len: "length (m_values m) = m_alloc m" "length (m_keys m) = m_alloc m" and ti: "table_inv ops (m_keys m)"
    using inv by (simp_all add: map_inv_def)
  have same: "r = p \<longleftrightarrow> obj_equal ops x y" if "r < m_alloc m" "m_keys m ! r = Key l" "obj_equal ops l y" for r l
  proof
    assume "r = p"
    then show "obj_equal ops x y" using that p eq_sym eq_trans by (metis slot_key.inject)
  next
    assume "obj_equal ops x y"
    then have "obj_equal ops l k" using that(3) p(3) eq_sym eq_trans by blast
    then show "r = p" using ti that p len unfolding table_inv_def by metis
  qed
  have "map_entry ops (map_set_value p w m) y v \<longleftrightarrow>
      (\<exists>r l. r < m_alloc m \<and> m_keys m ! r = Key l \<and> obj_equal ops l y \<and> (if r = p then w else m_values m ! r) = v)"
    using len by (auto simp: map_entry_def map_set_value_def nth_list_update)
  also have "\<dots> \<longleftrightarrow> (\<exists>r l. r < m_alloc m \<and> m_keys m ! r = Key l \<and> obj_equal ops l y \<and> (if obj_equal ops x y then w else m_values m ! r) = v)"
    by (simp add: same cong: conj_cong)
  also have "\<dots> \<longleftrightarrow> (if obj_equal ops x y then v = w else map_entry ops m y v)"
  proof (cases "obj_equal ops x y")
    case True
    then have "obj_equal ops k y" using p(3) eq_trans by blast
    then show ?thesis using True p by auto
  qed (simp add: map_entry_def)
  finally show ?thesis .
qed

subsection \<open>Rehashing\<close>

text \<open>The key fields of the old table that still have to be entered.\<close>

definition fresh_keys :: "('k slot_key \<times> 'v option) list \<Rightarrow> 'k slot_key list \<Rightarrow> bool" where
  "fresh_keys old tab \<longleftrightarrow> (\<forall>k v. (Key k, v) \<in> set old \<longrightarrow> (\<forall>l \<in> keys_of tab. \<not> obj_equal ops l k))"

definition distinct_old :: "('k slot_key \<times> 'v option) list \<Rightarrow> bool" where
  "distinct_old old \<longleftrightarrow> (\<forall>i < length old. \<forall>j < length old. \<forall>k l v w.
      old ! i = (Key k, v) \<longrightarrow> old ! j = (Key l, w) \<longrightarrow> obj_equal ops k l \<longrightarrow> i = j)"

lemma distinct_old_tl: "distinct_old (x # old) \<Longrightarrow> distinct_old old"
  unfolding distinct_old_def by (metis Suc_less_eq length_Cons nat.inject nth_Cons_Suc)

lemma distinct_old_hd:
  assumes "distinct_old ((Key k, v) # old)" and "(Key l, w) \<in> set old"
  shows "\<not> obj_equal ops k l"
proof
  assume eq: "obj_equal ops k l"
  obtain j where "j < length old" "old ! j = (Key l, w)" using assms(2) by (auto simp: in_set_conv_nth)
  then show False
    using assms(1) [unfolded distinct_old_def, rule_format, of 0 "Suc j" k v l w] eq by simp
qed

lemma rehash_loop_correct:
  assumes "map_inv ops m" and "distinct_old old" and "fresh_keys old (m_keys m)"
    and "m_used m + count_keys (map fst old) < m_alloc m"
    and look: "look = (\<lambda>k. map_lookup_with ops rehash (Suc n) k ADD_IF_NOT_FOUND)"
  shows "\<exists>m'. rehash_loop look old m = Some (Inr (), m') \<and> map_inv ops m' \<and> m_alloc m' = m_alloc m \<and>
    m_used m' = m_used m + count_keys (map fst old) \<and>
    (\<forall>y v. map_entry ops m' y v \<longleftrightarrow> map_entry ops m y v \<or> (\<exists>k. (Key k, v) \<in> set old \<and> obj_equal ops k y)) \<and>
    (\<forall>k \<in> keys_of (m_keys m'). k \<in> keys_of (m_keys m) \<or> k \<in> keys_of (map fst old))"
  using assms(1-4)
proof (induction old arbitrary: m)
  case (Cons e old)
  obtain a v where e: "e = (a, v)" by fastforce
  show ?case
  proof (cases "\<exists>k. a = Key k")
    case False
    then have "rehash_loop look (e # old) m = rehash_loop look old m"
      and "count_keys (map fst (e # old)) = count_keys (map fst old)"
      and "keys_of (map fst (e # old)) = keys_of (map fst old)"
      using e by (cases a; auto simp: count_keys_def keys_of_def)+
    moreover have "fresh_keys old (m_keys m)" using Cons.prems(3) by (auto simp: fresh_keys_def)
    ultimately show ?thesis
      using Cons.IH [of m] Cons.prems distinct_old_tl [OF Cons.prems(2)] e False by auto
  next
    case True
    then obtain k where k: "e = (Key k, v)" using e by auto
    have cnt: "count_keys (map fst (e # old)) = Suc (count_keys (map fst old))" by (simp add: k count_keys_def)
    have miss: "\<not> obj_equal ops l k" if "l \<in> keys_of (m_keys m)" for l
      using Cons.prems(3) that k by (auto simp: fresh_keys_def)
    have room: "m_used m < m_alloc m" using Cons.prems(4) by simp
    obtain q where q: "look k m = Some (Inr (Some q), map_put_key ops k q m)" "free_slot (m_keys m) (obj_hash ops k) q"
    proof (rule lookup_with_search [OF Cons.prems(1), of k ADD_IF_NOT_FOUND])
      fix cop assume s: "\<And>rehash n. map_lookup_with ops rehash n k ADD_IF_NOT_FOUND m =
          map_search ops rehash n cop (obj_hash ops k) k ADD_IF_NOT_FOUND m" "ptr_test_ok ops cop k (m_keys m)"
      show thesis
        using search_add_room [OF Cons.prems(1) s(2) room] miss that s(1) look by auto
    qed (use room in auto)
    let ?m1 = "map_put_key ops k q m"
    let ?m2 = "map_set_value q v ?m1"
    note put = put_key_inv [OF Cons.prems(1) q(2) miss]
    have q1: "q < m_alloc ?m1" "m_keys ?m1 ! q = Key k" using put by (simp_all add: map_put_key_def)
    have inv2: "map_inv ops ?m2" using put(1) by (rule set_value_inv)
    have keys2: "m_keys ?m2 = (m_keys m)[q := Key k]" "m_alloc ?m2 = m_alloc m" "m_used ?m2 = m_used m + 1"
      by (simp_all add: map_set_value_def map_put_key_def)
    have sub: "keys_of (m_keys ?m2) \<subseteq> insert k (keys_of (m_keys m))"
      using set_update_subset_insert [of "m_keys m" q "Key k"] by (auto simp: keys2 keys_of_def)
    have "fresh_keys old (m_keys ?m2)"
      using Cons.prems(3) sub distinct_old_hd [OF Cons.prems(2) [unfolded k]] unfolding fresh_keys_def
      by (metis insertE list.set_intros(2) subsetD)
    then obtain m' where m': "rehash_loop look old ?m2 = Some (Inr (), m')" "map_inv ops m'" "m_alloc m' = m_alloc ?m2"
      "m_used m' = m_used ?m2 + count_keys (map fst old)"
      "\<And>y w. map_entry ops m' y w \<longleftrightarrow> map_entry ops ?m2 y w \<or> (\<exists>k. (Key k, w) \<in> set old \<and> obj_equal ops k y)"
      "\<And>l. l \<in> keys_of (m_keys m') \<Longrightarrow> l \<in> keys_of (m_keys ?m2) \<or> l \<in> keys_of (map fst old)"
      using Cons.IH [OF inv2 distinct_old_tl [OF Cons.prems(2)]] Cons.prems(4) cnt keys2 by auto
    have ent: "map_entry ops ?m2 y w \<longleftrightarrow> (if obj_equal ops k y then w = v else map_entry ops m y w)" for y w
      using set_value_entry [OF put(1) q1 eq_refl] put(3) by simp
    have nom: "\<not> map_entry ops m y w" if "obj_equal ops k y" for y w
    proof
      assume "map_entry ops m y w"
      then obtain p l where pl: "p < m_alloc m" "m_keys m ! p = Key l" "obj_equal ops l y" by (auto simp: map_entry_def)
      then have "l \<in> keys_of (m_keys m)" using Cons.prems(1) by (intro keys_of_nth) (auto simp: map_inv_def)
      then show False using miss pl(3) that eq_sym eq_trans by blast
    qed
    have "map_entry ops m' y w \<longleftrightarrow> map_entry ops m y w \<or> (\<exists>l. (Key l, w) \<in> set (e # old) \<and> obj_equal ops l y)" for y w
      unfolding m'(5) ent using nom [of y w] by (auto simp: k)
    moreover have "l \<in> keys_of (m_keys m) \<or> l \<in> keys_of (map fst (e # old))" if "l \<in> keys_of (m_keys m')" for l
      using m'(6) [OF that] sub by (auto simp: k keys_of_def)
    moreover have "rehash_loop look (e # old) m = Some (Inr (), m')" using q m' by (simp add: k)
    ultimately show ?thesis using m' keys2 cnt by auto
  qed
qed (simp add: count_keys_def keys_of_def)

lemma map_rehash_correct:
  assumes inv: "map_inv ops m" and new: "can_new ops (get_hash_alloc_greater_or_equal_to (m_alloc m + 1))"
  shows "\<exists>m'. mp_map_rehash (Suc (Suc d)) ops m = Some (Inr (), m') \<and> map_inv ops m' \<and> m_used m' < m_alloc m' \<and>
    (\<forall>y v. map_entry ops m' y v \<longleftrightarrow> map_entry ops m y v) \<and> keys_of (m_keys m') \<subseteq> keys_of (m_keys m)"
proof -
  let ?n = "get_hash_alloc_greater_or_equal_to (m_alloc m + 1)"
  let ?m0 = "m\<lparr>m_alloc := ?n, m_used := 0, all_keys_are_qstrs := True, m_keys := replicate ?n Null, m_values := replicate ?n None\<rparr>"
  let ?old = "zip (m_keys m) (m_values m)"
  have len: "length (m_keys m) = m_alloc m" "length (m_values m) = m_alloc m" and ti: "table_inv ops (m_keys m)"
    using inv by (simp_all add: map_inv_def)
  have fst_old: "map fst ?old = m_keys m" using len by simp
  have inv0: "map_inv ops ?m0" using inv by (simp add: map_inv_def count_keys_def keys_of_def)
  have "distinct_old ?old" unfolding distinct_old_def using ti len by (auto simp: table_inv_def)
  moreover have "fresh_keys ?old (m_keys ?m0)" by (simp add: fresh_keys_def keys_of_def)
  moreover have "m_used ?m0 + count_keys (map fst ?old) < m_alloc ?m0"
  proof -
    have "count_keys (m_keys m) \<le> m_alloc m" using len by (metis count_keys_def length_filter_le)
    then show ?thesis using get_hash_alloc_ge [of "m_alloc m + 1"] fst_old by simp
  qed
  ultimately obtain m' where m': "rehash_loop (\<lambda>k. map_lookup_with ops (mp_map_rehash (Suc d) ops) (Suc d) k ADD_IF_NOT_FOUND) ?old ?m0 = Some (Inr (), m')"
      "map_inv ops m'" "m_alloc m' = m_alloc ?m0" "m_used m' = m_used ?m0 + count_keys (map fst ?old)"
      "\<And>y v. map_entry ops m' y v \<longleftrightarrow> map_entry ops ?m0 y v \<or> (\<exists>k. (Key k, v) \<in> set ?old \<and> obj_equal ops k y)"
      "\<And>k. k \<in> keys_of (m_keys m') \<Longrightarrow> k \<in> keys_of (m_keys ?m0) \<or> k \<in> keys_of (map fst ?old)"
    and room: "m_used ?m0 + count_keys (map fst ?old) < m_alloc ?m0"
    using rehash_loop_correct [OF inv0 _ _ _ refl, of ?old "mp_map_rehash (Suc d) ops" d] by blast
  have "map_entry ops m' y v \<longleftrightarrow> map_entry ops m y v" for y v
  proof -
    have "\<not> map_entry ops ?m0 y v" by (simp add: map_entry_def)
    then have "map_entry ops m' y v \<longleftrightarrow> (\<exists>k. (Key k, v) \<in> set ?old \<and> obj_equal ops k y)" using m'(5) by blast
    also have "\<dots> \<longleftrightarrow> map_entry ops m y v" using len by (fastforce simp: map_entry_def in_set_zip)
    finally show ?thesis .
  qed
  moreover have "keys_of (m_keys m') \<subseteq> keys_of (m_keys m)"
    using m'(6) fst_old by (auto simp: keys_of_def)
  ultimately show ?thesis using m' new room by (auto simp: map_new_table_def Let_def)
qed

subsection \<open>Adding\<close>

lemma search_add_cases:
  assumes inv: "map_inv ops m" and a: "0 < m_alloc m" and ptr: "ptr_test_ok ops cop x (m_keys m)"
    and miss: "\<And>k. k \<in> keys_of (m_keys m) \<Longrightarrow> \<not> obj_equal ops k x"
  obtains (put) q where "\<And>rehash n. map_search ops rehash (Suc n) cop (obj_hash ops x) x ADD_IF_NOT_FOUND m =
      Some (Inr (Some q), map_put_key ops x q m)" and "free_slot (m_keys m) (obj_hash ops x) q"
  | (grow) "\<And>rehash n. map_search ops rehash (Suc n) cop (obj_hash ops x) x ADD_IF_NOT_FOUND m =
      (case rehash m of None \<Rightarrow> None | Some (Inl e, m') \<Rightarrow> Some (Inl e, m')
        | Some (Inr _, m') \<Rightarrow> map_search ops rehash n cop (obj_hash ops x) x ADD_IF_NOT_FOUND m')"
proof -
  have len: "length (m_keys m) = m_alloc m" using inv by (simp add: map_inv_def)
  have "0 < length (m_keys m)" using a len by simp
  note pr = probe_ptr_test [OF ptr this, of "obj_hash ops x" "length (m_keys m)", unfolded len]
  let ?r = "probe (\<lambda>k. obj_equal ops k x) (m_keys m) (obj_hash ops x mod m_alloc m) None (m_alloc m)"
  have spec: "probe_spec (\<lambda>k. obj_equal ops k x) (m_keys m) (obj_hash ops x) ?r"
    using probe_from_start [of _ "m_keys m"] len by metis
  show thesis
  proof (cases ?r)
    case (AtNull p av)
    then have "free_slot (m_keys m) (obj_hash ops x) (case av of None \<Rightarrow> p | Some a \<Rightarrow> a)"
      using null_free_slot spec by metis
    then show thesis using put pr AtNull by (auto simp: Let_def)
  next
    case (AtKey p)
    then show thesis using probe_misses [OF miss] len by metis
  next
    case (Wrapped av)
    show thesis
    proof (cases av)
      case None
      then show thesis by (intro grow) (simp add: pr Wrapped)
    next
      case (Some q)
      then show thesis using put [of q] pr Wrapped spec avail_free_slot [of "m_keys m" _ _ q] by auto
    qed
  qed
qed

lemma search_add:
  assumes inv: "map_inv ops m" and new: "can_new ops (get_hash_alloc_greater_or_equal_to (m_alloc m + 1))" and a: "0 < m_alloc m"
    and ptr: "ptr_test_ok ops cop x (m_keys m)" and miss: "\<And>k. k \<in> keys_of (m_keys m) \<Longrightarrow> \<not> obj_equal ops k x"
    and rh: "rehash = mp_map_rehash (Suc (Suc d)) ops"
  shows "\<exists>m1 q. map_search ops rehash (Suc (Suc n)) cop (obj_hash ops x) x ADD_IF_NOT_FOUND m =
      Some (Inr (Some q), map_put_key ops x q m1) \<and> map_inv ops m1 \<and> free_slot (m_keys m1) (obj_hash ops x) q \<and>
      (\<forall>y v. map_entry ops m1 y v \<longleftrightarrow> map_entry ops m y v) \<and> (\<forall>k \<in> keys_of (m_keys m1). \<not> obj_equal ops k x)"
proof (cases rule: search_add_cases [OF inv a ptr miss, case_names _ put grow])
  case (put q)
  then show ?thesis using inv miss by blast
next
  case grow
  obtain m1 where m1: "rehash m = Some (Inr (), m1)" "map_inv ops m1" "m_used m1 < m_alloc m1"
    "\<And>y v. map_entry ops m1 y v \<longleftrightarrow> map_entry ops m y v" "keys_of (m_keys m1) \<subseteq> keys_of (m_keys m)"
    using map_rehash_correct [OF inv new] rh by blast
  have ptr1: "ptr_test_ok ops cop x (m_keys m1)" and miss1: "\<And>k. k \<in> keys_of (m_keys m1) \<Longrightarrow> \<not> obj_equal ops k x"
    using ptr miss m1(5) by (auto simp: ptr_test_ok_def)
  obtain q where q: "\<forall>rehash n. map_search ops rehash (Suc n) cop (obj_hash ops x) x ADD_IF_NOT_FOUND m1 =
      Some (Inr (Some q), map_put_key ops x q m1)" "free_slot (m_keys m1) (obj_hash ops x) q"
    using search_add_room [OF m1(2) ptr1 m1(3)] miss1 by blast
  have "map_search ops rehash (Suc (Suc n)) cop (obj_hash ops x) x ADD_IF_NOT_FOUND m =
      map_search ops rehash (Suc n) cop (obj_hash ops x) x ADD_IF_NOT_FOUND m1"
    unfolding grow m1(1) by simp
  then show ?thesis using m1 miss1 q by metis
qed

lemma lookup_add:
  assumes inv: "map_inv ops m" and new: "can_new ops (get_hash_alloc_greater_or_equal_to (m_alloc m + 1))" and d: "2 \<le> d"
  shows "\<exists>p m' k. mp_map_lookup d ops x ADD_IF_NOT_FOUND m = Some (Inr (Some p), m') \<and> map_inv ops m' \<and>
    p < m_alloc m' \<and> m_keys m' ! p = Key k \<and> obj_equal ops k x \<and>
    (\<forall>y v. map_entry ops m' y v \<longleftrightarrow>
       (if obj_equal ops x y \<and> (\<nexists>w. map_entry ops m x w) then v = None else map_entry ops m y v))"
proof -
  obtain e where e: "d = Suc (Suc e)" using d by (metis add_2_eq_Suc le_Suc_ex)
  have len: "length (m_keys m) = m_alloc m" using inv by (simp add: map_inv_def)
  show ?thesis
  proof (cases "\<exists>w. map_entry ops m x w")
    case True
    then obtain p k where p: "p < m_alloc m" "m_keys m ! p = Key k" "obj_equal ops k x" by (auto simp: map_entry_def)
    have "mp_map_lookup d ops x ADD_IF_NOT_FOUND m = Some (Inr (Some p), m)"
      using lookup_found [OF inv p] by (simp add: mp_map_lookup_def e)
    then show ?thesis using True p inv by auto
  next
    case False
    then have miss: "\<not> obj_equal ops k x" if "k \<in> keys_of (m_keys m)" for k using missing_iff [OF len] that by blast
    have fin: ?thesis if look: "mp_map_lookup d ops x ADD_IF_NOT_FOUND m = Some (Inr (Some q), map_put_key ops x q m1)"
      and m1: "map_inv ops m1" "free_slot (m_keys m1) (obj_hash ops x) q"
        "\<And>y v. map_entry ops m1 y v \<longleftrightarrow> map_entry ops m y v" "\<And>k. k \<in> keys_of (m_keys m1) \<Longrightarrow> \<not> obj_equal ops k x" for q m1
    proof -
      note put = put_key_inv [OF m1(1,2,4)]
      have "q < m_alloc (map_put_key ops x q m1)" using put(4) by (simp add: map_put_key_def)
      then show ?thesis using look put m1(3) False eq_refl by auto
    qed
    show ?thesis
    proof (rule lookup_with_search [OF inv, of x ADD_IF_NOT_FOUND])
      fix cop assume s: "\<And>rehash n. map_lookup_with ops rehash n x ADD_IF_NOT_FOUND m =
          map_search ops rehash n cop (obj_hash ops x) x ADD_IF_NOT_FOUND m" "0 < m_alloc m" "ptr_test_ok ops cop x (m_keys m)"
      obtain m1 q where m1: "map_search ops (mp_map_rehash (Suc (Suc e)) ops) (Suc (Suc e)) cop (obj_hash ops x) x ADD_IF_NOT_FOUND m =
          Some (Inr (Some q), map_put_key ops x q m1)" "map_inv ops m1" "free_slot (m_keys m1) (obj_hash ops x) q"
          "\<And>y v. map_entry ops m1 y v \<longleftrightarrow> map_entry ops m y v" "\<And>k. k \<in> keys_of (m_keys m1) \<Longrightarrow> \<not> obj_equal ops k x"
        using search_add [OF inv new s(2,3) miss refl, of e e] by blast
      have "mp_map_lookup d ops x ADD_IF_NOT_FOUND m = Some (Inr (Some q), map_put_key ops x q m1)"
        unfolding mp_map_lookup_def s(1) e by (rule m1(1))
      then show ?thesis by (rule fin [OF _ m1(2-5)])
    next
      fix cop assume s: "\<And>rehash n. map_lookup_with ops rehash n x ADD_IF_NOT_FOUND m =
          (case rehash m of None \<Rightarrow> None | Some (Inl e, m') \<Rightarrow> Some (Inl e, m')
           | Some (Inr _, m') \<Rightarrow> map_search ops rehash n cop (obj_hash ops x) x ADD_IF_NOT_FOUND m')" "m_alloc m = 0"
      obtain m1 where m1: "mp_map_rehash d ops m = Some (Inr (), m1)" "map_inv ops m1" "m_used m1 < m_alloc m1"
        "\<And>y v. map_entry ops m1 y v \<longleftrightarrow> map_entry ops m y v" "keys_of (m_keys m1) \<subseteq> keys_of (m_keys m)"
        using map_rehash_correct [OF inv new, of e] e by blast
      have none: "keys_of (m_keys m1) = {}" using m1(5) s(2) len by (auto simp: keys_of_def)
      then have ptr: "ptr_test_ok ops cop x (m_keys m1)" by (simp add: ptr_test_ok_def)
      have miss1: "\<not> obj_equal ops k x" if "k \<in> keys_of (m_keys m1)" for k using none that by simp
      obtain q where q: "\<forall>rehash n. map_search ops rehash (Suc n) cop (obj_hash ops x) x ADD_IF_NOT_FOUND m1 =
          Some (Inr (Some q), map_put_key ops x q m1)" and free: "free_slot (m_keys m1) (obj_hash ops x) q"
      using search_add_room [OF m1(2) ptr m1(3)] miss1 by blast
      have "mp_map_lookup d ops x ADD_IF_NOT_FOUND m = Some (Inr (Some q), map_put_key ops x q m1)"
        using m1(1) q by (simp del: map_search.simps add: mp_map_lookup_def s(1) e)
      then show ?thesis by (rule fin [OF _ m1(2) free m1(4) miss1])
    qed simp
  qed
qed

text \<open>Without memory for the next table an addition finds the key, finds a free slot, or raises and leaves the map as it was.\<close>

lemma lookup_add_or_oom:
  assumes inv: "map_inv ops m" and d: "2 \<le> d"
  shows "mp_map_lookup d ops x ADD_IF_NOT_FOUND m = Some (Inl MemoryError, m) \<or>
    (\<exists>p m' k. mp_map_lookup d ops x ADD_IF_NOT_FOUND m = Some (Inr (Some p), m') \<and> map_inv ops m' \<and>
    p < m_alloc m' \<and> m_keys m' ! p = Key k \<and> obj_equal ops k x \<and>
    (\<forall>y v. map_entry ops m' y v \<longleftrightarrow>
       (if obj_equal ops x y \<and> (\<nexists>w. map_entry ops m x w) then v = None else map_entry ops m y v)))"
proof (cases "can_new ops (get_hash_alloc_greater_or_equal_to (m_alloc m + 1))")
  case True
  then show ?thesis using lookup_add [OF inv True d] by blast
next
  case new: False
  obtain e where e: "d = Suc (Suc e)" using d by (metis add_2_eq_Suc le_Suc_ex)
  have rehash: "mp_map_rehash d ops m = Some (Inl MemoryError, m)" using new by (simp add: e map_new_table_def Let_def)
  have len: "length (m_keys m) = m_alloc m" using inv by (simp add: map_inv_def)
  show ?thesis
  proof (cases "\<exists>w. map_entry ops m x w")
    case True
    then obtain p k where p: "p < m_alloc m" "m_keys m ! p = Key k" "obj_equal ops k x" by (auto simp: map_entry_def)
    have "mp_map_lookup d ops x ADD_IF_NOT_FOUND m = Some (Inr (Some p), m)"
      using lookup_found [OF inv p] by (simp add: mp_map_lookup_def e)
    then show ?thesis using True p inv by auto
  next
    case False
    then have miss: "\<not> obj_equal ops k x" if "k \<in> keys_of (m_keys m)" for k using missing_iff [OF len] that by blast
    show ?thesis
    proof (rule lookup_with_search [OF inv, of x ADD_IF_NOT_FOUND])
      fix cop assume s: "\<And>rehash n. map_lookup_with ops rehash n x ADD_IF_NOT_FOUND m =
          map_search ops rehash n cop (obj_hash ops x) x ADD_IF_NOT_FOUND m" "0 < m_alloc m" "ptr_test_ok ops cop x (m_keys m)"
      show ?thesis
      proof (cases rule: search_add_cases [OF inv s(2,3) miss, case_names _ put grow])
        case (put q)
        note r = put_key_inv [OF inv put(2) miss]
        have "mp_map_lookup d ops x ADD_IF_NOT_FOUND m = Some (Inr (Some q), map_put_key ops x q m)"
          unfolding mp_map_lookup_def s(1) e by (rule put(1))
        moreover have "q < m_alloc (map_put_key ops x q m)" using r(4) by (simp add: map_put_key_def)
        ultimately show ?thesis using r False eq_refl by auto
      next
        case grow
        have "mp_map_lookup d ops x ADD_IF_NOT_FOUND m = Some (Inl MemoryError, m)"
          unfolding mp_map_lookup_def s(1) using rehash grow [of "mp_map_rehash d ops" "Suc e"] by (simp del: map_search.simps add: e)
        then show ?thesis by simp
      qed
    next
      fix cop assume s: "\<And>rehash n. map_lookup_with ops rehash n x ADD_IF_NOT_FOUND m =
          (case rehash m of None \<Rightarrow> None | Some (Inl e, m') \<Rightarrow> Some (Inl e, m')
           | Some (Inr _, m') \<Rightarrow> map_search ops rehash n cop (obj_hash ops x) x ADD_IF_NOT_FOUND m')" "m_alloc m = 0"
      then show ?thesis using rehash by (simp add: mp_map_lookup_def)
    qed simp
  qed
qed

end

end
