(* ===== verification/Set_Correct.thy ===== *)
theory Set_Correct
  imports Map_Correct
begin

text \<open>
  Correctness of \<^verbatim>\<open>mp_set_t\<close>, on the probe lemmas of \<open>Map_Correct\<close>: a set stands for the
  objects equal to one of its elements, and the lookup kinds add, remove or toggle membership.
\<close>

definition set_inv :: "'k obj_ops \<Rightarrow> 'k mp_set \<Rightarrow> bool" where
  "set_inv ops s \<longleftrightarrow> length (s_table s) = s_alloc s \<and> s_used s = count_keys (s_table s) \<and> table_inv ops (s_table s)"

definition set_member :: "'k obj_ops \<Rightarrow> 'k mp_set \<Rightarrow> 'k \<Rightarrow> bool" where
  "set_member ops s x \<longleftrightarrow> (\<exists>k \<in> keys_of (s_table s). obj_equal ops k x)"

lemma length_delete_slot [simp]: "length (delete_slot tab p) = length tab"
  by (simp add: delete_slot_def)

lemma delete_slot_key:
  "p < length tab \<Longrightarrow> r < length tab \<Longrightarrow> delete_slot tab p ! r = Key l \<longleftrightarrow> r \<noteq> p \<and> tab ! r = Key l"
  by (auto simp: delete_slot_def nth_list_update split: if_splits)

lemma delete_slot_count:
  assumes "p < length tab" and "tab ! p = Key k"
  shows "count_keys tab = count_keys (delete_slot tab p) + 1"
  using count_keys_update [OF assms(1), of "if tab ! ((p + 1) mod length tab) = Null then Null else Sentinel"] assms(2)
  by (auto simp: delete_slot_def split: if_splits)

context hashable
begin

lemma set_put_inv:
  assumes inv: "set_inv ops s" and free: "free_slot (s_table s) (obj_hash ops x) q" and miss: "\<not> set_member ops s x"
  shows "set_inv ops (set_put x q s)" and "set_member ops (set_put x q s) y \<longleftrightarrow> obj_equal ops x y \<or> set_member ops s y"
    and "s_alloc (set_put x q s) = s_alloc s" and "s_used (set_put x q s) = s_used s + 1"
proof -
  have q: "q < length (s_table s)" and old: "s_table s ! q = Null \<or> s_table s ! q = Sentinel"
    using free by (simp_all add: free_slot_def)
  have "\<not> obj_equal ops k x \<and> \<not> obj_equal ops x k" if "k \<in> keys_of (s_table s)" for k
    using miss that eq_sym by (auto simp: set_member_def)
  then have "table_inv ops ((s_table s)[q := Key x])"
    using inv free by (intro table_inv_insert) (auto simp: set_inv_def)
  moreover have "count_keys ((s_table s)[q := Key x]) = count_keys (s_table s) + 1"
    using count_keys_update [OF q, of "Key x"] old by auto
  ultimately show "set_inv ops (set_put x q s)" using inv by (simp add: set_inv_def set_put_def)
  have "k \<in> keys_of ((s_table s)[q := Key x]) \<longleftrightarrow> k = x \<or> k \<in> keys_of (s_table s)" for k
  proof
    assume "k \<in> keys_of ((s_table s)[q := Key x])"
    then show "k = x \<or> k \<in> keys_of (s_table s)"
      using set_update_subset_insert [of "s_table s" q "Key x"] by (auto simp: keys_of_def)
  next
    assume "k = x \<or> k \<in> keys_of (s_table s)"
    then show "k \<in> keys_of ((s_table s)[q := Key x])"
      unfolding keys_of_ex using q old by (metis length_list_update nth_list_update slot_key.distinct(3,5))
  qed
  then show "set_member ops (set_put x q s) y \<longleftrightarrow> obj_equal ops x y \<or> set_member ops s y"
    by (auto simp: set_member_def set_put_def)
qed (simp_all add: set_put_def)

lemma set_delete_inv:
  assumes inv: "set_inv ops s" and p: "p < s_alloc s" "s_table s ! p = Key k" "obj_equal ops k x"
  defines "s' \<equiv> s\<lparr>s_used := s_used s - 1, s_table := delete_slot (s_table s) p\<rparr>"
  shows "set_inv ops s'" and "set_member ops s' y \<longleftrightarrow> \<not> obj_equal ops x y \<and> set_member ops s y"
proof -
  have len: "length (s_table s) = s_alloc s" and ti: "table_inv ops (s_table s)" using inv by (simp_all add: set_inv_def)
  have p': "p < length (s_table s)" using p len by simp
  show "set_inv ops s'"
    using inv table_inv_delete [OF ti p' p(2)] delete_slot_count [OF p' p(2)] by (simp add: set_inv_def s'_def)
  have same: "r = p \<longleftrightarrow> obj_equal ops x y" if "r < s_alloc s" "s_table s ! r = Key l" "obj_equal ops l y" for r l
  proof
    assume "r = p"
    then show "obj_equal ops x y" using that p eq_sym eq_trans by (metis slot_key.inject)
  next
    assume "obj_equal ops x y"
    then have "obj_equal ops l k" using that(3) p(3) eq_sym eq_trans by blast
    then show "r = p" using ti that p len unfolding table_inv_def by metis
  qed
  have "set_member ops s' y \<longleftrightarrow> (\<exists>r l. r < s_alloc s \<and> r \<noteq> p \<and> s_table s ! r = Key l \<and> obj_equal ops l y)"
    using delete_slot_key [OF p'] len by (auto simp: set_member_def s'_def Bex_def keys_of_ex)
  also have "\<dots> \<longleftrightarrow> \<not> obj_equal ops x y \<and> set_member ops s y"
    using same len by (auto simp: set_member_def Bex_def keys_of_ex)
  finally show "set_member ops s' y \<longleftrightarrow> \<not> obj_equal ops x y \<and> set_member ops s y" .
qed

lemma set_search_room:
  assumes inv: "set_inv ops s" and room: "s_used s < s_alloc s" and miss: "\<not> set_member ops s x" and kind: "kind_adds kind"
  shows "\<exists>q. (\<forall>rehash n. set_search ops rehash (Suc n) (obj_hash ops x) x kind s = Some (Inr (Some x), set_put x q s)) \<and>
    free_slot (s_table s) (obj_hash ops x) q"
proof -
  have len: "length (s_table s) = s_alloc s" and cnt: "count_keys (s_table s) < length (s_table s)"
    using inv room by (simp_all add: set_inv_def)
  have miss': "\<And>k. k \<in> keys_of (s_table s) \<Longrightarrow> \<not> obj_equal ops k x" using miss by (auto simp: set_member_def)
  show ?thesis by (rule probe_offers [OF miss' cnt, unfolded len]) (use kind in auto)
qed

lemma set_search_found:
  assumes inv: "set_inv ops s" and p: "p < s_alloc s" "s_table s ! p = Key k" "obj_equal ops k x"
  shows "set_search ops rehash (Suc n) (obj_hash ops x) x kind s =
    Some (Inr (Some k), if kind_removes kind
      then s\<lparr>s_used := s_used s - 1, s_table := delete_slot (s_table s) p\<rparr> else s)"
  using probe_finds [of "s_table s" p k x] inv p by (simp add: set_inv_def)

lemma set_search_missing:
  assumes inv: "set_inv ops s" and miss: "\<not> set_member ops s x" and kind: "\<not> kind_adds kind"
  shows "set_search ops rehash (Suc n) (obj_hash ops x) x kind s = Some (Inr None, s)"
proof -
  have len: "length (s_table s) = s_alloc s" using inv by (simp add: set_inv_def)
  have miss': "\<And>k. k \<in> keys_of (s_table s) \<Longrightarrow> \<not> obj_equal ops k x" using miss by (auto simp: set_member_def)
  have "probe (\<lambda>k. obj_equal ops k x) (s_table s) (obj_hash ops x mod s_alloc s) None (s_alloc s) \<noteq> AtKey p" for p
    using probe_misses [OF miss'] len by metis
  then show ?thesis using kind by (auto split: probe_result.splits)
qed

lemma set_rehash_loop_correct:
  assumes "set_inv ops s" and "s_used s + count_keys old < s_alloc s"
    and "\<forall>k \<in> keys_of old. \<not> set_member ops s k"
    and "\<forall>i < length old. \<forall>j < length old. \<forall>k l. old ! i = Key k \<longrightarrow> old ! j = Key l \<longrightarrow> obj_equal ops k l \<longrightarrow> i = j"
    and look: "look = (\<lambda>k. set_lookup_with ops rehash (Suc n) k ADD_IF_NOT_FOUND)"
  shows "\<exists>s'. set_rehash_loop look old s = Some (Inr (), s') \<and> set_inv ops s' \<and> s_alloc s' = s_alloc s \<and>
    s_used s' = s_used s + count_keys old \<and>
    (\<forall>y. set_member ops s' y \<longleftrightarrow> set_member ops s y \<or> (\<exists>k \<in> keys_of old. obj_equal ops k y))"
  using assms(1-4)
proof (induction old arbitrary: s)
  case (Cons a old)
  have dist: "\<forall>i < length old. \<forall>j < length old. \<forall>k l. old ! i = Key k \<longrightarrow> old ! j = Key l \<longrightarrow> obj_equal ops k l \<longrightarrow> i = j"
    using Cons.prems(4) by (metis Suc_less_eq length_Cons nat.inject nth_Cons_Suc)
  show ?case
  proof (cases "\<exists>k. a = Key k")
    case False
    then have "set_rehash_loop look (a # old) s = set_rehash_loop look old s"
      and "count_keys (a # old) = count_keys old" and "keys_of (a # old) = keys_of old"
      by (cases a; auto simp: count_keys_def keys_of_def)+
    then show ?thesis using Cons.IH [OF Cons.prems(1)] Cons.prems dist by simp
  next
    case True
    then obtain k where a: "a = Key k" by blast
    have cnt: "count_keys (a # old) = Suc (count_keys old)" by (simp add: a count_keys_def)
    have miss: "\<not> set_member ops s k" using Cons.prems(3) by (simp add: a keys_of_def)
    have room: "s_used s < s_alloc s" using Cons.prems(2) by simp
    obtain q where q: "\<forall>rehash n. set_search ops rehash (Suc n) (obj_hash ops k) k ADD_IF_NOT_FOUND s = Some (Inr (Some k), set_put k q s)"
      "free_slot (s_table s) (obj_hash ops k) q"
      using set_search_room [OF Cons.prems(1) room miss, of ADD_IF_NOT_FOUND] by auto
    have step: "look k s = Some (Inr (Some k), set_put k q s)"
      using q(1) room by (simp add: look set_lookup_with_def del: set_search.simps)
    note put = set_put_inv [OF Cons.prems(1) q(2) miss]
    have "\<not> obj_equal ops k l" if l: "l \<in> keys_of old" for l
    proof
      assume eq: "obj_equal ops k l"
      obtain j where "j < length old" "old ! j = Key l" using l by (auto simp: keys_of_ex)
      then show False using Cons.prems(4) [rule_format, of 0 "Suc j" k l] eq a by simp
    qed
    then have fresh: "\<forall>l \<in> keys_of old. \<not> set_member ops (set_put k q s) l"
      using put(2) Cons.prems(3) by (auto simp: a keys_of_def)
    obtain s' where s': "set_rehash_loop look old (set_put k q s) = Some (Inr (), s')" "set_inv ops s'"
      "s_alloc s' = s_alloc s" "s_used s' = s_used s + 1 + count_keys old"
      "\<And>y. set_member ops s' y \<longleftrightarrow> set_member ops (set_put k q s) y \<or> (\<exists>k \<in> keys_of old. obj_equal ops k y)"
      using Cons.IH [OF put(1) _ fresh dist] Cons.prems(2) put(3,4) cnt by auto
    have "set_member ops s' y \<longleftrightarrow> set_member ops s y \<or> (\<exists>k \<in> keys_of (a # old). obj_equal ops k y)" for y
      unfolding s'(5) put(2) by (auto simp: a keys_of_def)
    then show ?thesis using s' step cnt by (simp add: a)
  qed
qed (simp add: count_keys_def keys_of_def)

lemma set_rehash_correct:
  assumes inv: "set_inv ops s" and new: "\<And>n. can_new ops n"
  shows "\<exists>s'. mp_set_rehash (Suc (Suc d)) ops s = Some (Inr (), s') \<and> set_inv ops s' \<and> s_used s' < s_alloc s' \<and>
    (\<forall>y. set_member ops s' y \<longleftrightarrow> set_member ops s y)"
proof -
  let ?n = "get_hash_alloc_greater_or_equal_to (s_alloc s + 1)"
  let ?s0 = "s\<lparr>s_alloc := ?n, s_used := 0, s_table := replicate ?n Null\<rparr>"
  have len: "length (s_table s) = s_alloc s" and ti: "table_inv ops (s_table s)" using inv by (simp_all add: set_inv_def)
  have inv0: "set_inv ops ?s0" by (simp add: set_inv_def count_keys_def)
  have none: "\<not> set_member ops ?s0 y" for y by (simp add: set_member_def keys_of_def)
  have "count_keys (s_table s) \<le> s_alloc s" using len by (metis count_keys_def length_filter_le)
  then have room: "s_used ?s0 + count_keys (s_table s) < s_alloc ?s0" using get_hash_alloc_ge [of "s_alloc s + 1"] by simp
  have dist: "\<forall>i < length (s_table s). \<forall>j < length (s_table s). \<forall>k l. s_table s ! i = Key k \<longrightarrow> s_table s ! j = Key l \<longrightarrow> obj_equal ops k l \<longrightarrow> i = j"
    using ti by (simp add: table_inv_def)
  obtain s' where s': "set_rehash_loop (\<lambda>k. set_lookup_with ops (mp_set_rehash (Suc d) ops) (Suc d) k ADD_IF_NOT_FOUND) (s_table s) ?s0 = Some (Inr (), s')"
    "set_inv ops s'" "s_alloc s' = s_alloc ?s0" "s_used s' = s_used ?s0 + count_keys (s_table s)"
    "\<And>y. set_member ops s' y \<longleftrightarrow> set_member ops ?s0 y \<or> (\<exists>k \<in> keys_of (s_table s). obj_equal ops k y)"
    using set_rehash_loop_correct [OF inv0 room _ dist refl, of "mp_set_rehash (Suc d) ops" d] none by blast
  have "set_member ops s' y \<longleftrightarrow> set_member ops s y" for y using s'(5) none by (simp add: set_member_def)
  then show ?thesis using s' new room by (simp add: Let_def)
qed

lemma set_lookup_member:
  assumes inv: "set_inv ops s" and mem: "set_member ops s x" and d: "0 < d"
  shows "\<exists>k s'. mp_set_lookup d ops x kind s = Some (Inr (Some k), s') \<and> obj_equal ops k x \<and> set_inv ops s' \<and>
    (\<forall>y. set_member ops s' y \<longleftrightarrow> set_member ops s y \<and> \<not> (kind_removes kind \<and> obj_equal ops x y))"
proof -
  obtain e where e: "d = Suc e" using d gr0_conv_Suc by blast
  have len: "length (s_table s) = s_alloc s" using inv by (simp add: set_inv_def)
  obtain p k where p: "p < s_alloc s" "s_table s ! p = Key k" "obj_equal ops k x"
    using mem len by (auto simp: set_member_def keys_of_ex)
  have "mp_set_lookup d ops x kind s = Some (Inr (Some k), if kind_removes kind
      then s\<lparr>s_used := s_used s - 1, s_table := delete_slot (s_table s) p\<rparr> else s)"
    using set_search_found [OF inv p, of _ e kind] p by (simp add: mp_set_lookup_def set_lookup_with_def e)
  then show ?thesis using set_delete_inv [OF inv p] p inv by auto
qed

lemma set_lookup_absent:
  assumes inv: "set_inv ops s" and miss: "\<not> set_member ops s x" and kind: "\<not> kind_adds kind" and d: "0 < d"
  shows "mp_set_lookup d ops x kind s = Some (Inr None, s)"
proof -
  obtain e where e: "d = Suc e" using d gr0_conv_Suc by blast
  show ?thesis
    using set_search_missing [OF inv miss kind, of _ e] kind by (simp add: mp_set_lookup_def set_lookup_with_def e)
qed

lemma set_lookup_adds:
  assumes inv: "set_inv ops s" and miss: "\<not> set_member ops s x" and kind: "kind_adds kind"
    and new: "\<And>n. can_new ops n" and d: "2 \<le> d"
  shows "\<exists>s'. mp_set_lookup d ops x kind s = Some (Inr (Some x), s') \<and> set_inv ops s' \<and>
    (\<forall>y. set_member ops s' y \<longleftrightarrow> obj_equal ops x y \<or> set_member ops s y)"
proof -
  obtain e where e: "d = Suc (Suc e)" using d by (metis add_2_eq_Suc le_Suc_ex)
  obtain s1 where s1: "mp_set_rehash d ops s = Some (Inr (), s1)" "set_inv ops s1" "s_used s1 < s_alloc s1"
    "\<And>y. set_member ops s1 y \<longleftrightarrow> set_member ops s y"
    using set_rehash_correct [OF inv new, of e] e by blast
  have miss1: "\<not> set_member ops s1 x" using miss s1(4) by simp
  obtain q1 where q1: "\<forall>rehash n. set_search ops rehash (Suc n) (obj_hash ops x) x kind s1 = Some (Inr (Some x), set_put x q1 s1)"
    "free_slot (s_table s1) (obj_hash ops x) q1"
    using set_search_room [OF s1(2,3) miss1 kind] by blast
  note put1 = set_put_inv [OF s1(2) q1(2) miss1]
  have len: "length (s_table s) = s_alloc s" using inv by (simp add: set_inv_def)
  let ?r = "probe (\<lambda>k. obj_equal ops k x) (s_table s) (obj_hash ops x mod s_alloc s) None (s_alloc s)"
  have spec: "probe_spec (\<lambda>k. obj_equal ops k x) (s_table s) (obj_hash ops x) ?r"
    using probe_from_start [of _ "s_table s"] len by metis
  have no: "?r \<noteq> AtKey p" for p using probe_misses [of "s_table s" x] miss len by (metis set_member_def)
  have direct: ?thesis if "mp_set_lookup d ops x kind s = Some (Inr (Some x), set_put x q s)" "free_slot (s_table s) (obj_hash ops x) q" for q
    using that set_put_inv [OF inv that(2) miss] by blast
  show ?thesis
  proof (cases "s_alloc s = 0")
    case True
    then have "mp_set_lookup d ops x kind s = Some (Inr (Some x), set_put x q1 s1)"
      using s1(1) q1(1) kind e by (simp add: mp_set_lookup_def set_lookup_with_def del: set_search.simps mp_set_rehash.simps)
    then show ?thesis using put1 s1(4) by blast
  next
    case False
    then have look: "mp_set_lookup d ops x kind s = set_search ops (mp_set_rehash d ops) (Suc (Suc e)) (obj_hash ops x) x kind s"
      by (simp add: mp_set_lookup_def set_lookup_with_def e del: set_search.simps)
    show ?thesis
    proof (cases ?r)
      case (AtNull p av)
      then have "free_slot (s_table s) (obj_hash ops x) (case av of None \<Rightarrow> p | Some a \<Rightarrow> a)"
        using null_free_slot spec by metis
      then show ?thesis using direct look AtNull kind by simp
    next
      case (AtKey p)
      then show ?thesis using no by blast
    next
      case (Wrapped av)
      show ?thesis
      proof (cases av)
        case (Some q)
        then have "avail_ok (s_table s) (obj_hash ops x) (length (s_table s)) (Some q)" using Wrapped spec by simp
        then have "free_slot (s_table s) (obj_hash ops x) q" by (rule avail_free_slot) simp
        then show ?thesis using direct [of q] look Wrapped Some kind by simp
      next
        case None
        have "set_search ops (mp_set_rehash d ops) (Suc (Suc e)) (obj_hash ops x) x kind s =
            set_search ops (mp_set_rehash d ops) (Suc e) (obj_hash ops x) x kind s1"
          using None Wrapped kind s1(1) by (subst set_search.simps) (simp del: set_search.simps mp_set_rehash.simps)
        then have "mp_set_lookup d ops x kind s = Some (Inr (Some x), set_put x q1 s1)" using look q1(1) by simp
        then show ?thesis using put1 s1(4) by blast
      qed
    qed
  qed
qed

end

end
