(* ===== verification/Obj.thy ===== *)
theory Obj
  imports Qstr Set_Correct
begin

unbundle bit_operations_syntax

text \<open>
  The immutable objects that serve as keys: their equality (\<^verbatim>\<open>mp_obj_equal_not_equal\<close>) and hash
  (\<^verbatim>\<open>mp_unary_op\<close> with \<^verbatim>\<open>MP_UNARY_OP_HASH\<close>), proved to satisfy the interface of hash-table
  keys, and the resulting guarantees of \<^verbatim>\<open>mp_map_t\<close> and \<^verbatim>\<open>mp_set_t\<close> on them.
\<close>

subsection \<open>Objects\<close>

text \<open>
  A qstr object is determined by its string (theory \<open>Qstr\<close>). A heap object has an
  address, so that equality of values of this type is pointer equality; a string object also
  says whether its hash field is filled in (else it is 0).
\<close>

datatype mp_obj =
    SmallInt int
  | Bool bool
  | QstrObj "byte list"
  | StrObj nat "byte list" bool
  | BytesObj nat "byte list" bool
  | TupleObj nat "mp_obj list"

fun mp_obj_is_small_int :: "mp_obj \<Rightarrow> bool" where
  "mp_obj_is_small_int (SmallInt _) = True"
| "mp_obj_is_small_int _ = False"

fun mp_obj_is_qstr :: "mp_obj \<Rightarrow> bool" where
  "mp_obj_is_qstr (QstrObj _) = True"
| "mp_obj_is_qstr _ = False"

text \<open>\<^verbatim>\<open>mp_obj_is_type(o, &mp_type_str)\<close>, which holds for heap strings only.\<close>

fun mp_obj_is_heap_str :: "mp_obj \<Rightarrow> bool" where
  "mp_obj_is_heap_str (StrObj _ _ _) = True"
| "mp_obj_is_heap_str _ = False"

definition mp_obj_is_str :: "mp_obj \<Rightarrow> bool" where
  "mp_obj_is_str x \<longleftrightarrow> mp_obj_is_qstr x \<or> mp_obj_is_heap_str x"

fun get_str_data :: "mp_obj \<Rightarrow> byte list" where
  "get_str_data (QstrObj d) = d"
| "get_str_data (StrObj _ d _) = d"
| "get_str_data (BytesObj _ d _) = d"
| "get_str_data _ = []"

fun get_str_hash :: "mp_obj \<Rightarrow> nat" where
  "get_str_hash (QstrObj d) = qstr_compute_hash d"
| "get_str_hash (StrObj _ d h) = (if h then qstr_compute_hash d else 0)"
| "get_str_hash (BytesObj _ d h) = (if h then qstr_compute_hash d else 0)"
| "get_str_hash _ = 0"

definition mp_obj_str_equal :: "mp_obj \<Rightarrow> mp_obj \<Rightarrow> bool" where
  "mp_obj_str_equal s1 s2 =
     (if mp_obj_is_qstr s1 \<and> mp_obj_is_qstr s2 then s1 = s2
      else
        let h1 = get_str_hash s1; h2 = get_str_hash s2 in
        if h1 \<noteq> 0 \<and> h2 \<noteq> 0 \<and> h1 \<noteq> h2 then False
        else get_str_data s1 = get_str_data s2)"

subsection \<open>Equality\<close>

text \<open>
  \<open>type_equal o1 o2\<close> is one pass of the loop of \<^verbatim>\<open>mp_obj_equal_not_equal\<close>: \<open>o1\<close>'s type is
  asked for \<^verbatim>\<open>MP_BINARY_OP_EQUAL\<close> where it has the operation and either checks other types
  (\<^verbatim>\<open>bool\<close>) or \<open>o2\<close> is of the same type; \<open>None\<close> is no answer. \<open>seq_equal\<close> is
  \<^verbatim>\<open>mp_seq_cmp_objs\<close> for equality.
\<close>

fun obj_weight :: "mp_obj \<Rightarrow> nat" where
  "obj_weight (Bool _) = 2"
| "obj_weight (TupleObj _ xs) = 2 + sum_list (map obj_weight xs) + length xs"
| "obj_weight _ = 1"

function (sequential) mp_obj_equal :: "mp_obj \<Rightarrow> mp_obj \<Rightarrow> bool"
and type_equal :: "mp_obj \<Rightarrow> mp_obj \<Rightarrow> bool option"
and seq_equal :: "mp_obj list \<Rightarrow> mp_obj list \<Rightarrow> bool" where
  "mp_obj_equal o1 o2 =
     (if o1 = o2 then True
      else if mp_obj_is_str o1 \<and> mp_obj_is_str o2 then mp_obj_str_equal o1 o2
      else if mp_obj_is_small_int o1 \<and> mp_obj_is_small_int o2 then False
      else if mp_obj_is_str o1 \<or> mp_obj_is_small_int o1 then
        (case type_equal o2 o1 of Some r \<Rightarrow> r | None \<Rightarrow> False)
      else
        (case type_equal o1 o2 of Some r \<Rightarrow> r | None \<Rightarrow>
           (case type_equal o2 o1 of Some r \<Rightarrow> r | None \<Rightarrow> False)))"
| "type_equal (Bool b) o2 = Some (mp_obj_equal (SmallInt (of_bool b)) o2)"
| "type_equal (TupleObj a xs) (TupleObj b ys) = Some (length xs = length ys \<and> seq_equal xs ys)"
| "type_equal (BytesObj a d h) (BytesObj b e h') = Some (d = e)"
| "type_equal _ _ = None"
| "seq_equal (x # xs) (y # ys) = (if mp_obj_equal x y then seq_equal xs ys else False)"
| "seq_equal _ _ = True"
  by pat_completeness auto
termination
  by (relation "measure (\<lambda>z. case z of
        Inl (o1, o2) \<Rightarrow> 2 * (obj_weight o1 + obj_weight o2) + 1
      | Inr (Inl (o1, o2)) \<Rightarrow> 2 * (obj_weight o1 + obj_weight o2)
      | Inr (Inr (xs, ys)) \<Rightarrow> 2 * (sum_list (map obj_weight xs) + length xs + sum_list (map obj_weight ys) + length ys) + 1)")
    auto

declare mp_obj_equal.simps [simp del]

text \<open>What equality compares: numbers by value, strings, bytes and tuples by contents.\<close>

datatype key_value = CNum int | CStr "byte list" | CBytes "byte list" | CTuple "key_value list"

fun canon :: "mp_obj \<Rightarrow> key_value" where
  "canon (SmallInt v) = CNum v"
| "canon (Bool b) = CNum (of_bool b)"
| "canon (QstrObj d) = CStr d"
| "canon (StrObj _ d _) = CStr d"
| "canon (BytesObj _ d _) = CBytes d"
| "canon (TupleObj _ xs) = CTuple (map canon xs)"

lemma str_equal_canon:
  "mp_obj_is_str o1 \<Longrightarrow> mp_obj_is_str o2 \<Longrightarrow> mp_obj_str_equal o1 o2 \<longleftrightarrow> canon o1 = canon o2"
  by (cases o1; cases o2) (auto simp: mp_obj_is_str_def mp_obj_str_equal_def Let_def)

lemma equal_canon:
  "mp_obj_equal o1 o2 \<longleftrightarrow> canon o1 = canon o2"
  "type_equal o1 o2 = Some r \<Longrightarrow> r \<longleftrightarrow> canon o1 = canon o2"
  "length xs = length ys \<Longrightarrow> seq_equal xs ys \<longleftrightarrow> map canon xs = map canon ys"
proof (induction o1 o2 and o1 o2 and xs ys arbitrary: and r and rule: mp_obj_equal_type_equal_seq_equal.induct)
  case (1 o1 o2)
  show ?case
  proof (cases "o1 = o2 \<or> mp_obj_is_str o1 \<and> mp_obj_is_str o2 \<or> mp_obj_is_small_int o1 \<and> mp_obj_is_small_int o2")
    case True
    have ints: "canon o1 = canon o2 \<longleftrightarrow> o1 = o2" if "mp_obj_is_small_int o1" "mp_obj_is_small_int o2"
      using that by (cases o1; cases o2) auto
    show ?thesis unfolding mp_obj_equal.simps [of o1 o2] using True str_equal_canon [of o1 o2] ints by auto
  next
    case False
    have none: "canon o1 \<noteq> canon o2" if "type_equal o1 o2 = None" "type_equal o2 o1 = None"
      using that False by (cases o1; cases o2) (auto simp: mp_obj_is_str_def)
    have none': "canon o1 \<noteq> canon o2" if "type_equal o2 o1 = None" "mp_obj_is_str o1 \<or> mp_obj_is_small_int o1"
      using that False by (cases o1; cases o2) (auto simp: mp_obj_is_str_def)
    show ?thesis
      using 1 False none none' by (auto simp: mp_obj_equal.simps [of o1 o2] split: option.splits)
  qed
qed (auto split: if_splits dest: map_eq_imp_length_eq)

subsection \<open>Hash\<close>

text \<open>A value stored in a small integer object: 31 bits, sign-extended when read.\<close>

definition small_int_of :: "int \<Rightarrow> int" where
  "small_int_of v = (v + 2 ^ 30) mod 2 ^ 31 - 2 ^ 30"

text \<open>
  \<^verbatim>\<open>mp_unary_op(MP_UNARY_OP_HASH, o)\<close>. \<open>empty_tuple\<close> is the address of
  \<^verbatim>\<open>mp_const_empty_tuple\<close>, the start value of a tuple's hash.
\<close>

fun mp_obj_hash :: "int \<Rightarrow> mp_obj \<Rightarrow> int" and tuple_hash :: "int \<Rightarrow> int \<Rightarrow> mp_obj list \<Rightarrow> int" where
  "mp_obj_hash empty_tuple (SmallInt v) = v"
| "mp_obj_hash empty_tuple (Bool b) = of_bool b"
| "mp_obj_hash empty_tuple (TupleObj _ xs) = small_int_of (tuple_hash empty_tuple (int32_of empty_tuple) xs)"
| "mp_obj_hash empty_tuple x =
     (let h = get_str_hash x in int (if h = 0 then qstr_compute_hash (get_str_data x) else h))"
| "tuple_hash empty_tuple hash [] = hash"
| "tuple_hash empty_tuple hash (x # xs) = tuple_hash empty_tuple (int32_of (hash + mp_obj_hash empty_tuple x)) xs"

text \<open>The hash of what equality compares.\<close>

fun value_hash :: "int \<Rightarrow> key_value \<Rightarrow> int" and values_hash :: "int \<Rightarrow> int \<Rightarrow> key_value list \<Rightarrow> int" where
  "value_hash e (CNum v) = v"
| "value_hash e (CStr d) = int (qstr_compute_hash d)"
| "value_hash e (CBytes d) = int (qstr_compute_hash d)"
| "value_hash e (CTuple vs) = small_int_of (values_hash e (int32_of e) vs)"
| "values_hash e h [] = h"
| "values_hash e h (v # vs) = values_hash e (int32_of (h + value_hash e v)) vs"

lemma hash_value:
  "mp_obj_hash e x = value_hash e (canon x)"
  "tuple_hash e h xs = values_hash e h (map canon xs)"
  by (induction e x and e h xs rule: mp_obj_hash_tuple_hash.induct) (auto simp: Let_def)

lemma hash_canon: "canon x = canon y \<Longrightarrow> mp_obj_hash e x = mp_obj_hash e y"
  by (simp add: hash_value)

subsection \<open>Objects as keys\<close>

definition mp_ops :: "int \<Rightarrow> (nat \<Rightarrow> bool) \<Rightarrow> mp_obj obj_ops" where
  "mp_ops empty_tuple alloc =
     \<lparr>obj_equal = mp_obj_equal, obj_hash = (\<lambda>x. nat (mp_obj_hash empty_tuple x mod 2 ^ 32)),
      obj_is_qstr = mp_obj_is_qstr, obj_is_str = mp_obj_is_heap_str, can_new = alloc\<rparr>"

lemma mp_ops_simps [simp]:
  "obj_equal (mp_ops e al) = mp_obj_equal" "obj_is_qstr (mp_ops e al) = mp_obj_is_qstr"
  "obj_is_str (mp_ops e al) = mp_obj_is_heap_str" "can_new (mp_ops e al) = al"
  by (simp_all add: mp_ops_def)

interpretation objs: hashable "mp_ops e al" for e al
proof unfold_locales
  fix x y z :: mp_obj
  show "obj_equal (mp_ops e al) x x" by (simp add: equal_canon)
  show "obj_equal (mp_ops e al) x y \<Longrightarrow> obj_equal (mp_ops e al) y x" by (simp add: equal_canon)
  show "obj_equal (mp_ops e al) x y \<Longrightarrow> obj_equal (mp_ops e al) y z \<Longrightarrow> obj_equal (mp_ops e al) x z"
    by (simp add: equal_canon)
  show "obj_equal (mp_ops e al) x y \<Longrightarrow> obj_hash (mp_ops e al) x = obj_hash (mp_ops e al) y"
    using hash_canon [of x y e] by (simp add: equal_canon mp_ops_def)
  show "obj_is_qstr (mp_ops e al) x \<Longrightarrow> obj_is_qstr (mp_ops e al) y \<Longrightarrow> obj_equal (mp_ops e al) x y \<Longrightarrow> x = y"
    by (cases x; cases y) (simp_all add: equal_canon)
  show "obj_is_qstr (mp_ops e al) x \<Longrightarrow> obj_equal (mp_ops e al) x y \<Longrightarrow>
      obj_is_qstr (mp_ops e al) y \<or> obj_is_str (mp_ops e al) y"
    by (cases x; cases y) (simp_all add: equal_canon)
qed

subsection \<open>Theorems\<close>

text \<open>
  C12. Equality of the interpreter's keys is an equivalence that the hash respects, across types:
  \<^verbatim>\<open>True\<close> and \<^verbatim>\<open>1\<close>, a heap string and the qstr of the same text, tuples of equal items.
\<close>

theorem equal_objects_same_hash:
  shows "mp_obj_equal x x \<and> (mp_obj_equal x y \<longleftrightarrow> mp_obj_equal y x) \<and>
    (mp_obj_equal x y \<longrightarrow> mp_obj_equal y z \<longrightarrow> mp_obj_equal x z) \<and>
    (mp_obj_equal x y \<longrightarrow> mp_obj_hash e x = mp_obj_hash e y)"
  using hash_canon [of x y e] by (auto simp: equal_canon)

theorem equal_objects_same_hash_witness:
  "mp_obj_equal (TupleObj 64 [Bool True, QstrObj [97]]) (TupleObj 80 [SmallInt 1, StrObj 96 [97] False]) \<and>
   mp_obj_hash 4096 (TupleObj 64 [Bool True, QstrObj [97]]) = mp_obj_hash 4096 (TupleObj 80 [SmallInt 1, StrObj 96 [97] False])"
  using equal_objects_same_hash
    [of "TupleObj 64 [Bool True, QstrObj [97]]" "TupleObj 80 [SmallInt 1, StrObj 96 [97] False]" _ 4096]
  by (simp add: equal_canon)

text \<open>
  C13. \<^verbatim>\<open>mp_map_lookup\<close> with \<^verbatim>\<open>MP_MAP_LOOKUP\<close> finds the slot of an equal key exactly when the
  map has one, and never changes the map; with \<^verbatim>\<open>MP_MAP_LOOKUP_REMOVE_IF_FOUND\<close> it takes exactly
  that entry out.
\<close>

theorem map_lookup_exact:
  assumes inv: "map_inv (mp_ops e al) m" and d: "0 < d"
  shows "(\<exists>r. mp_map_lookup d (mp_ops e al) x LOOKUP m = Some (Inr r, m) \<and>
      (case r of
         None \<Rightarrow> (\<nexists>v. map_entry (mp_ops e al) m x v)
       | Some p \<Rightarrow> p < m_alloc m \<and> map_entry (mp_ops e al) m x (m_values m ! p))) \<and>
    (\<exists>r m'. mp_map_lookup d (mp_ops e al) x REMOVE_IF_FOUND m = Some (Inr r, m') \<and>
      map_inv (mp_ops e al) m' \<and>
      (\<forall>y v. map_entry (mp_ops e al) m' y v \<longleftrightarrow> \<not> mp_obj_equal x y \<and> map_entry (mp_ops e al) m y v))"
proof -
  let ?ops = "mp_ops e al"
  obtain n where n: "d = Suc n" using d gr0_conv_Suc by blast
  have len: "length (m_keys m) = m_alloc m" using inv by (simp add: map_inv_def)
  note look = mp_map_lookup_def [of d ?ops, unfolded n]
  show ?thesis
  proof (cases "\<exists>v. map_entry ?ops m x v")
    case True
    then obtain p k where p: "p < m_alloc m" "m_keys m ! p = Key k" "obj_equal ?ops k x" by (auto simp: map_entry_def)
    have "map_entry ?ops m x (m_values m ! p)" using p by (auto simp: map_entry_def)
    then show ?thesis
      using objs.lookup_found [OF inv p] objs.remove_inv [OF inv p] p by (simp add: look n)
  next
    case False
    then have miss: "\<And>k. k \<in> keys_of (m_keys m) \<Longrightarrow> \<not> obj_equal ?ops k x"
      using objs.missing_iff [OF len] by blast
    have "\<not> map_entry ?ops m y v" if "mp_obj_equal x y" for y v
    proof
      assume "map_entry ?ops m y v"
      then have "map_entry ?ops m x v" using that unfolding map_entry_def by (auto simp: equal_canon)
      then show False using False by blast
    qed
    then show ?thesis
      using objs.lookup_missing [OF inv miss] inv False by (auto simp: look n)
  qed
qed

definition empty_map :: "(mp_obj, nat) mp_map" where
  "empty_map = \<lparr>m_alloc = 2, m_used = 0, all_keys_are_qstrs = True, is_fixed = False, is_ordered = False,
     m_keys = [Null, Null], m_values = [None, None]\<rparr>"

definition full_map :: "(mp_obj, nat) mp_map" where
  "full_map = \<lparr>m_alloc = 2, m_used = 2, all_keys_are_qstrs = False, is_fixed = False, is_ordered = False,
     m_keys = [Key (SmallInt 4), Key (SmallInt 5)], m_values = [Some 40, Some 50]\<rparr>"

lemma empty_map_inv: "map_inv (mp_ops e al) empty_map"
  by (simp add: map_inv_def empty_map_def count_keys_def table_inv_def keys_of_def less_Suc_eq numeral_2_eq_2)

lemma full_map_inv: "map_inv (mp_ops e al) full_map"
  by (auto simp: map_inv_def full_map_def count_keys_def table_inv_def keys_of_def less_Suc_eq numeral_2_eq_2
      clear_path_def mp_ops_def equal_canon intro!: exI [of _ 0])
    (simp_all flip: numeral_2_eq_2)

theorem map_lookup_exact_witness:
  "map_inv (mp_ops 4096 (\<lambda>_. True)) full_map \<and>
   (\<exists>r. mp_map_lookup 2 (mp_ops 4096 (\<lambda>_. True)) (SmallInt 5) LOOKUP full_map = Some (Inr r, full_map) \<and> r \<noteq> None)"
proof -
  have "map_entry (mp_ops 4096 (\<lambda>_. True)) full_map (SmallInt 5) (Some 50)"
    by (auto simp: map_entry_def full_map_def equal_canon intro!: exI [of _ 1])
  then show ?thesis
    using map_lookup_exact [OF full_map_inv, where d = 2 and x = "SmallInt 5" and e = 4096 and al = "\<lambda>_. True"]
      full_map_inv [of 4096 "\<lambda>_. True"]
    by (auto split: option.splits)
qed

text \<open>
  C14. Storing through \<^verbatim>\<open>MP_MAP_LOOKUP_ADD_IF_NOT_FOUND\<close> (what \<^verbatim>\<open>mp_obj_dict_store\<close> does) always
  returns when memory suffices, growing the table where needed, and is the update of the dictionary
  at that key: every other key keeps its value.
\<close>

theorem map_store_updates:
  fixes m :: "(mp_obj, 'v) mp_map"
  assumes inv: "map_inv (mp_ops e al) m" and mem: "\<And>n. al n" and d: "2 \<le> d"
  shows "\<exists>p m'. mp_map_lookup d (mp_ops e al) x ADD_IF_NOT_FOUND m = Some (Inr (Some p), m') \<and>
    map_inv (mp_ops e al) (map_set_value p (Some v) m') \<and>
    (\<forall>y w. map_entry (mp_ops e al) (map_set_value p (Some v) m') y w \<longleftrightarrow>
       (if mp_obj_equal x y then w = Some v else map_entry (mp_ops e al) m y w))"
proof -
  let ?ops = "mp_ops e al"
  have new: "can_new ?ops n" for n using mem by simp
  obtain p m' k where a: "mp_map_lookup d ?ops x ADD_IF_NOT_FOUND m = Some (Inr (Some p), m')" "map_inv ?ops m'"
    "p < m_alloc m'" "m_keys m' ! p = Key k" "obj_equal ?ops k x"
    "\<And>y w. map_entry ?ops m' y w \<longleftrightarrow>
       (if obj_equal ?ops x y \<and> (\<nexists>u. map_entry ?ops m x u) then w = None else map_entry ?ops m y w)"
    using objs.lookup_add [OF inv new d, of x] by blast
  have "map_entry ?ops (map_set_value p (Some v) m') y w \<longleftrightarrow>
      (if mp_obj_equal x y then w = Some v else map_entry ?ops m y w)" for y w
    using objs.set_value_entry [OF a(2-5)] a(6) by simp
  then show ?thesis using a(1) objs.set_value_inv [OF a(2)] by blast
qed

theorem map_store_updates_witness:
  "map_inv (mp_ops 4096 (\<lambda>_. True)) full_map \<and>
   (\<exists>p m'. mp_map_lookup 2 (mp_ops 4096 (\<lambda>_. True)) (QstrObj [97]) ADD_IF_NOT_FOUND full_map = Some (Inr (Some p), m') \<and>
      map_entry (mp_ops 4096 (\<lambda>_. True)) (map_set_value p (Some 7) m') (QstrObj [97]) (Some 7))"
proof -
  from map_store_updates [OF full_map_inv, where al = "\<lambda>_. True" and d = 2 and e = 4096 and x = "QstrObj [97]" and v = 7]
  show ?thesis using full_map_inv [of 4096 "\<lambda>_. True"] by (auto simp: equal_canon)
qed

text \<open>
  When the larger table cannot be allocated, adding a key to a full map raises
  \<^verbatim>\<open>MemoryError\<close> and leaves the map untouched.
\<close>

lemma map_add_out_of_memory:
  fixes m :: "(mp_obj, 'v) mp_map"
  assumes inv: "map_inv (mp_ops e al) m" and full: "m_used m = m_alloc m" and d: "0 < d"
    and absent: "\<nexists>v. map_entry (mp_ops e al) m x v"
    and mem: "\<not> al (get_hash_alloc_greater_or_equal_to (m_alloc m + 1))"
  shows "mp_map_lookup d (mp_ops e al) x ADD_IF_NOT_FOUND m = Some (Inl MemoryError, m)"
proof -
  let ?ops = "mp_ops e al"
  obtain n where n: "d = Suc n" using d gr0_conv_Suc by blast
  have len: "length (m_keys m) = m_alloc m" and cnt: "count_keys (m_keys m) = length (m_keys m)"
    using inv full by (simp_all add: map_inv_def)
  have miss: "\<not> obj_equal ?ops k x" if "k \<in> keys_of (m_keys m)" for k
    using objs.missing_iff [OF len] absent that by blast
  have rehash: "mp_map_rehash d ?ops m = Some (Inl MemoryError, m)" using mem by (simp add: n map_new_table_def Let_def)
  have ne: "\<not> (k = x \<or> \<not> cop \<and> obj_equal ?ops k x)" if "k \<in> keys_of (m_keys m)" for k cop
    using miss [OF that] objs.eq_refl [of e al x] by blast
  have "map_search ?ops (mp_map_rehash d ?ops) d cop (obj_hash ?ops x) x ADD_IF_NOT_FOUND m = Some (Inl MemoryError, m)"
    if a: "0 < m_alloc m" for cop
  proof -
    have "\<exists>k. m_keys m ! p = Key k \<and> \<not> (k = x \<or> \<not> cop \<and> obj_equal ?ops k x)" if "p < length (m_keys m)" for p
      using count_keys_all [OF cnt that] ne keys_of_nth [OF that] by metis
    then have "probe (\<lambda>k. k = x \<or> \<not> cop \<and> obj_equal ?ops k x) (m_keys m) (obj_hash ?ops x mod m_alloc m) None (m_alloc m) = Wrapped None"
      using a len by (intro probe_full) (simp_all add: mod_less_divisor)
    then show ?thesis using rehash n by (subst n, subst map_search.simps(2)) (simp del: map_search.simps mp_map_rehash.simps)
  qed
  then show ?thesis
    by (rule_tac objs.lookup_with_search [OF inv, of x ADD_IF_NOT_FOUND])
      (simp_all add: mp_map_lookup_def rehash del: mp_map_rehash.simps map_search.simps)
qed

text \<open>
  C16. \<^verbatim>\<open>mp_set_lookup\<close>: membership after the call, for every lookup kind. A present object is
  found, and removed by the removing kinds; an absent one is added by the adding kinds (the
  table growing where needed) and otherwise reported absent with the set unchanged. The toggling
  kind \<^verbatim>\<open>ADD_IF_NOT_FOUND_OR_REMOVE_IF_FOUND\<close> is both.
\<close>

theorem set_lookup_exact:
  assumes inv: "set_inv (mp_ops e al) s" and mem: "\<And>n. al n" and d: "2 \<le> d"
  shows "\<exists>r s'. mp_set_lookup d (mp_ops e al) x kind s = Some (Inr r, s') \<and> set_inv (mp_ops e al) s' \<and>
    (r \<noteq> None \<longleftrightarrow> set_member (mp_ops e al) s x \<or> kind_adds kind) \<and>
    (\<forall>y. set_member (mp_ops e al) s' y \<longleftrightarrow>
       (if \<not> mp_obj_equal x y then set_member (mp_ops e al) s y
        else if set_member (mp_ops e al) s x then \<not> kind_removes kind
        else kind_adds kind))"
proof -
  let ?ops = "mp_ops e al"
  have new: "can_new ?ops n" for n using mem by simp
  have d0: "0 < d" using d by simp
  have eqv: "set_member ?ops s y \<longleftrightarrow> set_member ?ops s x" if "mp_obj_equal x y" for y
    using that by (simp add: set_member_def equal_canon)
  show ?thesis
  proof (cases "set_member ?ops s x")
    case True
    obtain k s' where "mp_set_lookup d ?ops x kind s = Some (Inr (Some k), s')" "set_inv ?ops s'"
      "\<And>y. set_member ?ops s' y \<longleftrightarrow> set_member ?ops s y \<and> \<not> (kind_removes kind \<and> mp_obj_equal x y)"
      using objs.set_lookup_member [OF inv True d0, of kind] by auto
    then show ?thesis using True eqv by auto
  next
    case False
    show ?thesis
    proof (cases "kind_adds kind")
      case True
      obtain s' where "mp_set_lookup d ?ops x kind s = Some (Inr (Some x), s')" "set_inv ?ops s'"
        "\<And>y. set_member ?ops s' y \<longleftrightarrow> mp_obj_equal x y \<or> set_member ?ops s y"
        using objs.set_lookup_adds [OF inv False True new d] by auto
      then show ?thesis using True False by auto
    next
      case no: False
      then show ?thesis using objs.set_lookup_absent [OF inv False no d0] inv False eqv by auto
    qed
  qed
qed

definition full_set :: "mp_obj mp_set" where
  "full_set = \<lparr>s_alloc = 2, s_used = 2, s_table = [Key (SmallInt 4), Key (SmallInt 5)]\<rparr>"

lemma full_set_inv: "set_inv (mp_ops e al) full_set"
  using full_map_inv [of e al] by (simp add: set_inv_def full_set_def map_inv_def full_map_def)

theorem set_lookup_exact_witness:
  "set_inv (mp_ops 4096 (\<lambda>_. True)) full_set \<and>
   (\<exists>r s'. mp_set_lookup 2 (mp_ops 4096 (\<lambda>_. True)) (SmallInt 6) ADD_IF_NOT_FOUND full_set = Some (Inr r, s') \<and>
      set_member (mp_ops 4096 (\<lambda>_. True)) s' (SmallInt 6) \<and> set_member (mp_ops 4096 (\<lambda>_. True)) s' (SmallInt 4))"
proof -
  have "set_member (mp_ops 4096 (\<lambda>_. True)) full_set (SmallInt 4)"
    by (auto simp: set_member_def full_set_def keys_of_def equal_canon)
  then show ?thesis
    using set_lookup_exact [OF full_set_inv, where e = 4096 and al = "\<lambda>_. True" and d = 2 and x = "SmallInt 6" and kind = ADD_IF_NOT_FOUND]
      full_set_inv [of 4096 "\<lambda>_. True"]
    by (auto simp: equal_canon split: if_splits)
qed

text \<open>
  Unlike the map, a set that cannot be grown is left broken: \<^verbatim>\<open>mp_set_rehash\<close> has already
  stored the new \<^verbatim>\<open>alloc\<close> and \<^verbatim>\<open>used\<close> when \<^verbatim>\<open>m_new0\<close> raises \<^verbatim>\<open>MemoryError\<close>.
\<close>

lemma set_grow_out_of_memory:
  assumes inv: "set_inv (mp_ops e al) s" and full: "s_used s = s_alloc s" and d: "0 < d"
    and absent: "\<not> set_member (mp_ops e al) s x" and kind: "kind_adds kind"
    and mem: "\<not> al (get_hash_alloc_greater_or_equal_to (s_alloc s + 1))"
  shows "\<exists>s'. mp_set_lookup d (mp_ops e al) x kind s = Some (Inl MemoryError, s') \<and>
    length (s_table s') < s_alloc s' \<and> s_used s' = 0 \<and> s_table s' = s_table s"
proof -
  let ?ops = "mp_ops e al"
  let ?s' = "s\<lparr>s_alloc := get_hash_alloc_greater_or_equal_to (s_alloc s + 1), s_used := 0\<rparr>"
  obtain n where n: "d = Suc n" using d gr0_conv_Suc by blast
  have len: "length (s_table s) = s_alloc s" and cnt: "count_keys (s_table s) = length (s_table s)"
    using inv full by (simp_all add: set_inv_def)
  have rehash: "mp_set_rehash d ?ops s = Some (Inl MemoryError, ?s')" using mem by (simp add: n Let_def)
  have "set_search ?ops (mp_set_rehash d ?ops) d (obj_hash ?ops x) x kind s = Some (Inl MemoryError, ?s')"
    if a: "0 < s_alloc s"
  proof -
    have "\<exists>k. s_table s ! p = Key k \<and> \<not> obj_equal ?ops k x" if "p < length (s_table s)" for p
      using count_keys_all [OF cnt that] absent keys_of_nth [OF that] unfolding set_member_def by metis
    then have "probe (\<lambda>k. obj_equal ?ops k x) (s_table s) (obj_hash ?ops x mod s_alloc s) None (s_alloc s) = Wrapped None"
      using a len by (intro probe_full) (simp_all add: mod_less_divisor)
    then show ?thesis
      using rehash kind n by (subst n, subst set_search.simps(2)) (simp del: set_search.simps mp_set_rehash.simps)
  qed
  then have "mp_set_lookup d ?ops x kind s = Some (Inl MemoryError, ?s')"
    using kind rehash by (cases "s_alloc s = 0")
      (simp_all add: mp_set_lookup_def set_lookup_with_def del: set_search.simps mp_set_rehash.simps)
  moreover have "s_alloc s < get_hash_alloc_greater_or_equal_to (s_alloc s + 1)"
    using get_hash_alloc_ge [of "s_alloc s + 1"] by simp
  ultimately show ?thesis using len by simp
qed

text \<open>
  C17. What a full table is when the larger one cannot be allocated. Adding a key to a map raises \<^verbatim>\<open>MemoryError\<close> and
  leaves the map untouched. Adding an object to a set raises \<^verbatim>\<open>MemoryError\<close> too, but \<^verbatim>\<open>mp_set_rehash\<close> has already
  stored the new \<^verbatim>\<open>alloc\<close> and \<^verbatim>\<open>used\<close>, so that \<^verbatim>\<open>alloc\<close> exceeds the table and \<^verbatim>\<open>used\<close> is 0.
\<close>

theorem set_add_out_of_memory:
  fixes m :: "(mp_obj, 'v) mp_map"
  assumes "map_inv (mp_ops e al) m" and "m_used m = m_alloc m" and "\<nexists>v. map_entry (mp_ops e al) m y v"
    and "\<not> al (get_hash_alloc_greater_or_equal_to (m_alloc m + 1))"
    and "set_inv (mp_ops e al) s" and "s_used s = s_alloc s" and "\<not> set_member (mp_ops e al) s x" and "kind_adds kind"
    and "\<not> al (get_hash_alloc_greater_or_equal_to (s_alloc s + 1))" and d: "0 < d"
  shows "mp_map_lookup d (mp_ops e al) y ADD_IF_NOT_FOUND m = Some (Inl MemoryError, m) \<and>
    (\<exists>s'. mp_set_lookup d (mp_ops e al) x kind s = Some (Inl MemoryError, s') \<and>
      length (s_table s') < s_alloc s' \<and> s_used s' = 0 \<and> s_table s' = s_table s)"
  using map_add_out_of_memory [OF assms(1,2) d assms(3,4)] set_grow_out_of_memory [OF assms(5,6) d assms(7-9)] by simp

theorem set_add_out_of_memory_witness:
  "map_inv (mp_ops 4096 (\<lambda>_. False)) full_map \<and> set_inv (mp_ops 4096 (\<lambda>_. False)) full_set \<and>
   mp_map_lookup 2 (mp_ops 4096 (\<lambda>_. False)) (SmallInt 6) ADD_IF_NOT_FOUND full_map = Some (Inl MemoryError, full_map) \<and>
   (\<exists>s'. mp_set_lookup 2 (mp_ops 4096 (\<lambda>_. False)) (SmallInt 6) ADD_IF_NOT_FOUND full_set = Some (Inl MemoryError, s') \<and>
      length (s_table s') < s_alloc s')"
proof -
  have "\<nexists>v. map_entry (mp_ops 4096 (\<lambda>_. False)) full_map (SmallInt 6) v"
    by (subst objs.missing_iff [symmetric])
      (auto simp: full_map_def keys_of_def equal_canon)
  moreover have "\<not> set_member (mp_ops 4096 (\<lambda>_. False)) full_set (SmallInt 6)"
    by (auto simp: set_member_def full_set_def keys_of_def equal_canon)
  ultimately show ?thesis
    using set_add_out_of_memory [where m = full_map and s = full_set and e = 4096 and al = "\<lambda>_. False" and d = 2
        and x = "SmallInt 6" and y = "SmallInt 6" and kind = ADD_IF_NOT_FOUND]
      full_set_inv [of 4096 "\<lambda>_. False"] full_map_inv [of 4096 "\<lambda>_. False"]
    by (auto simp: full_set_def full_map_def)
qed

end
