(* ===== verification/Vstr.thy ===== *)
theory Vstr
  imports Prelude
begin

text \<open>
  The growable strings of \<^verbatim>\<open>py/vstr.c\<close>: a buffer of \<^verbatim>\<open>alloc\<close> bytes of which the first
  \<^verbatim>\<open>len\<close> are in use, owned by the heap or fixed. The model keeps the buffer itself; the
  theorems show that every operation implements the obvious list operation on the bytes in use, and
  raises exactly where there is no room and no way to make some.

  Memory comes from the allocator through \<^verbatim>\<open>m_renew\<close>. A client of it sees an argument
  \<open>rn\<close>: \<open>rn xs n\<close> is the buffer \<open>xs\<close> resized to \<open>n\<close> bytes, or \<open>None\<close> when the allocator
  has no memory. The locale \<open>renewer\<close> states what the allocator promises of it.
\<close>

subsection \<open>The allocator seen by a buffer\<close>

text \<open>
  \<^verbatim>\<open>m_renew\<close> on a byte buffer: \<open>al n = None\<close> when the allocator cannot deliver \<open>n\<close>
  bytes, and otherwise \<open>Some f\<close> with the bytes \<open>f\<close> it leaves in the part that was added.
\<close>

type_synonym allocator = "nat \<Rightarrow> (nat \<Rightarrow> byte) option"

definition m_renew :: "allocator \<Rightarrow> byte list \<Rightarrow> nat \<Rightarrow> byte list option" where
  "m_renew al xs n =
    map_option (\<lambda>f. map (\<lambda>i. if i < length xs then xs ! i else f i) [0..<n]) (al n)"

locale renewer =
  fixes rn :: "byte list \<Rightarrow> nat \<Rightarrow> byte list option"
  assumes renew_length: "rn xs n = Some ys \<Longrightarrow> length ys = n"
    and renew_keeps: "rn xs n = Some ys \<Longrightarrow> length xs \<le> n \<Longrightarrow> take (length xs) ys = xs"

interpretation mren: renewer "m_renew al" for al
proof
  show "length ys = n" if "m_renew al xs n = Some ys" for xs n ys
    using that by (auto simp: m_renew_def)
  show "take (length xs) ys = xs" if "m_renew al xs n = Some ys" "length xs \<le> n" for xs n ys
    using that by (auto simp: m_renew_def intro!: nth_equalityI)
qed

subsection \<open>The state\<close>

text \<open>A \<^verbatim>\<open>NULL\<close> buffer (after \<^verbatim>\<open>vstr_clear\<close>) is the empty list.\<close>

record vstr =
  vs_alloc :: nat
  vs_len :: nat
  vs_buf :: "byte list"
  vs_fixed :: bool

definition ROUND_ALLOC :: "nat \<Rightarrow> nat" where
  "ROUND_ALLOC a = wrap32 (8 * (a div 8) + 8)"

definition vstr_init :: "(byte list \<Rightarrow> nat \<Rightarrow> byte list option) \<Rightarrow> nat \<Rightarrow> vstr result" where
  "vstr_init rn alloc =
    (let alloc = (if alloc < 1 then 1 else alloc) in
     case rn [] alloc of
       None \<Rightarrow> Inl MemoryError
     | Some b \<Rightarrow> Inr \<lparr>vs_alloc = alloc, vs_len = 0, vs_buf = b, vs_fixed = False\<rparr>)"

definition vstr_init_len :: "(byte list \<Rightarrow> nat \<Rightarrow> byte list option) \<Rightarrow> nat \<Rightarrow> vstr result" where
  "vstr_init_len rn len =
    (case vstr_init rn (wrap32 (len + 1)) of
       Inl e \<Rightarrow> Inl e
     | Inr v \<Rightarrow> Inr (v\<lparr>vs_len := len\<rparr>))"

definition vstr_init_fixed_buf :: "nat \<Rightarrow> byte list \<Rightarrow> vstr" where
  "vstr_init_fixed_buf alloc buf = \<lparr>vs_alloc = alloc, vs_len = 0, vs_buf = buf, vs_fixed = True\<rparr>"

definition vstr_clear :: "vstr \<Rightarrow> vstr" where
  "vstr_clear v = v\<lparr>vs_buf := []\<rparr>"

text \<open>\<^verbatim>\<open>vstr_new\<close> allocates the structure itself (16 bytes) first.\<close>

definition vstr_new :: "(byte list \<Rightarrow> nat \<Rightarrow> byte list option) \<Rightarrow> nat \<Rightarrow> vstr result" where
  "vstr_new rn alloc = (case rn [] 16 of None \<Rightarrow> Inl MemoryError | Some _ \<Rightarrow> vstr_init rn alloc)"

definition vstr_reset :: "vstr \<Rightarrow> vstr" where
  "vstr_reset v = v\<lparr>vs_len := 0\<rparr>"

subsection \<open>Growing\<close>

text \<open>\<^verbatim>\<open>vstr_extend\<close> also returns the offset of the new chunk.\<close>

definition vstr_extend ::
  "(byte list \<Rightarrow> nat \<Rightarrow> byte list option) \<Rightarrow> nat \<Rightarrow> vstr \<Rightarrow> (nat \<times> vstr) result" where
  "vstr_extend rn sz v =
    (if vs_fixed v then Inl RuntimeError
     else case rn (vs_buf v) (wrap32 (vs_alloc v + sz)) of
       None \<Rightarrow> Inl MemoryError
     | Some b \<Rightarrow> Inr (vs_alloc v, v\<lparr>vs_alloc := wrap32 (vs_alloc v + sz), vs_buf := b\<rparr>))"

definition vstr_ensure_extra ::
  "(byte list \<Rightarrow> nat \<Rightarrow> byte list option) \<Rightarrow> nat \<Rightarrow> vstr \<Rightarrow> vstr result" where
  "vstr_ensure_extra rn sz v =
    (if wrap32 (vs_len v + sz) > vs_alloc v then
       if vs_fixed v then Inl RuntimeError
       else (let new_alloc = ROUND_ALLOC (wrap32 (wrap32 (vs_len v + sz) + 16)) in
         case rn (vs_buf v) new_alloc of
           None \<Rightarrow> Inl MemoryError
         | Some b \<Rightarrow> Inr (v\<lparr>vs_alloc := new_alloc, vs_buf := b\<rparr>))
     else Inr v)"

definition vstr_hint_size ::
  "(byte list \<Rightarrow> nat \<Rightarrow> byte list option) \<Rightarrow> nat \<Rightarrow> vstr \<Rightarrow> vstr result" where
  "vstr_hint_size rn sz v = vstr_ensure_extra rn sz v"

definition vstr_add_len ::
  "(byte list \<Rightarrow> nat \<Rightarrow> byte list option) \<Rightarrow> nat \<Rightarrow> vstr \<Rightarrow> (nat \<times> vstr) result" where
  "vstr_add_len rn len v =
    (case vstr_ensure_extra rn len v of
       Inl e \<Rightarrow> Inl e
     | Inr v' \<Rightarrow> Inr (vs_len v', v'\<lparr>vs_len := wrap32 (vs_len v' + len)\<rparr>))"

definition vstr_null_terminated_str ::
  "(byte list \<Rightarrow> nat \<Rightarrow> byte list option) \<Rightarrow> vstr \<Rightarrow> vstr result" where
  "vstr_null_terminated_str rn v =
    (case (if vs_alloc v = vs_len v then map_sum id snd (vstr_extend rn 1 v) else Inr v) of
       Inl e \<Rightarrow> Inl e
     | Inr v' \<Rightarrow> Inr (v'\<lparr>vs_buf := (vs_buf v')[vs_len v' := 0]\<rparr>))"

subsection \<open>Appending, inserting, cutting\<close>

definition vstr_add_byte ::
  "(byte list \<Rightarrow> nat \<Rightarrow> byte list option) \<Rightarrow> byte \<Rightarrow> vstr \<Rightarrow> vstr result" where
  "vstr_add_byte rn b v =
    (case vstr_add_len rn 1 v of
       Inl e \<Rightarrow> Inl e
     | Inr (p, v') \<Rightarrow> Inr (v'\<lparr>vs_buf := (vs_buf v')[p := b]\<rparr>))"

text \<open>Strings are bytes in this configuration: a character is stored as its low byte.\<close>

definition vstr_add_char ::
  "(byte list \<Rightarrow> nat \<Rightarrow> byte list option) \<Rightarrow> nat \<Rightarrow> vstr \<Rightarrow> vstr result" where
  "vstr_add_char rn c v = vstr_add_byte rn (word_of_nat c) v"

definition vstr_add_strn ::
  "(byte list \<Rightarrow> nat \<Rightarrow> byte list option) \<Rightarrow> byte list \<Rightarrow> vstr \<Rightarrow> vstr result" where
  "vstr_add_strn rn str v =
    (case vstr_ensure_extra rn (length str) v of
       Inl e \<Rightarrow> Inl e
     | Inr v' \<Rightarrow> Inr (v'\<lparr>vs_buf := overwrite (vs_buf v') (vs_len v') str,
                        vs_len := wrap32 (vs_len v' + length str)\<rparr>))"

text \<open>A C string is read up to its terminator.\<close>

definition c_str :: "byte list \<Rightarrow> byte list" where
  "c_str s = takeWhile (\<lambda>b. b \<noteq> 0) s"

text \<open>The bytes of a string literal of the C code.\<close>

definition lit :: "string \<Rightarrow> byte list" where "lit s = map of_char s"

definition vstr_add_str ::
  "(byte list \<Rightarrow> nat \<Rightarrow> byte list option) \<Rightarrow> byte list \<Rightarrow> vstr \<Rightarrow> vstr result" where
  "vstr_add_str rn str v = vstr_add_strn rn (c_str str) v"

definition vstr_ins_blank_bytes ::
  "(byte list \<Rightarrow> nat \<Rightarrow> byte list option) \<Rightarrow> nat \<Rightarrow> nat \<Rightarrow> vstr \<Rightarrow> (nat \<times> vstr) result" where
  "vstr_ins_blank_bytes rn byte_pos byte_len v =
    (let l = vs_len v; byte_pos = (if byte_pos > l then l else byte_pos) in
     if byte_len > 0 then
       case vstr_ensure_extra rn byte_len v of
         Inl e \<Rightarrow> Inl e
       | Inr v' \<Rightarrow> Inr (byte_pos,
           v'\<lparr>vs_buf := overwrite (vs_buf v') (byte_pos + byte_len) (subbuf byte_pos (l - byte_pos) (vs_buf v')),
             vs_len := wrap32 (vs_len v' + byte_len)\<rparr>)
     else Inr (byte_pos, v))"

definition vstr_ins_byte ::
  "(byte list \<Rightarrow> nat \<Rightarrow> byte list option) \<Rightarrow> nat \<Rightarrow> byte \<Rightarrow> vstr \<Rightarrow> vstr result" where
  "vstr_ins_byte rn byte_pos b v =
    (case vstr_ins_blank_bytes rn byte_pos 1 v of
       Inl e \<Rightarrow> Inl e
     | Inr (p, v') \<Rightarrow> Inr (v'\<lparr>vs_buf := (vs_buf v')[p := b]\<rparr>))"

definition vstr_ins_char ::
  "(byte list \<Rightarrow> nat \<Rightarrow> byte list option) \<Rightarrow> nat \<Rightarrow> nat \<Rightarrow> vstr \<Rightarrow> vstr result" where
  "vstr_ins_char rn char_pos chr v =
    (case vstr_ins_blank_bytes rn char_pos 1 v of
       Inl e \<Rightarrow> Inl e
     | Inr (p, v') \<Rightarrow> Inr (v'\<lparr>vs_buf := (vs_buf v')[p := word_of_nat chr]\<rparr>))"

definition vstr_cut_out_bytes :: "nat \<Rightarrow> nat \<Rightarrow> vstr \<Rightarrow> vstr" where
  "vstr_cut_out_bytes byte_pos bytes_to_cut v =
    (let rest = wrap32 (byte_pos + bytes_to_cut) in
     if byte_pos \<ge> vs_len v then v
     else if rest \<ge> vs_len v then v\<lparr>vs_len := byte_pos\<rparr>
     else v\<lparr>vs_buf := overwrite (vs_buf v) byte_pos (subbuf rest (vs_len v - rest) (vs_buf v)),
            vs_len := sub32 (vs_len v) bytes_to_cut\<rparr>)"

definition vstr_cut_head_bytes :: "nat \<Rightarrow> vstr \<Rightarrow> vstr" where
  "vstr_cut_head_bytes bytes_to_cut v = vstr_cut_out_bytes 0 bytes_to_cut v"

definition vstr_cut_tail_bytes :: "nat \<Rightarrow> vstr \<Rightarrow> vstr" where
  "vstr_cut_tail_bytes len v =
    (if len > vs_len v then v\<lparr>vs_len := 0\<rparr> else v\<lparr>vs_len := vs_len v - len\<rparr>)"

subsection \<open>Invariant and abstraction\<close>

text \<open>
  A string is well formed when its buffer has \<^verbatim>\<open>alloc\<close> bytes and the bytes in use fit. Its value
  is the list of bytes in use.
\<close>

definition vstr_wf :: "vstr \<Rightarrow> bool" where
  "vstr_wf v \<longleftrightarrow> vs_len v \<le> vs_alloc v \<and> length (vs_buf v) = vs_alloc v \<and> vs_alloc v < 2 ^ 32"

definition vstr_bytes :: "vstr \<Rightarrow> byte list" where
  "vstr_bytes v = take (vs_len v) (vs_buf v)"

text \<open>The exception raised when \<open>n\<close> more bytes are asked for, if any.\<close>

definition vstr_room ::
  "(byte list \<Rightarrow> nat \<Rightarrow> byte list option) \<Rightarrow> nat \<Rightarrow> vstr \<Rightarrow> mp_exc option" where
  "vstr_room rn n v =
    (if vs_len v + n \<le> vs_alloc v then None
     else if vs_fixed v then Some RuntimeError
     else if rn (vs_buf v) (8 * ((vs_len v + n + 16) div 8) + 8) = None then Some MemoryError
     else None)"

text \<open>What an operation that needs \<open>n\<close> more bytes has to do: raise or leave the bytes \<open>xs\<close>.\<close>

definition vstr_yields ::
  "(byte list \<Rightarrow> nat \<Rightarrow> byte list option) \<Rightarrow> nat \<Rightarrow> vstr \<Rightarrow> vstr result \<Rightarrow> byte list \<Rightarrow> bool" where
  "vstr_yields rn n v res xs \<longleftrightarrow>
    (case vstr_room rn n v of
       Some e \<Rightarrow> res = Inl e
     | None \<Rightarrow> (\<exists>v'. res = Inr v' \<and> vstr_wf v' \<and> vstr_bytes v' = xs \<and> vs_fixed v' = vs_fixed v))"

text \<open>The lengths at which none of the size computations wraps around.\<close>

definition vstr_small :: "nat \<Rightarrow> vstr \<Rightarrow> bool" where
  "vstr_small n v \<longleftrightarrow> vs_len v + n + 24 < 2 ^ 32"

lemma vstr_bytes_length [simp]: "vstr_wf v \<Longrightarrow> length (vstr_bytes v) = vs_len v"
  by (simp add: vstr_bytes_def vstr_wf_def)

lemma ROUND_ALLOC_small: "a + 8 < 2 ^ 32 \<Longrightarrow> ROUND_ALLOC a = 8 * (a div 8) + 8"
  unfolding ROUND_ALLOC_def by (rule wrap32_less) linarith

lemma ROUND_ALLOC_gt: "a + 8 < 2 ^ 32 \<Longrightarrow> a < ROUND_ALLOC a"
  by (simp add: ROUND_ALLOC_small)

context renewer
begin

lemma ensure_extra:
  assumes wf: "vstr_wf v" and sm: "vstr_small n v"
  shows "case vstr_room rn n v of
       Some e \<Rightarrow> vstr_ensure_extra rn n v = Inl e
     | None \<Rightarrow> (\<exists>v'. vstr_ensure_extra rn n v = Inr v' \<and> vstr_wf v' \<and> vs_len v' = vs_len v \<and>
         vs_len v + n \<le> vs_alloc v' \<and> vstr_bytes v' = vstr_bytes v \<and> vs_fixed v' = vs_fixed v)"
proof -
  let ?a = "8 * ((vs_len v + n + 16) div 8) + 8"
  have w: "wrap32 (vs_len v + n) = vs_len v + n" "wrap32 (vs_len v + n + 16) = vs_len v + n + 16"
    using sm by (simp_all add: vstr_small_def)
  have r: "ROUND_ALLOC (vs_len v + n + 16) = ?a"
    by (rule ROUND_ALLOC_small) (use sm in \<open>simp add: vstr_small_def\<close>)
  have big: "vs_len v + n + 16 < ?a" "?a \<le> vs_len v + n + 24" by linarith+
  have fits: "?a < 2 ^ 32" using sm big(2) unfolding vstr_small_def by linarith
  show ?thesis
  proof (cases "vs_len v + n \<le> vs_alloc v \<or> vs_fixed v \<or> rn (vs_buf v) ?a = None")
    case True
    then show ?thesis using wf w r by (auto simp: vstr_room_def vstr_ensure_extra_def)
  next
    case False
    then obtain b where b: "rn (vs_buf v) ?a = Some b" by auto
    have le: "length (vs_buf v) \<le> ?a" using wf False big(1) by (auto simp: vstr_wf_def)
    have t: "take (length (vs_buf v)) b = vs_buf v" by (rule renew_keeps [OF b le])
    have "take (vs_len v) b = take (vs_len v) (vs_buf v)"
      using wf arg_cong [OF t, of "take (vs_len v)"] by (simp add: vstr_wf_def min_def)
    moreover have "length b = ?a" by (rule renew_length [OF b])
    ultimately show ?thesis
      using False b w r big(1) fits by (auto simp: vstr_room_def vstr_ensure_extra_def vstr_wf_def vstr_bytes_def)
  qed
qed

lemma ensure_extra_cases [consumes 2, case_names raises room]:
  assumes "vstr_wf v" and "vstr_small n v"
  obtains e where "vstr_room rn n v = Some e" "vstr_ensure_extra rn n v = Inl e"
  | v' where "vstr_room rn n v = None" "vstr_ensure_extra rn n v = Inr v'" "vstr_wf v'" "vs_len v' = vs_len v"
      "vs_len v + n \<le> vs_alloc v'" "vstr_bytes v' = vstr_bytes v" "vs_fixed v' = vs_fixed v"
  using ensure_extra [OF assms] by (auto split: option.splits)

lemma add_strn_yields:
  assumes "vstr_wf v" and "vstr_small (length s) v"
  shows "vstr_yields rn (length s) v (vstr_add_strn rn s v) (vstr_bytes v @ s)"
  using assms
proof (cases rule: ensure_extra_cases)
  case (room v')
  then show ?thesis using assms
    by (auto simp: vstr_yields_def vstr_add_strn_def vstr_wf_def vstr_bytes_def vstr_small_def overwrite_def)
qed (simp add: vstr_yields_def vstr_add_strn_def)

lemma ins_byte_yields:
  assumes "vstr_wf v" and "vstr_small 1 v"
  shows "vstr_yields rn 1 v (vstr_ins_byte rn p b v)
    (take p (vstr_bytes v) @ [b] @ drop p (vstr_bytes v))"
  using assms
proof (cases rule: ensure_extra_cases)
  case (room v')
  let ?p = "min p (vs_len v)" and ?l = "vs_len v"
  let ?t = "subbuf ?p (?l - ?p) (vs_buf v')"
  have p: "(if ?l < p then ?l else p) = ?p" by (simp add: min_def)
  have len: "length (vs_buf v') = vs_alloc v'" using room(3) by (simp add: vstr_wf_def)
  have t: "length ?t = ?l - ?p" using len room(5) by (simp add: subbuf_def)
  have ow: "overwrite (vs_buf v') (Suc ?p) ?t =
      take (Suc ?p) (vs_buf v') @ ?t @ drop (Suc ?l) (vs_buf v')"
    using t by (simp add: overwrite_def)
  have up: "(take (Suc ?p) (vs_buf v') @ ?t @ drop (Suc ?l) (vs_buf v'))[?p := b] =
      take ?p (vs_buf v') @ b # ?t @ drop (Suc ?l) (vs_buf v')"
    using len room(5) by (simp add: list_update_append take_Suc_conv_app_nth)
  have tk: "take p (vstr_bytes v) = take ?p (vs_buf v')" "drop p (vstr_bytes v) = ?t"
    using room(6) [symmetric] room(4)
    by (auto simp: vstr_bytes_def subbuf_def min_def drop_take)
  have d: "Suc ?l - ?p = Suc (?l - ?p)" by (simp add: Suc_diff_le)
  show ?thesis using room assms(2) p ow up tk t len d
    by (auto simp: vstr_yields_def vstr_ins_byte_def vstr_ins_blank_bytes_def Let_def vstr_wf_def
        vstr_bytes_def vstr_small_def)
qed (simp add: vstr_yields_def vstr_ins_byte_def vstr_ins_blank_bytes_def Let_def)

lemma add_byte_yields:
  assumes "vstr_wf v" and "vstr_small 1 v"
  shows "vstr_yields rn 1 v (vstr_add_byte rn b v) (vstr_bytes v @ [b])"
  using assms
proof (cases rule: ensure_extra_cases)
  case (room v')
  then have "take (Suc (vs_len v)) ((vs_buf v')[vs_len v := b]) = take (vs_len v) (vs_buf v') @ [b]"
    by (simp add: vstr_wf_def take_Suc_conv_app_nth)
  then show ?thesis using room assms
    by (auto simp: vstr_yields_def vstr_add_byte_def vstr_add_len_def vstr_wf_def vstr_bytes_def vstr_small_def)
qed (simp add: vstr_yields_def vstr_add_byte_def vstr_add_len_def)

lemma null_terminated:
  assumes "vstr_wf v" and "vs_len v + 1 < 2 ^ 32" and "vstr_null_terminated_str rn v = Inr v'"
  shows "vstr_wf v' \<and> vstr_bytes v' = vstr_bytes v \<and> vs_len v' = vs_len v \<and> vs_fixed v' = vs_fixed v \<and>
    c_str (vs_buf v') = c_str (vstr_bytes v) \<and> (\<exists>r. vs_buf v' = vstr_bytes v @ 0 # r)"
proof -
  obtain w where w: "vstr_wf w" "vs_len w = vs_len v" "vs_len v < vs_alloc w" "vs_fixed w = vs_fixed v"
    "vstr_bytes w = vstr_bytes v" and v': "v' = w\<lparr>vs_buf := (vs_buf w)[vs_len w := 0]\<rparr>"
  proof (cases "vs_alloc v = vs_len v")
    case True
    have wr: "wrap32 (vs_len v + 1) = vs_len v + 1" using assms(2) by simp
    obtain b where b: "rn (vs_buf v) (vs_len v + 1) = Some b" and nf: "\<not> vs_fixed v"
      using assms(3) True wr
      by (auto simp: vstr_null_terminated_str_def vstr_extend_def split: option.splits if_splits)
    have lb: "length (vs_buf v) = vs_len v" using assms(1) True by (simp add: vstr_wf_def)
    let ?w = "v\<lparr>vs_alloc := vs_len v + 1, vs_buf := b\<rparr>"
    have "take (vs_len v) b = vs_buf v" using renew_keeps [OF b] lb by simp
    moreover have "length b = vs_len v + 1" by (rule renew_length [OF b])
    moreover have "v' = ?w\<lparr>vs_buf := (vs_buf ?w)[vs_len ?w := 0]\<rparr>"
      using assms(3) True wr b nf by (simp add: vstr_null_terminated_str_def vstr_extend_def)
    ultimately show ?thesis using that [of ?w] assms(2) lb by (simp add: vstr_wf_def vstr_bytes_def)
  next
    case False
    then show ?thesis using that [of v] assms(1,3) by (auto simp: vstr_null_terminated_str_def vstr_wf_def)
  qed
  let ?n = "vs_len v" and ?buf = "vs_buf w"
  have split: "?buf[?n := 0] = take ?n ?buf @ 0 # drop (Suc ?n) ?buf"
    using w by (simp add: upd_conv_take_nth_drop vstr_wf_def)
  have "c_str (?buf[?n := 0]) = c_str (take ?n ?buf)"
    unfolding split c_str_def by (auto simp: takeWhile_append intro: takeWhile_eq_all_conv [THEN iffD2, symmetric])
  then have "vstr_wf v' \<and> vstr_bytes v' = vstr_bytes v \<and> vs_len v' = vs_len v \<and> vs_fixed v' = vs_fixed v \<and>
      c_str (vs_buf v') = c_str (vstr_bytes v)"
    using w v' by (auto simp: vstr_wf_def vstr_bytes_def)
  moreover have "vs_buf v' = vstr_bytes v @ 0 # drop (Suc ?n) ?buf"
    using v' split w(2,5) by (simp add: vstr_bytes_def)
  ultimately show ?thesis by blast
qed

end

lemma cut_out_wf:
  assumes "vstr_wf v" and "p + n < 2 ^ 32"
  shows "vstr_wf (vstr_cut_out_bytes p n v) \<and> vs_fixed (vstr_cut_out_bytes p n v) = vs_fixed v \<and>
    vstr_bytes (vstr_cut_out_bytes p n v) = take p (vstr_bytes v) @ drop (p + n) (vstr_bytes v)"
proof -
  consider "vs_len v \<le> p" | "p < vs_len v" "vs_len v \<le> p + n" | "p + n < vs_len v" by linarith
  then show ?thesis
  proof cases
    case 3
    then have "sub32 (vs_len v) n = vs_len v - n" using assms(1) by (simp add: vstr_wf_def sub32_le)
    then show ?thesis using 3 assms
      by (auto simp: vstr_cut_out_bytes_def Let_def vstr_wf_def vstr_bytes_def overwrite_def subbuf_def
          min_def drop_take add.commute [of n p])
  qed (use assms in \<open>auto simp: vstr_cut_out_bytes_def Let_def vstr_wf_def vstr_bytes_def min_def\<close>)
qed

lemma cut_tail_wf:
  assumes "vstr_wf v"
  shows "vstr_wf (vstr_cut_tail_bytes n v) \<and> vs_fixed (vstr_cut_tail_bytes n v) = vs_fixed v \<and>
    vstr_bytes (vstr_cut_tail_bytes n v) = take (vs_len v - n) (vstr_bytes v)"
  using assms by (auto simp: vstr_cut_tail_bytes_def vstr_wf_def vstr_bytes_def min_def)

lemma vstr_ins_char_byte: "vstr_ins_char rn p c v = vstr_ins_byte rn p (word_of_nat c) v"
  by (simp add: vstr_ins_char_def vstr_ins_byte_def)

lemma reset_wf: "vstr_wf v \<Longrightarrow> vstr_wf (vstr_reset v) \<and> vstr_bytes (vstr_reset v) = [] \<and>
    vs_len (vstr_reset v) = 0 \<and> vs_fixed (vstr_reset v) = vs_fixed v"
  by (simp add: vstr_reset_def vstr_wf_def vstr_bytes_def)

text \<open>
  A string grown in place can also shrink and start over: \<open>vstr_yields\<close> as an elimination rule for
  the clients, which see either the exception or a well-formed string with the expected bytes.
\<close>

lemma vstr_yieldsE:
  assumes "vstr_yields rn n v res xs"
  obtains e where "res = Inl e" "vstr_room rn n v = Some e"
  | v' where "res = Inr v'" "vstr_room rn n v = None" "vstr_wf v'" "vstr_bytes v' = xs"
      "vs_len v' = length xs" "vs_fixed v' = vs_fixed v"
  using assms by (auto simp: vstr_yields_def split: option.splits)

subsection \<open>Properties\<close>

text \<open>Appending and inserting.\<close>

lemma vstr_inserts:
  assumes "vstr_wf v" and "vstr_small (length s + 1) v"
  shows "vstr_yields (m_renew al) (length s) v (vstr_add_strn (m_renew al) s v) (vstr_bytes v @ s) \<and>
    vstr_yields (m_renew al) 1 v (vstr_add_byte (m_renew al) b v) (vstr_bytes v @ [b]) \<and>
    vstr_yields (m_renew al) 1 v (vstr_ins_byte (m_renew al) p b v)
      (take p (vstr_bytes v) @ [b] @ drop p (vstr_bytes v))"
proof -
  have "vstr_small (length s) v" "vstr_small 1 v" using assms(2) by (simp_all add: vstr_small_def)
  then show ?thesis
    using mren.add_strn_yields mren.add_byte_yields mren.ins_byte_yields assms(1) by blast
qed

definition sample_vstr :: vstr where
  "sample_vstr = \<lparr>vs_alloc = 4, vs_len = 3, vs_buf = [97, 98, 99, 0], vs_fixed = False\<rparr>"

text \<open>Cutting, which also undoes an insertion.\<close>

lemma vstr_cuts:
  assumes "vstr_wf v" and "p + n < 2 ^ 32"
  shows "vstr_wf (vstr_cut_out_bytes p n v) \<and>
    vstr_bytes (vstr_cut_out_bytes p n v) = take p (vstr_bytes v) @ drop (p + n) (vstr_bytes v) \<and>
    vstr_wf (vstr_cut_tail_bytes n v) \<and>
    vstr_bytes (vstr_cut_tail_bytes n v) = take (vs_len v - n) (vstr_bytes v) \<and>
    (\<forall>w. p \<le> vs_len v \<and> vstr_small 1 v \<and> p < 2 ^ 32 - 1 \<and> vstr_ins_byte (m_renew al) p b v = Inr w \<longrightarrow>
      vstr_bytes (vstr_cut_out_bytes p 1 w) = vstr_bytes v)"
proof -
  have "vstr_bytes (vstr_cut_out_bytes p 1 w) = vstr_bytes v"
    if p: "p \<le> vs_len v" "p < 2 ^ 32 - 1" and sm: "vstr_small 1 v"
      and ins: "vstr_ins_byte (m_renew al) p b v = Inr w" for w
  proof -
    have "vstr_yields (m_renew al) 1 v (Inr w) (take p (vstr_bytes v) @ [b] @ drop p (vstr_bytes v))"
      using mren.ins_byte_yields [OF assms(1) sm, of al p b] ins by simp
    then have w: "vstr_wf w" "vstr_bytes w = take p (vstr_bytes v) @ [b] @ drop p (vstr_bytes v)"
      by (auto elim: vstr_yieldsE)
    have "length (take p (vstr_bytes v)) = p" using p(1) assms(1) by simp
    then show ?thesis using cut_out_wf [OF w(1), of p 1] w(2) p(2) by simp
  qed
  then show ?thesis using cut_out_wf [OF assms] cut_tail_wf [OF assms(1), of n] by blast
qed

text \<open>
  C18. Editing refines the list operations: on a well-formed string that does not come near \<open>2 ^ 32\<close> bytes, appending
  and inserting raise exactly when there is no room and none can be made (\<open>RuntimeError\<close> on a fixed buffer,
  \<open>MemoryError\<close> when the allocator refuses), and otherwise the bytes in use are the old ones with the new ones
  appended, or inserted at the position (at the end when the position is behind it). Cutting never raises: it
  removes a range (clipped to the string) or the last bytes, and cutting out a byte that was just inserted
  gives back the bytes in use.
\<close>

theorem vstr_edit_refines:
  assumes "vstr_wf v" and "vstr_small (length s + 1) v" and "p + n < 2 ^ 32"
  shows "vstr_yields (m_renew al) (length s) v (vstr_add_strn (m_renew al) s v) (vstr_bytes v @ s) \<and>
    vstr_yields (m_renew al) 1 v (vstr_add_byte (m_renew al) b v) (vstr_bytes v @ [b]) \<and>
    vstr_yields (m_renew al) 1 v (vstr_ins_byte (m_renew al) p b v)
      (take p (vstr_bytes v) @ [b] @ drop p (vstr_bytes v)) \<and>
    vstr_wf (vstr_cut_out_bytes p n v) \<and>
    vstr_bytes (vstr_cut_out_bytes p n v) = take p (vstr_bytes v) @ drop (p + n) (vstr_bytes v) \<and>
    vstr_wf (vstr_cut_tail_bytes n v) \<and>
    vstr_bytes (vstr_cut_tail_bytes n v) = take (vs_len v - n) (vstr_bytes v) \<and>
    (\<forall>w. p \<le> vs_len v \<and> p < 2 ^ 32 - 1 \<and> vstr_ins_byte (m_renew al) p b v = Inr w \<longrightarrow>
      vstr_bytes (vstr_cut_out_bytes p 1 w) = vstr_bytes v)"
proof -
  have "vstr_small 1 v" using assms(2) by (simp add: vstr_small_def)
  then show ?thesis using vstr_inserts [OF assms(1,2), of al b p] vstr_cuts [OF assms(1,3), of al b] by blast
qed

theorem vstr_edit_refines_witness:
  "vstr_wf sample_vstr \<and> vstr_small 2 sample_vstr \<and>
   vstr_yields (m_renew (\<lambda>n. None)) 1 sample_vstr (vstr_ins_byte (m_renew (\<lambda>n. None)) 1 120 sample_vstr)
     [97, 120, 98, 99] \<and>
   vstr_room (m_renew (\<lambda>n. None)) 1 sample_vstr = None \<and>
   vstr_bytes (vstr_cut_out_bytes 1 1 sample_vstr) = [97, 99] \<and> vstr_bytes (vstr_cut_tail_bytes 1 sample_vstr) = [97, 98]"
proof -
  have wf: "vstr_wf sample_vstr" and sm: "vstr_small (length [0::byte] + 1) sample_vstr"
    by (simp_all add: sample_vstr_def vstr_wf_def vstr_small_def)
  show ?thesis
    using vstr_edit_refines [OF wf sm, of 1 1 "\<lambda>n. None" 120] wf sm
    by (simp add: sample_vstr_def vstr_bytes_def vstr_room_def vstr_small_def)
qed

end
