(* ===== verification/Malloc.thy ===== *)
theory Malloc
  imports Gc_Correct Vstr
begin

text \<open>
  The allocation functions of \<^verbatim>\<open>py/malloc.c\<close> on the garbage-collected heap, and the contract they
  give to the rest of the interpreter. A null pointer is \<open>None\<close>; \<^verbatim>\<open>m_malloc_fail\<close> raises
  \<open>MemoryError\<close>. The last section relates \<^verbatim>\<open>m_realloc\<close> on the heap to the resizing of a byte
  buffer that \<open>Vstr\<close> works with.
\<close>

definition m_malloc :: "gc_roots \<Rightarrow> nat \<Rightarrow> gc_state \<Rightarrow> nat option result \<times> gc_state" where
  "m_malloc r num_bytes s =
    (let (ptr, s') = gc_alloc r num_bytes s in
     if ptr = None \<and> num_bytes \<noteq> 0 then (Inl MemoryError, s') else (Inr ptr, s'))"

definition m_malloc_maybe :: "gc_roots \<Rightarrow> nat \<Rightarrow> gc_state \<Rightarrow> nat option \<times> gc_state" where
  "m_malloc_maybe r num_bytes s = gc_alloc r num_bytes s"

text \<open>The collector clears what it hands out, so \<^verbatim>\<open>m_malloc0\<close> does not clear again.\<close>

definition m_malloc0 :: "gc_roots \<Rightarrow> nat \<Rightarrow> gc_state \<Rightarrow> nat option result \<times> gc_state" where
  "m_malloc0 r num_bytes s = m_malloc r num_bytes s"

definition m_realloc ::
  "gc_roots \<Rightarrow> nat option \<Rightarrow> nat \<Rightarrow> gc_state \<Rightarrow> nat option result \<times> gc_state" where
  "m_realloc r ptr new_num_bytes s =
    (let (new_ptr, s') = gc_realloc r ptr new_num_bytes True s in
     if new_ptr = None \<and> new_num_bytes \<noteq> 0 then (Inl MemoryError, s') else (Inr new_ptr, s'))"

definition m_realloc_maybe ::
  "gc_roots \<Rightarrow> nat option \<Rightarrow> nat \<Rightarrow> bool \<Rightarrow> gc_state \<Rightarrow> nat option \<times> gc_state" where
  "m_realloc_maybe r ptr new_num_bytes allow_move s = gc_realloc r ptr new_num_bytes allow_move s"

definition m_free :: "nat option \<Rightarrow> gc_state \<Rightarrow> gc_state" where
  "m_free ptr s = gc_free ptr s"

subsection \<open>The bytes of an object\<close>

text \<open>\<open>obj_bytes s b n\<close> are the first \<open>n\<close> bytes of the object whose head is block \<open>b\<close>.\<close>

definition word_bytes :: "nat \<Rightarrow> byte list" where
  "word_bytes w = map (\<lambda>i. word_of_nat (w div 256 ^ i)) [0..<4]"

definition obj_bytes :: "gc_state \<Rightarrow> nat \<Rightarrow> nat \<Rightarrow> byte list" where
  "obj_bytes s b n = take n (concat (map word_bytes (chain_words s b)))"

lemma length_word_bytes [simp]: "length (word_bytes w) = 4"
  by (simp add: word_bytes_def)

lemma length_concat_word_bytes [simp]: "length (concat (map word_bytes ws)) = 4 * length ws"
  by (induction ws) auto

lemma concat_word_bytes_take:
  "concat (map word_bytes (take k ws)) = take (4 * k) (concat (map word_bytes ws))"
  by (induction ws arbitrary: k) (auto simp: take_Cons split: nat.splits)

lemma word_bytes_0: "word_bytes 0 = replicate 4 0"
  by (simp add: word_bytes_def numeral_eq_Suc)

lemma concat_word_bytes_zeros: "concat (replicate k (word_bytes 0)) = replicate (4 * k) 0"
  by (induction k) (simp_all add: word_bytes_0 replicate_add [symmetric])

lemma resized_bytes:
  assumes wf: "gc_wf s" and head: "atb_get_kind s b = AT_HEAD" and m: "m \<le> 16 * gc_chain_len s b"
    and k: "n \<le> 16 * k" and r: "resized s s' b c k"
  shows "length (obj_bytes s b m) = m" and "length (obj_bytes s' c n) = n"
    and "m \<le> n \<Longrightarrow> take m (obj_bytes s' c n) = obj_bytes s b m"
proof -
  let ?B = "concat (map word_bytes (chain_words s b))"
  have lb: "length ?B = 16 * gc_chain_len s b" using wf head by (simp add: length_chain_words)
  have eq: "concat (map word_bytes (chain_words s' c)) =
      take (16 * k) ?B @ replicate (16 * (k - gc_chain_len s b)) 0"
    using r by (simp add: resized_def concat_word_bytes_take concat_word_bytes_zeros)
  show "length (obj_bytes s b m) = m" "length (obj_bytes s' c n) = n"
    "m \<le> n \<Longrightarrow> take m (obj_bytes s' c n) = obj_bytes s b m"
    using lb m k unfolding obj_bytes_def eq by (auto simp: min_def)
qed

lemma m_renew_exists:
  assumes "take (length xs) ys = xs" and "length ys = n"
  shows "\<exists>al. m_renew al xs n = Some ys"
proof
  have "xs ! i = ys ! i" if "i < length xs" for i
    using assms(1) that by (metis nth_take)
  then show "m_renew (\<lambda>_. Some (\<lambda>i. ys ! i)) xs n = Some ys"
    using assms(2) by (auto simp: m_renew_def intro!: nth_equalityI)
qed

subsection \<open>Properties\<close>

text \<open>
  C20. \<^verbatim>\<open>m_realloc\<close> on the heap implements the buffer resizing that the rest of the interpreter
  relies on: for a reachable object of which \<open>m\<close> bytes are in use and a new size \<open>n\<close>, either it
  raises \<open>MemoryError\<close> and every reachable object keeps its contents, or the bytes of the resulting
  object are those of \<open>m_renew\<close> on the old bytes. The heap stays well formed in both cases.
\<close>

theorem m_realloc_refines_m_renew:
  assumes wf: "gc_wf s" and l: "gc_lock_depth s = 0" and n: "0 < n" "n \<le> 2 ^ 32 - 16"
    and reach: "gc_reach s (root_words r) b" and m: "m \<le> 16 * gc_chain_len s b" "m \<le> n"
    and eq: "m_realloc r (Some (ptr_from_block s b)) n s = (res, s')"
  shows "gc_wf s' \<and>
    (res = Inl MemoryError \<and> (\<forall>c. gc_reach s (root_words r) c \<longrightarrow> object_kept s s' c) \<or>
     (\<exists>q al. res = Inr (Some q) \<and> atb_get_kind s' (block_from_ptr s q) = AT_HEAD \<and>
        m_renew al (obj_bytes s b m) n = Some (obj_bytes s' (block_from_ptr s q) n) \<and>
        (\<forall>c. gc_reach s (root_words r) c \<longrightarrow> c \<noteq> b \<longrightarrow> object_kept s s' c)))"
proof (cases "gc_realloc r (Some (ptr_from_block s b)) n True s")
  case (Pair p t)
  have head: "atb_get_kind s b = AT_HEAD" by (rule gc_reach_head [OF wf reach])
  show ?thesis
  proof (cases p)
    case None
    then show ?thesis using gc_realloc_fails [OF wf l n(1) reach] Pair eq n(1) by (auto simp: m_realloc_def)
  next
    case (Some q)
    have e: "res = Inr (Some q)" "s' = t" using eq Pair Some by (auto simp: m_realloc_def)
    have c: "gc_wf t" "resized s t b (block_from_ptr s q) (gc_alloc_blocks n)"
      "\<forall>c. gc_reach s (root_words r) c \<longrightarrow> c \<noteq> b \<longrightarrow> object_kept s t c"
      using gc_realloc_contents [OF wf l n reach Pair [unfolded Some]] by auto
    have k: "n \<le> 16 * gc_alloc_blocks n" using gc_alloc_blocks_enough [OF n(2)] by linarith
    note b = resized_bytes [OF wf head m(1) k c(2)]
    from b have "take (length (obj_bytes s b m)) (obj_bytes t (block_from_ptr s q) n) = obj_bytes s b m"
      using m(2) by simp
    from m_renew_exists [OF this b(2)] show ?thesis using c e by (auto simp: resized_def)
  qed
qed

theorem m_realloc_refines_m_renew_witness:
  "gc_wf small_heap2 \<and> gc_lock_depth small_heap2 = 0 \<and> gc_reach small_heap2 (root_words (root_at 16)) 0 \<and>
   (\<exists>res s'. m_realloc (root_at 16) (Some 16) 10 small_heap2 = (res, s') \<and> gc_wf s')"
proof -
  obtain res s' where eq: "m_realloc (root_at 16) (Some (ptr_from_block small_heap2 0)) 10 small_heap2 = (res, s')"
    by fastforce
  have "gc_wf s'"
    using m_realloc_refines_m_renew [OF small_heap2_wf small_heap2_lock _ _ small_heap2_reach _ _ eq, of 4]
      small_heap2_len by simp
  then show ?thesis using eq small_heap2_wf small_heap2_lock small_heap2_reach small_heap2_ptrs by auto
qed

end
