(* ===== verification/Pystack.thy ===== *)
theory Pystack
  imports Prelude
begin

text \<open>
  The Python stack of \<^verbatim>\<open>py/pystack.c\<close>: a bump allocator for the frames and argument arrays of
  Python calls, released in last-in first-out order. The state is the three pointers of
  \<^verbatim>\<open>mp_state_thread\<close>.
\<close>

record pystack =
  pystack_start :: nat
  pystack_end :: nat
  pystack_cur :: nat

definition MICROPY_PYSTACK_ALIGN :: nat where "MICROPY_PYSTACK_ALIGN = 8"

definition mp_pystack_init :: "nat \<Rightarrow> nat \<Rightarrow> pystack" where
  "mp_pystack_init start end' = \<lparr>pystack_start = start, pystack_end = end', pystack_cur = start\<rparr>"

text \<open>\<open>x & ~(ALIGN - 1)\<close> rounds down to a multiple of the alignment.\<close>

definition pystack_round :: "nat \<Rightarrow> nat" where
  "pystack_round n_bytes =
    (let n = wrap32 (n_bytes + (MICROPY_PYSTACK_ALIGN - 1)) in n - n mod MICROPY_PYSTACK_ALIGN)"

definition mp_pystack_alloc :: "nat \<Rightarrow> pystack \<Rightarrow> (nat \<times> pystack) result" where
  "mp_pystack_alloc n_bytes s =
    (let n = pystack_round n_bytes in
     if wrap32 (pystack_cur s + n) > pystack_end s then Inl RuntimeError
     else Inr (pystack_cur s, s\<lparr>pystack_cur := wrap32 (pystack_cur s + n)\<rparr>))"

definition mp_pystack_free :: "nat \<Rightarrow> pystack \<Rightarrow> pystack" where
  "mp_pystack_free ptr s = s\<lparr>pystack_cur := ptr\<rparr>"

definition mp_pystack_realloc :: "nat \<Rightarrow> nat \<Rightarrow> pystack \<Rightarrow> pystack result" where
  "mp_pystack_realloc ptr n_bytes s = map_sum id snd (mp_pystack_alloc n_bytes (mp_pystack_free ptr s))"

definition mp_pystack_usage :: "pystack \<Rightarrow> nat" where
  "mp_pystack_usage s = pystack_cur s - pystack_start s"

definition mp_pystack_limit :: "pystack \<Rightarrow> nat" where
  "mp_pystack_limit s = pystack_end s - pystack_start s"

subsection \<open>Invariant\<close>

definition pystack_wf :: "pystack \<Rightarrow> bool" where
  "pystack_wf s \<longleftrightarrow> pystack_start s \<le> pystack_cur s \<and> pystack_cur s \<le> pystack_end s \<and>
    pystack_end s < 2 ^ 32 \<and> 8 dvd pystack_start s \<and> 8 dvd pystack_cur s"

lemma pystack_round_le:
  assumes "n \<le> 2 ^ 32 - 8"
  shows "n \<le> pystack_round n" "pystack_round n < n + 8" "8 dvd pystack_round n"
proof -
  have w: "wrap32 (n + 7) = n + 7" using assms by simp
  then show "n \<le> pystack_round n" "pystack_round n < n + 8" "8 dvd pystack_round n"
    by (auto simp: pystack_round_def MICROPY_PYSTACK_ALIGN_def Let_def dvd_minus_mod)
qed

text \<open>Requests of the size of the address space apart, an allocation raises or bumps the pointer.\<close>

lemma pystack_alloc_cases:
  assumes "pystack_wf s" and "n \<le> 2 ^ 30" and "pystack_end s < 2 ^ 31"
  shows "mp_pystack_alloc n s =
    (if pystack_cur s + pystack_round n > pystack_end s then Inl RuntimeError
     else Inr (pystack_cur s, s\<lparr>pystack_cur := pystack_cur s + pystack_round n\<rparr>))"
proof -
  have "n \<le> 2 ^ 32 - 8" using assms(2) by simp
  from pystack_round_le [OF this] have "pystack_cur s + pystack_round n < 2 ^ 32"
    using assms unfolding pystack_wf_def by simp
  then show ?thesis by (simp add: mp_pystack_alloc_def Let_def)
qed

text \<open>
  A run of the stack: requests of \<open>n\<close> bytes (\<open>Inl n\<close>) and releases of the newest block that is
  still held (\<open>Inr ()\<close>). The second component keeps the blocks handed out and not yet released,
  newest first, with the sizes that were asked for.
\<close>

fun pystack_run :: "(nat + unit) list \<Rightarrow> pystack \<times> (nat \<times> nat) list \<Rightarrow> (pystack \<times> (nat \<times> nat) list) result" where
  "pystack_run [] (s, bs) = Inr (s, bs)"
| "pystack_run (Inl n # ops) (s, bs) =
    (case mp_pystack_alloc n s of
       Inl e \<Rightarrow> Inl e
     | Inr (p, s') \<Rightarrow> pystack_run ops (s', (p, n) # bs))"
| "pystack_run (Inr u # ops) (s, bs) =
    (case bs of
       [] \<Rightarrow> pystack_run ops (s, bs)
     | (p, n) # bs' \<Rightarrow> pystack_run ops (mp_pystack_free p s, bs'))"

text \<open>The held blocks lie below one another, aligned, inside the stack and below the pointer.\<close>

fun blocks_below :: "nat \<Rightarrow> nat \<Rightarrow> (nat \<times> nat) list \<Rightarrow> bool" where
  "blocks_below lo hi [] \<longleftrightarrow> lo \<le> hi"
| "blocks_below lo hi ((p, n) # bs) \<longleftrightarrow> p + n \<le> hi \<and> 8 dvd p \<and> blocks_below lo p bs"

lemma blocks_below_lo: "blocks_below lo hi bs \<Longrightarrow> lo \<le> hi"
  by (induction bs arbitrary: hi) fastforce+

lemma blocks_below_member:
  "blocks_below lo hi bs \<Longrightarrow> (p, n) \<in> set bs \<Longrightarrow> lo \<le> p \<and> p + n \<le> hi \<and> 8 dvd p"
proof (induction bs arbitrary: hi)
  case (Cons b bs)
  obtain q k where b: "b = (q, k)" by fastforce
  show ?case
  proof (cases "(p, n) = b")
    case True
    then show ?thesis using Cons.prems b blocks_below_lo by auto
  next
    case False
    then have "lo \<le> p \<and> p + n \<le> q \<and> 8 dvd p" using Cons b by auto
    then show ?thesis using Cons.prems(1) b by auto
  qed
qed simp

lemma blocks_below_disjoint:
  "blocks_below lo hi bs \<Longrightarrow> i < j \<Longrightarrow> j < length bs \<Longrightarrow>
    fst (bs ! j) + snd (bs ! j) \<le> fst (bs ! i)"
proof (induction bs arbitrary: hi i j)
  case (Cons b bs)
  obtain p n where b: "b = (p, n)" by fastforce
  obtain j' where j: "j = Suc j'" using Cons.prems(2) by (cases j) auto
  have m: "(fst (bs ! j'), snd (bs ! j')) \<in> set bs" using Cons.prems(3) j by simp
  have bb: "blocks_below lo p bs" using Cons.prems(1) b by simp
  show ?case
  proof (cases i)
    case 0
    then show ?thesis using blocks_below_member [OF bb m] b j by simp
  next
    case (Suc i')
    then show ?thesis using Cons.IH [OF bb, of i' j'] Cons.prems j by simp
  qed
qed simp

lemma pystack_run_inv:
  assumes "pystack_wf s" and "pystack_end s < 2 ^ 31" and "blocks_below (pystack_start s) (pystack_cur s) bs"
    and "\<forall>n. Inl n \<in> set ops \<longrightarrow> n \<le> 2 ^ 30" and "pystack_run ops (s, bs) = Inr (s', bs')"
  shows "pystack_wf s' \<and> pystack_start s' = pystack_start s \<and> pystack_end s' = pystack_end s \<and>
    blocks_below (pystack_start s) (pystack_cur s') bs'"
  using assms
proof (induction ops "(s, bs)" arbitrary: s bs rule: pystack_run.induct)
  case (2 n ops s bs)
  have n: "n \<le> 2 ^ 30" "n \<le> 2 ^ 32 - 8" using 2 by auto
  let ?s = "s\<lparr>pystack_cur := pystack_cur s + pystack_round n\<rparr>"
  have al: "mp_pystack_alloc n s = Inr (pystack_cur s, ?s)" and fit: "pystack_cur s + pystack_round n \<le> pystack_end s"
    using 2(6) pystack_alloc_cases [OF 2(2) n(1) 2(3)] by (auto split: if_splits)
  have "pystack_wf ?s" "blocks_below (pystack_start s) (pystack_cur ?s) ((pystack_cur s, n) # bs)"
    using 2(2,4) fit pystack_round_le [OF n(2)] by (auto simp: pystack_wf_def)
  then show ?case using 2(1) [OF al refl] 2(3,5,6) al by simp
next
  case (3 u ops s bs)
  show ?case
  proof (cases bs)
    case Nil
    then show ?thesis using 3 by simp
  next
    case (Cons b bs0)
    obtain p n where b: "b = (p, n)" by fastforce
    let ?s = "mp_pystack_free p s"
    have "p \<le> pystack_cur s" "8 dvd p" "blocks_below (pystack_start s) p bs0" using 3(5) Cons b by auto
    then have "pystack_wf ?s" "blocks_below (pystack_start s) (pystack_cur ?s) bs0"
      using 3(3) blocks_below_lo by (auto simp: pystack_wf_def mp_pystack_free_def)
    then show ?thesis using 3(2) [OF Cons, of p n] 3(4,6,7) Cons b by (simp add: mp_pystack_free_def)
  qed
qed simp

subsection \<open>Properties\<close>

text \<open>
  C22. The Python stack hands out memory safely: from a fresh stack, every sequence of allocations and
  last-in first-out releases that does not raise leaves held blocks that are 8-byte aligned, lie inside
  the stack and below the current pointer, and never overlap; and an allocation raises
  \<open>RuntimeError\<close> exactly when the rounded size does not fit in what is left.
\<close>

theorem pystack_blocks_safe:
  assumes "8 dvd start" and "start \<le> end'" and "end' < 2 ^ 31"
    and "\<forall>n. Inl n \<in> set ops \<longrightarrow> n \<le> 2 ^ 30"
    and "pystack_run ops (mp_pystack_init start end', []) = Inr (s, bs)"
  shows "(\<forall>(p, n) \<in> set bs. start \<le> p \<and> p + n \<le> pystack_cur s \<and> 8 dvd p) \<and> pystack_cur s \<le> end' \<and>
    (\<forall>i j. i < j \<and> j < length bs \<longrightarrow> fst (bs ! j) + snd (bs ! j) \<le> fst (bs ! i)) \<and>
    (\<forall>n \<le> 2 ^ 30. mp_pystack_alloc n s = Inl RuntimeError \<longleftrightarrow>
      mp_pystack_limit s < mp_pystack_usage s + 8 * ((n + 7) div 8))"
proof -
  let ?s0 = "mp_pystack_init start end'"
  have wf0: "pystack_wf ?s0" "pystack_end ?s0 < 2 ^ 31" "blocks_below (pystack_start ?s0) (pystack_cur ?s0) []"
    using assms(1,2,3) by (auto simp: pystack_wf_def mp_pystack_init_def)
  have inv: "pystack_wf s" "pystack_start s = start" "pystack_end s = end'" "blocks_below start (pystack_cur s) bs"
    using pystack_run_inv [OF wf0 assms(4,5)] by (simp_all add: mp_pystack_init_def)
  have "mp_pystack_alloc n s = Inl RuntimeError \<longleftrightarrow> mp_pystack_limit s < mp_pystack_usage s + 8 * ((n + 7) div 8)"
    if n: "n \<le> 2 ^ 30" for n
  proof -
    have "wrap32 (n + 7) = n + 7" using n by simp
    then have r: "pystack_round n = 8 * ((n + 7) div 8)"
      by (simp add: pystack_round_def MICROPY_PYSTACK_ALIGN_def Let_def minus_mod_eq_mult_div)
    have "pystack_end s < 2 ^ 31" using inv(3) assms(3) by simp
    from pystack_alloc_cases [OF inv(1) n this] r show ?thesis
      using inv(1) by (auto simp: mp_pystack_limit_def mp_pystack_usage_def pystack_wf_def)
  qed
  then show ?thesis
    using blocks_below_member [OF inv(4)] blocks_below_disjoint [OF inv(4)] inv(1,3)
    by (auto simp: pystack_wf_def)
qed

theorem pystack_blocks_safe_witness:
  "\<exists>s bs. pystack_run [Inl 5, Inl 16, Inr (), Inl 1] (mp_pystack_init 8 40, []) = Inr (s, bs) \<and>
    bs = [(16, 1), (8, 5)] \<and> list_all (\<lambda>(p, n). 8 \<le> p \<and> p + n \<le> pystack_cur s) bs \<and> pystack_cur s \<le> 40"
proof -
  have run: "pystack_run [Inl 5, Inl 16, Inr (), Inl 1] (mp_pystack_init 8 40, []) =
      Inr (\<lparr>pystack_start = 8, pystack_end = 40, pystack_cur = 24\<rparr>, [(16, 1), (8, 5)])"
    by (simp add: mp_pystack_init_def mp_pystack_alloc_def pystack_round_def MICROPY_PYSTACK_ALIGN_def
        Let_def mp_pystack_free_def wrap32_def)
  show ?thesis using pystack_blocks_safe [OF _ _ _ _ run] run by auto
qed

end
