(* ===== verification/Port.thy ===== *)
theory Port
  imports Gc_Correct Pystack
begin

text \<open>
  The IPU port proper, at the end of \<^verbatim>\<open>libIPUpy.c\<close>: where the heap and the Python stack come from
  (\<^verbatim>\<open>IPUpy_init\<close>), and which words of the C stack a collection takes as roots
  (\<^verbatim>\<open>gc_collect\<close>). The character streams of the port are in \<open>Stdio\<close>.
\<close>

definition IPUpy_heap_size :: nat where "IPUpy_heap_size = 250 * 1024"
definition IPUpy_pystack_size :: nat where "IPUpy_pystack_size = 5 * 1024 * 4"

record ipu_state =
  IPUpy_stack_top :: nat
  ipu_heap :: gc_state
  ipu_pystack :: pystack

text \<open>
  \<^verbatim>\<open>IPUpy_init\<close> up to its call of \<^verbatim>\<open>mp_init\<close>: \<open>heap\<close> and \<open>pyst\<close> are the addresses of
  the two static arrays, \<open>mem\<close> the tile memory.
\<close>

definition IPUpy_init :: "(nat \<Rightarrow> byte) \<Rightarrow> nat \<Rightarrow> nat \<Rightarrow> nat \<Rightarrow> ipu_state" where
  "IPUpy_init mem heap pyst poplar_stack_bottom =
    \<lparr>IPUpy_stack_top = poplar_stack_bottom,
     ipu_heap = gc_init mem heap (heap + IPUpy_heap_size),
     ipu_pystack = mp_pystack_init pyst (pyst + IPUpy_pystack_size)\<rparr>"

text \<open>
  The words of the C stack that \<^verbatim>\<open>gc_collect\<close> passes to \<^verbatim>\<open>gc_collect_root\<close>: \<open>sp\<close> is the
  stack pointer, read from \<^verbatim>\<open>$m11\<close> into \<^verbatim>\<open>stack_bottom\<close>.
\<close>

definition stack_scan_len :: "nat \<Rightarrow> nat \<Rightarrow> nat" where
  "stack_scan_len sp stop = sub32 sp stop div 4"

definition stack_scan :: "(nat \<Rightarrow> byte) \<Rightarrow> nat \<Rightarrow> nat \<Rightarrow> nat list" where
  "stack_scan mem sp stop = map (\<lambda>i. mem_word mem (wrap32 (sp + 4 * i))) [0 ..< stack_scan_len sp stop]"

definition ipu_gc_collect :: "(nat \<Rightarrow> byte) \<Rightarrow> nat \<Rightarrow> gc_roots \<Rightarrow> ipu_state \<Rightarrow> ipu_state" where
  "ipu_gc_collect mem sp r st =
    st\<lparr>ipu_heap := gc_collect (r\<lparr>stack_ptrs := stack_scan mem sp (IPUpy_stack_top st)\<rparr>) (ipu_heap st)\<rparr>"

subsection \<open>Properties\<close>

lemma IPUpy_heap_table:
  assumes "e = heap + 256000 - (heap + 256000) mod (16::nat)"
  shows "(e - heap) div 65 = 3938"
proof -
  have "(heap + 256000) mod 16 < 16" by simp
  then have "65 * 3938 \<le> e - heap" "e - heap < 65 * 3939" using assms by linarith+
  then show ?thesis by linarith
qed

text \<open>
  C23. The heap that \<^verbatim>\<open>IPUpy_init\<close> sets up in its (zero-initialised, static) array is well formed
  wherever the linker puts the array: it has 15752 blocks (252032 of the 256000 bytes), all free, they lie inside the array behind the
  allocation table, and at least 15 bytes of padding separate the two, so that the scan for the end of
  an object reads a free entry behind the table.
\<close>

theorem IPUpy_init_heap:
  assumes zero: "\<And>a. heap \<le> a \<Longrightarrow> a < heap + 256000 \<Longrightarrow> mem a = 0" and s_def: "s = ipu_heap (IPUpy_init mem heap pyst psb)"
  shows "gc_wf s \<and> max_block s = 15752 \<and> gc_lock_depth s = 0 \<and>
    (\<forall>b. atb_get_kind s b = AT_FREE) \<and> free_run s 0 15752 \<and>
    gc_pool_start s + 252032 = gc_pool_end s \<and> gc_pool_end s \<le> heap + 256000 \<and>
    gc_alloc_table_start s = heap \<and> heap + gc_alloc_table_byte_len s + 15 \<le> gc_pool_start s"
proof -
  define e where "e = heap + 256000 - (heap + 256000) mod 16"
  have "(heap + 256000) mod 16 < 16" by simp
  then have e: "e \<le> heap + 256000" "heap + 255985 \<le> e" unfolding e_def by linarith+
  have s: "s = gc_init mem heap (heap + 256000)"
    by (simp add: s_def IPUpy_init_def IPUpy_heap_size_def)
  have len: "(e - heap) div 65 = 3938" by (rule IPUpy_heap_table [OF e_def])
  have f: "gc_alloc_table_byte_len s = 3938" "gc_pool_start s = e - 252032" "gc_pool_end s = e"
    "gc_alloc_table_start s = heap" "gc_lock_depth s = 0"
    by (simp_all add: s gc_init_def Let_def gc_consts e_def [symmetric] len)
  have "(e - heap) mod 65 = e - heap - 65 * 3938" unfolding len [symmetric] by (rule minus_mult_div_eq_mod [symmetric])
  then have "(e - heap) mod 65 \<noteq> 0" using e by linarith
  then have "gc_wf s" unfolding s e_def using e unfolding e_def by (intro gc_init_wf zero) linarith+
  have free: "atb_get_kind s b = AT_FREE" for b unfolding s by (rule gc_init_byte_zero [OF zero])
  have mb: "max_block s = 15752" using f(1) by (simp add: max_block_def gc_consts)
  show ?thesis using \<open>gc_wf s\<close> free mb f e by (simp add: free_run_def)
qed

theorem IPUpy_init_heap_witness:
  "max_block (ipu_heap (IPUpy_init (\<lambda>_. 0) 4096 0 500000)) = 15752 \<and>
   gc_wf (ipu_heap (IPUpy_init (\<lambda>_. 0) 4096 0 500000))"
  using IPUpy_init_heap [where heap = 4096 and mem = "\<lambda>_. 0" and pyst = 0 and psb = 500000, OF _ refl] by simp

text \<open>The aligned words of memory in a range of addresses, and the roots with such a part of the stack.\<close>

definition words :: "(nat \<Rightarrow> byte) \<Rightarrow> nat \<Rightarrow> nat \<Rightarrow> nat list" where
  "words mem lo hi = map (\<lambda>i. mem_word mem (lo + 4 * i)) [0 ..< (hi - lo) div 4]"

definition roots_with :: "gc_roots \<Rightarrow> nat list \<Rightarrow> nat list" where
  "roots_with r ws = root_words (r\<lparr>stack_ptrs := ws\<rparr>)"

lemma gc_reach_mono: "gc_reach s roots c \<Longrightarrow> set roots \<subseteq> set roots' \<Longrightarrow> gc_reach s roots' c"
  by (induction rule: gc_reach.induct) (blast intro: gc_reach.intros)+

lemma words_mono: "lo \<le> hi \<Longrightarrow> hi \<le> hi' \<Longrightarrow> set (words mem lo hi) \<subseteq> set (words mem lo hi')"
  by (auto simp: words_def)

lemma stack_scan_up:
  assumes "stop \<le> sp" and "sp < 2 ^ 32" and "2 * sp \<le> stop + 2 ^ 32"
  shows "stack_scan mem sp stop = words mem sp (2 * sp - stop)"
proof -
  have "stack_scan_len sp stop = (2 * sp - stop - sp) div 4"
    using sub32_le [OF assms(1,2)] by (simp add: stack_scan_len_def)
  moreover have "wrap32 (sp + 4 * i) = sp + 4 * i" if "i < (2 * sp - stop - sp) div 4" for i
    using that assms by (intro wrap32_less) linarith
  ultimately show ?thesis by (simp add: stack_scan_def words_def)
qed

lemma stack_scan_down:
  assumes "sp < stop" and "stop < 2 ^ 32" and "stop \<le> 2 * sp" and "sp mod 4 = 0" and "stop mod 4 = 0"
  shows "stack_scan mem sp stop = words mem sp (2 ^ 32) @ words mem 0 (2 * sp - stop)"
proof -
  obtain p q where pq: "sp = 4 * p" "stop = 4 * q" using assms(4,5) by (metis dvd_eq_mod_eq_0 dvdE)
  define N :: nat where "N = 2 ^ 30"
  have N: "4 * N = 2 ^ 32" "p < N" "q < N" "p < q" "q \<le> 2 * p" using assms pq by (simp_all add: N_def)
  have "sub32 sp stop = 4 * (N - (q - p))"
    using sub32_negative [OF assms(1)] assms(1,2) N pq by (simp add: diff_mult_distrib2)
  then have len: "stack_scan_len sp stop = (N - p) + (2 * p - q)" using N by (simp add: stack_scan_len_def)
  have low: "wrap32 (sp + 4 * i) = sp + 4 * i" if "i < N - p" for i
    using that pq N by (intro wrap32_less) linarith
  have high: "wrap32 (sp + 4 * (i + (N - p))) = 4 * i" if "i < 2 * p - q" for i
  proof -
    have "sp + 4 * (i + (N - p)) = 4 * i + 2 ^ 32" "4 * i < 2 ^ 32" using that N(2-5) pq unfolding N(1) [symmetric]
      by (auto simp: diff_mult_distrib2)
    then show ?thesis unfolding wrap32_def by (metis mod_add_self2 mod_less)
  qed
  have "[0 ..< k + m] = [0 ..< k] @ map (\<lambda>i. i + k) [0 ..< m]" for k m :: nat
    by (simp add: map_add_upt upt_add_eq_append [of 0, simplified] add.commute)
  then have "stack_scan mem sp stop = map (\<lambda>i. mem_word mem (sp + 4 * i)) [0 ..< N - p] @ map (\<lambda>i. mem_word mem (4 * i)) [0 ..< 2 * p - q]"
    unfolding stack_scan_def len using low high by (simp cong: map_cong)
  moreover have "(4 * N - sp) div 4 = N - p" "(2 * sp - stop - 0) div 4 = 2 * p - q" using pq by auto
  ultimately show ?thesis unfolding words_def N(1) [symmetric] by simp
qed

text \<open>
  C24. Which words of the C stack a collection takes as roots, and what follows for the heap. With a
  stack that grows towards lower addresses (\<open>sp < top\<close>) the unsigned difference
  \<^verbatim>\<open>stack_bottom - IPUpy_stack_top\<close> wraps around: the scan runs from \<open>sp\<close> to the end of the
  address space and on from 0 to \<open>2 * sp - top\<close>, and as the live words between \<open>sp\<close> and \<open>top\<close>
  are among them, every object reachable from the live stack and the other roots is kept. With a
  stack that grows upwards the scan takes the \<open>(sp - top) / 4\<close> words from \<open>sp\<close> on, behind the live
  words between \<open>top\<close> and \<open>sp\<close>: an object that neither the other roots nor those words lead to
  is freed, whatever the live words say.
\<close>

theorem gc_collect_stack_range:
  assumes wf: "gc_wf (ipu_heap st)" and sp: "sp mod 4 = 0" "sp < 2 ^ 32"
    and stop: "stop = IPUpy_stack_top st" "stop mod 4 = 0" "stop < 2 ^ 32"
    and range: "stop \<le> 2 * sp" "2 * sp \<le> stop + 2 ^ 32"
    and h': "h' = ipu_heap (ipu_gc_collect mem sp r st)"
  shows "(sp < stop \<longrightarrow>
      stack_scan mem sp stop = words mem sp (2 ^ 32) @ words mem 0 (2 * sp - stop) \<and>
      (\<forall>c. gc_reach (ipu_heap st) (roots_with r (words mem sp stop)) c \<longrightarrow> object_kept (ipu_heap st) h' c)) \<and>
    (stop \<le> sp \<longrightarrow>
      stack_scan mem sp stop = words mem sp (2 * sp - stop) \<and>
      (\<forall>b. \<not> gc_reach (ipu_heap st) (roots_with r (words mem sp (2 * sp - stop))) (owner (ipu_heap st) b) \<longrightarrow>
         atb_get_kind h' b = AT_FREE))"
proof -
  let ?h = "ipu_heap st"
  have col: "h' = gc_collect (r\<lparr>stack_ptrs := stack_scan mem sp stop\<rparr>) ?h"
    by (simp add: h' ipu_gc_collect_def stop(1))
  have "object_kept ?h h' c"
    if "sp < stop" "stack_scan mem sp stop = words mem sp (2 ^ 32) @ words mem 0 (2 * sp - stop)"
      "gc_reach ?h (roots_with r (words mem sp stop)) c" for c
    unfolding col
    by (rule gc_collect_keeps [OF wf gc_reach_mono [OF that(3)]])
      (use words_mono [of sp stop "2 ^ 32" mem] that(1,2) stop(3) in \<open>auto simp: roots_with_def root_words_def\<close>)
  moreover have "atb_get_kind h' b = AT_FREE"
    if "\<not> gc_reach ?h (roots_with r (stack_scan mem sp stop)) (owner ?h b)" for b
    using gc_collect_kind [OF wf] that unfolding col by (simp add: survives_def roots_with_def)
  ultimately show ?thesis
    using stack_scan_down [of sp stop mem] stack_scan_up [of stop sp mem] sp stop range by auto
qed

text \<open>An example: one object, whose address is the first live word of the stack.\<close>

definition example_stack :: "nat \<Rightarrow> byte" where
  "example_stack a = (if a = 1000 then 16 else 0)"

definition example_ipu :: "nat \<Rightarrow> ipu_state" where
  "example_ipu t = \<lparr>IPUpy_stack_top = t, ipu_heap = small_heap2, ipu_pystack = mp_pystack_init 0 64\<rparr>"

lemma example_scan: "words example_stack 1000 1004 = [16]" "words example_stack 1004 1008 = [0]"
  by (simp_all add: words_def mem_word_def example_stack_def)

lemma no_reach_0: "\<not> gc_reach small_heap2 [0] c"
proof
  have v: "\<not> verify_ptr small_heap2 0"
    unfolding fresh_chain_frame [OF small_heap2_fresh] by (simp add: verify_ptr_def small_heap_eq)
  assume "gc_reach small_heap2 [0] c"
  then show False by (induction rule: gc_reach.induct) (use v in auto)
qed

theorem gc_collect_stack_range_witness:
  "object_kept small_heap2 (ipu_heap (ipu_gc_collect example_stack 1000 no_roots (example_ipu 1004))) 0 \<and>
   atb_get_kind (ipu_heap (ipu_gc_collect example_stack 1004 no_roots (example_ipu 1000))) 0 = AT_FREE"
proof -
  have r: "roots_with no_roots [16] = root_words (root_at 16)" "roots_with no_roots [0] = [0]"
    by (simp_all add: roots_with_def root_words_def no_roots_def root_at_def)
  show ?thesis
    using gc_collect_stack_range [of "example_ipu 1004" 1000 1004 _ example_stack no_roots, OF _ _ _ _ _ _ _ _ refl]
      gc_collect_stack_range [of "example_ipu 1000" 1004 1000 _ example_stack no_roots, OF _ _ _ _ _ _ _ _ refl]
      small_heap2_wf small_heap2_reach no_reach_0
    by (simp add: example_ipu_def example_scan r)
qed

end
