(* ===== verification/Unichar.thy ===== *)
theory Unichar
  imports Prelude
begin

text \<open>
  The character classes of \<^verbatim>\<open>py/unicode.c\<close>: a table of attributes for the 128 ASCII characters and
  the tests on it. A \<^verbatim>\<open>unichar\<close> is a 32-bit unsigned integer. The UTF-8 functions of the file are
  compiled out in this configuration.
\<close>

definition FL_PRINT :: byte where "FL_PRINT = 0x01"
definition FL_SPACE :: byte where "FL_SPACE = 0x02"
definition FL_DIGIT :: byte where "FL_DIGIT = 0x04"
definition FL_ALPHA :: byte where "FL_ALPHA = 0x08"
definition FL_UPPER :: byte where "FL_UPPER = 0x10"
definition FL_LOWER :: byte where "FL_LOWER = 0x20"
definition FL_XDIGIT :: byte where "FL_XDIGIT = 0x40"

definition AT_PR :: byte where "AT_PR = FL_PRINT"
definition AT_SP :: byte where "AT_SP = FL_SPACE OR FL_PRINT"
definition AT_DI :: byte where "AT_DI = FL_DIGIT OR FL_PRINT OR FL_XDIGIT"
definition AT_UP :: byte where "AT_UP = FL_UPPER OR FL_ALPHA OR FL_PRINT"
definition AT_LO :: byte where "AT_LO = FL_LOWER OR FL_ALPHA OR FL_PRINT"
definition AT_UX :: byte where "AT_UX = FL_UPPER OR FL_ALPHA OR FL_PRINT OR FL_XDIGIT"
definition AT_LX :: byte where "AT_LX = FL_LOWER OR FL_ALPHA OR FL_PRINT OR FL_XDIGIT"

definition attr :: "byte list" where
  "attr = [
    0, 0, 0, 0, 0, 0, 0, 0,
    0, AT_SP, AT_SP, AT_SP, AT_SP, AT_SP, 0, 0,
    0, 0, 0, 0, 0, 0, 0, 0,
    0, 0, 0, 0, 0, 0, 0, 0,
    AT_SP, AT_PR, AT_PR, AT_PR, AT_PR, AT_PR, AT_PR, AT_PR,
    AT_PR, AT_PR, AT_PR, AT_PR, AT_PR, AT_PR, AT_PR, AT_PR,
    AT_DI, AT_DI, AT_DI, AT_DI, AT_DI, AT_DI, AT_DI, AT_DI,
    AT_DI, AT_DI, AT_PR, AT_PR, AT_PR, AT_PR, AT_PR, AT_PR,
    AT_PR, AT_UX, AT_UX, AT_UX, AT_UX, AT_UX, AT_UX, AT_UP,
    AT_UP, AT_UP, AT_UP, AT_UP, AT_UP, AT_UP, AT_UP, AT_UP,
    AT_UP, AT_UP, AT_UP, AT_UP, AT_UP, AT_UP, AT_UP, AT_UP,
    AT_UP, AT_UP, AT_UP, AT_PR, AT_PR, AT_PR, AT_PR, AT_PR,
    AT_PR, AT_LX, AT_LX, AT_LX, AT_LX, AT_LX, AT_LX, AT_LO,
    AT_LO, AT_LO, AT_LO, AT_LO, AT_LO, AT_LO, AT_LO, AT_LO,
    AT_LO, AT_LO, AT_LO, AT_LO, AT_LO, AT_LO, AT_LO, AT_LO,
    AT_LO, AT_LO, AT_LO, AT_PR, AT_PR, AT_PR, AT_PR, 0]"

definition unichar_isspace :: "nat \<Rightarrow> bool" where
  "unichar_isspace c \<longleftrightarrow> c < 128 \<and> attr ! c AND FL_SPACE \<noteq> 0"

definition unichar_isalpha :: "nat \<Rightarrow> bool" where
  "unichar_isalpha c \<longleftrightarrow> c < 128 \<and> attr ! c AND FL_ALPHA \<noteq> 0"

definition unichar_isdigit :: "nat \<Rightarrow> bool" where
  "unichar_isdigit c \<longleftrightarrow> c < 128 \<and> attr ! c AND FL_DIGIT \<noteq> 0"

definition unichar_isxdigit :: "nat \<Rightarrow> bool" where
  "unichar_isxdigit c \<longleftrightarrow> c < 128 \<and> attr ! c AND FL_XDIGIT \<noteq> 0"

definition unichar_isident :: "nat \<Rightarrow> bool" where
  "unichar_isident c \<longleftrightarrow> c < 128 \<and> (attr ! c AND (FL_ALPHA OR FL_DIGIT) \<noteq> 0 \<or> c = 95)"

definition unichar_isalnum :: "nat \<Rightarrow> bool" where
  "unichar_isalnum c \<longleftrightarrow> c < 128 \<and> attr ! c AND (FL_ALPHA OR FL_DIGIT) \<noteq> 0"

definition unichar_isupper :: "nat \<Rightarrow> bool" where
  "unichar_isupper c \<longleftrightarrow> c < 128 \<and> attr ! c AND FL_UPPER \<noteq> 0"

definition unichar_islower :: "nat \<Rightarrow> bool" where
  "unichar_islower c \<longleftrightarrow> c < 128 \<and> attr ! c AND FL_LOWER \<noteq> 0"

definition unichar_tolower :: "nat \<Rightarrow> nat" where
  "unichar_tolower c = (if unichar_isupper c then c + 0x20 else c)"

definition unichar_toupper :: "nat \<Rightarrow> nat" where
  "unichar_toupper c = (if unichar_islower c then c - 0x20 else c)"

text \<open>\<open>n & ~0x20\<close> clears bit 5; the subtractions are unsigned.\<close>

definition unichar_xdigit_value :: "nat \<Rightarrow> nat" where
  "unichar_xdigit_value c =
    (let n = sub32 c 48 in
     if n > 9 then sub32 (if odd (n div 32) then n - 32 else n) 7 else n)"

subsection \<open>The classes\<close>

lemmas attr_consts = AT_PR_def AT_SP_def AT_DI_def AT_UP_def AT_LO_def AT_UX_def AT_LX_def
  FL_PRINT_def FL_SPACE_def FL_DIGIT_def FL_ALPHA_def FL_UPPER_def FL_LOWER_def FL_XDIGIT_def

text \<open>The attributes of a character, computed from the ASCII ranges.\<close>

definition ascii_attr :: "nat \<Rightarrow> byte" where
  "ascii_attr c =
    (if 48 \<le> c \<and> c \<le> 57 then AT_DI
     else if 65 \<le> c \<and> c \<le> 70 then AT_UX
     else if 71 \<le> c \<and> c \<le> 90 then AT_UP
     else if 97 \<le> c \<and> c \<le> 102 then AT_LX
     else if 103 \<le> c \<and> c \<le> 122 then AT_LO
     else if 9 \<le> c \<and> c \<le> 13 \<or> c = 32 then AT_SP
     else if 33 \<le> c \<and> c \<le> 126 then AT_PR
     else 0)"

lemma attr_table: "attr = map ascii_attr [0..<128]"
proof -
  have "[0..<128] = 0 # Suc 0 # [2..<128]" by (simp add: upt_conv_Cons numeral_2_eq_2)
  then show ?thesis by (simp add: attr_def upt_rec_numeral ascii_attr_def)
qed

lemma attr_nth: "c < 128 \<Longrightarrow> attr ! c = ascii_attr c"
  by (simp add: attr_table)

lemma ascii_attr_flags:
  "ascii_attr c AND FL_SPACE \<noteq> 0 \<longleftrightarrow> 9 \<le> c \<and> c \<le> 13 \<or> c = 32"
  "ascii_attr c AND FL_ALPHA \<noteq> 0 \<longleftrightarrow> 65 \<le> c \<and> c \<le> 90 \<or> 97 \<le> c \<and> c \<le> 122"
  "ascii_attr c AND FL_DIGIT \<noteq> 0 \<longleftrightarrow> 48 \<le> c \<and> c \<le> 57"
  "ascii_attr c AND FL_XDIGIT \<noteq> 0 \<longleftrightarrow> 48 \<le> c \<and> c \<le> 57 \<or> 65 \<le> c \<and> c \<le> 70 \<or> 97 \<le> c \<and> c \<le> 102"
  "ascii_attr c AND FL_UPPER \<noteq> 0 \<longleftrightarrow> 65 \<le> c \<and> c \<le> 90"
  "ascii_attr c AND FL_LOWER \<noteq> 0 \<longleftrightarrow> 97 \<le> c \<and> c \<le> 122"
  "ascii_attr c AND (FL_ALPHA OR FL_DIGIT) \<noteq> 0 \<longleftrightarrow> 48 \<le> c \<and> c \<le> 57 \<or> 65 \<le> c \<and> c \<le> 90 \<or> 97 \<le> c \<and> c \<le> 122"
  by (auto simp: ascii_attr_def attr_consts)

lemma unichar_isspace_iff: "unichar_isspace c \<longleftrightarrow> 9 \<le> c \<and> c \<le> 13 \<or> c = 32"
  by (cases "c < 128") (auto simp: unichar_isspace_def attr_nth ascii_attr_flags)

lemma unichar_isalpha_iff: "unichar_isalpha c \<longleftrightarrow> 65 \<le> c \<and> c \<le> 90 \<or> 97 \<le> c \<and> c \<le> 122"
  by (cases "c < 128") (auto simp: unichar_isalpha_def attr_nth ascii_attr_flags)

lemma unichar_isdigit_iff: "unichar_isdigit c \<longleftrightarrow> 48 \<le> c \<and> c \<le> 57"
  by (cases "c < 128") (auto simp: unichar_isdigit_def attr_nth ascii_attr_flags)

lemma unichar_isxdigit_iff:
  "unichar_isxdigit c \<longleftrightarrow> 48 \<le> c \<and> c \<le> 57 \<or> 65 \<le> c \<and> c \<le> 70 \<or> 97 \<le> c \<and> c \<le> 102"
  by (cases "c < 128") (auto simp: unichar_isxdigit_def attr_nth ascii_attr_flags)

lemma unichar_isident_iff:
  "unichar_isident c \<longleftrightarrow> 48 \<le> c \<and> c \<le> 57 \<or> 65 \<le> c \<and> c \<le> 90 \<or> 97 \<le> c \<and> c \<le> 122 \<or> c = 95"
  by (cases "c < 128") (auto simp: unichar_isident_def attr_nth ascii_attr_flags)

lemma unichar_isupper_iff: "unichar_isupper c \<longleftrightarrow> 65 \<le> c \<and> c \<le> 90"
  by (cases "c < 128") (auto simp: unichar_isupper_def attr_nth ascii_attr_flags)

lemma unichar_islower_iff: "unichar_islower c \<longleftrightarrow> 97 \<le> c \<and> c \<le> 122"
  by (cases "c < 128") (auto simp: unichar_islower_def attr_nth ascii_attr_flags)

lemmas unichar_iff = unichar_isspace_iff unichar_isalpha_iff unichar_isdigit_iff unichar_isxdigit_iff
  unichar_isident_iff unichar_isupper_iff unichar_islower_iff

lemma xdigit_value:
  assumes "unichar_isxdigit c"
  shows "unichar_xdigit_value c = (if c \<le> 57 then c - 48 else if c \<le> 70 then c - 55 else c - 87)"
proof -
  have c: "48 \<le> c" "c < 2 ^ 32" using assms by (auto simp: unichar_iff)
  then have n: "sub32 c 48 = c - 48" by (simp add: sub32_le)
  consider "48 \<le> c" "c \<le> 57" | "65 \<le> c" "c \<le> 70" | "97 \<le> c" "c \<le> 102" using assms by (auto simp: unichar_iff)
  then show ?thesis
  proof cases
    case 2
    then have "(c - 48) div 32 = 0" by simp
    then show ?thesis using 2 by (simp add: unichar_xdigit_value_def Let_def n sub32_le)
  next
    case 3
    then have "(c - 48) div 32 = 1" by simp
    then show ?thesis using 3 by (simp add: unichar_xdigit_value_def Let_def n sub32_le)
  next
    case 1
    then have "\<not> 9 < c - 48" by simp
    then show ?thesis using 1 by (simp add: unichar_xdigit_value_def Let_def n)
  qed
qed

subsection \<open>Properties\<close>

text \<open>
  C27. The table-driven character classes are the ASCII classes, changing case is undone by changing it
  back, and \<^verbatim>\<open>unichar_xdigit_value\<close> maps the hexadecimal digits in either case to 0..15.
\<close>

theorem unichar_classes_exact:
  "(unichar_isspace c \<longleftrightarrow> c \<in> {9..13} \<union> {32}) \<and>
   (unichar_isalpha c \<longleftrightarrow> c \<in> {65..90} \<union> {97..122}) \<and>
   (unichar_isdigit c \<longleftrightarrow> c \<in> {48..57}) \<and>
   (unichar_isxdigit c \<longleftrightarrow> c \<in> {48..57} \<union> {65..70} \<union> {97..102}) \<and>
   (unichar_isident c \<longleftrightarrow> c \<in> {48..57} \<union> {65..90} \<union> {97..122} \<union> {95}) \<and>
   (unichar_isupper c \<longleftrightarrow> c \<in> {65..90}) \<and> (unichar_islower c \<longleftrightarrow> c \<in> {97..122}) \<and>
   (if unichar_isupper c then unichar_toupper (unichar_tolower c) = c
    else if unichar_islower c then unichar_tolower (unichar_toupper c) = c else True) \<and>
   (if unichar_isxdigit c then unichar_xdigit_value c =
      (if c \<le> 57 then c - 48 else if c \<le> 70 then c - 55 else c - 87) else True)"
  using xdigit_value [of c] by (auto simp: unichar_iff unichar_tolower_def unichar_toupper_def)

end
