(* ===== verification/Stdio.thy ===== *)
theory Stdio
  imports Prelude
begin

text \<open>
  The character input and output of the port: \<^verbatim>\<open>IPUpy_set_stdout\<close>, \<^verbatim>\<open>mp_hal_stdout_tx_strn\<close>
  and its cooked form, \<^verbatim>\<open>IPUpy_set_stdin\<close> and \<^verbatim>\<open>mp_hal_stdin_rx_chr\<close>, and the string
  functions of \<^verbatim>\<open>ipustring.h\<close>. The host gives a vertex a buffer in tile memory and reads it as a
  C string afterwards, so the output has to stay inside the buffer and terminated.
\<close>

subsection \<open>State\<close>

text \<open>
  The tile memory as a function from addresses to bytes and the three pointers; \<open>None\<close> is
  \<^verbatim>\<open>NULL\<close>. \<^verbatim>\<open>IPUpy_stdout_end\<close> is an integer because it lies one byte in front of the buffer
  when the length is 0.
\<close>

record stdio =
  io_mem :: "nat \<Rightarrow> byte"
  IPUpy_stdout_head :: "nat option"
  IPUpy_stdout_end :: int
  IPUpy_stdin_head :: "nat option"

definition IPUpy_set_stdout :: "nat option \<Rightarrow> int \<Rightarrow> stdio \<Rightarrow> stdio" where
  "IPUpy_set_stdout p len st =
    (case p of
       None \<Rightarrow> st\<lparr>IPUpy_stdout_head := None\<rparr>
     | Some h \<Rightarrow> st\<lparr>IPUpy_stdout_head := Some h, io_mem := (io_mem st)(h := 0),
                   IPUpy_stdout_end := int h + (len - 1)\<rparr>)"

text \<open>The loop of \<^verbatim>\<open>mp_hal_stdout_tx_strn\<close>; \<open>h\<close> is \<^verbatim>\<open>IPUpy_stdout_head\<close>.\<close>

fun tx_loop :: "byte list \<Rightarrow> int \<Rightarrow> nat \<Rightarrow> (nat \<Rightarrow> byte) \<Rightarrow> nat \<times> (nat \<Rightarrow> byte)" where
  "tx_loop [] e h m = (h, m)"
| "tx_loop (c # cs) e h m = (if int h < e then tx_loop cs e (h + 1) (m(h := c)) else (h, m))"

definition mp_hal_stdout_tx_strn :: "byte list \<Rightarrow> stdio \<Rightarrow> stdio" where
  "mp_hal_stdout_tx_strn str st =
    (case IPUpy_stdout_head st of
       None \<Rightarrow> st
     | Some h \<Rightarrow> (let (h', m) = tx_loop str (IPUpy_stdout_end st) h (io_mem st) in
         st\<lparr>IPUpy_stdout_head := Some h', io_mem := m(h' := 0)\<rparr>))"

definition mp_hal_stdout_tx_str :: "byte list \<Rightarrow> stdio \<Rightarrow> stdio" where
  "mp_hal_stdout_tx_str str st = mp_hal_stdout_tx_strn (takeWhile (\<lambda>c. c \<noteq> 0) str) st"

text \<open>
  \<^verbatim>\<open>mp_hal_stdout_tx_strn_cooked\<close>: \<open>pend\<close> are the characters between \<^verbatim>\<open>last\<close> and
  \<^verbatim>\<open>str\<close>, not yet written.
\<close>

fun cooked_loop :: "byte list \<Rightarrow> byte list \<Rightarrow> stdio \<Rightarrow> byte list \<times> stdio" where
  "cooked_loop pend [] st = (pend, st)"
| "cooked_loop pend (c # cs) st =
    (if c = 10 then
       cooked_loop [] cs (mp_hal_stdout_tx_strn [13, 10]
         (if pend \<noteq> [] then mp_hal_stdout_tx_strn pend st else st))
     else cooked_loop (pend @ [c]) cs st)"

definition mp_hal_stdout_tx_strn_cooked :: "byte list \<Rightarrow> stdio \<Rightarrow> stdio" where
  "mp_hal_stdout_tx_strn_cooked str st =
    (let (pend, st') = cooked_loop [] str st in
     if pend \<noteq> [] then mp_hal_stdout_tx_strn pend st' else st')"

definition IPUpy_set_stdin :: "nat option \<Rightarrow> stdio \<Rightarrow> stdio" where
  "IPUpy_set_stdin p st = st\<lparr>IPUpy_stdin_head := p\<rparr>"

definition mp_hal_stdin_rx_chr :: "stdio \<Rightarrow> byte \<times> stdio" where
  "mp_hal_stdin_rx_chr st =
    (case IPUpy_stdin_head st of
       None \<Rightarrow> (10, st)
     | Some p \<Rightarrow> (io_mem st p, st\<lparr>IPUpy_stdin_head := Some (p + 1)\<rparr>))"

subsection \<open>String functions\<close>

text \<open>
  C strings are lists of bytes that contain their terminator; reading behind the list does not happen
  before the terminator. \<^verbatim>\<open>strncmp\<close> returns the difference of the first two characters that differ.
\<close>

fun ipu_strncmp :: "byte list \<Rightarrow> byte list \<Rightarrow> nat \<Rightarrow> int" where
  "ipu_strncmp (a # s) (b # t) (Suc num) =
    (if a \<noteq> b then uint a - uint b else if a = 0 then 0 else ipu_strncmp s t num)"
| "ipu_strncmp s t num = 0"

fun ipu_strspn :: "byte list \<Rightarrow> byte list \<Rightarrow> nat" where
  "ipu_strspn (a # s) t =
    (if a \<noteq> 0 \<and> a \<in> set (takeWhile (\<lambda>c. c \<noteq> 0) t) then Suc (ipu_strspn s t) else 0)"
| "ipu_strspn [] t = 0"

fun ipu_strcspn :: "byte list \<Rightarrow> byte list \<Rightarrow> nat" where
  "ipu_strcspn (a # s) t =
    (if a \<noteq> 0 \<and> a \<notin> set (takeWhile (\<lambda>c. c \<noteq> 0) t) then Suc (ipu_strcspn s t) else 0)"
| "ipu_strcspn [] t = 0"

subsection \<open>The output buffer\<close>

text \<open>
  The contents of memory after a list of bytes was written at address \<open>a\<close>, and the invariant of an
  output buffer of \<open>n\<close> bytes at \<open>base\<close> into which the bytes \<open>out\<close> have been sent: the first
  \<open>n - 1\<close> of them are there, followed by a terminator, and memory outside the buffer is \<open>mem0\<close>.
\<close>

definition stdout_holds :: "nat \<Rightarrow> nat \<Rightarrow> (nat \<Rightarrow> byte) \<Rightarrow> byte list \<Rightarrow> stdio \<Rightarrow> bool" where
  "stdout_holds base n mem0 out st \<longleftrightarrow>
    (let k = min (length out) (n - 1) in
     0 < n \<and> IPUpy_stdout_end st = int base + int n - 1 \<and>
     IPUpy_stdout_head st = Some (base + k) \<and>
     (\<forall>i<k. io_mem st (base + i) = out ! i) \<and> io_mem st (base + k) = 0 \<and>
     (\<forall>a. a < base \<or> base + n \<le> a \<longrightarrow> io_mem st a = mem0 a))"

lemma tx_loop_length:
  "fst (tx_loop cs e h m) = h + min (length cs) (nat (e - int h))"
  by (induction cs arbitrary: h m) auto

lemma tx_loop_mem:
  "snd (tx_loop cs e h m) a =
    (if h \<le> a \<and> a < h + min (length cs) (nat (e - int h)) then cs ! (a - h) else m a)"
proof (induction cs arbitrary: h m)
  case (Cons c cs)
  have "nat (e - int h) = Suc (nat (e - int (h + 1)))" if "int h < e" using that by linarith
  then show ?case by (auto simp: Cons.IH nth_Cons')
qed auto

lemma stdout_holds_set:
  "0 < n \<Longrightarrow> stdout_holds base n (io_mem st) [] (IPUpy_set_stdout (Some base) (int n) st)"
  by (auto simp: stdout_holds_def IPUpy_set_stdout_def Let_def)

lemma stdout_holds_tx:
  assumes "stdout_holds base n mem0 out st"
  shows "stdout_holds base n mem0 (out @ str) (mp_hal_stdout_tx_strn str st)"
proof -
  let ?k = "min (length out) (n - 1)" and ?k' = "min (length out + length str) (n - 1)"
  let ?e = "IPUpy_stdout_end st" and ?h = "base + min (length out) (n - 1)"
  have st: "0 < n" "?e = int base + int n - 1" "IPUpy_stdout_head st = Some ?h"
    "\<forall>i<?k. io_mem st (base + i) = out ! i" "\<forall>a. a < base \<or> base + n \<le> a \<longrightarrow> io_mem st a = mem0 a"
    using assms by (simp_all add: stdout_holds_def Let_def)
  let ?r = "tx_loop str ?e ?h (io_mem st)"
  have room: "min (length str) (nat (?e - int ?h)) = ?k' - ?k" using st(1,2) by (auto simp: min_def)
  have le: "?h + (?k' - ?k) = base + ?k'" by (simp add: min_def)
  have h': "fst ?r = base + ?k'" unfolding tx_loop_length room by (rule le)
  have mem: "snd ?r a = (if ?h \<le> a \<and> a < base + ?k' then str ! (a - ?h) else io_mem st a)" for a
    unfolding tx_loop_mem room le by (rule refl)
  have res: "mp_hal_stdout_tx_strn str st =
      st\<lparr>IPUpy_stdout_head := Some (base + ?k'), io_mem := (snd ?r)(base + ?k' := 0)\<rparr>"
    using st(3) h' by (simp add: mp_hal_stdout_tx_strn_def split: prod.split) (metis fst_conv snd_conv)
  have "(snd ?r) (base + i) = (out @ str) ! i" if "i < ?k'" for i
    using that st(4) unfolding mem by (auto simp: nth_append min_def split: if_splits)
  moreover have "(snd ?r) a = mem0 a" if "a < base \<or> base + n \<le> a" for a
    using that st(1,5) unfolding mem by auto
  ultimately show ?thesis unfolding res using st(1,2) by (auto simp: stdout_holds_def Let_def)
qed

text \<open>What the cooked output sends: every newline becomes carriage return and newline.\<close>

definition cook :: "byte list \<Rightarrow> byte list" where
  "cook str = concat (map (\<lambda>c. if c = 10 then [13, 10] else [c]) str)"

lemma cook_simps [simp]:
  "cook [] = []" "cook (c # cs) = (if c = 10 then [13, 10] else [c]) @ cook cs"
  by (simp_all add: cook_def)

lemma cooked_loop_holds:
  assumes "stdout_holds base n mem0 out st"
  shows "\<exists>out'. stdout_holds base n mem0 out' (snd (cooked_loop pend cs st)) \<and>
    out' @ fst (cooked_loop pend cs st) = out @ pend @ cook cs"
  using assms
proof (induction pend cs st arbitrary: out rule: cooked_loop.induct)
  case (2 pend c cs st)
  let ?st = "if pend \<noteq> [] then mp_hal_stdout_tx_strn pend st else st"
  have "stdout_holds base n mem0 (out @ pend) ?st" using stdout_holds_tx [OF 2(3), of pend] 2(3) by simp
  from stdout_holds_tx [OF this, of "[13, 10]"] 2 show ?case by (cases "c = 10") fastforce+
qed auto

subsection \<open>Properties\<close>

text \<open>
  C21. Output stays inside the host's buffer: after \<^verbatim>\<open>IPUpy_set_stdout\<close> on a buffer of \<open>n > 0\<close>
  bytes and any sequence of writes, plain or cooked, the buffer holds the first \<open>n - 1\<close> bytes of
  everything written, in order and followed by a terminator, and no byte outside it has changed.
\<close>

theorem stdout_stays_in_buffer:
  assumes "0 < n"
  shows "stdout_holds base n (io_mem st) (concat (map (\<lambda>(ck, str). if ck then cook str else str) ws))
    (fold (\<lambda>(ck, str). if ck then mp_hal_stdout_tx_strn_cooked str else mp_hal_stdout_tx_strn str) ws
      (IPUpy_set_stdout (Some base) (int n) st))"
proof (induction ws rule: rev_induct)
  case (snoc w ws)
  obtain ck str where w: "w = (ck, str)" by fastforce
  let ?out = "concat (map (\<lambda>(ck, str). if ck then cook str else str) ws)"
  let ?st = "fold (\<lambda>(ck, str). if ck then mp_hal_stdout_tx_strn_cooked str else mp_hal_stdout_tx_strn str) ws
      (IPUpy_set_stdout (Some base) (int n) st)"
  have "stdout_holds base n (io_mem st) (?out @ cook str) (mp_hal_stdout_tx_strn_cooked str ?st)"
  proof -
    let ?r = "cooked_loop [] str ?st"
    obtain out' where o: "stdout_holds base n (io_mem st) out' (snd ?r)" "out' @ fst ?r = ?out @ cook str"
      using cooked_loop_holds [OF snoc.IH, of "[]" str] by auto
    have "mp_hal_stdout_tx_strn_cooked str ?st =
        (if fst ?r \<noteq> [] then mp_hal_stdout_tx_strn (fst ?r) (snd ?r) else snd ?r)"
      unfolding mp_hal_stdout_tx_strn_cooked_def by (simp add: case_prod_beta Let_def)
    then show ?thesis using o stdout_holds_tx [OF o(1), of "fst ?r"] by (cases "fst ?r = []") auto
  qed
  moreover have "stdout_holds base n (io_mem st) (?out @ str) (mp_hal_stdout_tx_strn str ?st)"
    by (rule stdout_holds_tx [OF snoc.IH])
  ultimately show ?case by (cases ck) (simp_all add: w)
qed (use stdout_holds_set [OF assms] in simp)

theorem stdout_stays_in_buffer_witness:
  "(0::nat) < 4 \<and>
   io_mem (mp_hal_stdout_tx_strn_cooked [97, 10, 98]
     (IPUpy_set_stdout (Some 100) 4
       \<lparr>io_mem = \<lambda>_. 7, IPUpy_stdout_head = None, IPUpy_stdout_end = 0, IPUpy_stdin_head = None\<rparr>)) 104 = 7"
  using stdout_stays_in_buffer [of 4 100
      "\<lparr>io_mem = \<lambda>_. 7, IPUpy_stdout_head = None, IPUpy_stdout_end = 0, IPUpy_stdin_head = None\<rparr>"
      "[(True, [97, 10, 98])]"]
  by (simp add: stdout_holds_def Let_def)

end
