(* ===== verification/Readline.thy ===== *)
theory Readline
  imports Vstr
begin

text \<open>
  The line editor of \<^verbatim>\<open>shared/readline/readline.c\<close> as this port configures it: no Emacs keys, no
  word movement and no automatic indentation, but history and tab completion. One character at a time
  drives a state machine over escape sequences; it edits the line and sends the terminal the bytes
  that bring the screen up to date.
\<close>

subsection \<open>State\<close>

datatype eseq = ESEQ_NONE | ESEQ_ESC | ESEQ_ESC_BRACKET | ESEQ_ESC_BRACKET_DIGIT | ESEQ_ESC_O

text \<open>
  \<^verbatim>\<open>readline_t\<close>, the history of \<^verbatim>\<open>MP_STATE_PORT\<close> (C strings without their terminators,
  \<open>None\<close> for \<^verbatim>\<open>NULL\<close>) and, in \<open>rl_out\<close>, the bytes sent with \<^verbatim>\<open>mp_hal_stdout_tx_strn\<close>.
\<close>

record readline_t =
  rl_line :: vstr
  rl_orig_line_len :: nat
  rl_escape_seq :: eseq
  rl_hist_cur :: int
  rl_cursor_pos :: nat
  rl_escape_seq_buf :: int
  rl_prompt :: "byte list"
  readline_hist :: "byte list option list"
  rl_out :: "byte list"

definition READLINE_HIST_SIZE :: nat where "READLINE_HIST_SIZE = 8"

text \<open>
  What \<^verbatim>\<open>mp_repl_autocomplete\<close> gives for the text before the cursor: a result of length 0, the
  result \<^verbatim>\<open>(size_t)-1\<close> with the bytes it printed, or the characters to insert.
\<close>

datatype completion = Compl_none | Compl_many "byte list" | Compl_one "byte list"

definition tx :: "byte list \<Rightarrow> readline_t \<Rightarrow> readline_t" where
  "tx s rl = rl\<lparr>rl_out := rl_out rl @ s\<rparr>"

subsection \<open>Terminal commands\<close>

definition mp_hal_move_cursor_back :: "nat \<Rightarrow> byte list" where
  "mp_hal_move_cursor_back pos =
    (if pos \<le> 4 then replicate pos 8
     else if pos > 99 then
       [0x1b, 0x5b, word_of_nat (0x30 + pos div 100), word_of_nat (0x30 + (pos mod 100) div 10),
        word_of_nat (0x30 + pos mod 10), 0x44]
     else if pos > 9 then
       [0x1b, 0x5b, word_of_nat (0x30 + (pos mod 100) div 10), word_of_nat (0x30 + pos mod 10), 0x44]
     else [0x1b, 0x5b, word_of_nat (0x30 + pos mod 10), 0x44])"

definition mp_hal_erase_line_from_cursor :: "byte list" where
  "mp_hal_erase_line_from_cursor = [0x1b, 0x5b, 0x4b]"

subsection \<open>History\<close>

definition str_dup_maybe :: "allocator \<Rightarrow> byte list \<Rightarrow> byte list option" where
  "str_dup_maybe al str = map_option (\<lambda>_. c_str str) (al (length (c_str str) + 1))"

definition readline_init0 :: "readline_t \<Rightarrow> readline_t" where
  "readline_init0 rl = rl\<lparr>readline_hist := replicate READLINE_HIST_SIZE None\<rparr>"

definition readline_push_history :: "allocator \<Rightarrow> byte list \<Rightarrow> readline_t \<Rightarrow> readline_t" where
  "readline_push_history al line rl =
    (if c_str line \<noteq> [] \<and> (readline_hist rl ! 0 = None \<or> readline_hist rl ! 0 \<noteq> Some (c_str line)) then
       case str_dup_maybe al line of
         None \<Rightarrow> rl
       | Some most_recent_hist \<Rightarrow>
           rl\<lparr>readline_hist := Some most_recent_hist # take (READLINE_HIST_SIZE - 1) (readline_hist rl)\<rparr>
     else rl)"

subsection \<open>Processing a character\<close>

text \<open>
  A branch either returns a value to the caller or goes on to the redraw code with
  \<^verbatim>\<open>redraw_step_back\<close>, \<^verbatim>\<open>redraw_from_cursor\<close> and \<^verbatim>\<open>redraw_step_forward\<close>. Differences of
  sizes are stored in an \<^verbatim>\<open>int\<close>.
\<close>

datatype rl_step = Return int readline_t | Redraw readline_t int bool int

definition diff_int :: "nat \<Rightarrow> nat \<Rightarrow> int" where
  "diff_int a b = int32_of (int a - int b)"

definition home_key :: "readline_t \<Rightarrow> rl_step" where
  "home_key rl = Redraw (rl\<lparr>rl_escape_seq := ESEQ_NONE\<rparr>)
     (diff_int (rl_cursor_pos rl) (rl_orig_line_len rl)) False 0"

definition end_key :: "readline_t \<Rightarrow> rl_step" where
  "end_key rl = Redraw (rl\<lparr>rl_escape_seq := ESEQ_NONE\<rparr>) 0 False
     (diff_int (vs_len (rl_line rl)) (rl_cursor_pos rl))"

text \<open>The insertion of a completion, character by character.\<close>

fun ins_bytes :: "allocator \<Rightarrow> nat \<Rightarrow> byte list \<Rightarrow> vstr \<Rightarrow> vstr result" where
  "ins_bytes al p [] v = Inr v"
| "ins_bytes al p (b # bs) v =
    (case vstr_ins_byte (m_renew al) p b v of
       Inl e \<Rightarrow> Inl e
     | Inr v' \<Rightarrow> ins_bytes al (p + 1) bs v')"

definition rl_newline :: "allocator \<Rightarrow> readline_t \<Rightarrow> rl_step result" where
  "rl_newline al rl =
    (let rl1 = tx [13, 10] rl in
     case vstr_null_terminated_str (m_renew al) (rl_line rl1) of
       Inl e \<Rightarrow> Inl e
     | Inr v \<Rightarrow> Inr (Return 0
         (readline_push_history al (drop (rl_orig_line_len rl1) (vs_buf v)) (rl1\<lparr>rl_line := v\<rparr>))))"

definition rl_backspace :: "readline_t \<Rightarrow> rl_step" where
  "rl_backspace rl =
    (if rl_cursor_pos rl > rl_orig_line_len rl
     then Redraw (rl\<lparr>rl_line := vstr_cut_out_bytes (rl_cursor_pos rl - 1) 1 (rl_line rl)\<rparr>) 1 True 0
     else Redraw rl 0 False 0)"

definition rl_tab :: "allocator \<Rightarrow> (byte list \<Rightarrow> completion) \<Rightarrow> readline_t \<Rightarrow> rl_step result" where
  "rl_tab al ac rl =
    (let typed = subbuf (rl_orig_line_len rl) (sub32 (rl_cursor_pos rl) (rl_orig_line_len rl)) (vs_buf (rl_line rl)) in
     case ac typed of
       Compl_none \<Rightarrow> Inr (Redraw rl 0 False 0)
     | Compl_many out \<Rightarrow> Inr (Redraw (tx typed (tx (rl_prompt rl) (tx out rl))) 0 True 0)
     | Compl_one str \<Rightarrow>
         (case ins_bytes al (rl_cursor_pos rl) str (rl_line rl) of
            Inl e \<Rightarrow> Inl e
          | Inr v \<Rightarrow> Inr (Redraw (rl\<lparr>rl_line := v\<rparr>) 0 True (int (length str)))))"

definition rl_insert :: "allocator \<Rightarrow> int \<Rightarrow> readline_t \<Rightarrow> rl_step result" where
  "rl_insert al c rl =
    (case vstr_ins_char (m_renew al) (rl_cursor_pos rl) (nat c) (rl_line rl) of
       Inl e \<Rightarrow> Inl e
     | Inr v \<Rightarrow> Inr (Redraw (rl\<lparr>rl_line := v\<rparr>) 0 True 1))"

definition rl_none :: "allocator \<Rightarrow> (byte list \<Rightarrow> completion) \<Rightarrow> int \<Rightarrow> readline_t \<Rightarrow> rl_step result" where
  "rl_none al ac c rl =
    (if 1 \<le> c \<and> c \<le> 5 \<and> vs_len (rl_line rl) = rl_orig_line_len rl then Inr (Return c rl)
     else if c = 1 then Inr (home_key rl)
     else if c = 3 then Inr (Return c rl)
     else if c = 5 then Inr (end_key rl)
     else if c = 13 then rl_newline al rl
     else if c = 27 then Inr (Redraw (rl\<lparr>rl_escape_seq := ESEQ_ESC\<rparr>) 0 False 0)
     else if c = 8 \<or> c = 127 then Inr (rl_backspace rl)
     else if c = 9 then rl_tab al ac rl
     else if 32 \<le> c \<and> c \<le> 126 then rl_insert al c rl
     else Inr (Redraw rl 0 False 0))"

definition rl_esc :: "int \<Rightarrow> readline_t \<Rightarrow> rl_step" where
  "rl_esc c rl = Redraw (rl\<lparr>rl_escape_seq :=
     (if c = 91 then ESEQ_ESC_BRACKET else if c = 79 then ESEQ_ESC_O else ESEQ_NONE)\<rparr>) 0 False 0"

definition hist_entry :: "readline_t \<Rightarrow> int \<Rightarrow> byte list option" where
  "hist_entry rl i = readline_hist rl ! nat i"

text \<open>The redraw parameters after the line was replaced by a line of the history.\<close>

definition redraw_line :: "nat \<Rightarrow> readline_t \<Rightarrow> rl_step" where
  "redraw_line cursor rl = Redraw rl (diff_int cursor (rl_orig_line_len rl)) True
     (diff_int (vs_len (rl_line rl)) (rl_orig_line_len rl))"

definition up_arrow_key :: "allocator \<Rightarrow> readline_t \<Rightarrow> rl_step result" where
  "up_arrow_key al rl =
    (if rl_hist_cur rl + 1 < int READLINE_HIST_SIZE then
       case hist_entry rl (rl_hist_cur rl + 1) of
         None \<Rightarrow> Inr (Redraw rl 0 False 0)
       | Some h \<Rightarrow>
           (let rl1 = rl\<lparr>rl_hist_cur := rl_hist_cur rl + 1,
                        rl_line := (rl_line rl)\<lparr>vs_len := rl_orig_line_len rl\<rparr>\<rparr> in
            case vstr_add_str (m_renew al) h (rl_line rl1) of
              Inl e \<Rightarrow> Inl e
            | Inr v \<Rightarrow> Inr (redraw_line (rl_cursor_pos rl) (rl1\<lparr>rl_line := v\<rparr>)))
     else Inr (Redraw rl 0 False 0))"

text \<open>\<open>hist_entry\<close> is not \<open>None\<close> here; a \<^verbatim>\<open>NULL\<close> history line would read as an empty string.\<close>

definition down_arrow_key :: "allocator \<Rightarrow> readline_t \<Rightarrow> rl_step result" where
  "down_arrow_key al rl =
    (if rl_hist_cur rl \<ge> 0 then
       let rl1 = rl\<lparr>rl_hist_cur := rl_hist_cur rl - 1,
                   rl_line := vstr_cut_tail_bytes (sub32 (vs_len (rl_line rl)) (rl_orig_line_len rl)) (rl_line rl)\<rparr> in
       if rl_hist_cur rl1 \<ge> 0 then
         case vstr_add_str (m_renew al) (case hist_entry rl1 (rl_hist_cur rl1) of None \<Rightarrow> [] | Some h \<Rightarrow> h)
                (rl_line rl1) of
           Inl e \<Rightarrow> Inl e
         | Inr v \<Rightarrow> Inr (redraw_line (rl_cursor_pos rl) (rl1\<lparr>rl_line := v\<rparr>))
       else Inr (redraw_line (rl_cursor_pos rl) rl1)
     else Inr (Redraw rl 0 False 0))"

definition rl_bracket :: "allocator \<Rightarrow> int \<Rightarrow> readline_t \<Rightarrow> rl_step result" where
  "rl_bracket al c rl =
    (if 48 \<le> c \<and> c \<le> 57
     then Inr (Redraw (rl\<lparr>rl_escape_seq := ESEQ_ESC_BRACKET_DIGIT, rl_escape_seq_buf := c\<rparr>) 0 False 0)
     else let rl1 = rl\<lparr>rl_escape_seq := ESEQ_NONE\<rparr> in
       if c = 65 then up_arrow_key al rl1
       else if c = 66 then down_arrow_key al rl1
       else if c = 67 then Inr (Redraw rl1 0 False (if rl_cursor_pos rl1 < vs_len (rl_line rl1) then 1 else 0))
       else if c = 68 then Inr (Redraw rl1 (if rl_cursor_pos rl1 > rl_orig_line_len rl1 then 1 else 0) False 0)
       else if c = 72 then Inr (home_key rl1)
       else if c = 70 then Inr (end_key rl1)
       else Inr (Redraw rl1 0 False 0))"

definition delete_key :: "readline_t \<Rightarrow> rl_step" where
  "delete_key rl =
    (let rl1 = rl\<lparr>rl_escape_seq := ESEQ_NONE\<rparr> in
     if rl_cursor_pos rl1 < vs_len (rl_line rl1)
     then Redraw (rl1\<lparr>rl_line := vstr_cut_out_bytes (rl_cursor_pos rl1) 1 (rl_line rl1)\<rparr>) 0 True 0
     else Redraw rl1 0 False 0)"

definition rl_digit :: "int \<Rightarrow> readline_t \<Rightarrow> rl_step" where
  "rl_digit c rl =
    (let d = rl_escape_seq_buf rl in
     if c = 126 then
       if d = 49 \<or> d = 55 then home_key rl
       else if d = 52 \<or> d = 56 then end_key rl
       else if d = 51 then delete_key rl
       else Redraw (rl\<lparr>rl_escape_seq := ESEQ_NONE\<rparr>) 0 False 0
     else Redraw (rl\<lparr>rl_escape_seq := ESEQ_NONE\<rparr>) 0 False 0)"

definition rl_esc_o :: "int \<Rightarrow> readline_t \<Rightarrow> rl_step" where
  "rl_esc_o c rl =
    (if c = 72 then home_key rl
     else if c = 70 then end_key rl
     else Redraw (rl\<lparr>rl_escape_seq := ESEQ_NONE\<rparr>) 0 False 0)"

text \<open>The redraw code at the end; \<open>last_line_len\<close> is the length when the character came in.\<close>

definition rl_redraw :: "nat \<Rightarrow> readline_t \<Rightarrow> int \<Rightarrow> bool \<Rightarrow> int \<Rightarrow> readline_t" where
  "rl_redraw last_line_len rl redraw_step_back redraw_from_cursor redraw_step_forward =
    (let rl1 = (if redraw_step_back > 0
                then tx (mp_hal_move_cursor_back (nat redraw_step_back))
                       (rl\<lparr>rl_cursor_pos := sub32 (rl_cursor_pos rl) (nat redraw_step_back)\<rparr>)
                else rl);
         cur = rl_cursor_pos rl1; len = vs_len (rl_line rl1); buf = vs_buf (rl_line rl1);
         fwd = nat ((int cur + redraw_step_forward) mod 2 ^ 32) in
     if redraw_from_cursor then
       let rl2 = (if len < last_line_len then tx mp_hal_erase_line_from_cursor rl1 else rl1);
           rl3 = tx (subbuf cur (sub32 len cur) buf) rl2
       in (tx (mp_hal_move_cursor_back (sub32 len fwd)) rl3)\<lparr>rl_cursor_pos := fwd\<rparr>
     else if redraw_step_forward > 0 then
       (tx (subbuf cur (nat redraw_step_forward) buf) rl1)\<lparr>rl_cursor_pos := fwd\<rparr>
     else rl1)"

definition rl_dispatch :: "allocator \<Rightarrow> (byte list \<Rightarrow> completion) \<Rightarrow> int \<Rightarrow> readline_t \<Rightarrow> rl_step result" where
  "rl_dispatch al ac c rl =
    (case rl_escape_seq rl of
       ESEQ_NONE \<Rightarrow> rl_none al ac c rl
     | ESEQ_ESC \<Rightarrow> Inr (rl_esc c rl)
     | ESEQ_ESC_BRACKET \<Rightarrow> rl_bracket al c rl
     | ESEQ_ESC_BRACKET_DIGIT \<Rightarrow> Inr (rl_digit c rl)
     | ESEQ_ESC_O \<Rightarrow> Inr (rl_esc_o c rl))"

definition readline_process_char ::
  "allocator \<Rightarrow> (byte list \<Rightarrow> completion) \<Rightarrow> int \<Rightarrow> readline_t \<Rightarrow> (int \<times> readline_t) result" where
  "readline_process_char al ac c rl =
    (case rl_dispatch al ac c rl of
       Inl e \<Rightarrow> Inl e
     | Inr (Return r rl') \<Rightarrow> Inr (r, rl')
     | Inr (Redraw rl' sb fc sf) \<Rightarrow> Inr (- 1, rl_redraw (vs_len (rl_line rl)) rl' sb fc sf))"

definition readline_note_newline :: "byte list \<Rightarrow> readline_t \<Rightarrow> readline_t" where
  "readline_note_newline prompt rl =
    tx (c_str prompt) (rl\<lparr>rl_orig_line_len := vs_len (rl_line rl), rl_cursor_pos := vs_len (rl_line rl),
      rl_prompt := c_str prompt\<rparr>)"

definition readline_init :: "vstr \<Rightarrow> byte list \<Rightarrow> readline_t \<Rightarrow> readline_t" where
  "readline_init line prompt rl =
    tx (c_str prompt) (rl\<lparr>rl_line := line, rl_orig_line_len := vs_len line, rl_escape_seq := ESEQ_NONE,
      rl_escape_seq_buf := 0, rl_hist_cur := - 1, rl_cursor_pos := vs_len line, rl_prompt := c_str prompt\<rparr>)"

text \<open>
  The blocking \<^verbatim>\<open>readline\<close>: \<open>cs\<close> are the characters that \<^verbatim>\<open>mp_hal_stdin_rx_chr\<close> delivers.
  \<open>None\<close>: they ran out before the line was finished.
\<close>

fun readline_loop ::
  "allocator \<Rightarrow> (byte list \<Rightarrow> completion) \<Rightarrow> int list \<Rightarrow> readline_t \<Rightarrow> (int \<times> readline_t) result option" where
  "readline_loop al ac [] rl = None"
| "readline_loop al ac (c # cs) rl =
    (case readline_process_char al ac c rl of
       Inl e \<Rightarrow> Some (Inl e)
     | Inr (r, rl') \<Rightarrow> if r \<ge> 0 then Some (Inr (r, rl')) else readline_loop al ac cs rl')"

definition readline ::
  "allocator \<Rightarrow> (byte list \<Rightarrow> completion) \<Rightarrow> int list \<Rightarrow> vstr \<Rightarrow> byte list \<Rightarrow> readline_t \<Rightarrow>
    (int \<times> readline_t) result option" where
  "readline al ac cs line prompt rl = readline_loop al ac cs (readline_init line prompt rl)"

end
