(* ===== verification/Repl.thy ===== *)
theory Repl
  imports Unichar Stdio Readline "HOL-Library.Sublist"
begin

text \<open>
  The helpers of the interactive prompt in \<^verbatim>\<open>py/repl.c\<close>: deciding whether more input lines are
  needed, and tab completion. Strings are byte lists; \<open>chr_at\<close> reads the terminator behind the end.
\<close>

definition chr_at :: "byte list \<Rightarrow> nat \<Rightarrow> byte" where
  "chr_at s i = (if i < length s then s ! i else 0)"

definition isident :: "byte \<Rightarrow> bool" where
  "isident b = unichar_isident (unat b)"

subsection \<open>Continuation lines\<close>

text \<open>\<^verbatim>\<open>str_startswith_word\<close>: the loop runs over both strings until one of them ends.\<close>

fun str_startswith_word :: "byte list \<Rightarrow> byte list \<Rightarrow> bool" where
  "str_startswith_word (c # str) (h # head) = (if c \<noteq> h then False else str_startswith_word str head)"
| "str_startswith_word str [] = (str = [] \<or> \<not> isident (hd str))"
| "str_startswith_word [] (h # head) = False"

datatype quote = Q_NONE | Q_1_SINGLE | Q_1_DOUBLE | Q_3_SINGLE | Q_3_DOUBLE

record repl_scan =
  n_paren :: int
  n_brack :: int
  n_brace :: int
  in_quote :: quote

definition bracket_count :: "byte \<Rightarrow> repl_scan \<Rightarrow> repl_scan" where
  "bracket_count c st =
    (if c = 40 then st\<lparr>n_paren := n_paren st + 1\<rparr>
     else if c = 41 then st\<lparr>n_paren := n_paren st - 1\<rparr>
     else if c = 91 then st\<lparr>n_brack := n_brack st + 1\<rparr>
     else if c = 93 then st\<lparr>n_brack := n_brack st - 1\<rparr>
     else if c = 123 then st\<lparr>n_brace := n_brace st + 1\<rparr>
     else if c = 125 then st\<lparr>n_brace := n_brace st - 1\<rparr>
     else st)"

text \<open>
  The scan of the input. \<^verbatim>\<open>in_quote = Q_3_SINGLE - in_quote\<close> and its like toggle between that
  quote and \<^verbatim>\<open>Q_NONE\<close>; quote characters are 39 (single), 34 (double), 92 is the backslash.
\<close>

definition toggle :: "quote \<Rightarrow> quote \<Rightarrow> quote" where
  "toggle q cur = (if cur = Q_NONE then q else Q_NONE)"

function repl_scan_from :: "byte list \<Rightarrow> repl_scan \<Rightarrow> repl_scan" where
  "repl_scan_from [] st = st"
| "repl_scan_from (c # cs) st =
    (let q = in_quote st in
     if c = 39 then
       if (q = Q_NONE \<or> q = Q_3_SINGLE) \<and> chr_at cs 0 = 39 \<and> chr_at cs 1 = 39
       then repl_scan_from (drop 2 cs) (st\<lparr>in_quote := toggle Q_3_SINGLE q\<rparr>)
       else if q = Q_NONE \<or> q = Q_1_SINGLE
       then repl_scan_from cs (st\<lparr>in_quote := toggle Q_1_SINGLE q\<rparr>)
       else repl_scan_from cs st
     else if c = 34 then
       if (q = Q_NONE \<or> q = Q_3_DOUBLE) \<and> chr_at cs 0 = 34 \<and> chr_at cs 1 = 34
       then repl_scan_from (drop 2 cs) (st\<lparr>in_quote := toggle Q_3_DOUBLE q\<rparr>)
       else if q = Q_NONE \<or> q = Q_1_DOUBLE
       then repl_scan_from cs (st\<lparr>in_quote := toggle Q_1_DOUBLE q\<rparr>)
       else repl_scan_from cs st
     else if c = 92 \<and> (chr_at cs 0 = 39 \<or> chr_at cs 0 = 34 \<or> chr_at cs 0 = 92) then
       if q \<noteq> Q_NONE then repl_scan_from (drop 1 cs) st else repl_scan_from cs st
     else if q = Q_NONE then repl_scan_from cs (bracket_count c st)
     else repl_scan_from cs st)"
  by pat_completeness auto
termination by (relation "measure (\<lambda>(cs, st). length cs)") (auto simp: le_imp_less_Suc)

definition kw_if :: "byte list" where "kw_if = [105, 102]"
definition kw_while :: "byte list" where "kw_while = [119, 104, 105, 108, 101]"
definition kw_for :: "byte list" where "kw_for = [102, 111, 114]"
definition kw_try :: "byte list" where "kw_try = [116, 114, 121]"
definition kw_with :: "byte list" where "kw_with = [119, 105, 116, 104]"
definition kw_def :: "byte list" where "kw_def = [100, 101, 102]"
definition kw_class :: "byte list" where "kw_class = [99, 108, 97, 115, 115]"

definition starts_with_compound_keyword :: "byte list \<Rightarrow> bool" where
  "starts_with_compound_keyword input \<longleftrightarrow>
    chr_at input 0 = 64 \<or> list_ex (str_startswith_word input) [kw_if, kw_while, kw_for, kw_try, kw_with, kw_def, kw_class]"

definition mp_repl_continue_with_input :: "byte list \<Rightarrow> bool" where
  "mp_repl_continue_with_input input =
    (if input = [] then False
     else let st = repl_scan_from input \<lparr>n_paren = 0, n_brack = 0, n_brace = 0, in_quote = Q_NONE\<rparr> in
       if in_quote st = Q_3_SINGLE \<or> in_quote st = Q_3_DOUBLE then True
       else if (n_paren st > 0 \<or> n_brack st > 0 \<or> n_brace st > 0) \<and> in_quote st = Q_NONE then True
       else if last input = 92 then True
       else if starts_with_compound_keyword input \<and> last input \<noteq> 10 then True
       else False)"

subsection \<open>Completion\<close>

text \<open>
  The names are the interned strings (\<open>names ! q\<close> is the string of qstr \<open>q\<close>, the first two
  entries are the null and the empty qstr). \<open>test q\<close> stands for \<^verbatim>\<open>test_qstr(obj, q)\<close>: whether the
  object (or the table of built-in modules) has that attribute.
\<close>

record compl_state =
  match_str :: "byte list option"
  match_len :: nat
  q_first :: nat
  q_last :: nat

text \<open>The search for the longest common prefix from position \<open>j\<close> on.\<close>

function common_prefix_from :: "nat \<Rightarrow> nat \<Rightarrow> byte list \<Rightarrow> byte list \<Rightarrow> nat" where
  "common_prefix_from j mlen mstr d =
    (if j \<le> mlen \<and> j \<le> length d then
       if chr_at mstr j \<noteq> chr_at d j then j else common_prefix_from (j + 1) mlen mstr d
     else mlen)"
  by pat_completeness auto
termination by (relation "measure (\<lambda>(j, mlen, mstr, d). length d + 1 - j)") auto

declare common_prefix_from.simps [simp del]

definition is_candidate :: "byte list \<Rightarrow> (nat \<Rightarrow> bool) \<Rightarrow> nat \<Rightarrow> byte list \<Rightarrow> bool" where
  "is_candidate s test q d \<longleftrightarrow> length s \<le> length d \<and> take (length s) d = s \<and> test q"

fun find_completions :: "byte list \<Rightarrow> (nat \<Rightarrow> bool) \<Rightarrow> (nat \<times> byte list) list \<Rightarrow> compl_state \<Rightarrow> compl_state" where
  "find_completions s test [] st = st"
| "find_completions s test ((q, d) # qs) st =
    (if s = [] \<and> chr_at d 0 = 95 then find_completions s test qs st
     else if is_candidate s test q d then
       let st1 = (case match_str st of
                    None \<Rightarrow> st\<lparr>match_str := Some d, match_len := length d\<rparr>
                  | Some m \<Rightarrow> st\<lparr>match_len := common_prefix_from (length s) (match_len st) m d\<rparr>);
           st2 = (if q_first st1 = 0 then st1\<lparr>q_first := q\<rparr> else st1)
       in find_completions s test qs (st2\<lparr>q_last := q\<rparr>)
     else find_completions s test qs st)"

definition compl_init :: compl_state where
  "compl_init = \<lparr>match_str = None, match_len = 0, q_first = 0, q_last = 0\<rparr>"

fun print_completions_from ::
  "byte list \<Rightarrow> (nat \<Rightarrow> bool) \<Rightarrow> (nat \<times> byte list) list \<Rightarrow> nat \<Rightarrow> byte list" where
  "print_completions_from s test [] line_len = [10]"
| "print_completions_from s test ((q, d) # qs) line_len =
    (if is_candidate s test q d then
       let gap0 = (line_len + 16 - 1) div 16 * 16 - line_len;
           gap = (if gap0 < 2 then gap0 + 16 else gap0) in
       if line_len + gap + length d \<le> 64
       then replicate gap 32 @ c_str d @ print_completions_from s test qs (line_len + gap + length d)
       else 10 # c_str d @ print_completions_from s test qs (length d)
     else print_completions_from s test qs line_len)"

definition print_completions :: "byte list \<Rightarrow> (nat \<Rightarrow> bool) \<Rightarrow> (nat \<times> byte list) list \<Rightarrow> byte list" where
  "print_completions s test qs = print_completions_from s test qs 64"

definition import_str :: "byte list" where
  "import_str = [105, 109, 112, 111, 114, 116, 32]"

definition chain_char :: "byte \<Rightarrow> bool" where
  "chain_char b \<longleftrightarrow> unichar_isalpha (unat b) \<or> unichar_isdigit (unat b) \<or> b = 95 \<or> b = 46"

text \<open>
  The walk over the complete words of an \<open>a.b.c\<close> chain: \<open>load obj word\<close> is the attribute found
  by \<^verbatim>\<open>qstr_find_strn\<close> and \<^verbatim>\<open>mp_load_method_protected\<close>, if any. The result is the last object and
  the partial word, or \<open>None\<close> when a lookup fails.
\<close>

function walk_chain :: "('o \<Rightarrow> byte list \<Rightarrow> 'o option) \<Rightarrow> 'o \<Rightarrow> byte list \<Rightarrow> ('o \<times> byte list) option" where
  "walk_chain load obj str =
    (let word = takeWhile (\<lambda>b. b \<noteq> 46) str; rest = dropWhile (\<lambda>b. b \<noteq> 46) str in
     if rest = [] then Some (obj, word)
     else case load obj word of
       None \<Rightarrow> None
     | Some obj' \<Rightarrow> walk_chain load obj' (tl rest))"
  by pat_completeness auto
termination
proof (relation "measure (\<lambda>(load, obj, str). length str)")
  fix load :: "'o \<Rightarrow> byte list \<Rightarrow> 'o option" and obj str x xa and obj'
  assume xa: "xa = dropWhile (\<lambda>b. b \<noteq> 46) str" and "xa \<noteq> []"
  then have "length (tl xa) < length xa" by simp
  moreover have "length xa \<le> length str" unfolding xa by (rule length_dropWhile_le)
  ultimately show "((load, obj', tl xa), load, obj, str) \<in> measure (\<lambda>(load, obj, str). length str)"
    by simp
qed simp

declare walk_chain.simps [simp del]

definition mp_repl_autocomplete ::
  "(nat \<times> byte list) list \<Rightarrow> ('o option \<Rightarrow> nat \<Rightarrow> bool) \<Rightarrow> ('o \<Rightarrow> byte list \<Rightarrow> 'o option) \<Rightarrow> 'o \<Rightarrow>
    byte list \<Rightarrow> completion" where
  "mp_repl_autocomplete names test load main str =
    (let chain = rev (takeWhile chain_char (rev str)) in
     case walk_chain load main chain of
       None \<Rightarrow> Compl_none
     | Some (obj, s) \<Rightarrow>
       (let obj' = (if length str \<ge> 7 \<and> take 7 str = import_str then None else Some obj);
            st = find_completions s (test obj') names compl_init in
        if q_first st = 0 then
          if length s = length str \<and> length s > 0 \<and> length s < 7 \<and> s = take (length s) import_str
          then Compl_one (drop (length s) import_str)
          else if s \<noteq> [] then Compl_none else Compl_one [32, 32, 32, 32]
        else if q_first st = q_last st \<or> match_len st > length s then
          if match_len st = length s then Compl_none
          else Compl_one (take (match_len st - length s) (drop (length s) (the (match_str st))))
        else Compl_many (cook (print_completions s (test obj')
          (filter (\<lambda>(q, d). q_first st \<le> q \<and> q \<le> q_last st) names)))))"

subsection \<open>Facts on the scan\<close>

lemma str_startswith_word_iff:
  "str_startswith_word str kw \<longleftrightarrow> (\<exists>rest. str = kw @ rest \<and> (rest = [] \<or> \<not> isident (hd rest)))"
  by (induction str kw rule: str_startswith_word.induct) auto

lemma repl_scan_plain:
  assumes "39 \<notin> set cs" and "34 \<notin> set cs" and "92 \<notin> set cs" and "in_quote st = Q_NONE"
  shows "in_quote (repl_scan_from cs st) = Q_NONE \<and>
    n_paren (repl_scan_from cs st) = n_paren st + int (count_list cs 40) - int (count_list cs 41) \<and>
    n_brack (repl_scan_from cs st) = n_brack st + int (count_list cs 91) - int (count_list cs 93) \<and>
    n_brace (repl_scan_from cs st) = n_brace st + int (count_list cs 123) - int (count_list cs 125)"
  using assms
proof (induction cs arbitrary: st)
  case (Cons c cs)
  have "repl_scan_from (c # cs) st = repl_scan_from cs (bracket_count c st)"
    using Cons.prems by (auto simp: Let_def)
  moreover have "in_quote (bracket_count c st) = Q_NONE" using Cons.prems(4) by (simp add: bracket_count_def)
  ultimately show ?case using Cons.IH [of "bracket_count c st"] Cons.prems by (simp add: bracket_count_def)
qed simp

subsection \<open>Facts on completion\<close>

lemma chr_at_less: "i < length s \<Longrightarrow> chr_at s i = s ! i"
  by (simp add: chr_at_def)

lemma common_prefix_from_props:
  assumes "j \<le> mlen" and "mlen \<le> length m" and "j \<le> length d" and "take j m = take j d" and "0 \<notin> set m"
  shows "j \<le> common_prefix_from j mlen m d \<and> common_prefix_from j mlen m d \<le> mlen \<and>
    common_prefix_from j mlen m d \<le> length d \<and>
    take (common_prefix_from j mlen m d) m = take (common_prefix_from j mlen m d) d \<and>
    (common_prefix_from j mlen m d < mlen \<longrightarrow>
      chr_at m (common_prefix_from j mlen m d) \<noteq> chr_at d (common_prefix_from j mlen m d))"
  using assms
proof (induction j mlen m d rule: common_prefix_from.induct)
  case (1 j mlen m d)
  show ?case
  proof (cases "chr_at m j = chr_at d j \<and> j < mlen")
    case False
    then have "common_prefix_from j mlen m d = j"
      using 1(2,4) by (auto simp: common_prefix_from.simps [of j] common_prefix_from.simps [of "Suc j"])
    then show ?thesis using 1(2-6) False by auto
  next
    case True
    have "j < length d"
    proof (rule ccontr)
      assume "\<not> j < length d"
      then have "m ! j = 0" using True 1(3) by (auto simp: chr_at_def)
      then show False using nth_mem [of j m] True 1(3,6) by auto
    qed
    then have "take (j + 1) m = take (j + 1) d"
      using 1(3,5) True chr_at_less [of j m] by (simp add: take_Suc_conv_app_nth chr_at_less)
    moreover have "common_prefix_from j mlen m d = common_prefix_from (j + 1) mlen m d"
      using True 1(4) by (simp add: common_prefix_from.simps [of j])
    ultimately show ?thesis using 1(1) True \<open>j < length d\<close> 1(2-6) by simp
  qed
qed

definition candidates :: "byte list \<Rightarrow> (nat \<Rightarrow> bool) \<Rightarrow> (nat \<times> byte list) list \<Rightarrow> (nat \<times> byte list) list" where
  "candidates s test qs = filter (\<lambda>(q, d). \<not> (s = [] \<and> chr_at d 0 = 95) \<and> is_candidate s test q d) qs"

text \<open>The state of the search after the candidates \<open>C\<close>.\<close>

definition compl_inv :: "byte list \<Rightarrow> (nat \<times> byte list) list \<Rightarrow> compl_state \<Rightarrow> bool" where
  "compl_inv s C st \<longleftrightarrow>
    (if C = [] then st = compl_init
     else \<exists>m. match_str st = Some m \<and> m = snd (hd C) \<and> q_first st = fst (hd C) \<and> q_last st = fst (last C) \<and>
       length s \<le> match_len st \<and> match_len st \<le> length m \<and>
       (\<forall>(q, d) \<in> set C. match_len st \<le> length d \<and> take (match_len st) d = take (match_len st) m) \<and>
       (match_len st < length m \<longrightarrow> (\<exists>(q, d) \<in> set C. chr_at d (match_len st) \<noteq> chr_at m (match_len st))))"

text \<open>
  The names are those of the qstrs in ascending order, without the null qstr and no string twice; those
  that pass the test contain no zero byte.
\<close>

definition names_ok :: "(nat \<Rightarrow> bool) \<Rightarrow> (nat \<times> byte list) list \<Rightarrow> bool" where
  "names_ok test qs \<longleftrightarrow> sorted_wrt (<) (map fst qs) \<and> distinct (map snd qs) \<and>
     (\<forall>(q, d) \<in> set qs. 0 < q \<and> (test q \<longrightarrow> 0 \<notin> set d))"

lemma find_step_inv:
  assumes inv: "compl_inv s C st" and cand: "is_candidate s test q d" and q: "0 < q"
    and C: "\<forall>(q, d) \<in> set C. 0 < q \<and> 0 \<notin> set d \<and> take (length s) d = s \<and> length s \<le> length d"
  defines "st1 \<equiv> (case match_str st of None \<Rightarrow> st\<lparr>match_str := Some d, match_len := length d\<rparr>
     | Some m \<Rightarrow> st\<lparr>match_len := common_prefix_from (length s) (match_len st) m d\<rparr>)"
  shows "compl_inv s (C @ [(q, d)]) ((if q_first st1 = 0 then st1\<lparr>q_first := q\<rparr> else st1)\<lparr>q_last := q\<rparr>)"
proof (cases C)
  case Nil
  then show ?thesis using inv cand by (simp add: st1_def compl_inv_def compl_init_def is_candidate_def)
next
  case (Cons c C')
  obtain q0 m where c: "c = (q0, m)" by fastforce
  let ?r = "common_prefix_from (length s) (match_len st) m d"
  have i: "match_str st = Some m" "q_first st = q0" "length s \<le> match_len st" "match_len st \<le> length m"
    "\<forall>(q, d) \<in> set C. match_len st \<le> length d \<and> take (match_len st) d = take (match_len st) m"
    "match_len st < length m \<longrightarrow> (\<exists>(q, d) \<in> set C. chr_at d (match_len st) \<noteq> chr_at m (match_len st))"
    using inv Cons c by (auto simp: compl_inv_def)
  have m: "0 < q0" "0 \<notin> set m" "take (length s) m = s" using C Cons c by auto
  have d: "length s \<le> length d" "take (length s) d = s" using cand by (auto simp: is_candidate_def)
  have r: "length s \<le> ?r" "?r \<le> match_len st" "?r \<le> length d" "take ?r m = take ?r d"
    "?r < match_len st \<longrightarrow> chr_at m ?r \<noteq> chr_at d ?r"
    using common_prefix_from_props [OF i(3,4) d(1) _ m(2)] m(3) d(2) by auto
  have pre: "?r \<le> length d' \<and> take ?r d' = take ?r m" if "(q', d') \<in> set C" for q' d'
  proof -
    have a: "match_len st \<le> length d'" "take (match_len st) d' = take (match_len st) m" using i(5) that by auto
    then have "take ?r (take (match_len st) d') = take ?r (take (match_len st) m)" by simp
    then show ?thesis using a(1) r(2) by (simp add: min_def)
  qed
  have mx: "\<exists>(q', d') \<in> set (C @ [(q, d)]). chr_at d' ?r \<noteq> chr_at m ?r" if "?r < length m"
  proof (cases "?r < match_len st")
    case False
    then have e: "?r = match_len st" using r(2) by simp
    then show ?thesis using i(6) that by auto
  qed (use r(5) in auto)
  have st1: "st1 = st\<lparr>match_len := ?r\<rparr>" using i(1) by (simp add: st1_def)
  show ?thesis using i(1,2,4) m(1) r(1-4) pre mx Cons c unfolding compl_inv_def st1 by auto
qed

lemma find_completions_inv:
  assumes "compl_inv s C st" and "names_ok test qs"
    and "\<forall>(q, d) \<in> set C. 0 < q \<and> 0 \<notin> set d \<and> take (length s) d = s \<and> length s \<le> length d"
  shows "compl_inv s (C @ candidates s test qs) (find_completions s test qs st)"
  using assms
proof (induction s test qs st arbitrary: C rule: find_completions.induct)
  case (2 s test q d qs st)
  have ok: "0 < q" "test q \<Longrightarrow> 0 \<notin> set d" "names_ok test qs" using 2(5) by (auto simp: names_ok_def)
  show ?case
  proof (cases "\<not> (s = [] \<and> chr_at d 0 = 95) \<and> is_candidate s test q d")
    case True
    have c: "candidates s test ((q, d) # qs) = (q, d) # candidates s test qs" using True by (simp add: candidates_def)
    let ?C = "C @ [(q, d)]"
    have "\<forall>(q, d) \<in> set ?C. 0 < q \<and> 0 \<notin> set d \<and> take (length s) d = s \<and> length s \<le> length d"
      using 2(6) ok True by (auto simp: is_candidate_def)
    from 2(2) [OF conjunct1 [OF True] conjunct2 [OF True] refl refl
        find_step_inv [OF 2(4) conjunct2 [OF True] ok(1) 2(6)] ok(3) this] True
    show ?thesis unfolding c find_completions.simps if_not_P [OF conjunct1 [OF True]] if_P [OF conjunct2 [OF True]] Let_def
      by simp
  next
    case False
    then have "candidates s test ((q, d) # qs) = candidates s test qs" by (auto simp: candidates_def)
    moreover have "find_completions s test ((q, d) # qs) st = find_completions s test qs st" using False by auto
    ultimately show ?thesis using 2(1) [OF _ 2(4) ok(3) 2(6)] 2(3) [OF _ _ 2(4) ok(3) 2(6)] False by auto
  qed
qed (simp add: candidates_def)

lemma compl_single: "compl_inv s C st \<Longrightarrow> length C = 1 \<Longrightarrow> match_len st = length (snd (hd C))"
  by (cases C) (auto simp: compl_inv_def)

lemma compl_first_last:
  "compl_inv s C st \<Longrightarrow> C \<noteq> [] \<Longrightarrow> distinct (map fst C) \<Longrightarrow> q_first st = q_last st \<longleftrightarrow> length C = 1"
  by (cases C) (auto simp: compl_inv_def split: if_splits)

subsection \<open>Properties\<close>

text \<open>
  C28. For input without quotes and backslashes, the prompt asks for another line exactly when some kind
  of bracket is opened more often than it is closed, or the input starts with a decorator or the whole
  word of a compound statement and its last line is not empty.
\<close>

theorem repl_continue_plain:
  assumes "input \<noteq> []" and "39 \<notin> set input" and "34 \<notin> set input" and "92 \<notin> set input"
  shows "mp_repl_continue_with_input input \<longleftrightarrow>
    count_list input 40 > count_list input 41 \<or> count_list input 91 > count_list input 93 \<or>
    count_list input 123 > count_list input 125 \<or>
    (hd input = 64 \<or> (\<exists>kw \<in> {kw_if, kw_while, kw_for, kw_try, kw_with, kw_def, kw_class}.
        \<exists>rest. input = kw @ rest \<and> (rest = [] \<or> \<not> isident (hd rest)))) \<and> last input \<noteq> 10"
proof -
  let ?st0 = "\<lparr>n_paren = 0, n_brack = 0, n_brace = 0, in_quote = Q_NONE\<rparr>"
  have last: "last input \<noteq> 92" using assms(1,4) last_in_set by fastforce
  have comp: "starts_with_compound_keyword input \<longleftrightarrow>
      hd input = 64 \<or> (\<exists>kw \<in> {kw_if, kw_while, kw_for, kw_try, kw_with, kw_def, kw_class}.
        \<exists>rest. input = kw @ rest \<and> (rest = [] \<or> \<not> isident (hd rest)))"
    using assms(1) by (simp add: starts_with_compound_keyword_def chr_at_def hd_conv_nth str_startswith_word_iff)
  show ?thesis
    unfolding comp [symmetric] using assms(1) last repl_scan_plain [OF assms(2-4), of ?st0]
    by (simp add: mp_repl_continue_with_input_def Let_def)
qed

theorem repl_continue_plain_witness:
  "mp_repl_continue_with_input [102, 40, 49, 44] \<and> \<not> mp_repl_continue_with_input [102, 40, 49, 41]"
  using repl_continue_plain [of "[102, 40, 49, 44]"] repl_continue_plain [of "[102, 40, 49, 41]"]
  by (simp add: kw_if_def kw_while_def kw_for_def kw_try_def kw_with_def kw_def_def kw_class_def)

subsection \<open>The longest common prefix\<close>

text \<open>\<open>p\<close> is a prefix of all candidates, and every common prefix of theirs is a prefix of \<open>p\<close>.\<close>

definition longest_common :: "(nat \<times> byte list) list \<Rightarrow> byte list \<Rightarrow> bool" where
  "longest_common C p \<longleftrightarrow> (\<forall>(q, d) \<in> set C. prefix p d) \<and>
     (\<forall>p'. (\<forall>(q, d) \<in> set C. prefix p' d) \<longrightarrow> prefix p' p)"

lemma compl_longest:
  assumes inv: "compl_inv s C st" "C \<noteq> []"
  shows "longest_common C (take (match_len st) (snd (hd C)))"
proof -
  let ?m = "snd (hd C)" and ?n = "match_len st"
  have i: "?n \<le> length ?m" "\<And>q d. (q, d) \<in> set C \<Longrightarrow> ?n \<le> length d \<and> take ?n d = take ?n ?m"
    "?n < length ?m \<longrightarrow> (\<exists>(q, d) \<in> set C. chr_at d ?n \<noteq> chr_at ?m ?n)"
    using assms by (auto simp: compl_inv_def)
  have hd: "(fst (hd C), ?m) \<in> set C" using assms(2) by simp
  have "prefix p (take ?n ?m)" if p: "\<forall>(q, d) \<in> set C. prefix p d" for p
  proof (cases "length p \<le> ?n")
    case True
    have "prefix p ?m" using bspec [OF p hd] by (simp only: prod.case)
    then show ?thesis using True by (metis append_eq_conv_conj prefix_def take_is_prefix take_take min.absorb1)
  next
    case False
    have at: "chr_at d ?n = p ! ?n" if "(q, d) \<in> set C" for q d
      using p that False by (auto simp: prefix_def chr_at_def nth_append)
    have "length p \<le> length ?m" using bspec [OF p hd, unfolded prod.case] by (rule prefix_length_le)
    then obtain q d where "(q, d) \<in> set C" "chr_at d ?n \<noteq> chr_at ?m ?n" using False i(3) by auto
    then show ?thesis using at [of q d] at [OF hd] by simp
  qed
  moreover have "prefix (take ?n ?m) d" if "(q, d) \<in> set C" for q d
    using i(2) [OF that] by (metis take_is_prefix)
  ultimately show ?thesis by (auto simp: longest_common_def)
qed

lemma compl_longest_ext:
  assumes inv: "compl_inv s C st" "C \<noteq> []" and s: "take (length s) (snd (hd C)) = s"
  shows "longest_common C (s @ take (match_len st - length s) (drop (length s) (snd (hd C))))"
proof -
  have "length s \<le> match_len st" using inv by (auto simp: compl_inv_def)
  then have "s @ take (match_len st - length s) (drop (length s) (snd (hd C))) = take (match_len st) (snd (hd C))"
    using s by (metis le_add_diff_inverse take_add)
  then show ?thesis using compl_longest [OF inv] by simp
qed

subsection \<open>The list of matches\<close>

lemma cook_append: "cook (xs @ ys) = cook xs @ cook ys"
  by (induction xs) auto

lemma cook_plain: "10 \<notin> set xs \<Longrightarrow> cook xs = xs"
  by (induction xs) auto

lemma c_str_plain: "0 \<notin> set d \<Longrightarrow> c_str d = d"
  by (auto simp: c_str_def intro!: takeWhile_eq_all_conv [THEN iffD2])

text \<open>One name of the list: a gap or a line break, then the name.\<close>

lemma print_completions_step:
  obtains ys k where "print_completions_from s test ((q, d) # qs) n =
      (if is_candidate s test q d then ys @ c_str d @ print_completions_from s test qs k
       else print_completions_from s test qs n)" and "set ys \<subseteq> {10, 32}"
proof -
  define gap where "gap = (let g = (n + 16 - 1) div 16 * 16 - n in if g < 2 then g + 16 else g)"
  have eq: "print_completions_from s test ((q, d) # qs) n =
      (if is_candidate s test q d then
         if n + gap + length d \<le> 64 then replicate gap 32 @ c_str d @ print_completions_from s test qs (n + gap + length d)
         else 10 # c_str d @ print_completions_from s test qs (length d)
       else print_completions_from s test qs n)"
    by (simp add: gap_def Let_def)
  show thesis
  proof (cases "n + gap + length d \<le> 64")
    case True
    have "set (replicate gap 32) \<subseteq> {10, 32 :: byte}" by auto
    then show thesis
      using that [of "replicate gap 32" "n + gap + length d"] unfolding eq if_P [OF True] by blast
  next
    case False
    then show thesis using that [of "[10]" "length d"] unfolding eq if_not_P [OF False] by simp
  qed
qed

lemma print_completions_shows:
  assumes "(q, d) \<in> set qs" and "is_candidate s test q d"
  shows "sublist (c_str d) (print_completions_from s test qs n)"
  using assms
proof (induction qs arbitrary: n)
  case (Cons x qs)
  obtain q' d' where x: "x = (q', d')" by fastforce
  obtain ys k where step: "print_completions_from s test ((q', d') # qs) n =
      (if is_candidate s test q' d' then ys @ c_str d' @ print_completions_from s test qs k
       else print_completions_from s test qs n)" by (rule print_completions_step)
  show ?case
  proof (cases "x = (q, d)")
    case True
    then show ?thesis using Cons.prems x unfolding x step by (auto simp: sublist_def)
  next
    case False
    then have "sublist (c_str d) (print_completions_from s test qs m)" for m using Cons by auto
    then show ?thesis unfolding x step by (simp add: sublist_append)
  qed
qed simp

lemma sublist_cook:
  assumes "sublist d xs" and "10 \<notin> set d"
  shows "sublist d (cook xs)"
proof -
  obtain ps ss where "xs = ps @ d @ ss" using assms(1) by (auto simp: sublist_def)
  then show ?thesis using cook_plain [OF assms(2)] by (auto simp: cook_append sublist_def)
qed

text \<open>The range of qstrs that is printed holds all candidates.\<close>

lemma sorted_in_range: "sorted_wrt (<) ks \<Longrightarrow> k \<in> set ks \<Longrightarrow> hd ks \<le> k \<and> k \<le> last (ks :: nat list)"
  by (induction ks) (auto simp: less_imp_le)

lemma candidates_in_range:
  assumes "sorted_wrt (<) (map fst qs)" and "(q, d) \<in> set (candidates s test qs)"
  shows "fst (hd (candidates s test qs)) \<le> q \<and> q \<le> fst (last (candidates s test qs))"
proof -
  let ?C = "candidates s test qs"
  have "sorted_wrt (<) (map fst ?C)"
    unfolding candidates_def using assms(1) by (simp add: sorted_wrt_map sorted_wrt_filter)
  moreover have "q \<in> set (map fst ?C)" using assms(2) by force
  moreover have "?C \<noteq> []" using assms(2) by auto
  ultimately show ?thesis using sorted_in_range [of "map fst ?C" q] by (simp add: hd_map last_map)
qed

subsection \<open>The result of the search\<close>

lemma search_state:
  assumes names: "names_ok test names" and C: "C = candidates s test names" "C \<noteq> []"
    and st: "st = find_completions s test names compl_init"
  shows "compl_inv s C st" and "take (length s) (snd (hd C)) = s" and "q_first st \<noteq> 0"
    and "\<forall>(q, d) \<in> set C. 0 \<notin> set d \<and> is_candidate s test q d \<and> (q, d) \<in> set names"
    and "q_first st = q_last st \<longleftrightarrow> length C = 1"
proof -
  show inv: "compl_inv s C st"
    using find_completions_inv [OF _ names, of s "[]" compl_init] C(1) st by (simp add: compl_inv_def)
  have inC: "\<forall>(q, d) \<in> set C. 0 < q \<and> 0 \<notin> set d \<and> is_candidate s test q d \<and> (q, d) \<in> set names"
    using names C(1) by (auto simp: candidates_def is_candidate_def names_ok_def)
  then show "\<forall>(q, d) \<in> set C. 0 \<notin> set d \<and> is_candidate s test q d \<and> (q, d) \<in> set names" by auto
  have hdC: "hd C \<in> set C" using C(2) by simp
  have "q_first st = fst (hd C)" using inv C(2) by (auto simp: compl_inv_def)
  then show "q_first st \<noteq> 0" and "take (length s) (snd (hd C)) = s" using inC hdC by (auto simp: is_candidate_def)
  have "distinct (map fst C)"
    using names unfolding C(1) candidates_def
    by (intro distinct_map_filter) (auto simp: names_ok_def strict_sorted_iff)
  then show "q_first st = q_last st \<longleftrightarrow> length C = 1" by (rule compl_first_last [OF inv C(2)])
qed

lemma autocomplete_eq:
  assumes names: "names_ok (test obj') names"
    and walk: "walk_chain load main (rev (takeWhile chain_char (rev str))) = Some (obj, s)"
    and obj': "obj' = (if take 7 str = import_str then None else Some obj)"
    and C: "C = candidates s (test obj') names" "C \<noteq> []"
    and st: "st = find_completions s (test obj') names compl_init"
  shows "mp_repl_autocomplete names test load main str =
      (if length C = 1 \<or> match_len st > length s then
         if match_len st = length s then Compl_none
         else Compl_one (take (match_len st - length s) (drop (length s) (snd (hd C))))
       else Compl_many (cook (print_completions s (test obj') (filter (\<lambda>(q, d). q_first st \<le> q \<and> q \<le> q_last st) names))))"
proof -
  note s = search_state [OF names C st]
  have "7 \<le> length str" if "take 7 str = import_str"
    using arg_cong [OF that, of length] by (simp add: import_str_def min_def split: if_splits)
  then have len7: "length str \<ge> 7 \<and> take 7 str = import_str \<longleftrightarrow> take 7 str = import_str" by blast
  have "match_str st = Some (snd (hd C))" using s(1) C(2) by (auto simp: compl_inv_def)
  then show ?thesis
    using walk s(3,5) st unfolding mp_repl_autocomplete_def len7 obj' by (auto simp: Let_def)
qed

lemma all_listed:
  assumes names: "names_ok test names" and C: "C = candidates s test names" "C \<noteq> []"
    and st: "st = find_completions s test names compl_init" and d: "(q, d) \<in> set C" "10 \<notin> set d"
  shows "sublist d (cook (print_completions s test (filter (\<lambda>(q, d). q_first st \<le> q \<and> q \<le> q_last st) names)))"
proof (rule sublist_cook [OF _ d(2)])
  note s = search_state [OF names C st]
  have "q_first st = fst (hd C)" "q_last st = fst (last C)" using s(1) C(2) by (auto simp: compl_inv_def)
  then have q: "(q, d) \<in> set (filter (\<lambda>(q, d). q_first st \<le> q \<and> q \<le> q_last st) names)" "0 \<notin> set d" "is_candidate s test q d"
    using d(1) s(4) candidates_in_range [of names q d s test] names C(1) by (auto simp: names_ok_def)
  then show "sublist d (print_completions s test (filter (\<lambda>(q, d). q_first st \<le> q \<and> q \<le> q_last st) names))"
    using print_completions_shows [OF q(1,3)] c_str_plain unfolding print_completions_def by metis
qed

text \<open>
  C29. What completion does when there are candidates: names that the object (or, after \<^verbatim>\<open>import\<close>, the
  table of modules) has and that start with the partial name \<open>s\<close>. Characters are inserted
  exactly when the longest common prefix of the candidates is longer than \<open>s\<close>, and then they extend
  \<open>s\<close> to it. Nothing is done when \<open>s\<close> is the one candidate. Otherwise \<open>s\<close> is itself the
  longest common prefix of several candidates, and the list that is printed has the names of all of
  them.
\<close>

theorem autocomplete_sound:
  assumes names: "names_ok (test obj') names"
    and walk: "walk_chain load main (rev (takeWhile chain_char (rev str))) = Some (obj, s)"
    and obj': "obj' = (if take 7 str = import_str then None else Some obj)"
    and C: "C = candidates s (test obj') names" "C \<noteq> []"
  shows "case mp_repl_autocomplete names test load main str of
     Compl_one ext \<Rightarrow> ext \<noteq> [] \<and> longest_common C (s @ ext)
   | Compl_many out \<Rightarrow> 1 < length C \<and> longest_common C s \<and> (\<forall>(q, d) \<in> set C. 10 \<notin> set d \<longrightarrow> sublist d out)
   | Compl_none \<Rightarrow> map snd C = [s]"
proof -
  define st where "st = find_completions s (test obj') names compl_init"
  note s = search_state [OF names C st_def] and eq = autocomplete_eq [where test = test, OF names walk obj' C st_def]
  note lc = compl_longest_ext [OF s(1) C(2) s(2)]
  have i: "length s \<le> match_len st" "match_len st \<le> length (snd (hd C))" using s(1) C(2) by (auto simp: compl_inv_def)
  consider "length C = 1" "match_len st = length s" | "match_len st \<noteq> length s"
    | "length C \<noteq> 1" "match_len st = length s" by blast
  then show ?thesis
  proof cases
    case 1
    then have "snd (hd C) = s" using compl_single [OF s(1) 1(1)] s(2) by simp
    then show ?thesis using eq 1 by (cases C) auto
  next
    case 2
    then show ?thesis using eq lc i by auto
  next
    case 3
    then have "1 < length C" using C(2) by (cases C) auto
    then show ?thesis using eq 3 lc all_listed [OF names C st_def] by auto
  qed
qed

definition sample_names :: "(nat \<times> byte list) list" where
  "sample_names = [(2, [10]), (3, [97, 98, 99]), (4, [97, 98, 100]), (5, [120])]"

theorem autocomplete_sound_witness:
  "\<exists>ext. mp_repl_autocomplete sample_names (\<lambda>ob q. 2 < q) (\<lambda>ob w. None) () [97] = Compl_one ext \<and> ext \<noteq> [] \<and>
   longest_common [(3, [97, 98, 99]), (4, [97, 98, 100])] ([97] @ ext)"
proof -
  have n: "names_ok (\<lambda>q. 2 < q) sample_names" by (simp add: names_ok_def sample_names_def)
  have w: "walk_chain (\<lambda>(ob::unit) w. None) () (rev (takeWhile chain_char (rev [97]))) = Some ((), [97])"
    by (simp add: chain_char_def unichar_iff walk_chain.simps)
  have c: "candidates [97] (\<lambda>q. 2 < q) sample_names = [(3, [97, 98, 99]), (4, [97, 98, 100])]"
    by (simp add: candidates_def sample_names_def is_candidate_def)
  have r: "mp_repl_autocomplete sample_names (\<lambda>ob q. 2 < q) (\<lambda>ob w. None) () [97] = Compl_one [98]"
    using w by (simp add: mp_repl_autocomplete_def Let_def sample_names_def compl_init_def is_candidate_def
        common_prefix_from.simps chr_at_def)
  show ?thesis
    using autocomplete_sound [where test = "\<lambda>ob q. 2 < q" and names = sample_names and str = "[97]", OF n w refl refl] r
    by (simp add: c)
qed

end
