(* ===== verification/Readline_Correct.thy ===== *)
theory Readline_Correct
  imports Readline
begin

text \<open>
  The line editor against a terminal. A terminal is a line of cells, a column and the state of its
  escape-sequence parser; it understands the few VT100 commands that the editor sends. The main
  invariant says that the terminal shows the prompt followed by the line being edited, with its cursor
  at the editor's cursor position.
\<close>

subsection \<open>A terminal\<close>

datatype tstate = T_ground | T_esc | T_csi nat

record terminal =
  t_cells :: "byte list"
  t_col :: nat
  t_state :: tstate

definition printable :: "byte \<Rightarrow> bool" where
  "printable b \<longleftrightarrow> 32 \<le> unat b \<and> unat b \<le> 126"

text \<open>
  A printable character is written at the cursor; backspace moves left, carriage return to the first
  column, line feed to a new, empty line; \<open>ESC [ n D\<close> moves left by \<open>n\<close> and \<open>ESC [ K\<close> clears to
  the end of the line.
\<close>

definition term_byte :: "byte \<Rightarrow> terminal \<Rightarrow> terminal" where
  "term_byte b t =
    (case t_state t of
       T_ground \<Rightarrow>
         if b = 8 then t\<lparr>t_col := t_col t - 1\<rparr>
         else if b = 13 then t\<lparr>t_col := 0\<rparr>
         else if b = 10 then t\<lparr>t_cells := []\<rparr>
         else if b = 27 then t\<lparr>t_state := T_esc\<rparr>
         else if printable b then
           t\<lparr>t_cells := overwrite (t_cells t @ replicate (t_col t + 1 - length (t_cells t)) 32) (t_col t) [b],
             t_col := t_col t + 1\<rparr>
         else t
     | T_esc \<Rightarrow> t\<lparr>t_state := (if b = 0x5b then T_csi 0 else T_ground)\<rparr>
     | T_csi n \<Rightarrow>
         if 48 \<le> unat b \<and> unat b \<le> 57 then t\<lparr>t_state := T_csi (10 * n + (unat b - 48))\<rparr>
         else if b = 0x44 then t\<lparr>t_col := t_col t - max n 1, t_state := T_ground\<rparr>
         else if b = 0x4b then t\<lparr>t_cells := take (t_col t) (t_cells t), t_state := T_ground\<rparr>
         else t\<lparr>t_state := T_ground\<rparr>)"

definition term_run :: "byte list \<Rightarrow> terminal \<Rightarrow> terminal" where
  "term_run bs t = fold term_byte bs t"

definition screen :: "byte list \<Rightarrow> nat \<Rightarrow> terminal" where
  "screen cells col = \<lparr>t_cells = cells, t_col = col, t_state = T_ground\<rparr>"

lemma term_run_append [simp]: "term_run (a @ b) t = term_run b (term_run a t)"
  by (simp add: term_run_def)

lemma term_run_Nil [simp]: "term_run [] t = t"
  by (simp add: term_run_def)

lemma term_run_Cons: "term_run (b # bs) t = term_run bs (term_byte b t)"
  by (simp add: term_run_def)

lemma printable_not_control: "printable b \<Longrightarrow> b \<noteq> 8 \<and> b \<noteq> 13 \<and> b \<noteq> 10 \<and> b \<noteq> 27 \<and> b \<noteq> 0"
  by (auto simp: printable_def)

lemma term_printable:
  assumes "\<forall>b\<in>set s. printable b" and "col \<le> length cells"
  shows "term_run s (screen cells col) = screen (take col cells @ s @ drop (col + length s) cells) (col + length s)"
  using assms
proof (induction s arbitrary: cells col)
  case (Cons b s)
  let ?c = "take col cells @ b # drop (Suc col) cells"
  have b: "term_byte b (screen cells col) = screen ?c (Suc col)"
  proof (cases "col = length cells")
    case False
    then show ?thesis using Cons.prems printable_not_control [of b]
      by (simp add: term_byte_def screen_def overwrite_def)
  qed (use Cons.prems printable_not_control [of b] in \<open>simp add: term_byte_def screen_def overwrite_def\<close>)
  have "take (Suc col) ?c = take col cells @ [b]" "drop (Suc (col + length s)) ?c = drop (Suc (col + length s)) cells"
    using Cons.prems(2) by (simp_all add: min_def add.commute)
  then show ?case using Cons.IH [of "Suc col" ?c] Cons.prems b by (simp add: term_run_Cons)
qed simp

lemma term_backspaces: "term_run (replicate n 8) (screen cells col) = screen cells (col - n)"
  by (induction n arbitrary: col) (auto simp: term_run_Cons term_byte_def screen_def)

lemma unat_digit: "d < 10 \<Longrightarrow> unat (word_of_nat (48 + d) :: byte) = 48 + d"
  by (simp add: unsigned_of_nat take_bit_nat_eq_self del: of_nat_add)

lemma term_csi_digit:
  assumes "d < 10" and "t_state t = T_csi n"
  shows "term_byte (word_of_nat (48 + d)) t = t\<lparr>t_state := T_csi (10 * n + d)\<rparr>"
  unfolding term_byte_def using unat_digit [OF assms(1)] assms by (simp del: of_nat_add)

lemma term_move_cursor_back:
  assumes "n < 1000"
  shows "term_run (mp_hal_move_cursor_back n) (screen cells col) = screen cells (col - n)"
proof -
  have d: "n div 100 < 10" "n mod 100 div 10 < 10" "n mod 10 < 10" using assms by linarith+
  have esc: "term_byte 0x5b (term_byte 0x1b (screen cells col)) = (screen cells col)\<lparr>t_state := T_csi 0\<rparr>"
    by (simp add: term_byte_def screen_def)
  have mv: "term_byte 0x44 ((screen cells col)\<lparr>t_state := T_csi m\<rparr>) = screen cells (col - max m 1)" for m
    by (simp add: term_byte_def screen_def)
  have split: "k = 10 * (10 * a + b) + c" if "a * 100 + m = k" "b * 10 + c = m" for a b c m k :: nat
    using that by simp
  have m10: "n mod 100 mod 10 = n mod 10" by (simp add: mod_mod_cancel)
  have v: "n = 10 * (10 * (n div 100) + n mod 100 div 10) + n mod 10"
    by (rule split [OF div_mult_mod_eq [of n 100] div_mult_mod_eq [of "n mod 100" 10, unfolded m10]])
  consider "n \<le> 4" | "4 < n" "n \<le> 9" | "9 < n" "n \<le> 99" | "99 < n" by linarith
  then show ?thesis
  proof cases
    case 1
    then show ?thesis by (simp add: mp_hal_move_cursor_back_def term_backspaces)
  next
    case 2
    then show ?thesis using d(3) esc mv
      by (simp add: mp_hal_move_cursor_back_def term_run_Cons term_csi_digit del: of_nat_add)
  next
    case 3
    then have "n = 10 * (n mod 100 div 10) + n mod 10" using v by simp
    then show ?thesis using 3 d(2,3) esc mv [of n]
      by (simp add: mp_hal_move_cursor_back_def term_run_Cons term_csi_digit del: of_nat_add mod_less)
  next
    case 4
    then show ?thesis using d esc mv [of n] v
      by (simp add: mp_hal_move_cursor_back_def term_run_Cons term_csi_digit del: of_nat_add)
  qed
qed

lemma term_erase:
  "term_run mp_hal_erase_line_from_cursor (screen cells col) = screen (take col cells) col"
  by (simp add: mp_hal_erase_line_from_cursor_def term_run_Cons term_byte_def screen_def)

subsection \<open>Redrawing\<close>

definition rl_text :: "readline_t \<Rightarrow> byte list" where
  "rl_text rl = drop (rl_orig_line_len rl) (vstr_bytes (rl_line rl))"

text \<open>
  \<open>redraw_from rl t ll sb fc sf\<close>: what the redraw code needs. The edit left the text before the
  stepped-back cursor as it is on the screen \<open>t\<close>, and either the rest of the line is drawn again
  (and cleared first where it got shorter) or the screen already shows the text.
\<close>

definition redraw_from :: "readline_t \<Rightarrow> byte list \<Rightarrow> nat \<Rightarrow> nat \<Rightarrow> bool \<Rightarrow> nat \<Rightarrow> bool" where
  "redraw_from rl cells ll sb fc sf \<longleftrightarrow>
    (let n = vs_len (rl_line rl); o' = rl_orig_line_len rl; cb = rl_cursor_pos rl - sb; P = length (rl_prompt rl) in
     vstr_wf (rl_line rl) \<and> o' + sb \<le> rl_cursor_pos rl \<and> cb + sf \<le> n \<and> n < 2 ^ 30 \<and> n - o' < 1000 \<and> sb < 1000 \<and>
     rl_cursor_pos rl < 2 ^ 30 \<and>
     (\<forall>b\<in>set (rl_text rl). printable b) \<and> P + (cb - o') \<le> length cells \<and>
     take (P + (cb - o')) cells = rl_prompt rl @ take (cb - o') (rl_text rl) \<and>
     (if fc then n < ll \<or> length cells \<le> P + (n - o') else cells = rl_prompt rl @ rl_text rl))"

lemma subbuf_text:
  assumes "vstr_wf (rl_line rl)" and "rl_orig_line_len rl \<le> c" and "c + k \<le> vs_len (rl_line rl)"
  shows "subbuf c k (vs_buf (rl_line rl)) = take k (drop (c - rl_orig_line_len rl) (rl_text rl))"
proof -
  have "drop (c - rl_orig_line_len rl) (rl_text rl) = drop c (take (vs_len (rl_line rl)) (vs_buf (rl_line rl)))"
    using assms(2) by (simp add: rl_text_def vstr_bytes_def)
  then show ?thesis using assms(3) by (simp add: subbuf_def drop_take min_def)
qed

lemma redraw_step_back:
  assumes "redraw_from rl cells ll sb fc sf"
  defines "cb \<equiv> rl_cursor_pos rl - sb"
  shows "\<exists>o1. (if int sb > 0
       then tx (mp_hal_move_cursor_back (nat (int sb))) (rl\<lparr>rl_cursor_pos := sub32 (rl_cursor_pos rl) (nat (int sb))\<rparr>)
       else rl) = rl\<lparr>rl_cursor_pos := cb, rl_out := rl_out rl @ o1\<rparr> \<and>
    term_run o1 (screen cells (length (rl_prompt rl) + (rl_cursor_pos rl - rl_orig_line_len rl))) =
      screen cells (length (rl_prompt rl) + (cb - rl_orig_line_len rl))"
proof (cases "sb = 0")
  case True
  then show ?thesis by (intro exI [of _ "[]"]) (simp add: cb_def)
next
  case False
  have b: "sb \<le> rl_cursor_pos rl" "rl_cursor_pos rl < 2 ^ 32" "sb < 1000" "rl_orig_line_len rl + sb \<le> rl_cursor_pos rl"
    using assms(1) by (auto simp: redraw_from_def Let_def)
  show ?thesis
    using False b(3,4) sub32_le [OF b(1,2)] term_move_cursor_back [OF b(3)]
    by (intro exI [of _ "mp_hal_move_cursor_back sb"]) (simp add: tx_def cb_def add.commute)
qed

lemma redraw_sync:
  assumes R: "redraw_from rl cells ll sb fc sf"
  defines "cb \<equiv> rl_cursor_pos rl - sb"
  shows "\<exists>o'. rl_redraw ll rl (int sb) fc (int sf) = rl\<lparr>rl_cursor_pos := cb + sf, rl_out := rl_out rl @ o'\<rparr> \<and>
    term_run o' (screen cells (length (rl_prompt rl) + (rl_cursor_pos rl - rl_orig_line_len rl))) =
      screen (rl_prompt rl @ rl_text rl) (length (rl_prompt rl) + (cb + sf - rl_orig_line_len rl))"
proof -
  let ?n = "vs_len (rl_line rl)" and ?o = "rl_orig_line_len rl" and ?P = "length (rl_prompt rl)"
  obtain o1 where o1: "(if int sb > 0
       then tx (mp_hal_move_cursor_back (nat (int sb))) (rl\<lparr>rl_cursor_pos := sub32 (rl_cursor_pos rl) (nat (int sb))\<rparr>)
       else rl) = rl\<lparr>rl_cursor_pos := cb, rl_out := rl_out rl @ o1\<rparr>"
    and t1: "term_run o1 (screen cells (?P + (rl_cursor_pos rl - ?o))) = screen cells (?P + (cb - ?o))"
    using redraw_step_back [OF R] unfolding cb_def by blast
  have r: "vstr_wf (rl_line rl)" "?o \<le> cb" "cb + sf \<le> ?n" "?n < 2 ^ 30" "?n - ?o < 1000"
    "\<forall>b\<in>set (rl_text rl). printable b" "?P + (cb - ?o) \<le> length cells"
    "take (?P + (cb - ?o)) cells = rl_prompt rl @ take (cb - ?o) (rl_text rl)"
    using R by (auto simp: redraw_from_def Let_def cb_def)
  have len: "length (rl_text rl) = ?n - ?o" using r(1) by (simp add: rl_text_def)
  have fwd: "nat ((int cb + int sf) mod 2 ^ 32) = cb + sf" using r(3,4) by (simp add: nat_add_distrib)
  have s32: "sub32 ?n cb = ?n - cb" "sub32 ?n (cb + sf) = ?n - (cb + sf)" using r(3,4) by (auto intro!: sub32_le)
  have pr: "\<forall>b\<in>set (take k (drop j (rl_text rl))). printable b" for k j
    using r(6) by (meson in_set_dropD in_set_takeD)
  show ?thesis
  proof (cases fc)
    case True
    let ?s = "take (?n - cb) (drop (cb - ?o) (rl_text rl))"
    let ?e = "if ?n < ll then mp_hal_erase_line_from_cursor else []"
    let ?cells = "if ?n < ll then take (?P + (cb - ?o)) cells else cells"
    let ?m = "mp_hal_move_cursor_back (?n - (cb + sf))"
    have sb: "subbuf cb (?n - cb) (vs_buf (rl_line rl)) = ?s" using subbuf_text [OF r(1,2)] r(3) by simp
    have s: "?s = drop (cb - ?o) (rl_text rl)" "length ?s = ?n - cb" using len r(2,3) by auto
    have eq: "rl_redraw ll rl (int sb) fc (int sf) =
        rl\<lparr>rl_cursor_pos := cb + sf, rl_out := rl_out rl @ o1 @ ?e @ ?s @ ?m\<rparr>"
      using True o1 fwd s32 sb unfolding rl_redraw_def Let_def by (simp add: tx_def nat_int_add)
    have e: "term_run ?e (screen cells (?P + (cb - ?o))) = screen ?cells (?P + (cb - ?o))"
      by (simp add: term_erase)
    have keep: "?n < ll \<or> length cells \<le> ?P + (?n - ?o)" using R True by (simp add: redraw_from_def Let_def)
    have c1: "take (?P + (cb - ?o)) ?cells = rl_prompt rl @ take (cb - ?o) (rl_text rl)" using r(8) by simp
    have c2: "?P + (cb - ?o) \<le> length ?cells" using r(7) by simp
    have "length ?cells \<le> ?P + (cb - ?o) + (?n - cb)" using keep r(2,3) by (cases "?n < ll") simp_all
    then have c3: "drop (?P + (?n - ?o)) ?cells = []" using r(2,3) by simp
    have P: "?P + (cb - ?o) + length ?s = ?P + (?n - ?o)" using s(2) r(2,3) by linarith
    have "term_run ?s (screen ?cells (?P + (cb - ?o))) = screen (rl_prompt rl @ rl_text rl) (?P + (?n - ?o))"
      unfolding term_printable [OF pr c2] c1 P c3 by (simp add: s(1))
    moreover have "?n - (cb + sf) < 1000" using r(2,3,5) by linarith
    from term_move_cursor_back [OF this] have "term_run ?m (screen (rl_prompt rl @ rl_text rl) (?P + (?n - ?o))) =
        screen (rl_prompt rl @ rl_text rl) (?P + (cb + sf - ?o))" using r(2,3) by simp
    ultimately show ?thesis using eq t1 e by (intro exI [of _ "o1 @ ?e @ ?s @ ?m"]) simp
  next
    case False
    let ?s = "take sf (drop (cb - ?o) (rl_text rl))"
    have cells: "cells = rl_prompt rl @ rl_text rl" using R False by (simp add: redraw_from_def Let_def)
    have sb: "subbuf cb sf (vs_buf (rl_line rl)) = ?s" by (rule subbuf_text [OF r(1,2,3)])
    have s: "length ?s = sf" using len r(2,3) by simp
    have eq: "rl_redraw ll rl (int sb) fc (int sf) = rl\<lparr>rl_cursor_pos := cb + sf, rl_out := rl_out rl @ o1 @ ?s\<rparr>"
      using False o1 fwd sb unfolding rl_redraw_def Let_def by (cases "sf = 0") (simp_all add: tx_def nat_int_add)
    have c: "take (?P + (cb - ?o)) cells @ ?s @ drop (?P + (cb - ?o) + sf) cells = cells"
      unfolding cells by simp (metis append_take_drop_id drop_drop add.commute)
    have "term_run ?s (screen cells (?P + (cb - ?o))) = screen cells (?P + (cb + sf - ?o))"
      unfolding term_printable [OF pr r(7)] s c using r(2) by (simp add: add.assoc)
    then show ?thesis using eq t1 cells by (intro exI [of _ "o1 @ ?s"]) simp
  qed
qed

subsection \<open>The invariant of the editor\<close>

definition hist_ok :: "byte list option list \<Rightarrow> bool" where
  "hist_ok hist \<longleftrightarrow> length hist = 8 \<and>
    (\<forall>i j. i < j \<and> j < 8 \<and> hist ! i = None \<longrightarrow> hist ! j = None) \<and>
    (\<forall>h. Some h \<in> set hist \<longrightarrow> (\<forall>b\<in>set h. printable b) \<and> length h < 2 ^ 30)"

definition hist_cur_ok :: "readline_t \<Rightarrow> bool" where
  "hist_cur_ok rl \<longleftrightarrow> - 1 \<le> rl_hist_cur rl \<and> rl_hist_cur rl < 8 \<and>
    (0 \<le> rl_hist_cur rl \<longrightarrow> readline_hist rl ! nat (rl_hist_cur rl) \<noteq> None)"

definition rl_wf :: "readline_t \<Rightarrow> bool" where
  "rl_wf rl \<longleftrightarrow> vstr_wf (rl_line rl) \<and> rl_orig_line_len rl \<le> rl_cursor_pos rl \<and>
    rl_cursor_pos rl \<le> vs_len (rl_line rl) \<and> (\<forall>b\<in>set (rl_text rl). printable b) \<and>
    (\<forall>b\<in>set (rl_prompt rl). printable b) \<and> hist_ok (readline_hist rl) \<and> hist_cur_ok rl"

text \<open>The line fits the three digits of the cursor command, and the sizes stay far from wrapping.\<close>

definition rl_fits :: "readline_t \<Rightarrow> bool" where
  "rl_fits rl \<longleftrightarrow> vs_len (rl_line rl) < 2 ^ 30 \<and> vs_len (rl_line rl) - rl_orig_line_len rl < 1000"

definition rl_screen :: "readline_t \<Rightarrow> terminal" where
  "rl_screen rl = screen (rl_prompt rl @ rl_text rl)
    (length (rl_prompt rl) + (rl_cursor_pos rl - rl_orig_line_len rl))"

text \<open>
  What is asked of the completion function: the characters it inserts are printable, and what it prints
  leaves the terminal at the start of an empty line.
\<close>

definition completer_ok :: "(byte list \<Rightarrow> completion) \<Rightarrow> bool" where
  "completer_ok ac \<longleftrightarrow>
    (\<forall>typed s. ac typed = Compl_one s \<longrightarrow> (\<forall>b\<in>set s. printable b) \<and> length s < 1000) \<and>
    (\<forall>typed out cells col. ac typed = Compl_many out \<longrightarrow> term_run out (screen cells col) = screen [] 0)"

text \<open>The state handed to the redraw code, relative to the state before the character.\<close>

definition step_good :: "readline_t \<Rightarrow> readline_t \<Rightarrow> nat \<Rightarrow> bool \<Rightarrow> nat \<Rightarrow> bool" where
  "step_good rl rl' sb fc sf \<longleftrightarrow>
    rl_orig_line_len rl' = rl_orig_line_len rl \<and> rl_prompt rl' = rl_prompt rl \<and>
    rl_cursor_pos rl' = rl_cursor_pos rl \<and> readline_hist rl' = readline_hist rl \<and> hist_cur_ok rl' \<and>
    (\<exists>o0 cells. rl_out rl' = rl_out rl @ o0 \<and>
      term_run o0 (rl_screen rl) = screen cells (length (rl_prompt rl) + (rl_cursor_pos rl - rl_orig_line_len rl)) \<and>
      redraw_from rl' cells (vs_len (rl_line rl)) sb fc sf)"

lemma length_rl_text: "vstr_wf (rl_line rl) \<Longrightarrow> length (rl_text rl) = vs_len (rl_line rl) - rl_orig_line_len rl"
  by (simp add: rl_text_def)

lemma step_goodI:
  assumes "rl_orig_line_len rl' = rl_orig_line_len rl" "rl_prompt rl' = rl_prompt rl"
    "rl_cursor_pos rl' = rl_cursor_pos rl" "readline_hist rl' = readline_hist rl" "hist_cur_ok rl'"
    "rl_out rl' = rl_out rl" "redraw_from rl' (rl_prompt rl @ rl_text rl) (vs_len (rl_line rl)) sb fc sf"
  shows "step_good rl rl' sb fc sf"
  using assms unfolding step_good_def rl_screen_def by (metis append_Nil2 term_run_Nil)

lemma step_move:
  assumes wf: "rl_wf rl" and fits: "rl_fits rl"
    and same: "rl_line rl' = rl_line rl" "rl_orig_line_len rl' = rl_orig_line_len rl" "rl_prompt rl' = rl_prompt rl"
      "rl_cursor_pos rl' = rl_cursor_pos rl" "readline_hist rl' = readline_hist rl" "rl_hist_cur rl' = rl_hist_cur rl"
      "rl_out rl' = rl_out rl"
    and sb: "rl_orig_line_len rl + sb \<le> rl_cursor_pos rl" and sf: "rl_cursor_pos rl - sb + sf \<le> vs_len (rl_line rl)"
  shows "step_good rl rl' sb False sf"
proof -
  have t: "rl_text rl' = rl_text rl" using same by (simp add: rl_text_def)
  have "redraw_from rl' (rl_prompt rl @ rl_text rl) (vs_len (rl_line rl)) sb False sf"
    using wf fits sb sf same t length_rl_text [of rl]
    by (auto simp: redraw_from_def Let_def rl_wf_def rl_fits_def)
  moreover have "hist_cur_ok rl'" using wf same by (simp add: rl_wf_def hist_cur_ok_def)
  ultimately show ?thesis using same by (intro step_goodI) simp_all
qed

lemma step_edit:
  assumes wf: "rl_wf rl" and fits: "rl_fits rl"
    and same: "rl_orig_line_len rl' = rl_orig_line_len rl" "rl_prompt rl' = rl_prompt rl"
      "rl_cursor_pos rl' = rl_cursor_pos rl" "readline_hist rl' = readline_hist rl" "rl_out rl' = rl_out rl"
    and hc: "hist_cur_ok rl'" and v: "vstr_wf (rl_line rl')" "rl_fits rl'" "\<forall>b\<in>set (rl_text rl'). printable b"
    and sb: "rl_orig_line_len rl + sb \<le> rl_cursor_pos rl" and sf: "rl_cursor_pos rl - sb + sf \<le> vs_len (rl_line rl')"
    and pre: "take (rl_cursor_pos rl - sb) (vstr_bytes (rl_line rl')) = take (rl_cursor_pos rl - sb) (vstr_bytes (rl_line rl))"
  shows "step_good rl rl' sb True sf"
proof -
  let ?k = "rl_cursor_pos rl - sb - rl_orig_line_len rl"
  have t: "take ?k (rl_text rl') = take ?k (rl_text rl)"
    using arg_cong [OF pre, of "drop (rl_orig_line_len rl)"] same(1) sb by (simp add: rl_text_def drop_take)
  have len: "length (rl_text rl) = vs_len (rl_line rl) - rl_orig_line_len rl" using wf by (simp add: rl_wf_def length_rl_text)
  have "redraw_from rl' (rl_prompt rl @ rl_text rl) (vs_len (rl_line rl)) sb True sf"
    unfolding redraw_from_def Let_def same
    using wf fits v sb sf t len by (auto simp: rl_wf_def rl_fits_def same)
  then show ?thesis using same hc by (intro step_goodI) simp_all
qed

lemma redraw_keeps:
  assumes good: "step_good rl rl' sb fc sf" and wf: "rl_wf rl"
  defines "rl2 \<equiv> rl_redraw (vs_len (rl_line rl)) rl' (int sb) fc (int sf)"
  shows "rl_wf rl2 \<and> rl_orig_line_len rl2 = rl_orig_line_len rl \<and> rl_prompt rl2 = rl_prompt rl \<and>
    rl_line rl2 = rl_line rl' \<and> rl_escape_seq rl2 = rl_escape_seq rl' \<and>
    (\<exists>o'. rl_out rl2 = rl_out rl @ o' \<and> term_run o' (rl_screen rl) = rl_screen rl2)"
proof -
  from good obtain o0 cells where g: "rl_orig_line_len rl' = rl_orig_line_len rl" "rl_prompt rl' = rl_prompt rl"
    "rl_cursor_pos rl' = rl_cursor_pos rl" "readline_hist rl' = readline_hist rl" "hist_cur_ok rl'"
    "rl_out rl' = rl_out rl @ o0"
    "term_run o0 (rl_screen rl) = screen cells (length (rl_prompt rl) + (rl_cursor_pos rl - rl_orig_line_len rl))"
    and rf: "redraw_from rl' cells (vs_len (rl_line rl)) sb fc sf"
    by (auto simp: step_good_def)
  let ?cb = "rl_cursor_pos rl' - sb"
  obtain o1 where r: "rl2 = rl'\<lparr>rl_cursor_pos := ?cb + sf, rl_out := rl_out rl' @ o1\<rparr>"
    "term_run o1 (screen cells (length (rl_prompt rl') + (rl_cursor_pos rl' - rl_orig_line_len rl'))) =
      screen (rl_prompt rl' @ rl_text rl') (length (rl_prompt rl') + (?cb + sf - rl_orig_line_len rl'))"
    using redraw_sync [OF rf] unfolding rl2_def by blast
  have t: "rl_text rl2 = rl_text rl'" using r(1) by (simp add: rl_text_def)
  have "rl_wf rl2"
    using rf wf g(1-5) t by (auto simp: rl_wf_def r(1) redraw_from_def Let_def hist_cur_ok_def)
  moreover have "term_run (o0 @ o1) (rl_screen rl) = rl_screen rl2"
    using g r(2) t by (simp add: rl_screen_def r(1))
  ultimately show ?thesis using r(1) g by (auto simp: rl_screen_def)
qed

subsection \<open>The keys\<close>

definition good_redraw :: "readline_t \<Rightarrow> rl_step \<Rightarrow> bool" where
  "good_redraw rl st \<longleftrightarrow> (case st of
     Redraw rl' sb fc sf \<Rightarrow> rl_fits rl' \<longrightarrow> 0 \<le> sb \<and> 0 \<le> sf \<and> step_good rl rl' (nat sb) fc (nat sf)
   | Return r rl' \<Rightarrow> False)"

lemma diff_int_nat: "b \<le> a \<Longrightarrow> a < 2 ^ 31 \<Longrightarrow> diff_int a b = int (a - b)"
  unfolding diff_int_def by (subst int32_of_id) (auto simp: of_nat_diff)

lemma rl_bounds:
  assumes "rl_wf rl" and "rl_fits rl"
  shows "vstr_wf (rl_line rl)" "rl_orig_line_len rl \<le> rl_cursor_pos rl" "rl_cursor_pos rl \<le> vs_len (rl_line rl)"
    "vs_len (rl_line rl) < 2 ^ 30" "rl_cursor_pos rl < 2 ^ 31" "vs_len (rl_line rl) < 2 ^ 31"
    "length (vstr_bytes (rl_line rl)) = vs_len (rl_line rl)" "rl_orig_line_len rl \<le> vs_len (rl_line rl)"
  using assms by (auto simp: rl_wf_def rl_fits_def)

lemma good_move:
  assumes "rl_wf rl" and "rl_fits rl"
    and "rl_line rl' = rl_line rl" "rl_orig_line_len rl' = rl_orig_line_len rl" "rl_prompt rl' = rl_prompt rl"
      "rl_cursor_pos rl' = rl_cursor_pos rl" "readline_hist rl' = readline_hist rl" "rl_hist_cur rl' = rl_hist_cur rl"
      "rl_out rl' = rl_out rl"
    and "rl_orig_line_len rl + sb \<le> rl_cursor_pos rl" and "rl_cursor_pos rl - sb + sf \<le> vs_len (rl_line rl)"
  shows "good_redraw rl (Redraw rl' (int sb) False (int sf))"
  using step_move [OF assms] by (simp add: good_redraw_def)

lemma good_still:
  assumes "rl_wf rl" and "rl_fits rl"
  shows "good_redraw rl (Redraw (rl\<lparr>rl_escape_seq := e, rl_escape_seq_buf := d\<rparr>) 0 False 0)"
  using good_move [OF assms, of "rl\<lparr>rl_escape_seq := e, rl_escape_seq_buf := d\<rparr>" 0 0] rl_bounds [OF assms] by simp

lemma good_edit:
  assumes wf: "rl_wf rl" "rl_fits rl"
    and "rl' = rl\<lparr>rl_escape_seq := e, rl_hist_cur := h, rl_line := v\<rparr>" and "hist_cur_ok rl'" and "vstr_wf v"
    and "\<forall>b\<in>set (drop (rl_orig_line_len rl) (vstr_bytes v)). printable b"
    and "rl_orig_line_len rl + sb \<le> rl_cursor_pos rl" and "rl_cursor_pos rl - sb + sf \<le> vs_len v"
    and "take (rl_cursor_pos rl - sb) (vstr_bytes v) = take (rl_cursor_pos rl - sb) (vstr_bytes (rl_line rl))"
  shows "good_redraw rl (Redraw rl' (int sb) True (int sf))"
  using step_edit [OF wf, of rl' sb sf] assms(3-) by (simp add: good_redraw_def rl_text_def)

lemma good_home: "rl_wf rl \<Longrightarrow> rl_fits rl \<Longrightarrow> good_redraw rl (home_key rl)"
  using good_move [of rl "rl\<lparr>rl_escape_seq := ESEQ_NONE\<rparr>" "rl_cursor_pos rl - rl_orig_line_len rl" 0] rl_bounds [of rl]
  by (simp add: home_key_def diff_int_nat)

lemma good_end: "rl_wf rl \<Longrightarrow> rl_fits rl \<Longrightarrow> good_redraw rl (end_key rl)"
  using good_move [of rl "rl\<lparr>rl_escape_seq := ESEQ_NONE\<rparr>" 0 "vs_len (rl_line rl) - rl_cursor_pos rl"] rl_bounds [of rl]
  by (simp add: end_key_def diff_int_nat)

text \<open>Deleting one character at position \<open>p\<close>.\<close>

lemma set_cut_out:
  assumes "m \<le> p"
  shows "set (drop m (take p xs @ drop (p + k) xs)) \<subseteq> set (drop m xs)"
proof -
  have "set (drop (m - length (take p xs)) (drop (p + k) xs)) \<subseteq> set (drop m xs)"
    using assms by (metis set_drop_subset set_drop_subset_set_drop subset_trans trans_le_add1)
  then show ?thesis by (auto simp: drop_take dest!: in_set_takeD)
qed

lemma good_cut:
  assumes wf: "rl_wf rl" "rl_fits rl"
    and p: "rl_orig_line_len rl \<le> p" "p < vs_len (rl_line rl)" "p + sb = rl_cursor_pos rl"
  shows "good_redraw rl (Redraw (rl\<lparr>rl_escape_seq := e, rl_line := vstr_cut_out_bytes p 1 (rl_line rl)\<rparr>) (int sb) True 0)"
proof -
  note bd = rl_bounds [OF wf]
  let ?v = "vstr_cut_out_bytes p 1 (rl_line rl)" and ?B = "vstr_bytes (rl_line rl)"
  have "p + 1 < 2 ^ 32" using p(2) bd(4) by simp
  note v = cut_out_wf [OF bd(1) this]
  then have b: "vstr_wf ?v" "vstr_bytes ?v = take p ?B @ drop (p + 1) ?B" by auto
  have len: "vs_len ?v = vs_len (rl_line rl) - 1"
    using vstr_bytes_length [OF b(1)] b(2) p(2) bd(7) by simp
  have "\<forall>x\<in>set (drop (rl_orig_line_len rl) (vstr_bytes ?v)). printable x"
    using wf(1) set_cut_out [OF p(1), of ?B 1] unfolding b(2) by (auto simp: rl_wf_def rl_text_def)
  moreover have "hist_cur_ok (rl\<lparr>rl_escape_seq := e, rl_line := ?v\<rparr>)" using wf by (simp add: rl_wf_def hist_cur_ok_def)
  ultimately show ?thesis
    using good_edit [OF wf, where rl' = "rl\<lparr>rl_escape_seq := e, rl_line := ?v\<rparr>" and e = e and
        h = "rl_hist_cur rl" and v = ?v and sb = sb and sf = 0] b len p bd(2,3,7)
    by simp
qed

lemma good_backspace:
  assumes "rl_wf rl" and "rl_fits rl"
  shows "good_redraw rl (rl_backspace rl)"
proof (cases "rl_orig_line_len rl < rl_cursor_pos rl")
  case True
  then show ?thesis using good_cut [OF assms, where p = "rl_cursor_pos rl - 1" and sb = 1 and e = "rl_escape_seq rl"] rl_bounds [OF assms]
    by (simp add: rl_backspace_def)
next
  case False
  then show ?thesis using good_still [OF assms, where e = "rl_escape_seq rl" and d = "rl_escape_seq_buf rl"] by (simp add: rl_backspace_def)
qed

lemma good_delete:
  assumes "rl_wf rl" and "rl_fits rl"
  shows "good_redraw rl (delete_key rl)"
proof (cases "rl_cursor_pos rl < vs_len (rl_line rl)")
  case True
  then show ?thesis using good_cut [OF assms, where p = "rl_cursor_pos rl" and sb = 0 and e = ESEQ_NONE] rl_bounds [OF assms] by (simp add: delete_key_def)
next
  case False
  then show ?thesis using good_still [OF assms, where e = ESEQ_NONE and d = "rl_escape_seq_buf rl"] by (simp add: delete_key_def)
qed

lemma ins_bytes_bytes:
  assumes "ins_bytes al p bs v = Inr v'" and "vstr_wf v" and "p \<le> vs_len v" and "vs_len v + length bs + 25 < 2 ^ 32"
  shows "vstr_wf v' \<and> vstr_bytes v' = take p (vstr_bytes v) @ bs @ drop p (vstr_bytes v)"
  using assms
proof (induction al p bs v rule: ins_bytes.induct)
  case (2 al p b bs v)
  have sm: "vstr_small 1 v" using 2(5) by (simp add: vstr_small_def)
  obtain v1 where v1: "vstr_ins_byte (m_renew al) p b v = Inr v1" using 2(2) by (auto split: sum.splits)
  have w: "vstr_wf v1" "vstr_bytes v1 = take p (vstr_bytes v) @ [b] @ drop p (vstr_bytes v)"
    using mren.ins_byte_yields [OF 2(3) sm, of al p b] unfolding v1 by (auto elim: vstr_yieldsE)
  have len: "vs_len v1 = vs_len v + 1" using vstr_bytes_length [OF w(1)] w(2) 2(3,4) by simp
  have tk: "take (p + 1) (vstr_bytes v1) = take p (vstr_bytes v) @ [b]" "drop (p + 1) (vstr_bytes v1) = drop p (vstr_bytes v)"
    using w(2) 2(3,4) by simp_all
  show ?case using 2(1) [OF v1] 2(2,4,5) v1 w(1) len tk by simp
qed simp

lemma ins_byte_bytes:
  assumes "vstr_ins_byte (m_renew al) p b v = Inr v'" and "vstr_wf v" and "p \<le> vs_len v" and "vs_len v + 26 < 2 ^ 32"
  shows "vstr_wf v' \<and> vstr_bytes v' = take p (vstr_bytes v) @ [b] @ drop p (vstr_bytes v)"
  using ins_bytes_bytes [of al p "[b]" v v'] assms by simp

lemma good_insert:
  assumes wf: "rl_wf rl" "rl_fits rl" and v: "vstr_wf v"
    "vstr_bytes v = take (rl_cursor_pos rl) (vstr_bytes (rl_line rl)) @ bs @ drop (rl_cursor_pos rl) (vstr_bytes (rl_line rl))"
    and bs: "\<forall>b\<in>set bs. printable b"
  shows "good_redraw rl (Redraw (rl\<lparr>rl_line := v\<rparr>) 0 True (int (length bs)))"
proof -
  note bd = rl_bounds [OF wf]
  let ?B = "vstr_bytes (rl_line rl)" and ?c = "rl_cursor_pos rl" and ?o = "rl_orig_line_len rl"
  have len: "vs_len v = vs_len (rl_line rl) + length bs"
    using vstr_bytes_length [OF v(1)] v(2) bd(3,7) by simp
  have "set (drop ?o (vstr_bytes v)) \<subseteq> set (rl_text rl) \<union> set bs"
  proof -
    have "drop ?o (vstr_bytes v) = take (?c - ?o) (drop ?o ?B) @ bs @ drop (?c - ?o) (drop ?o ?B)"
      using v(2) bd(2,3,7) by (simp add: drop_take)
    then show ?thesis by (auto simp: rl_text_def simp del: drop_drop dest: in_set_takeD in_set_dropD)
  qed
  then have "\<forall>b\<in>set (drop ?o (vstr_bytes v)). printable b" using wf(1) bs by (auto simp: rl_wf_def)
  moreover have "hist_cur_ok (rl\<lparr>rl_line := v\<rparr>)" using wf by (simp add: rl_wf_def hist_cur_ok_def)
  ultimately show ?thesis
    using good_edit [OF wf, where rl' = "rl\<lparr>rl_line := v\<rparr>" and e = "rl_escape_seq rl" and
        h = "rl_hist_cur rl" and v = v and sb = 0 and sf = "length bs"] v len bd(2,3,7)
    by simp
qed

text \<open>Replacing the text by a line of the history.\<close>

lemma good_history:
  assumes wf: "rl_wf rl" "rl_fits rl" and v: "vstr_wf v"
    "vstr_bytes v = take (rl_orig_line_len rl) (vstr_bytes (rl_line rl)) @ h"
    and h: "\<forall>b\<in>set h. printable b" and hc: "hist_cur_ok (rl\<lparr>rl_hist_cur := k, rl_line := v\<rparr>)"
  shows "good_redraw rl (redraw_line (rl_cursor_pos rl) (rl\<lparr>rl_hist_cur := k, rl_line := v\<rparr>))"
proof (cases "rl_fits (rl\<lparr>rl_hist_cur := k, rl_line := v\<rparr>)")
  case True
  note bd = rl_bounds [OF wf]
  let ?o = "rl_orig_line_len rl" and ?rl = "rl\<lparr>rl_hist_cur := k, rl_line := v\<rparr>"
  have len: "vs_len v = ?o + length h" using vstr_bytes_length [OF v(1)] v(2) bd(2,3,7) by simp
  have "vs_len v < 2 ^ 31" using True by (simp add: rl_fits_def)
  then have d: "diff_int (vs_len v) ?o = int (length h)" "diff_int (rl_cursor_pos rl) ?o = int (rl_cursor_pos rl - ?o)"
    using len bd by (simp_all add: diff_int_nat)
  have "drop ?o (vstr_bytes v) = h" using v(2) bd(7,8) by simp
  then show ?thesis
    using good_edit [OF wf, where rl' = ?rl and e = "rl_escape_seq rl" and
        h = k and v = v and sb = "rl_cursor_pos rl - ?o" and sf = "length h"] v len bd hc h d
    by (simp add: redraw_line_def)
qed (simp add: good_redraw_def redraw_line_def)

lemma add_str_bytes:
  assumes "vstr_add_str (m_renew al) h v = Inr v'" and "vstr_wf v" and "vs_len v + length h + 24 < 2 ^ 32"
    and "\<forall>b\<in>set h. printable b"
  shows "vstr_wf v' \<and> vstr_bytes v' = vstr_bytes v @ h"
proof -
  have h: "c_str h = h" using assms(4) printable_not_control unfolding c_str_def by (simp add: takeWhile_eq_all_conv)
  have sm: "vstr_small (length h) v" using assms(3) by (simp add: vstr_small_def)
  show ?thesis using mren.add_strn_yields [OF assms(2) sm, of al] assms(1) h
    by (auto simp: vstr_add_str_def elim!: vstr_yieldsE)
qed

lemma hist_entry_printable:
  assumes "hist_ok (readline_hist rl)" and "0 \<le> i" and "i < 8" and "hist_entry rl i = Some h"
  shows "(\<forall>b\<in>set h. printable b) \<and> length h < 2 ^ 30"
proof -
  have "Some h \<in> set (readline_hist rl)"
    using assms nth_mem [of "nat i" "readline_hist rl"] by (auto simp: hist_entry_def hist_ok_def)
  then show ?thesis using assms(1) by (auto simp: hist_ok_def)
qed

lemma good_up_arrow:
  assumes wf: "rl_wf rl" "rl_fits rl" and eq: "up_arrow_key al rl = Inr st"
  shows "good_redraw rl st"
proof -
  note bd = rl_bounds [OF wf]
  have hk: "hist_ok (readline_hist rl)" "- 1 \<le> rl_hist_cur rl" using wf(1) by (auto simp: rl_wf_def hist_cur_ok_def)
  let ?v0 = "(rl_line rl)\<lparr>vs_len := rl_orig_line_len rl\<rparr>" and ?k = "rl_hist_cur rl + 1"
  show ?thesis
  proof (cases "?k < 8 \<and> hist_entry rl ?k \<noteq> None")
    case True
    then obtain h where h: "hist_entry rl ?k = Some h" by auto
    then obtain v where v: "vstr_add_str (m_renew al) h ?v0 = Inr v"
      and st: "st = redraw_line (rl_cursor_pos rl) (rl\<lparr>rl_hist_cur := ?k, rl_line := v\<rparr>)"
      using eq True by (auto simp: up_arrow_key_def READLINE_HIST_SIZE_def Let_def split: sum.splits)
    have p: "\<forall>b\<in>set h. printable b" "length h < 2 ^ 30"
      using hist_entry_printable [OF hk(1) _ _ h] hk(2) True by auto
    have "vstr_wf ?v0" "vstr_bytes ?v0 = take (rl_orig_line_len rl) (vstr_bytes (rl_line rl))"
      using bd(1,8) by (simp_all add: vstr_wf_def vstr_bytes_def min_def)
    then have "vstr_wf v" "vstr_bytes v = take (rl_orig_line_len rl) (vstr_bytes (rl_line rl)) @ h"
      using add_str_bytes [OF v] p bd(4,8) by auto
    moreover have "hist_cur_ok (rl\<lparr>rl_hist_cur := ?k, rl_line := v\<rparr>)"
      using True hk(2) by (auto simp: hist_cur_ok_def hist_entry_def)
    ultimately show ?thesis unfolding st using good_history [OF wf _ _ p(1)] by blast
  next
    case False
    then show ?thesis
      using eq good_still [OF wf, where e = "rl_escape_seq rl" and d = "rl_escape_seq_buf rl"]
      by (auto simp: up_arrow_key_def READLINE_HIST_SIZE_def split: if_splits)
  qed
qed

lemma good_down_arrow:
  assumes wf: "rl_wf rl" "rl_fits rl" and eq: "down_arrow_key al rl = Inr st"
  shows "good_redraw rl st"
proof (cases "0 \<le> rl_hist_cur rl")
  case True
  note bd = rl_bounds [OF wf]
  let ?k = "rl_hist_cur rl - 1" and ?o = "rl_orig_line_len rl" and ?v0 = "vstr_cut_tail_bytes (sub32 (vs_len (rl_line rl)) (rl_orig_line_len rl)) (rl_line rl)"
  have hk: "hist_ok (readline_hist rl)" "rl_hist_cur rl < 8" "readline_hist rl ! nat (rl_hist_cur rl) \<noteq> None"
    using wf(1) True by (auto simp: rl_wf_def hist_cur_ok_def)
  have s: "sub32 (vs_len (rl_line rl)) ?o = vs_len (rl_line rl) - ?o" using bd(4,8) by (simp add: sub32_le)
  have v0: "vstr_wf ?v0" "vstr_bytes ?v0 = take ?o (vstr_bytes (rl_line rl))"
    using cut_tail_wf [OF bd(1), of "vs_len (rl_line rl) - ?o"] bd(8) unfolding s by auto
  have l0: "vs_len ?v0 = ?o" using vstr_bytes_length [OF v0(1)] v0(2) bd(7,8) by simp
  show ?thesis
  proof (cases "0 \<le> ?k")
    case True
    have "hist_entry rl ?k \<noteq> None"
    proof
      assume n: "hist_entry rl ?k = None"
      have lt: "nat ?k < nat (rl_hist_cur rl)" "nat (rl_hist_cur rl) < 8" using True hk(2) by linarith+
      have "\<forall>i j. i < j \<and> j < 8 \<and> readline_hist rl ! i = None \<longrightarrow> readline_hist rl ! j = None"
        using hk(1) unfolding hist_ok_def by (elim conjE)
      then show False using hk(3) n lt unfolding hist_entry_def by metis
    qed
    then obtain h where h: "hist_entry rl ?k = Some h" by auto
    have hr: "hist_entry (rl\<lparr>rl_hist_cur := ?k, rl_line := ?v0\<rparr>) ?k = Some h" using h by (simp add: hist_entry_def)
    obtain v where v: "vstr_add_str (m_renew al) h ?v0 = Inr v"
      and st: "st = redraw_line (rl_cursor_pos rl) (rl\<lparr>rl_hist_cur := ?k, rl_line := v\<rparr>)"
      using eq True hr by (auto simp: down_arrow_key_def Let_def split: sum.splits)
    have p: "\<forall>b\<in>set h. printable b" "length h < 2 ^ 30" using hist_entry_printable [OF hk(1) True _ h] hk(2) by auto
    have "vstr_wf v" "vstr_bytes v = take ?o (vstr_bytes (rl_line rl)) @ h"
      using add_str_bytes [OF v v0(1) _ p(1)] p(2) v0(2) l0 bd(4,8) by auto
    moreover have "hist_cur_ok (rl\<lparr>rl_hist_cur := ?k, rl_line := v\<rparr>)"
      using True hk(2) h by (auto simp: hist_cur_ok_def hist_entry_def)
    ultimately show ?thesis unfolding st using good_history [OF wf _ _ p(1)] by blast
  next
    case False
    then have st: "st = redraw_line (rl_cursor_pos rl) (rl\<lparr>rl_hist_cur := ?k, rl_line := ?v0\<rparr>)"
      using eq True by (simp add: down_arrow_key_def Let_def)
    have "hist_cur_ok (rl\<lparr>rl_hist_cur := ?k, rl_line := ?v0\<rparr>)" using True False by (simp add: hist_cur_ok_def)
    then show ?thesis unfolding st using good_history [OF wf v0(1), of "[]"] v0(2) by simp
  qed
next
  case False
  then show ?thesis
    using eq good_still [OF wf, where e = "rl_escape_seq rl" and d = "rl_escape_seq_buf rl"]
    by (simp add: down_arrow_key_def)
qed

lemma good_tab_many:
  assumes wf: "rl_wf rl" "rl_fits rl" and out: "\<And>cells col. term_run out (screen cells col) = screen [] 0"
  shows "good_redraw rl (Redraw (tx (take (rl_cursor_pos rl - rl_orig_line_len rl) (rl_text rl))
      (tx (rl_prompt rl) (tx out rl))) 0 True 0)"
proof -
  note bd = rl_bounds [OF wf]
  let ?k = "rl_cursor_pos rl - rl_orig_line_len rl"
  let ?typed = "take ?k (rl_text rl)" and ?P = "length (rl_prompt rl)"
  let ?rl = "tx ?typed (tx (rl_prompt rl) (tx out rl))"
  have len: "length (rl_text rl) = vs_len (rl_line rl) - rl_orig_line_len rl" using bd(1) by (rule length_rl_text)
  have lt: "length ?typed = ?k" using len bd(2,3) by simp
  have pr: "\<forall>b\<in>set (rl_prompt rl). printable b" "\<forall>b\<in>set ?typed. printable b"
    using wf(1) by (auto simp: rl_wf_def dest: in_set_takeD)
  have run: "term_run (out @ rl_prompt rl @ ?typed) (rl_screen rl) = screen (rl_prompt rl @ ?typed) (?P + ?k)"
    using term_printable [OF pr(1), of 0 "[]"] term_printable [OF pr(2), of ?P "rl_prompt rl"] lt
    by (simp add: rl_screen_def out)
  have t: "rl_text ?rl = rl_text rl" by (simp add: rl_text_def tx_def)
  have "redraw_from ?rl (rl_prompt rl @ ?typed) (vs_len (rl_line rl)) 0 True 0"
    unfolding redraw_from_def Let_def t
    using wf lt bd by (simp add: tx_def rl_wf_def rl_fits_def)
  then have "step_good rl ?rl 0 True 0"
    unfolding step_good_def using run wf(1)
    by (intro conjI exI [of _ "out @ rl_prompt rl @ ?typed"] exI [of _ "rl_prompt rl @ ?typed"])
      (simp_all add: tx_def rl_wf_def hist_cur_ok_def)
  then show ?thesis by (simp add: good_redraw_def)
qed

lemma good_tab:
  assumes wf: "rl_wf rl" "rl_fits rl" and ac: "completer_ok ac" and eq: "rl_tab al ac rl = Inr st"
  shows "good_redraw rl st"
proof -
  note bd = rl_bounds [OF wf]
  let ?k = "rl_cursor_pos rl - rl_orig_line_len rl"
  have k: "sub32 (rl_cursor_pos rl) (rl_orig_line_len rl) = ?k" using bd(2,5) by (simp add: sub32_le)
  have typed: "subbuf (rl_orig_line_len rl) ?k (vs_buf (rl_line rl)) = take ?k (rl_text rl)"
    using subbuf_text [OF bd(1) order_refl, of ?k] bd(2,3) by simp
  show ?thesis
  proof (cases "ac (take ?k (rl_text rl))")
    case Compl_none
    then show ?thesis
      using eq good_still [OF wf, where e = "rl_escape_seq rl" and d = "rl_escape_seq_buf rl"]
      by (auto simp: rl_tab_def Let_def k typed)
  next
    case (Compl_many out)
    then have "\<And>cells col. term_run out (screen cells col) = screen [] 0" using ac by (auto simp: completer_ok_def)
    then show ?thesis using eq Compl_many good_tab_many [OF wf, of out] by (auto simp: rl_tab_def Let_def k typed)
  next
    case (Compl_one s)
    then have s: "\<forall>b\<in>set s. printable b" "length s < 1000" using ac by (auto simp: completer_ok_def)
    obtain v where v: "ins_bytes al (rl_cursor_pos rl) s (rl_line rl) = Inr v"
      and st: "st = Redraw (rl\<lparr>rl_line := v\<rparr>) 0 True (int (length s))"
      using eq Compl_one by (auto simp: rl_tab_def Let_def k typed split: sum.splits)
    show ?thesis unfolding st
      using ins_bytes_bytes [OF v bd(1,3)] s bd(4) by (intro good_insert [OF wf]) auto
  qed
qed

lemma printable_char:
  assumes "32 \<le> c" and "c \<le> 126"
  shows "printable (word_of_nat (nat c))"
proof -
  define n where "n = nat c"
  have "32 \<le> n" "n \<le> 126" unfolding n_def using assms by linarith+
  then show ?thesis unfolding n_def [symmetric] by (simp add: printable_def unsigned_of_nat take_bit_nat_eq_self)
qed

lemma good_rl_insert:
  assumes wf: "rl_wf rl" "rl_fits rl" and c: "32 \<le> c" "c \<le> 126" and eq: "rl_insert al c rl = Inr st"
  shows "good_redraw rl st"
proof -
  note bd = rl_bounds [OF wf]
  obtain v where v: "vstr_ins_byte (m_renew al) (rl_cursor_pos rl) (word_of_nat (nat c)) (rl_line rl) = Inr v"
    and st: "st = Redraw (rl\<lparr>rl_line := v\<rparr>) 0 True 1"
    using eq by (auto simp: rl_insert_def vstr_ins_char_byte split: sum.splits)
  show ?thesis unfolding st
    using ins_byte_bytes [OF v bd(1,3)] bd(4) printable_char [OF c] good_insert [OF wf, of v "[word_of_nat (nat c)]"]
    by simp
qed

subsection \<open>One character\<close>

text \<open>What the editor hands back when it returns a value: the line is as it was.\<close>

definition ret_good :: "int \<Rightarrow> readline_t \<Rightarrow> int \<Rightarrow> readline_t \<Rightarrow> bool" where
  "ret_good c rl r rl' \<longleftrightarrow>
    (if c = 13 then
       r = 0 \<and> rl_wf rl' \<and> vstr_bytes (rl_line rl') = vstr_bytes (rl_line rl) \<and>
       rl_out rl' = rl_out rl @ [13, 10] \<and> rl_escape_seq rl' = ESEQ_NONE \<and>
       rl_orig_line_len rl' = rl_orig_line_len rl \<and> rl_prompt rl' = rl_prompt rl \<and>
       (readline_hist rl' = readline_hist rl \<or>
        readline_hist rl' = Some (rl_text rl) # take 7 (readline_hist rl) \<and> rl_text rl \<noteq> [])
     else r = c \<and> 1 \<le> c \<and> c \<le> 5 \<and> rl' = rl \<and> rl_escape_seq rl = ESEQ_NONE \<and>
       (c = 3 \<or> vs_len (rl_line rl) = rl_orig_line_len rl))"

definition good_step :: "int \<Rightarrow> readline_t \<Rightarrow> rl_step \<Rightarrow> bool" where
  "good_step c rl st \<longleftrightarrow>
    (case st of Redraw rl' sb fc sf \<Rightarrow> good_redraw rl st | Return r rl' \<Rightarrow> ret_good c rl r rl')"

lemma good_step_redraw: "good_redraw rl st \<Longrightarrow> good_step c rl st"
  by (cases st) (simp_all add: good_step_def good_redraw_def)

lemma push_hist_ok:
  assumes "hist_ok hist" and "\<forall>b\<in>set h. printable b" and "length h < 2 ^ 30"
  shows "hist_ok (Some h # take 7 hist)"
proof -
  have l: "length hist = 8" using assms(1) by (simp add: hist_ok_def)
  have cl: "\<forall>i j. i < j \<and> j < 8 \<and> hist ! i = None \<longrightarrow> hist ! j = None" using assms(1) unfolding hist_ok_def by (elim conjE)
  have "(Some h # take 7 hist) ! j = None" if "i < j" "j < 8" "(Some h # take 7 hist) ! i = None" for i j
    using that cl [rule_format, of "i - 1" "j - 1"] by (cases i; cases j) auto
  moreover have "(\<forall>b\<in>set g. printable b) \<and> length g < 2 ^ 30" if "Some g \<in> set (Some h # take 7 hist)" for g
    using that assms by (auto simp: hist_ok_def dest: in_set_takeD)
  ultimately show ?thesis unfolding hist_ok_def using l by (intro conjI allI impI) auto
qed

lemma push_hist_cur_ok:
  assumes "rl_wf rl" and "hist_ok (readline_hist rl)"
  shows "hist_cur_ok ((tx s rl)\<lparr>rl_line := v\<rparr>\<lparr>readline_hist := Some h # take 7 (readline_hist rl)\<rparr>)"
proof -
  have cl: "\<forall>i j. i < j \<and> j < 8 \<and> readline_hist rl ! i = None \<longrightarrow> readline_hist rl ! j = None"
    using assms(2) unfolding hist_ok_def by (elim conjE)
  have hc: "- 1 \<le> rl_hist_cur rl" "rl_hist_cur rl < 8"
    "0 \<le> rl_hist_cur rl \<Longrightarrow> readline_hist rl ! nat (rl_hist_cur rl) \<noteq> None"
    using assms(1) by (auto simp: rl_wf_def hist_cur_ok_def)
  have "(Some h # take 7 (readline_hist rl)) ! nat (rl_hist_cur rl) \<noteq> None" if z: "0 \<le> rl_hist_cur rl"
  proof (cases "nat (rl_hist_cur rl)")
    case (Suc k)
    then have "k < 7" "nat (rl_hist_cur rl) < 8" using hc(2) by linarith+
    then have "Suc k < 8" by simp
    moreover have "readline_hist rl ! Suc k \<noteq> None" using hc(3) [OF z] Suc by simp
    ultimately have "readline_hist rl ! k \<noteq> None"
      using cl [rule_format, OF conjI [OF lessI conjI], of k] by fastforce
    then show ?thesis using \<open>k < 7\<close> Suc by simp
  qed simp
  then show ?thesis using hc by (simp add: hist_cur_ok_def tx_def)
qed

lemma good_newline:
  assumes wf: "rl_wf rl" "rl_fits rl" and e: "rl_escape_seq rl = ESEQ_NONE" and eq: "rl_newline al rl = Inr st"
  shows "good_step 13 rl st"
proof -
  note bd = rl_bounds [OF wf]
  let ?o = "rl_orig_line_len rl"
  obtain v where v: "vstr_null_terminated_str (m_renew al) (rl_line rl) = Inr v"
    and st: "st = Return 0 (readline_push_history al (drop ?o (vs_buf v)) ((tx [13, 10] rl)\<lparr>rl_line := v\<rparr>))"
    using eq by (auto simp: rl_newline_def Let_def tx_def split: sum.splits)
  have w: "vstr_wf v" "vstr_bytes v = vstr_bytes (rl_line rl)" "vs_len v = vs_len (rl_line rl)"
    using mren.null_terminated [OF bd(1) _ v] bd(4) by auto
  have pr: "\<forall>b\<in>set (rl_text rl). printable b" using wf(1) by (simp add: rl_wf_def)
  obtain r where r: "vs_buf v = vstr_bytes (rl_line rl) @ 0 # r"
    using mren.null_terminated [OF bd(1) _ v] bd(4) by auto
  then have d: "drop ?o (vs_buf v) = rl_text rl @ 0 # r" using bd(7,8) by (simp add: rl_text_def)
  have cs: "c_str (drop ?o (vs_buf v)) = rl_text rl"
    using pr printable_not_control unfolding d c_str_def by (subst takeWhile_append2) auto
  let ?rl1 = "(tx [13, 10] rl)\<lparr>rl_line := v\<rparr>"
  have tl: "length (rl_text rl) < 2 ^ 30" using length_rl_text [OF bd(1)] bd(4) by simp
  have t1: "rl_text (?rl1\<lparr>readline_hist := h\<rparr>) = rl_text rl" for h using w(2) by (simp add: rl_text_def tx_def)
  have wf1: "rl_wf (?rl1\<lparr>readline_hist := h\<rparr>)" if "hist_ok h" "hist_cur_ok (?rl1\<lparr>readline_hist := h\<rparr>)" for h
    using wf(1) that w t1 [of h] by (simp add: rl_wf_def tx_def)
  let ?h = "Some (rl_text rl) # take 7 (readline_hist rl)"
  have hk: "hist_ok (readline_hist rl)" using wf(1) by (simp add: rl_wf_def)
  have "hist_cur_ok (?rl1\<lparr>readline_hist := ?h\<rparr>)" using wf(1) hk by (rule push_hist_cur_ok)
  then have p: "rl_wf (?rl1\<lparr>readline_hist := ?h\<rparr>)" using push_hist_ok [OF hk pr tl] wf1 by blast
  have "hist_cur_ok (?rl1\<lparr>readline_hist := readline_hist rl\<rparr>)" using wf(1) by (simp add: rl_wf_def hist_cur_ok_def tx_def)
  then have q: "rl_wf (?rl1\<lparr>readline_hist := readline_hist rl\<rparr>)" using wf1 [OF hk] by blast
  have same: "?rl1\<lparr>readline_hist := readline_hist rl\<rparr> = ?rl1" by (simp add: tx_def)
  have "ret_good 13 rl 0 (readline_push_history al (drop ?o (vs_buf v)) ?rl1)"
    using p q same w(2) e unfolding readline_push_history_def str_dup_maybe_def cs
    by (auto simp: ret_good_def READLINE_HIST_SIZE_def tx_def split: option.splits)
  then show ?thesis unfolding st by (simp add: good_step_def)
qed

lemma rl_wf_escape: "rl_wf (rl\<lparr>rl_escape_seq := e\<rparr>) = rl_wf rl" "rl_fits (rl\<lparr>rl_escape_seq := e\<rparr>) = rl_fits rl"
  by (simp_all add: rl_wf_def rl_fits_def rl_text_def hist_cur_ok_def)

lemma good_redraw_escape: "good_redraw (rl\<lparr>rl_escape_seq := e\<rparr>) st = good_redraw rl st"
  by (simp add: good_redraw_def step_good_def rl_screen_def rl_text_def cong: rl_step.case_cong)

lemma good_none:
  assumes wf: "rl_wf rl" "rl_fits rl" and ac: "completer_ok ac" and e: "rl_escape_seq rl = ESEQ_NONE"
    and eq: "rl_none al ac c rl = Inr st"
  shows "good_step c rl st"
proof -
  note redraws = good_home [OF wf] good_end [OF wf] good_backspace [OF wf]
  have still: "good_redraw rl (Redraw (rl\<lparr>rl_escape_seq := e\<rparr>) 0 False 0)" for e
    using good_still [OF wf, where e = e and d = "rl_escape_seq_buf rl"] by simp
  have still0: "good_redraw rl (Redraw rl 0 False 0)" using still [of "rl_escape_seq rl"] by simp
  consider "1 \<le> c" "c \<le> 5" "st = Return c rl" "c = 3 \<or> vs_len (rl_line rl) = rl_orig_line_len rl" | "c = 13" "rl_newline al rl = Inr st"
    | "c = 9" "rl_tab al ac rl = Inr st" | "32 \<le> c" "c \<le> 126" "rl_insert al c rl = Inr st"
    | "st = home_key rl" | "st = end_key rl" | "st = rl_backspace rl" | "st = Redraw rl 0 False 0"
    | "st = Redraw (rl\<lparr>rl_escape_seq := ESEQ_ESC\<rparr>) 0 False 0"
    using eq unfolding rl_none_def by (simp split: if_splits)
  then show ?thesis
  proof cases
    case 1
    then show ?thesis using e by (simp add: good_step_def ret_good_def)
  next
    case 2
    then show ?thesis using good_newline [OF wf e] by simp
  next
    case 3
    then show ?thesis using good_tab [OF wf ac] good_step_redraw by blast
  next
    case 4
    then show ?thesis using good_rl_insert [OF wf] good_step_redraw by blast
  qed (use redraws still still0 in \<open>auto intro: good_step_redraw\<close>)
qed

lemma good_bracket:
  assumes wf: "rl_wf rl" "rl_fits rl" and eq: "rl_bracket al c rl = Inr st"
  shows "good_redraw rl st"
proof -
  let ?rl = "rl\<lparr>rl_escape_seq := ESEQ_NONE\<rparr>"
  have wf': "rl_wf ?rl" "rl_fits ?rl" using wf by (simp_all add: rl_wf_escape)
  note bd = rl_bounds [OF wf]
  have fw: "good_redraw rl (Redraw ?rl 0 False (if rl_cursor_pos rl < vs_len (rl_line rl) then 1 else 0))"
    using good_move [OF wf, of ?rl 0 1] good_move [OF wf, of ?rl 0 0] bd by simp
  have bw: "good_redraw rl (Redraw ?rl (if rl_cursor_pos rl > rl_orig_line_len rl then 1 else 0) False 0)"
    using good_move [OF wf, of ?rl 1 0] good_move [OF wf, of ?rl 0 0] bd by simp
  have st: "good_redraw rl (Redraw ?rl 0 False 0)" using good_move [OF wf, of ?rl 0 0] bd by simp
  have dg: "good_redraw rl (Redraw (rl\<lparr>rl_escape_seq := ESEQ_ESC_BRACKET_DIGIT, rl_escape_seq_buf := c\<rparr>) 0 False 0)"
    by (rule good_still [OF wf])
  have keys: "up_arrow_key al ?rl = Inr st \<Longrightarrow> good_redraw rl st" "down_arrow_key al ?rl = Inr st \<Longrightarrow> good_redraw rl st"
    "good_redraw rl (home_key ?rl)" "good_redraw rl (end_key ?rl)"
    using good_up_arrow [OF wf'] good_down_arrow [OF wf'] good_home [OF wf'] good_end [OF wf']
    by (auto simp: good_redraw_escape)
  show ?thesis using eq keys fw bw st dg
    by (auto simp: rl_bracket_def Let_def split: if_splits)
qed

lemma dispatch_good:
  assumes wf: "rl_wf rl" "rl_fits rl" and ac: "completer_ok ac" and eq: "rl_dispatch al ac c rl = Inr st"
  shows "good_step c rl st"
proof (cases "rl_escape_seq rl")
  case ESEQ_NONE
  then show ?thesis using good_none [OF wf ac] eq by (simp add: rl_dispatch_def)
next
  case ESEQ_ESC_BRACKET
  then show ?thesis using good_bracket [OF wf] eq by (simp add: rl_dispatch_def good_step_redraw)
next
  case ESEQ_ESC
  then have "st = rl_esc c rl" using eq by (simp add: rl_dispatch_def)
  then show ?thesis using good_still [OF wf, where d = "rl_escape_seq_buf rl"]
    by (auto simp: rl_esc_def intro!: good_step_redraw)
next
  case ESEQ_ESC_BRACKET_DIGIT
  then have "st = rl_digit c rl" using eq by (simp add: rl_dispatch_def)
  then show ?thesis using good_still [OF wf, where d = "rl_escape_seq_buf rl"] good_home [OF wf] good_end [OF wf] good_delete [OF wf]
    by (auto simp: rl_digit_def Let_def intro!: good_step_redraw)
next
  case ESEQ_ESC_O
  then have "st = rl_esc_o c rl" using eq by (simp add: rl_dispatch_def)
  then show ?thesis using good_still [OF wf, where d = "rl_escape_seq_buf rl"] good_home [OF wf] good_end [OF wf]
    by (auto simp: rl_esc_o_def intro!: good_step_redraw)
qed

lemma process_char_in_sync:
  assumes wf: "rl_wf rl" "rl_fits rl" and ac: "completer_ok ac"
    and eq: "readline_process_char al ac c rl = Inr (r, rl')" and fits': "r = - 1 \<Longrightarrow> rl_fits rl'"
  shows "if r = - 1 then rl_wf rl' \<and> rl_orig_line_len rl' = rl_orig_line_len rl \<and> rl_prompt rl' = rl_prompt rl \<and>
      (\<exists>o'. rl_out rl' = rl_out rl @ o' \<and> term_run o' (rl_screen rl) = rl_screen rl')
    else ret_good c rl r rl'"
proof -
  obtain st where st: "rl_dispatch al ac c rl = Inr st" using eq by (auto simp: readline_process_char_def split: sum.splits)
  note g = dispatch_good [OF wf ac st]
  show ?thesis
  proof (cases st)
    case (Return k rl2)
    then show ?thesis using g eq st by (auto simp: readline_process_char_def good_step_def ret_good_def split: if_splits)
  next
    case (Redraw rl2 sb fc sf)
    have rl': "r = - 1" "rl' = rl_redraw (vs_len (rl_line rl)) rl2 sb fc sf"
      using eq st Redraw by (auto simp: readline_process_char_def)
    have "rl_line rl' = rl_line rl2" "rl_orig_line_len rl' = rl_orig_line_len rl2"
      unfolding rl'(2) by (simp_all add: rl_redraw_def Let_def tx_def)
    then have "rl_fits rl2" using fits' rl'(1) by (simp add: rl_fits_def)
    then have sg: "0 \<le> sb" "0 \<le> sf" "step_good rl rl2 (nat sb) fc (nat sf)"
      using g Redraw by (auto simp: good_step_def good_redraw_def)
    show ?thesis using redraw_keeps [OF sg(3) wf(1)] sg(1,2) rl' by simp
  qed
qed

subsection \<open>Properties\<close>

text \<open>
  The states of an editing session: the keys that do not end the line, as long as it stays below 1000
  characters.
\<close>

inductive rl_session :: "allocator \<Rightarrow> (byte list \<Rightarrow> completion) \<Rightarrow> readline_t \<Rightarrow> readline_t \<Rightarrow> bool"
  for al ac rl0 where
  start: "rl_session al ac rl0 rl0"
| key: "rl_session al ac rl0 rl \<Longrightarrow> readline_process_char al ac c rl = Inr (- 1, rl') \<Longrightarrow> rl_fits rl' \<Longrightarrow>
    rl_session al ac rl0 rl'"

lemma rl_session_in_sync:
  assumes "rl_session al ac rl0 rl" and "rl_wf rl0" and "rl_fits rl0" and "completer_ok ac"
  shows "rl_wf rl \<and> rl_fits rl \<and> (\<exists>o'. rl_out rl = rl_out rl0 @ o' \<and> term_run o' (rl_screen rl0) = rl_screen rl)"
  using assms(1)
proof induction
  case start
  show ?case using assms(2,3) by (auto intro: exI [of _ "[]"])
next
  case (key rl c rl')
  then obtain o1 where o1: "rl_out rl = rl_out rl0 @ o1" "term_run o1 (rl_screen rl0) = rl_screen rl" by auto
  from process_char_in_sync [OF _ _ assms(4) key.hyps(2,3)] key.IH
  obtain o2 where "rl_wf rl'" "rl_out rl' = rl_out rl @ o2" "term_run o2 (rl_screen rl) = rl_screen rl'" by auto
  then show ?case using o1 key.hyps(3) by (auto intro!: exI [of _ "o1 @ o2"])
qed

lemma init_in_sync:
  assumes "vstr_wf line" and "vs_len line = 0" and "\<forall>b\<in>set prompt. printable b" and "hist_ok (readline_hist rl)"
  defines "rl0 \<equiv> readline_init line prompt rl"
  shows "rl_wf rl0 \<and> rl_fits rl0 \<and> rl_out rl0 = rl_out rl @ prompt \<and> term_run prompt (screen [] 0) = rl_screen rl0"
proof -
  have c: "c_str prompt = prompt" using assms(3) printable_not_control unfolding c_str_def by (simp add: takeWhile_eq_all_conv)
  have t: "rl_text rl0 = []" using assms(1,2) by (simp add: rl0_def readline_init_def rl_text_def tx_def vstr_bytes_def)
  show ?thesis using assms(1-4) t term_printable [OF assms(3), of 0 "[]"]
    by (simp add: rl_wf_def rl_fits_def rl0_def readline_init_def tx_def c hist_cur_ok_def rl_screen_def)
qed

text \<open>
  C25. The screen always shows the line being edited. Start \<^verbatim>\<open>readline\<close> on an empty line with the
  terminal on an empty line, and send it any keys: printable characters, backspace, delete, the arrow
  keys, home and end in all their encodings, history and tab completion. As long as the line stays below
  1000 characters, the invariant of the editor holds and the terminal, fed with exactly the bytes that
  the editor sent, shows the prompt and the current line with its cursor at the editor's cursor.
\<close>

theorem readline_screen_in_sync:
  assumes "vstr_wf line" and "vs_len line = 0" and "\<forall>b\<in>set prompt. printable b" and "hist_ok (readline_hist rl0)"
    and "completer_ok ac" and "rl_session al ac (readline_init line prompt rl0) rl"
  shows "rl_wf rl \<and> (\<exists>out. rl_out rl = rl_out rl0 @ out \<and>
    term_run out (screen [] 0) = screen (rl_prompt rl @ rl_text rl)
      (length (rl_prompt rl) + (rl_cursor_pos rl - rl_orig_line_len rl)))"
proof -
  note i = init_in_sync [OF assms(1-4)]
  then obtain o' where o': "rl_wf rl" "rl_out rl = rl_out rl0 @ prompt @ o'"
    "term_run o' (rl_screen (readline_init line prompt rl0)) = rl_screen rl"
    using rl_session_in_sync [OF assms(6) _ _ assms(5)] by auto
  then show ?thesis using i by (intro conjI exI [of _ "prompt @ o'"]) (simp_all add: rl_screen_def)
qed

definition sample_rl :: readline_t where
  "sample_rl = \<lparr>rl_line = sample_vstr\<lparr>vs_len := 0\<rparr>, rl_orig_line_len = 0, rl_escape_seq = ESEQ_NONE, rl_hist_cur = - 1,
    rl_cursor_pos = 0, rl_escape_seq_buf = 0, rl_prompt = [], readline_hist = replicate 8 None, rl_out = []\<rparr>"

lemma sample_session:
  "rl_session (\<lambda>_. None) (\<lambda>_. Compl_none) (readline_init (rl_line sample_rl) [62, 32] sample_rl)
    ((readline_init (rl_line sample_rl) [62, 32] sample_rl)
      \<lparr>rl_line := sample_vstr\<lparr>vs_len := 1, vs_buf := [120, 98, 99, 0]\<rparr>, rl_cursor_pos := 1, rl_out := [62, 32, 120]\<rparr>)"
  by (rule rl_session.key [OF rl_session.start, where c = 120])
    (simp_all add: readline_process_char_def rl_dispatch_def readline_init_def sample_rl_def rl_none_def rl_insert_def
      vstr_ins_char_def vstr_ins_blank_bytes_def vstr_ensure_extra_def sample_vstr_def rl_redraw_def tx_def c_str_def
      overwrite_def subbuf_def sub32_def mp_hal_move_cursor_back_def rl_fits_def)

theorem readline_screen_in_sync_witness:
  "\<exists>rl. rl_session (\<lambda>_. None) (\<lambda>_. Compl_none) (readline_init (rl_line sample_rl) [62, 32] sample_rl) rl \<and>
    rl_wf rl \<and> rl_cursor_pos rl = 1"
proof -
  have wf: "vstr_wf (rl_line sample_rl)" "vs_len (rl_line sample_rl) = 0" "\<forall>b\<in>set [62, 32]. printable b"
    "hist_ok (readline_hist sample_rl)" "completer_ok (\<lambda>_. Compl_none)"
    by (auto simp: sample_rl_def sample_vstr_def vstr_wf_def printable_def hist_ok_def completer_ok_def)
  from readline_screen_in_sync [OF wf sample_session] sample_session show ?thesis by fastforce
qed

text \<open>Typing with memory available.\<close>

lemma m_renew_total: "\<forall>n. al n \<noteq> None \<Longrightarrow> m_renew al xs n \<noteq> None"
  by (simp add: m_renew_def del: not_None_eq)

lemma room_total: "\<forall>n. al n \<noteq> None \<Longrightarrow> \<not> vs_fixed v \<Longrightarrow> vstr_room (m_renew al) n v = None"
  unfolding vstr_room_def using m_renew_total by metis

lemma printable_uint: "printable b \<Longrightarrow> 32 \<le> uint b \<and> uint b \<le> 126"
  unfolding printable_def uint_nat by linarith

definition at_end :: "readline_t \<Rightarrow> bool" where
  "at_end rl \<longleftrightarrow> rl_wf rl \<and> rl_escape_seq rl = ESEQ_NONE \<and> rl_cursor_pos rl = vs_len (rl_line rl) \<and>
    \<not> vs_fixed (rl_line rl) \<and> vs_len (rl_line rl) < 2 ^ 30"

lemma type_char:
  assumes e: "at_end rl" and al: "\<forall>n. al n \<noteq> None" and b: "printable b" and ac: "completer_ok ac"
    and len: "vs_len (rl_line rl) + 1 < rl_orig_line_len rl + 1000" "vs_len (rl_line rl) + 1 < 2 ^ 30"
  shows "\<exists>rl'. readline_process_char al ac (uint b) rl = Inr (- 1, rl') \<and> at_end rl' \<and>
    vstr_bytes (rl_line rl') = vstr_bytes (rl_line rl) @ [b] \<and> rl_orig_line_len rl' = rl_orig_line_len rl \<and>
    readline_hist rl' = readline_hist rl"
proof -
  let ?n = "vs_len (rl_line rl)"
  have r: "rl_wf rl" "rl_escape_seq rl = ESEQ_NONE" "rl_cursor_pos rl = ?n" "\<not> vs_fixed (rl_line rl)"
    using e by (auto simp: at_end_def)
  have wv: "vstr_wf (rl_line rl)" and fits: "rl_fits rl" using r(1) len by (auto simp: rl_wf_def rl_fits_def)
  have sm: "vstr_small 1 (rl_line rl)" using len(2) by (simp add: vstr_small_def)
  obtain v where v: "vstr_ins_byte (m_renew al) ?n b (rl_line rl) = Inr v" "vstr_wf v"
    "vstr_bytes v = vstr_bytes (rl_line rl) @ [b]" "\<not> vs_fixed v"
    using mren.ins_byte_yields [OF wv sm, of al ?n b] room_total [OF al r(4), of 1] r(4) wv
    by (auto elim!: vstr_yieldsE)
  have nv: "vs_len v = ?n + 1" using vstr_bytes_length [OF v(2)] v(3) wv by simp
  have c: "32 \<le> uint b" "uint b \<le> 126" using printable_uint [OF b] by auto
  let ?rl = "rl_redraw ?n (rl\<lparr>rl_line := v\<rparr>) 0 True 1"
  have eq: "readline_process_char al ac (uint b) rl = Inr (- 1, ?rl)"
    using c r v(1) by (simp add: readline_process_char_def rl_dispatch_def rl_none_def rl_insert_def vstr_ins_char_byte)
  have f: "rl_line ?rl = v" "rl_orig_line_len ?rl = rl_orig_line_len rl" "rl_escape_seq ?rl = ESEQ_NONE"
    "readline_hist ?rl = readline_hist rl" "rl_cursor_pos ?rl = ?n + 1"
    using r len(2) by (simp_all add: rl_redraw_def Let_def tx_def nat_add_distrib)
  have "rl_fits ?rl" using len nv r(1) by (auto simp: rl_fits_def f)
  from process_char_in_sync [OF r(1) fits ac eq this] have "rl_wf ?rl" by simp
  then show ?thesis using eq f v nv len(2) by (intro exI [of _ ?rl]) (simp add: at_end_def)
qed

lemma type_line:
  assumes "at_end rl" and "\<forall>n. al n \<noteq> None" and "\<forall>b\<in>set s. printable b" and "completer_ok ac"
    and "vs_len (rl_line rl) + length s < rl_orig_line_len rl + 1000" "vs_len (rl_line rl) + length s < 2 ^ 30"
  shows "\<exists>rl'. readline_loop al ac (map uint s @ cs) rl = readline_loop al ac cs rl' \<and> at_end rl' \<and>
    vstr_bytes (rl_line rl') = vstr_bytes (rl_line rl) @ s \<and> rl_orig_line_len rl' = rl_orig_line_len rl \<and>
    readline_hist rl' = readline_hist rl"
  using assms(1,3,5,6)
proof (induction s arbitrary: rl)
  case (Cons b s)
  obtain rl1 where r1: "readline_process_char al ac (uint b) rl = Inr (- 1, rl1)" "at_end rl1"
    "vstr_bytes (rl_line rl1) = vstr_bytes (rl_line rl) @ [b]" "rl_orig_line_len rl1 = rl_orig_line_len rl"
    "readline_hist rl1 = readline_hist rl"
    using type_char [OF Cons.prems(1) assms(2) _ assms(4), of b] Cons.prems by auto
  have wv: "vstr_wf (rl_line rl)" "vstr_wf (rl_line rl1)" using Cons.prems(1) r1(2) by (auto simp: at_end_def rl_wf_def)
  have "vs_len (rl_line rl1) = vs_len (rl_line rl) + 1"
    using vstr_bytes_length [OF wv(2)] r1(3) wv(1) by simp
  then obtain rl2 where "readline_loop al ac (map uint s @ cs) rl1 = readline_loop al ac cs rl2" "at_end rl2"
    "vstr_bytes (rl_line rl2) = vstr_bytes (rl_line rl1) @ s" "rl_orig_line_len rl2 = rl_orig_line_len rl1"
    "readline_hist rl2 = readline_hist rl1"
    using Cons.IH [OF r1(2)] Cons.prems r1(4) by auto
  then show ?case using r1 by (intro exI [of _ rl2]) simp
qed (auto intro: exI [of _ rl])

lemma enter_returns:
  assumes e: "at_end rl" and al: "\<forall>n. al n \<noteq> None" and ac: "completer_ok ac"
    and fits: "rl_fits rl" and ne: "rl_text rl \<noteq> []"
  shows "\<exists>rl'. readline_process_char al ac 13 rl = Inr (0, rl') \<and>
    vstr_bytes (rl_line rl') = vstr_bytes (rl_line rl) \<and> readline_hist rl' ! 0 = Some (rl_text rl) \<and> rl_wf rl'"
proof -
  have wf: "rl_wf rl" "rl_escape_seq rl = ESEQ_NONE" "\<not> vs_fixed (rl_line rl)" using e by (auto simp: at_end_def)
  note bd = rl_bounds [OF wf(1) fits]
  have pr: "\<forall>b\<in>set (rl_text rl). printable b" using wf(1) by (simp add: rl_wf_def)
  obtain v where v: "vstr_null_terminated_str (m_renew al) (rl_line rl) = Inr v"
  proof -
    obtain bf where "m_renew al (vs_buf (rl_line rl)) (wrap32 (vs_alloc (rl_line rl) + 1)) = Some bf"
      using m_renew_total [OF al] by blast
    then show thesis using wf(3) that
      by (cases "vs_alloc (rl_line rl) = vs_len (rl_line rl)") (auto simp: vstr_null_terminated_str_def vstr_extend_def)
  qed
  obtain r where "vs_buf v = vstr_bytes (rl_line rl) @ 0 # r"
    using mren.null_terminated [OF bd(1) _ v] bd(4) by auto
  then have d: "drop (rl_orig_line_len rl) (vs_buf v) = rl_text rl @ 0 # r" using bd(7,8) by (simp add: rl_text_def)
  have cs: "c_str (drop (rl_orig_line_len rl) (vs_buf v)) = rl_text rl"
    using pr printable_not_control unfolding d c_str_def by (subst takeWhile_append2) auto
  obtain rl' where eq: "readline_process_char al ac 13 rl = Inr (0, rl')"
    and rl': "rl' = readline_push_history al (drop (rl_orig_line_len rl) (vs_buf v)) ((tx [13, 10] rl)\<lparr>rl_line := v\<rparr>)"
    using wf(2) v by (auto simp: readline_process_char_def rl_dispatch_def rl_none_def rl_newline_def Let_def tx_def)
  obtain f where "al (length (rl_text rl) + 1) = Some f" using al by blast
  then have h: "readline_hist rl' ! 0 = Some (rl_text rl)"
    using ne unfolding rl' readline_push_history_def str_dup_maybe_def cs
    by (auto simp: tx_def split: option.splits)
  have st: "rl_dispatch al ac 13 rl = Inr (Return 0 rl')"
    using wf(2) v rl' by (simp add: rl_dispatch_def rl_none_def rl_newline_def Let_def tx_def)
  show ?thesis using dispatch_good [OF wf(1) fits ac st] eq h by (auto simp: good_step_def ret_good_def)
qed

text \<open>
  C26. With memory available, typing a line of printable characters (fewer than 1000) and Enter makes
  \<^verbatim>\<open>readline\<close> return 0 with exactly the typed bytes in the line, and the line on top of the history;
  the next \<^verbatim>\<open>readline\<close> on an empty line recalls it with the up-arrow key.
\<close>

theorem readline_returns_typed_line:
  assumes line: "vstr_wf line" "vs_len line = 0" "\<not> vs_fixed line" and hist: "hist_ok (readline_hist rl0)"
    and al: "\<forall>n. al n \<noteq> None" and ac: "completer_ok ac" and pr: "\<forall>b\<in>set prompt. printable b"
    and s: "\<forall>b\<in>set s. printable b" "s \<noteq> []" "length s < 1000"
  shows "\<exists>rl rl2. readline al ac (map uint s @ [13]) line prompt rl0 = Some (Inr (0, rl)) \<and>
    vstr_bytes (rl_line rl) = s \<and> readline_hist rl ! 0 = Some s \<and>
    readline_process_char al ac 65 ((readline_init line prompt rl)\<lparr>rl_escape_seq := ESEQ_ESC_BRACKET\<rparr>) = Inr (- 1, rl2) \<and>
    vstr_bytes (rl_line rl2) = s"
proof -
  let ?i = "readline_init line prompt rl0"
  have i: "rl_line ?i = line" "rl_orig_line_len ?i = 0" "rl_escape_seq ?i = ESEQ_NONE" "rl_cursor_pos ?i = 0"
    using line(2) by (simp_all add: readline_init_def tx_def)
  have e: "at_end ?i" using init_in_sync [OF line(1,2) pr hist] i line(2,3) by (simp add: at_end_def)
  obtain rl1 where r1: "readline_loop al ac (map uint s @ [13]) ?i = readline_loop al ac [13] rl1" "at_end rl1"
    "vstr_bytes (rl_line rl1) = s" "rl_orig_line_len rl1 = 0"
    using type_line [OF e al s(1) ac, where cs = "[13]"] i line(1,2) s(3) by (auto simp: vstr_bytes_def)
  have wv: "vstr_wf (rl_line rl1)" using r1(2) by (simp add: at_end_def rl_wf_def)
  have t: "rl_text rl1 = s" and fits: "rl_fits rl1"
    using r1(3,4) s(3) vstr_bytes_length [OF wv] by (simp_all add: rl_text_def rl_fits_def)
  obtain rl where rl: "readline_process_char al ac 13 rl1 = Inr (0, rl)" "vstr_bytes (rl_line rl) = s"
    "readline_hist rl ! 0 = Some s" "rl_wf rl"
    using enter_returns [OF r1(2) al ac fits] t s(2) r1(3) by auto
  let ?j = "(readline_init line prompt rl)\<lparr>rl_escape_seq := ESEQ_ESC_BRACKET\<rparr>"
  let ?v0 = "line\<lparr>vs_len := 0\<rparr>"
  have v0: "?v0 = line" using line(2) by simp
  have sm: "vstr_small (length s) line" using line(2) s(3) by (simp add: vstr_small_def)
  have cs: "c_str s = s" using s(1) printable_not_control unfolding c_str_def by (simp add: takeWhile_eq_all_conv)
  obtain v where v: "vstr_add_strn (m_renew al) s line = Inr v" "vstr_bytes v = s"
  proof -
    have b: "vstr_bytes line @ s = s" using line(2) by (simp add: vstr_bytes_def)
    show thesis using vstr_yieldsE [OF mren.add_strn_yields [OF line(1) sm, of al, unfolded b]]
        room_total [OF al line(3)] that by (metis option.distinct(1))
  qed
  let ?k = "(readline_init line prompt rl)\<lparr>rl_escape_seq := ESEQ_NONE\<rparr>"
  have k: "rl_hist_cur ?k = - 1" "rl_line ?k = line" "rl_orig_line_len ?k = 0" "hist_entry ?k 0 = Some s"
    using rl(3) line(2) by (simp_all add: readline_init_def tx_def hist_entry_def)
  have "up_arrow_key al ?k = Inr (redraw_line (rl_cursor_pos ?k) (?k\<lparr>rl_hist_cur := 0, rl_line := v\<rparr>))"
    using v(1) v0 cs unfolding up_arrow_key_def Let_def k by (simp add: READLINE_HIST_SIZE_def vstr_add_str_def k)
  then have "rl_dispatch al ac 65 ?j = Inr (redraw_line (rl_cursor_pos ?k) (?k\<lparr>rl_hist_cur := 0, rl_line := v\<rparr>))"
    by (simp add: rl_dispatch_def rl_bracket_def Let_def)
  then have "\<exists>rl2. readline_process_char al ac 65 ?j = Inr (- 1, rl2) \<and> vstr_bytes (rl_line rl2) = s"
    using v(2) by (simp add: readline_process_char_def redraw_line_def rl_redraw_def Let_def tx_def)
  then show ?thesis using r1(1) rl by (auto simp: readline_def)
qed

theorem readline_returns_typed_line_witness:
  "\<exists>rl. readline (\<lambda>_. Some (\<lambda>_. 0)) (\<lambda>_. Compl_none) [49, 43, 50, 13] (rl_line sample_rl) [62, 32] sample_rl =
      Some (Inr (0, rl)) \<and> vstr_bytes (rl_line rl) = [49, 43, 50]"
proof -
  have wf: "vstr_wf (rl_line sample_rl)" "vs_len (rl_line sample_rl) = 0" "\<not> vs_fixed (rl_line sample_rl)"
    "hist_ok (readline_hist sample_rl)" "\<forall>n. (\<lambda>_. Some (\<lambda>_. 0) :: (nat \<Rightarrow> byte) option) (n::nat) \<noteq> None"
    "completer_ok (\<lambda>_. Compl_none)" "\<forall>b\<in>set [62, 32]. printable b" "\<forall>b\<in>set [49, 43, 50]. printable b"
    by (auto simp: sample_rl_def sample_vstr_def vstr_wf_def printable_def hist_ok_def completer_ok_def)
  show ?thesis using readline_returns_typed_line [OF wf] by auto
qed

end
