(* ===== verification/Pyexec.thy ===== *)
theory Pyexec
  imports Repl Readline_Correct
begin

text \<open>
  The event-driven prompt of \<^verbatim>\<open>shared/runtime/pyexec.c\<close>: one call per input character, over the
  friendly prompt (with continuation lines and paste mode) and the raw prompt that host tools use. The
  compiler and the virtual machine are an argument \<open>run\<close>: what executing a source prints and how it
  ends.
\<close>

subsection \<open>State\<close>

datatype pyexec_mode_kind_t = PYEXEC_MODE_FRIENDLY_REPL | PYEXEC_MODE_RAW_REPL

text \<open>
  \<^verbatim>\<open>MP_STATE_VM(repl_line)\<close> is the line of the editor (\<^verbatim>\<open>rl.line\<close> points to it), and what the
  prompt sends goes to the editor's output.
\<close>

record repl_t =
  r_rl :: readline_t
  r_cont_line :: bool
  r_paste_mode :: bool
  pyexec_mode_kind :: pyexec_mode_kind_t

datatype source = Source_vstr "byte list" | Source_reader

datatype input_kind = MP_PARSE_SINGLE_INPUT | MP_PARSE_FILE_INPUT

text \<open>How an execution ends: normally, with \<^verbatim>\<open>SystemExit\<close> (and the value the port set), or with
  another exception and the text printed for it.\<close>

datatype outcome = Finished | System_exit int | Exception_text "byte list"

type_synonym runner = "source \<Rightarrow> input_kind \<Rightarrow> byte list \<times> outcome"

definition PYEXEC_FORCED_EXIT :: int where "PYEXEC_FORCED_EXIT = 0x100"

definition rl_tx :: "byte list \<Rightarrow> repl_t \<Rightarrow> repl_t" where
  "rl_tx s st = st\<lparr>r_rl := tx s (r_rl st)\<rparr>"

definition r_line :: "repl_t \<Rightarrow> vstr" where
  "r_line st = rl_line (r_rl st)"

definition set_line :: "vstr \<Rightarrow> repl_t \<Rightarrow> repl_t" where
  "set_line v st = st\<lparr>r_rl := (r_rl st)\<lparr>rl_line := v\<rparr>\<rparr>"

subsection \<open>Execution\<close>

text \<open>\<open>eof\<close> is \<^verbatim>\<open>EXEC_FLAG_PRINT_EOF\<close>: an end-of-file character after the normal output and after
  the output of the exception.\<close>

definition parse_compile_execute ::
  "runner \<Rightarrow> source \<Rightarrow> input_kind \<Rightarrow> bool \<Rightarrow> repl_t \<Rightarrow> int \<times> repl_t" where
  "parse_compile_execute run source input_kind eof st =
    (let (out, oc) = run source input_kind; e = (if eof then [4] else []) in
     case oc of
       Finished \<Rightarrow> (1, rl_tx (out @ e @ e) st)
     | System_exit code \<Rightarrow> (code, rl_tx (out @ e @ e) st)
     | Exception_text t \<Rightarrow> (0, rl_tx (out @ e @ t @ e) st))"

definition forced_exit :: "int \<Rightarrow> bool" where
  "forced_exit ret \<longleftrightarrow> ret AND PYEXEC_FORCED_EXIT \<noteq> 0"

text \<open>
  The reader on standard input, with its flow-control window; \<open>cs\<close> are the characters still to come.
  \<^verbatim>\<open>mp_reader_stdin_close\<close> drops input up to the end character; \<open>None\<close> when it does not come.
\<close>

record mp_reader_stdin_t =
  rs_eof :: bool
  rs_window_max :: nat
  rs_window_remain :: nat

datatype read_result = Read_byte int | Read_EOF | Read_interrupt

definition mp_reader_new_stdin :: "nat \<Rightarrow> byte list \<times> mp_reader_stdin_t" where
  "mp_reader_new_stdin buf_max =
    (let window = buf_max div 2 in
     ([word_of_nat (window mod 256), word_of_nat (window div 256), 1],
      \<lparr>rs_eof = False, rs_window_max = window, rs_window_remain = window\<rparr>))"

definition mp_reader_stdin_readbyte ::
  "int \<Rightarrow> mp_reader_stdin_t \<Rightarrow> read_result \<times> byte list \<times> mp_reader_stdin_t" where
  "mp_reader_stdin_readbyte c r =
    (if rs_eof r then (Read_EOF, [], r)
     else if c = 3 then (Read_interrupt, [4], r\<lparr>rs_eof := True\<rparr>)
     else if c = 4 then (Read_EOF, [4], r\<lparr>rs_eof := True\<rparr>)
     else let n = (rs_window_remain r + 2 ^ 16 - 1) mod 2 ^ 16 in
       if n = 0 then (Read_byte c, [1], r\<lparr>rs_window_remain := rs_window_max r\<rparr>)
       else (Read_byte c, [], r\<lparr>rs_window_remain := n\<rparr>))"

definition mp_reader_stdin_close :: "int list \<Rightarrow> mp_reader_stdin_t \<Rightarrow> (byte list \<times> int list \<times> mp_reader_stdin_t) option" where
  "mp_reader_stdin_close cs r =
    (if rs_eof r then Some ([], cs, r)
     else case dropWhile (\<lambda>c. c \<noteq> 3 \<and> c \<noteq> 4) cs of
       [] \<Rightarrow> None
     | c # cs' \<Rightarrow> Some ([4], cs', r\<lparr>rs_eof := True\<rparr>))"

definition do_reader_stdin :: "runner \<Rightarrow> byte \<Rightarrow> repl_t \<Rightarrow> int \<times> repl_t" where
  "do_reader_stdin run c st =
    (if c \<noteq> 65 then (0, rl_tx [82, 0] st)
     else parse_compile_execute run Source_reader MP_PARSE_FILE_INPUT True
       (rl_tx (fst (mp_reader_new_stdin 256)) (rl_tx [82, 1] st)))"

subsection \<open>The prompts\<close>

definition ps1 :: "byte list" where "ps1 = lit ''>>> ''"
definition ps2 :: "byte list" where "ps2 = lit ''... ''"

definition raw_reset :: "repl_t \<Rightarrow> int \<times> repl_t" where
  "raw_reset st = (0, rl_tx (lit ''>'') (set_line (vstr_reset (r_line st)) st))"

text \<open>The \<^verbatim>\<open>CHAR_CTRL_A\<close> branch of \<^verbatim>\<open>pyexec_raw_repl_process_char\<close>.\<close>

definition raw_ctrl_a :: "runner \<Rightarrow> repl_t \<Rightarrow> int \<times> repl_t" where
  "raw_ctrl_a run st =
    (if vs_len (r_line st) = 2 \<and> vs_buf (r_line st) ! 0 = 5 then
       let (ret, st') = do_reader_stdin run (vs_buf (r_line st) ! 1) st in
       if forced_exit ret then (ret, st') else raw_reset st'
     else raw_reset (rl_tx (lit ''raw REPL; CTRL-B to exit'' @ [13, 10]) st))"

text \<open>The code behind the labels \<^verbatim>\<open>input_restart\<close> and \<^verbatim>\<open>exec\<close>.\<close>

definition input_restart :: "repl_t \<Rightarrow> int \<times> repl_t" where
  "input_restart st =
    (0, st\<lparr>r_rl := readline_init (vstr_reset (r_line st)) ps1 (r_rl st), r_cont_line := False, r_paste_mode := False\<rparr>)"

definition friendly_exec :: "runner \<Rightarrow> input_kind \<Rightarrow> repl_t \<Rightarrow> int \<times> repl_t" where
  "friendly_exec run kind st =
    (let (ret, st') = parse_compile_execute run (Source_vstr (vstr_bytes (r_line st))) kind False st in
     if forced_exit ret then (ret, st') else input_restart st')"

text \<open>Paste mode: characters are collected and echoed until the end character.\<close>

definition friendly_paste :: "allocator \<Rightarrow> runner \<Rightarrow> int \<Rightarrow> repl_t \<Rightarrow> (int \<times> repl_t) result" where
  "friendly_paste al run c st =
    (if c = 3 then Inr (input_restart (rl_tx [13, 10] st))
     else if c = 4 then Inr (friendly_exec run MP_PARSE_FILE_INPUT (rl_tx [13, 10] st))
     else case vstr_add_byte (m_renew al) (word_of_int c) (r_line st) of
       Inl e \<Rightarrow> Inl e
     | Inr v \<Rightarrow> Inr (0, rl_tx (if c = 13 then [13, 10] @ lit ''=== '' else [word_of_int c]) (set_line v st)))"

text \<open>Whether the input goes on: the test on the null-terminated line, which may have to grow for it.\<close>

definition line_continues :: "allocator \<Rightarrow> repl_t \<Rightarrow> (bool \<times> repl_t) result" where
  "line_continues al st =
    (case vstr_null_terminated_str (m_renew al) (r_line st) of
       Inl e \<Rightarrow> Inl e
     | Inr v \<Rightarrow> Inr (mp_repl_continue_with_input (c_str (vs_buf v)), set_line v st))"

definition next_line :: "allocator \<Rightarrow> repl_t \<Rightarrow> (int \<times> repl_t) result" where
  "next_line al st =
    (case vstr_add_byte (m_renew al) 10 (r_line st) of
       Inl e \<Rightarrow> Inl e
     | Inr v \<Rightarrow>
         (let st1 = (set_line v st)\<lparr>r_cont_line := True\<rparr> in
          Inr (0, st1\<lparr>r_rl := readline_note_newline ps2 (r_rl st1)\<rparr>)))"

text \<open>\<open>banner\<close> are the two lines with the names of the port and the build.\<close>

definition friendly_first :: "allocator \<Rightarrow> runner \<Rightarrow> byte list \<Rightarrow> int \<Rightarrow> repl_t \<Rightarrow> (int \<times> repl_t) result" where
  "friendly_first al run banner ret st =
    (if ret = 1 then
       Inr (0, snd (raw_ctrl_a run (rl_tx [13, 10] (st\<lparr>pyexec_mode_kind := PYEXEC_MODE_RAW_REPL\<rparr>))))
     else if ret = 2 then Inr (input_restart (rl_tx ([13, 10] @ banner) st))
     else if ret = 3 then Inr (input_restart (rl_tx [13, 10] st))
     else if ret = 4 then
       (let st1 = rl_tx [13, 10] st in Inr (PYEXEC_FORCED_EXIT, set_line (vstr_clear (r_line st1)) st1))
     else if ret = 5 then
       (let st1 = rl_tx ([13, 10] @ lit ''paste mode; Ctrl-C to cancel, Ctrl-D to finish'' @ [13, 10] @ lit ''=== '') st in
        Inr (0, (set_line (vstr_reset (r_line st1)) st1)\<lparr>r_paste_mode := True\<rparr>))
     else if ret < 0 then Inr (0, st)
     else case line_continues al st of
       Inl e \<Rightarrow> Inl e
     | Inr (ctd, st1) \<Rightarrow> if ctd then next_line al st1 else Inr (friendly_exec run MP_PARSE_SINGLE_INPUT st1))"

definition friendly_cont :: "allocator \<Rightarrow> runner \<Rightarrow> int \<Rightarrow> repl_t \<Rightarrow> (int \<times> repl_t) result" where
  "friendly_cont al run ret st =
    (if ret = 3 then Inr (input_restart (rl_tx [13, 10] (st\<lparr>r_cont_line := False\<rparr>)))
     else if ret = 4 then Inr (friendly_exec run MP_PARSE_SINGLE_INPUT st)
     else if ret < 0 then Inr (0, st)
     else case line_continues al st of
       Inl e \<Rightarrow> Inl e
     | Inr (ctd, st1) \<Rightarrow> if ctd then next_line al st1 else Inr (friendly_exec run MP_PARSE_SINGLE_INPUT st1))"

definition pyexec_friendly_repl_process_char ::
  "allocator \<Rightarrow> (byte list \<Rightarrow> completion) \<Rightarrow> runner \<Rightarrow> byte list \<Rightarrow> int \<Rightarrow> repl_t \<Rightarrow> (int \<times> repl_t) result" where
  "pyexec_friendly_repl_process_char al ac run banner c st =
    (if r_paste_mode st then friendly_paste al run c st
     else case readline_process_char al ac c (r_rl st) of
       Inl e \<Rightarrow> Inl e
     | Inr (ret, rl) \<Rightarrow>
         if \<not> r_cont_line st then friendly_first al run banner ret (st\<lparr>r_rl := rl\<rparr>)
         else friendly_cont al run ret (st\<lparr>r_rl := rl\<rparr>))"

definition pyexec_raw_repl_process_char ::
  "allocator \<Rightarrow> (byte list \<Rightarrow> completion) \<Rightarrow> runner \<Rightarrow> byte list \<Rightarrow> int \<Rightarrow> repl_t \<Rightarrow> (int \<times> repl_t) result" where
  "pyexec_raw_repl_process_char al ac run banner c st =
    (if c = 1 then Inr (raw_ctrl_a run st)
     else if c = 2 then
       (let st1 = (set_line (vstr_reset (r_line st)) st)
              \<lparr>pyexec_mode_kind := PYEXEC_MODE_FRIENDLY_REPL, r_cont_line := False, r_paste_mode := False\<rparr> in
        case pyexec_friendly_repl_process_char al ac run banner 2 st1 of
          Inl e \<Rightarrow> Inl e
        | Inr (ret, st2) \<Rightarrow> Inr (0, st2))
     else if c = 3 then Inr (0, set_line (vstr_reset (r_line st)) st)
     else if c \<noteq> 4 then
       (case vstr_add_byte (m_renew al) (word_of_int c) (r_line st) of
          Inl e \<Rightarrow> Inl e
        | Inr v \<Rightarrow> Inr (0, set_line v st))
     else let st1 = rl_tx (lit ''OK'') st in
       if vs_len (r_line st1) = 0 then
         (let st2 = rl_tx [13, 10] st1 in Inr (PYEXEC_FORCED_EXIT, set_line (vstr_clear (r_line st2)) st2))
       else (let (ret, st2) = parse_compile_execute run (Source_vstr (vstr_bytes (r_line st1))) MP_PARSE_FILE_INPUT True st1 in
         Inr (if forced_exit ret then (ret, st2) else raw_reset st2)))"

definition pyexec_event_repl_process_char ::
  "allocator \<Rightarrow> (byte list \<Rightarrow> completion) \<Rightarrow> runner \<Rightarrow> byte list \<Rightarrow> int \<Rightarrow> repl_t \<Rightarrow> (int \<times> repl_t) result" where
  "pyexec_event_repl_process_char al ac run banner c st =
    (case pyexec_mode_kind st of
       PYEXEC_MODE_RAW_REPL \<Rightarrow> pyexec_raw_repl_process_char al ac run banner c st
     | PYEXEC_MODE_FRIENDLY_REPL \<Rightarrow> pyexec_friendly_repl_process_char al ac run banner c st)"

definition pyexec_event_repl_init ::
  "allocator \<Rightarrow> (byte list \<Rightarrow> completion) \<Rightarrow> runner \<Rightarrow> byte list \<Rightarrow> repl_t \<Rightarrow> repl_t result" where
  "pyexec_event_repl_init al ac run banner st =
    (case vstr_new (m_renew al) 32 of
       Inl e \<Rightarrow> Inl e
     | Inr v \<Rightarrow>
         (let st1 = st\<lparr>r_cont_line := False, r_paste_mode := False, r_rl := readline_init v [] (r_rl st)\<rparr> in
          case (case pyexec_mode_kind st1 of
                  PYEXEC_MODE_RAW_REPL \<Rightarrow> pyexec_raw_repl_process_char al ac run banner 1 st1
                | PYEXEC_MODE_FRIENDLY_REPL \<Rightarrow> pyexec_friendly_repl_process_char al ac run banner 2 st1) of
            Inl e \<Rightarrow> Inl e
          | Inr (ret, st2) \<Rightarrow> Inr st2))"

end
