(* ===== verification/Pyexec_Correct.thy ===== *)
theory Pyexec_Correct
  imports Pyexec
begin

text \<open>
  The prompt as a state machine: an invariant of the states between two input characters that every
  character keeps, what the two prompts do with a finished input, and the completion's contract with the
  editor. \<open>Pyexec_Screen\<close> follows the prompt and its terminal over a whole session.
\<close>

subsection \<open>Invariant\<close>

text \<open>
  In raw mode the editor is at rest on an empty line of its own, so that Ctrl-B finds it ready; in
  paste mode the line collects arbitrary bytes; otherwise the invariant of the editor holds, and the
  first line of an input starts at the start of the buffer.
\<close>

definition raw_ready :: "readline_t \<Rightarrow> bool" where
  "raw_ready rl \<longleftrightarrow> rl_orig_line_len rl = 0 \<and> rl_cursor_pos rl = 0 \<and> rl_escape_seq rl = ESEQ_NONE"

definition repl_inv :: "repl_t \<Rightarrow> bool" where
  "repl_inv st \<longleftrightarrow>
    vstr_wf (r_line st) \<and> hist_ok (readline_hist (r_rl st)) \<and>
    (case pyexec_mode_kind st of
       PYEXEC_MODE_RAW_REPL \<Rightarrow> \<not> r_cont_line st \<and> \<not> r_paste_mode st \<and> raw_ready (r_rl st)
     | PYEXEC_MODE_FRIENDLY_REPL \<Rightarrow>
         if r_paste_mode st then \<not> r_cont_line st
         else rl_wf (r_rl st) \<and> rl_prompt (r_rl st) \<in> {[], ps1, ps2} \<and> (r_cont_line st \<or> rl_orig_line_len (r_rl st) = 0))"

text \<open>The size up to which no computation wraps and the screen commands are exact.\<close>

definition repl_small :: "repl_t \<Rightarrow> bool" where
  "repl_small st \<longleftrightarrow> vs_len (r_line st) + 1 < 2 ^ 30 \<and>
    (pyexec_mode_kind st = PYEXEC_MODE_FRIENDLY_REPL \<and> \<not> r_paste_mode st \<longrightarrow> rl_fits (r_rl st))"

lemma prompts_printable: "\<forall>b\<in>set ps1. printable b" "\<forall>b\<in>set ps2. printable b"
  by (auto simp: ps1_def ps2_def lit_def printable_def)

lemma prompts_c_str [simp]: "c_str ps1 = ps1" "c_str ps2 = ps2"
  by (simp_all add: ps1_def ps2_def lit_def c_str_def)

lemma repl_simps [simp]:
  "r_line (rl_tx s st) = r_line st" "r_line (set_line v st) = v"
  "r_line (st\<lparr>pyexec_mode_kind := k\<rparr>) = r_line st" "r_line (st\<lparr>r_cont_line := b\<rparr>) = r_line st"
  "r_line (st\<lparr>r_paste_mode := b\<rparr>) = r_line st" "r_line (st\<lparr>r_rl := rl\<rparr>) = rl_line rl"
  "pyexec_mode_kind (rl_tx s st) = pyexec_mode_kind st" "pyexec_mode_kind (set_line v st) = pyexec_mode_kind st"
  "r_cont_line (rl_tx s st) = r_cont_line st" "r_cont_line (set_line v st) = r_cont_line st"
  "r_paste_mode (rl_tx s st) = r_paste_mode st" "r_paste_mode (set_line v st) = r_paste_mode st"
  "readline_hist (r_rl (rl_tx s st)) = readline_hist (r_rl st)" "readline_hist (r_rl (set_line v st)) = readline_hist (r_rl st)"
  "raw_ready (r_rl (rl_tx s st)) = raw_ready (r_rl st)" "raw_ready (r_rl (set_line v st)) = raw_ready (r_rl st)"
  by (simp_all add: rl_tx_def set_line_def r_line_def tx_def raw_ready_def)

lemma input_restart_inv:
  assumes "vstr_wf (r_line st)" and "hist_ok (readline_hist (r_rl st))"
    and "pyexec_mode_kind st = PYEXEC_MODE_FRIENDLY_REPL"
  shows "repl_inv (snd (input_restart st)) \<and> vs_len (r_line (snd (input_restart st))) = 0 \<and>
    fst (input_restart st) = 0 \<and> rl_prompt (r_rl (snd (input_restart st))) = ps1 \<and>
    \<not> r_cont_line (snd (input_restart st)) \<and> \<not> r_paste_mode (snd (input_restart st)) \<and>
    pyexec_mode_kind (snd (input_restart st)) = PYEXEC_MODE_FRIENDLY_REPL"
proof -
  note r = reset_wf [OF assms(1)]
  have i: "rl_wf (readline_init (vstr_reset (r_line st)) ps1 (r_rl st))"
    using init_in_sync [OF _ _ prompts_printable(1) assms(2), of "vstr_reset (r_line st)"] r by simp
  show ?thesis using assms i r by (simp add: input_restart_def repl_inv_def readline_init_def tx_def)
qed

lemma restart_repl_inv:
  assumes "input_restart st = (r, st')" and "vstr_wf (r_line st)" and "hist_ok (readline_hist (r_rl st))"
    and "pyexec_mode_kind st = PYEXEC_MODE_FRIENDLY_REPL"
  shows "repl_inv st'"
  using input_restart_inv [OF assms(2-4)] assms(1) by simp

lemma parse_compile_execute_frame:
  "parse_compile_execute run src k e st = (ret, st') \<Longrightarrow> \<exists>out. st' = rl_tx out st"
  by (auto simp: parse_compile_execute_def Let_def split: prod.splits outcome.splits)

lemma friendly_exec_inv:
  assumes "vstr_wf (r_line st)" and "hist_ok (readline_hist (r_rl st))"
    and "pyexec_mode_kind st = PYEXEC_MODE_FRIENDLY_REPL"
    and "friendly_exec run k st = (ret, st')" and "\<not> forced_exit ret"
  shows "repl_inv st'"
proof -
  obtain r1 st1 where p: "parse_compile_execute run (Source_vstr (vstr_bytes (r_line st))) k False st = (r1, st1)"
    by fastforce
  then obtain out where "st1 = rl_tx out st" using parse_compile_execute_frame by blast
  then show ?thesis using assms p input_restart_inv [of st1]
    by (auto simp: friendly_exec_def split: if_splits)
qed

lemma raw_reset_inv:
  assumes "vstr_wf (r_line st)" and "hist_ok (readline_hist (r_rl st))"
    and "pyexec_mode_kind st = PYEXEC_MODE_RAW_REPL" "\<not> r_cont_line st" "\<not> r_paste_mode st" "raw_ready (r_rl st)"
  shows "repl_inv (snd (raw_reset st))"
  using assms reset_wf [OF assms(1)] by (simp add: raw_reset_def repl_inv_def)

lemma raw_ctrl_a_inv:
  assumes "vstr_wf (r_line st)" and "hist_ok (readline_hist (r_rl st))"
    and "pyexec_mode_kind st = PYEXEC_MODE_RAW_REPL" "\<not> r_cont_line st" "\<not> r_paste_mode st" "raw_ready (r_rl st)"
    and "raw_ctrl_a run st = (ret, st')" and "\<not> forced_exit ret \<or> vs_len (r_line st) = 0"
  shows "repl_inv st'"
proof -
  obtain r1 st1 where d: "do_reader_stdin run (vs_buf (r_line st) ! 1) st = (r1, st1)" by fastforce
  then obtain out where "st1 = rl_tx out st"
    using parse_compile_execute_frame by (fastforce simp: do_reader_stdin_def rl_tx_def tx_def split: if_splits)
  then show ?thesis using assms d raw_reset_inv [of st1]
      raw_reset_inv [of "rl_tx (lit ''raw REPL; CTRL-B to exit'' @ [13, 10]) st"]
    by (auto simp: raw_ctrl_a_def split: if_splits)
qed

lemma line_continues_props:
  assumes "vstr_wf (r_line st)" and "vs_len (r_line st) + 1 < 2 ^ 32" and "line_continues al st = Inr (b, st1)"
  shows "\<exists>v. st1 = set_line v st \<and> vstr_wf v \<and> vstr_bytes v = vstr_bytes (r_line st) \<and> vs_len v = vs_len (r_line st) \<and>
    b = mp_repl_continue_with_input (c_str (vstr_bytes (r_line st)))"
proof -
  obtain v where v: "vstr_null_terminated_str (m_renew al) (r_line st) = Inr v"
    and st1: "st1 = set_line v st" "b = mp_repl_continue_with_input (c_str (vs_buf v))"
    using assms(3) by (auto simp: line_continues_def split: sum.splits)
  show ?thesis using mren.null_terminated [OF assms(1,2) v] st1 by auto
qed

lemma next_line_inv:
  assumes wf: "vstr_wf (r_line st)" and len: "vs_len (r_line st) + 25 < 2 ^ 32" and h: "hist_ok (readline_hist (r_rl st))"
    and hc: "hist_cur_ok (r_rl st)" and m: "pyexec_mode_kind st = PYEXEC_MODE_FRIENDLY_REPL" "\<not> r_paste_mode st"
    and eq: "next_line al st = Inr (ret, st')"
  shows "repl_inv st' \<and> ret = 0"
proof -
  obtain v where v: "vstr_add_byte (m_renew al) 10 (r_line st) = Inr v"
    using eq by (auto simp: next_line_def split: sum.splits)
  have "vstr_small 1 (r_line st)" using len by (simp add: vstr_small_def)
  then have w: "vstr_wf v" using mren.add_byte_yields [OF wf, of al 10] v by (auto elim!: vstr_yieldsE)
  let ?rl = "readline_note_newline ps2 ((r_rl st)\<lparr>rl_line := v\<rparr>)"
  have st': "ret = 0" "st' = (set_line v st)\<lparr>r_cont_line := True, r_rl := ?rl\<rparr>"
    using eq v by (simp_all add: next_line_def Let_def set_line_def)
  have "rl_text ?rl = []" using w by (simp add: readline_note_newline_def tx_def rl_text_def)
  then have "rl_wf ?rl" using w h hc prompts_printable(2)
    by (simp add: rl_wf_def readline_note_newline_def tx_def hist_cur_ok_def)
  then show ?thesis using st' w h m by (simp add: repl_inv_def readline_note_newline_def tx_def)
qed

lemma finish_line_inv:
  assumes wf: "rl_wf (r_rl st)" and len: "vs_len (r_line st) + 25 < 2 ^ 32"
    and m: "pyexec_mode_kind st = PYEXEC_MODE_FRIENDLY_REPL" "\<not> r_paste_mode st"
    and eq: "(case line_continues al st of Inl e \<Rightarrow> Inl e
       | Inr (ctd, st1) \<Rightarrow> if ctd then next_line al st1 else Inr (friendly_exec run MP_PARSE_SINGLE_INPUT st1)) = Inr (ret, st')"
    and nf: "\<not> forced_exit ret"
  shows "repl_inv st'"
proof -
  have w: "vstr_wf (r_line st)" "hist_ok (readline_hist (r_rl st))" "hist_cur_ok (r_rl st)"
    using wf by (auto simp: rl_wf_def r_line_def)
  obtain b st1 where lc: "line_continues al st = Inr (b, st1)" using eq by (auto split: sum.splits)
  have "vs_len (r_line st) + 1 < 2 ^ 32" using len by simp
  from line_continues_props [OF w(1) this lc] obtain v where v: "st1 = set_line v st" "vstr_wf v"
    "vs_len v = vs_len (r_line st)" by auto
  have "hist_cur_ok (r_rl st1)" using w(3) by (simp add: v set_line_def hist_cur_ok_def)
  then show ?thesis
    using eq lc v w m len nf next_line_inv [of st1 al ret st'] friendly_exec_inv [of st1 run _ ret st']
    by (auto split: if_splits)
qed

lemma friendly_first_inv:
  assumes wf: "rl_wf (r_rl st)" and len: "vs_len (r_line st) + 25 < 2 ^ 32"
    and m: "pyexec_mode_kind st = PYEXEC_MODE_FRIENDLY_REPL" "\<not> r_paste_mode st" "\<not> r_cont_line st"
    and pr: "rl_prompt (r_rl st) \<in> {[], ps1, ps2}" "rl_orig_line_len (r_rl st) = 0"
    and r1: "ret = 1 \<Longrightarrow> rl_escape_seq (r_rl st) = ESEQ_NONE \<and> vs_len (r_line st) = 0"
    and eq: "friendly_first al run banner ret st = Inr (ret', st')" and nf: "\<not> forced_exit ret'"
  shows "repl_inv st'"
proof -
  have w: "vstr_wf (r_line st)" "hist_ok (readline_hist (r_rl st))" using wf by (auto simp: rl_wf_def r_line_def)
  consider "ret = 1" | "ret = 2" | "ret = 3" | "ret = 4" | "ret = 5" | "ret < 0" | "ret = 0 \<or> 5 < ret" by linarith
  then show ?thesis
  proof cases
    case 1
    let ?st = "rl_tx [13, 10] (st\<lparr>pyexec_mode_kind := PYEXEC_MODE_RAW_REPL\<rparr>)"
    have "rl_cursor_pos (r_rl st) = 0" using wf r1 [OF 1] by (simp add: rl_wf_def r_line_def)
    then have rr: "raw_ready (r_rl ?st)" using r1 [OF 1] pr(2) by (simp add: raw_ready_def rl_tx_def tx_def)
    obtain a where a: "raw_ctrl_a run ?st = (a, st')" using eq 1 by (cases "raw_ctrl_a run ?st") (auto simp: friendly_first_def)
    have h: "hist_ok (readline_hist (r_rl ?st))" using w(2) by (simp add: rl_tx_def tx_def)
    show ?thesis by (rule raw_ctrl_a_inv [OF _ h _ _ _ rr a]) (use w(1) m r1 [OF 1] in simp_all)
  next
    case 4
    then show ?thesis using eq nf by (auto simp: friendly_first_def Let_def forced_exit_def PYEXEC_FORCED_EXIT_def)
  next
    case 5
    then show ?thesis using eq w m reset_wf [OF w(1)] by (auto simp: friendly_first_def Let_def repl_inv_def)
  next
    case 6
    then show ?thesis using eq wf w m pr by (auto simp: friendly_first_def repl_inv_def)
  next
    case 7
    then show ?thesis using eq by (auto simp: friendly_first_def intro: finish_line_inv [OF wf len m(1,2) _ nf])
  qed (use eq w m restart_repl_inv in \<open>auto simp: friendly_first_def\<close>)
qed

lemma friendly_cont_inv:
  assumes wf: "rl_wf (r_rl st)" and len: "vs_len (r_line st) + 25 < 2 ^ 32"
    and m: "pyexec_mode_kind st = PYEXEC_MODE_FRIENDLY_REPL" "\<not> r_paste_mode st" "r_cont_line st"
    and pr: "rl_prompt (r_rl st) \<in> {[], ps1, ps2}"
    and eq: "friendly_cont al run ret st = Inr (ret', st')" and nf: "\<not> forced_exit ret'"
  shows "repl_inv st'"
proof -
  have w: "vstr_wf (r_line st)" "hist_ok (readline_hist (r_rl st))" using wf by (auto simp: rl_wf_def r_line_def)
  consider "ret = 3" | "ret = 4" | "ret < 0" | "ret \<noteq> 3" "ret \<noteq> 4" "0 \<le> ret" by linarith
  then show ?thesis
  proof cases
    case 1
    then show ?thesis using eq w m input_restart_inv [of "rl_tx [13, 10] (st\<lparr>r_cont_line := False\<rparr>)"]
      by (auto simp: friendly_cont_def)
  next
    case 2
    then show ?thesis using eq nf w m by (auto simp: friendly_cont_def intro: friendly_exec_inv)
  next
    case 3
    then show ?thesis using eq wf w m pr by (auto simp: friendly_cont_def repl_inv_def)
  next
    case 4
    then show ?thesis using eq by (auto simp: friendly_cont_def intro: finish_line_inv [OF wf len m(1,2) _ nf])
  qed
qed

lemma readline_step_inv:
  assumes inv: "rl_wf rl" "rl_fits rl" and ac: "completer_ok ac"
    and eq: "readline_process_char al ac c rl = Inr (ret, rl')" and fits: "ret = - 1 \<Longrightarrow> rl_fits rl'"
  shows "rl_wf rl' \<and> rl_orig_line_len rl' = rl_orig_line_len rl \<and> rl_prompt rl' = rl_prompt rl \<and>
    (ret = - 1 \<or> vs_len (rl_line rl') = vs_len (rl_line rl)) \<and>
    (ret = 1 \<longrightarrow> rl_escape_seq rl' = ESEQ_NONE \<and> vs_len (rl_line rl') = rl_orig_line_len rl)"
proof (cases "ret = - 1")
  case True
  then show ?thesis using process_char_in_sync [OF inv ac eq fits] by simp
next
  case False
  then have g: "ret_good c rl ret rl'" using process_char_in_sync [OF inv ac eq fits] by simp
  show ?thesis
  proof (cases "c = 13")
    case True
    then have g': "rl_wf rl'" "vstr_bytes (rl_line rl') = vstr_bytes (rl_line rl)" "ret = 0"
      "rl_orig_line_len rl' = rl_orig_line_len rl" "rl_prompt rl' = rl_prompt rl"
      using g by (simp_all add: ret_good_def)
    have "vs_len (rl_line rl') = vs_len (rl_line rl)"
      using g'(1,2) inv(1) vstr_bytes_length by (metis rl_wf_def)
    then show ?thesis using g' by simp
  next
    case False
    then show ?thesis using g inv(1) by (auto simp: ret_good_def)
  qed
qed

lemma add_byte_inv:
  assumes "vstr_wf v" and "vs_len v + 25 < 2 ^ 32" and "vstr_add_byte (m_renew al) b v = Inr v'"
  shows "vstr_wf v' \<and> vstr_bytes v' = vstr_bytes v @ [b]"
proof -
  have "vstr_small 1 v" using assms(2) by (simp add: vstr_small_def)
  then show ?thesis using mren.add_byte_yields [OF assms(1), of al b] assms(3) by (auto elim!: vstr_yieldsE)
qed

text \<open>A character at the friendly prompt goes to the editor first.\<close>

lemma friendly_readline:
  assumes inv: "repl_inv st" and sm: "repl_small st" and ac: "completer_ok ac"
    and m: "pyexec_mode_kind st = PYEXEC_MODE_FRIENDLY_REPL" and np: "\<not> r_paste_mode st"
    and eq: "pyexec_friendly_repl_process_char al ac run banner c st = Inr (ret, st')" and sm': "repl_small st'"
  obtains r rl where "readline_process_char al ac c (r_rl st) = Inr (r, rl)"
    and "(if \<not> r_cont_line st then friendly_first al run banner r (st\<lparr>r_rl := rl\<rparr>)
         else friendly_cont al run r (st\<lparr>r_rl := rl\<rparr>)) = Inr (ret, st')"
    and "rl_wf (r_rl st)" and "rl_fits (r_rl st)" and "r = - 1 \<longrightarrow> rl_fits rl" and "vs_len (rl_line rl) + 25 < 2 ^ 32"
proof -
  have wf: "rl_wf (r_rl st)" "rl_fits (r_rl st)" using inv sm m np by (auto simp: repl_inv_def repl_small_def)
  obtain r rl where rp: "readline_process_char al ac c (r_rl st) = Inr (r, rl)"
    and nx: "(if \<not> r_cont_line st then friendly_first al run banner r (st\<lparr>r_rl := rl\<rparr>)
         else friendly_cont al run r (st\<lparr>r_rl := rl\<rparr>)) = Inr (ret, st')"
    using eq np by (auto simp: pyexec_friendly_repl_process_char_def split: sum.splits)
  have fits: "rl_fits rl" if "r = - 1"
  proof -
    have "st' = st\<lparr>r_rl := rl\<rparr>" using nx that by (auto simp: friendly_first_def friendly_cont_def split: if_splits)
    then show ?thesis using sm' m np by (simp add: repl_small_def)
  qed
  have "vs_len (rl_line rl) + 25 < 2 ^ 32"
    using readline_step_inv [OF wf ac rp fits] fits wf(2) by (cases "r = - 1") (auto simp: rl_fits_def)
  then show thesis using that rp nx wf fits by blast
qed

lemma friendly_step_inv:
  assumes inv: "repl_inv st" and sm: "repl_small st" and ac: "completer_ok ac"
    and m: "pyexec_mode_kind st = PYEXEC_MODE_FRIENDLY_REPL"
    and eq: "pyexec_friendly_repl_process_char al ac run banner c st = Inr (ret, st')"
    and nf: "\<not> forced_exit ret" and sm': "repl_small st'"
  shows "repl_inv st'"
proof (cases "r_paste_mode st")
  case True
  have w: "vstr_wf (r_line st)" "hist_ok (readline_hist (r_rl st))" "\<not> r_cont_line st" using inv m True by (simp_all add: repl_inv_def)
  have fp: "friendly_paste al run c st = Inr (ret, st')" using eq True by (simp add: pyexec_friendly_repl_process_char_def)
  consider "c = 3" | "c = 4" | "c \<noteq> 3" "c \<noteq> 4" by linarith
  then show ?thesis
  proof cases
    case 1
    then show ?thesis using fp w m restart_repl_inv by (auto simp: friendly_paste_def)
  next
    case 2
    then show ?thesis using fp w m nf friendly_exec_inv [of "rl_tx [13, 10] st"] by (auto simp: friendly_paste_def)
  next
    case 3
    then obtain v where v: "vstr_add_byte (m_renew al) (word_of_int c) (r_line st) = Inr v"
      and st': "st' = rl_tx (if c = 13 then [13, 10] @ lit ''=== '' else [word_of_int c]) (set_line v st)"
      using fp by (auto simp: friendly_paste_def split: sum.splits)
    have "vstr_wf v" using add_byte_inv [OF w(1) _ v] sm by (simp add: repl_small_def)
    then show ?thesis using st' w m True by (simp add: repl_inv_def)
  qed
next
  case False
  have i: "rl_prompt (r_rl st) \<in> {[], ps1, ps2}" "r_cont_line st \<or> rl_orig_line_len (r_rl st) = 0"
    using inv m False by (auto simp: repl_inv_def)
  obtain r rl where rp: "readline_process_char al ac c (r_rl st) = Inr (r, rl)"
    and nx: "(if \<not> r_cont_line st then friendly_first al run banner r (st\<lparr>r_rl := rl\<rparr>)
         else friendly_cont al run r (st\<lparr>r_rl := rl\<rparr>)) = Inr (ret, st')"
    and fit: "rl_wf (r_rl st)" "rl_fits (r_rl st)" "r = - 1 \<longrightarrow> rl_fits rl" and len: "vs_len (rl_line rl) + 25 < 2 ^ 32"
    by (rule friendly_readline [OF inv sm ac m False eq sm'])
  note s = readline_step_inv [OF fit(1,2) ac rp mp [OF fit(3)]]
  show ?thesis
  proof (cases "r_cont_line st")
    case True
    show ?thesis by (rule friendly_cont_inv [of "st\<lparr>r_rl := rl\<rparr>" al run r ret])
      (use s i m True False nx nf len in simp_all)
  next
    case nc: False
    show ?thesis by (rule friendly_first_inv [of "st\<lparr>r_rl := rl\<rparr>" r al run banner ret])
      (use s i m nc False nx nf len in auto)
  qed
qed

text \<open>Ctrl-B on the empty line: the banner and a fresh prompt.\<close>

lemma ctrl_b_restarts:
  assumes "vstr_wf (r_line st)" and "vs_len (r_line st) = 0" and "hist_ok (readline_hist (r_rl st))"
    and "raw_ready (r_rl st)" and "pyexec_mode_kind st = PYEXEC_MODE_FRIENDLY_REPL" "\<not> r_cont_line st" "\<not> r_paste_mode st"
  shows "pyexec_friendly_repl_process_char al ac run banner 2 st = Inr (input_restart (rl_tx ([13, 10] @ banner) st))"
proof -
  have "readline_process_char al ac 2 (r_rl st) = Inr (2, r_rl st)"
    using assms(2,4) by (simp add: readline_process_char_def rl_dispatch_def rl_none_def raw_ready_def r_line_def)
  then show ?thesis using assms by (simp add: pyexec_friendly_repl_process_char_def friendly_first_def)
qed

lemma raw_ctrl_b:
  assumes inv: "repl_inv st" and m: "pyexec_mode_kind st = PYEXEC_MODE_RAW_REPL"
  shows "\<exists>st'. pyexec_raw_repl_process_char al ac run banner 2 st = Inr (0, st') \<and> repl_inv st' \<and>
    pyexec_mode_kind st' = PYEXEC_MODE_FRIENDLY_REPL \<and> vs_len (r_line st') = 0 \<and> rl_prompt (r_rl st') = ps1 \<and>
    \<not> r_cont_line st' \<and> \<not> r_paste_mode st'"
proof -
  have w: "vstr_wf (r_line st)" "hist_ok (readline_hist (r_rl st))" "raw_ready (r_rl st)"
    using inv m by (simp_all add: repl_inv_def)
  let ?st = "(set_line (vstr_reset (r_line st)) st)
      \<lparr>pyexec_mode_kind := PYEXEC_MODE_FRIENDLY_REPL, r_cont_line := False, r_paste_mode := False\<rparr>"
  note r = reset_wf [OF w(1)]
  have h: "hist_ok (readline_hist (r_rl ?st))" "raw_ready (r_rl ?st)"
    using w by (simp_all add: set_line_def raw_ready_def)
  have "pyexec_friendly_repl_process_char al ac run banner 2 ?st = Inr (input_restart (rl_tx ([13, 10] @ banner) ?st))"
    by (rule ctrl_b_restarts [OF _ _ h]) (use r in simp_all)
  moreover note input_restart_inv [of "rl_tx ([13, 10] @ banner) ?st"]
  ultimately show ?thesis using h(1) r
    by (cases "input_restart (rl_tx ([13, 10] @ banner) ?st)") (auto simp: pyexec_raw_repl_process_char_def)
qed

lemma raw_step_inv:
  assumes inv: "repl_inv st" and sm: "repl_small st" and m: "pyexec_mode_kind st = PYEXEC_MODE_RAW_REPL"
    and eq: "pyexec_raw_repl_process_char al ac run banner c st = Inr (ret, st')" and nf: "\<not> forced_exit ret"
  shows "repl_inv st'"
proof -
  have w: "vstr_wf (r_line st)" "hist_ok (readline_hist (r_rl st))" "\<not> r_cont_line st" "\<not> r_paste_mode st" "raw_ready (r_rl st)"
    using inv m by (simp_all add: repl_inv_def)
  consider "c = 1" | "c = 2" | "c = 3" | "c = 4" | "c \<noteq> 1" "c \<noteq> 2" "c \<noteq> 3" "c \<noteq> 4" by linarith
  then show ?thesis
  proof cases
    case 1
    then show ?thesis using eq nf raw_ctrl_a_inv [OF w(1,2) m w(3-5)] by (auto simp: pyexec_raw_repl_process_char_def)
  next
    case 2
    then show ?thesis using eq raw_ctrl_b [OF inv m, of al ac run banner] by auto
  next
    case 3
    then show ?thesis using eq w m reset_wf [OF w(1)] by (auto simp: pyexec_raw_repl_process_char_def repl_inv_def)
  next
    case 4
    let ?st = "rl_tx (lit ''OK'') st"
    obtain r st2 where p: "parse_compile_execute run (Source_vstr (vstr_bytes (r_line ?st))) MP_PARSE_FILE_INPUT True ?st = (r, st2)"
      by fastforce
    then obtain out where "st2 = rl_tx out ?st" using parse_compile_execute_frame by blast
    then have "repl_inv (snd (raw_reset st2))" using w m by (intro raw_reset_inv) simp_all
    then show ?thesis using eq nf 4 p
      by (auto simp: pyexec_raw_repl_process_char_def Let_def forced_exit_def PYEXEC_FORCED_EXIT_def split: if_splits)
  next
    case 5
    then obtain v where v: "vstr_add_byte (m_renew al) (word_of_int c) (r_line st) = Inr v" and st': "st' = set_line v st"
      using eq by (auto simp: pyexec_raw_repl_process_char_def split: sum.splits)
    have "vstr_wf v" using add_byte_inv [OF w(1) _ v] sm by (simp add: repl_small_def)
    then show ?thesis using st' w m by (simp add: repl_inv_def)
  qed
qed

subsection \<open>Properties\<close>

lemma vstr_new_empty: "vstr_new (m_renew al) 32 = Inr v \<Longrightarrow> vstr_wf v \<and> vs_len v = 0"
  using mren.renew_length [of al "[]" 32]
  by (auto simp: vstr_new_def vstr_init_def vstr_wf_def split: option.splits)

lemma repl_init_inv:
  assumes eq: "pyexec_event_repl_init al ac run banner st0 = Inr st" and h: "hist_ok (readline_hist (r_rl st0))"
  shows "repl_inv st"
proof -
  obtain v where v: "vstr_new (m_renew al) 32 = Inr v" using eq by (auto simp: pyexec_event_repl_init_def split: sum.splits)
  note w = vstr_new_empty [OF v]
  let ?st = "st0\<lparr>r_cont_line := False, r_paste_mode := False, r_rl := readline_init v [] (r_rl st0)\<rparr>"
  have i: "vstr_wf (r_line ?st)" "vs_len (r_line ?st) = 0" "hist_ok (readline_hist (r_rl ?st))" "raw_ready (r_rl ?st)"
    using w h by (simp_all add: readline_init_def tx_def raw_ready_def)
  show ?thesis
  proof (cases "pyexec_mode_kind st0")
    case PYEXEC_MODE_FRIENDLY_REPL
    then have "pyexec_friendly_repl_process_char al ac run banner 2 ?st = Inr (input_restart (rl_tx ([13, 10] @ banner) ?st))"
      using i by (intro ctrl_b_restarts) simp_all
    then show ?thesis using eq v PYEXEC_MODE_FRIENDLY_REPL i restart_repl_inv [of "rl_tx ([13, 10] @ banner) ?st"]
      by (auto simp: pyexec_event_repl_init_def Let_def split: prod.splits)
  next
    case PYEXEC_MODE_RAW_REPL
    then show ?thesis using eq v i raw_ctrl_a_inv [of ?st run]
      by (auto simp: pyexec_event_repl_init_def Let_def pyexec_raw_repl_process_char_def split: prod.splits)
  qed
qed

text \<open>The states at the start, for the concrete runs below.\<close>

definition sample_repl :: "pyexec_mode_kind_t \<Rightarrow> repl_t" where
  "sample_repl k = \<lparr>r_rl = sample_rl, r_cont_line = False, r_paste_mode = False, pyexec_mode_kind = k\<rparr>"

lemma sample_hist_ok: "hist_ok (readline_hist (r_rl (sample_repl k)))"
  by (auto simp: sample_repl_def sample_rl_def hist_ok_def)

lemma no_completer_ok: "completer_ok (\<lambda>_. Compl_none)"
  by (simp add: completer_ok_def)

lemma sample_init:
  "\<exists>st. pyexec_event_repl_init (\<lambda>_. Some (\<lambda>_. 0)) (\<lambda>_. Compl_none) (\<lambda>s k. ([], Finished)) [] (sample_repl PYEXEC_MODE_RAW_REPL) = Inr st \<and>
    repl_small st \<and> pyexec_mode_kind st = PYEXEC_MODE_RAW_REPL \<and> vs_len (r_line st) = 0 \<and> \<not> vs_fixed (r_line st)"
  by (simp add: pyexec_event_repl_init_def vstr_new_def vstr_init_def m_renew_def pyexec_raw_repl_process_char_def
      raw_ctrl_a_def raw_reset_def sample_repl_def readline_init_def tx_def rl_tx_def set_line_def r_line_def
      vstr_reset_def repl_small_def)

text \<open>Feeding characters until the prompt is left.\<close>

fun repl_feed ::
  "allocator \<Rightarrow> (byte list \<Rightarrow> completion) \<Rightarrow> runner \<Rightarrow> byte list \<Rightarrow> int list \<Rightarrow> repl_t \<Rightarrow> (int \<times> repl_t) result" where
  "repl_feed al ac run banner [] st = Inr (0, st)"
| "repl_feed al ac run banner (c # cs) st =
    (case pyexec_event_repl_process_char al ac run banner c st of
       Inl e \<Rightarrow> Inl e
     | Inr (ret, st') \<Rightarrow> if forced_exit ret then Inr (ret, st') else repl_feed al ac run banner cs st')"

lemma add_byte_total:
  assumes "vstr_wf v" and "vs_len v + 25 < 2 ^ 32" and "\<not> vs_fixed v" and "\<forall>n. al n \<noteq> None"
  shows "\<exists>v'. vstr_add_byte (m_renew al) b v = Inr v' \<and> vstr_wf v' \<and> vstr_bytes v' = vstr_bytes v @ [b] \<and>
    \<not> vs_fixed v' \<and> vs_len v' = vs_len v + 1"
proof -
  have "vstr_small 1 v" using assms(2) by (simp add: vstr_small_def)
  from mren.add_byte_yields [OF assms(1) this, of al b] room_total [OF assms(4,3), of 1] assms(1,3)
  show ?thesis by (auto simp: vstr_yields_def) (metis length_append_singleton vstr_bytes_length)
qed

lemma forced_exit_0 [simp]: "\<not> forced_exit 0" "\<not> forced_exit 1" "forced_exit PYEXEC_FORCED_EXIT"
  by (simp_all add: forced_exit_def PYEXEC_FORCED_EXIT_def)

lemma raw_collect:
  assumes "pyexec_mode_kind st = PYEXEC_MODE_RAW_REPL" and "vstr_wf (r_line st)" and "\<not> vs_fixed (r_line st)"
    and "\<forall>n. al n \<noteq> None" and "\<forall>b\<in>set src. b \<notin> {1, 2, 3, 4}" and "vs_len (r_line st) + length src + 25 < 2 ^ 32"
  shows "\<exists>v. repl_feed al ac run banner (map uint src @ cs) st = repl_feed al ac run banner cs (set_line v st) \<and>
    vstr_wf v \<and> vstr_bytes v = vstr_bytes (r_line st) @ src"
  using assms(1-3,5,6)
proof (induction src arbitrary: st)
  case Nil
  have "set_line (r_line st) st = st" by (simp add: set_line_def r_line_def)
  then show ?case using Nil by (intro exI [of _ "r_line st"]) simp
next
  case (Cons b src)
  obtain v where v: "vstr_add_byte (m_renew al) b (r_line st) = Inr v" "vstr_wf v"
    "vstr_bytes v = vstr_bytes (r_line st) @ [b]" "\<not> vs_fixed v" "vs_len v = vs_len (r_line st) + 1"
    using add_byte_total [OF Cons.prems(2) _ Cons.prems(3) assms(4), of b] Cons.prems(5) by auto
  have b: "uint b \<noteq> 1" "uint b \<noteq> 2" "uint b \<noteq> 3" "uint b \<noteq> 4"
    using Cons.prems(4) by (auto simp: word_uint_eq_iff)
  have step: "pyexec_event_repl_process_char al ac run banner (uint b) st = Inr (0, set_line v st)"
    using Cons.prems(1) b v(1) by (simp add: pyexec_event_repl_process_char_def pyexec_raw_repl_process_char_def)
  obtain w where "repl_feed al ac run banner (map uint src @ cs) (set_line v st) =
      repl_feed al ac run banner cs (set_line w (set_line v st))" "vstr_wf w" "vstr_bytes w = vstr_bytes v @ src"
    using Cons.IH [of "set_line v st"] Cons.prems v by auto
  moreover have "set_line w (set_line v st) = set_line w st" by (simp add: set_line_def)
  ultimately show ?case using step v(3) by (intro exI [of _ w]) simp
qed

definition exc_text :: "outcome \<Rightarrow> byte list" where
  "exc_text oc = (case oc of Exception_text t \<Rightarrow> t | _ \<Rightarrow> [])"

text \<open>
  C31. The raw prompt implements its protocol: with memory available, sending a non-empty source without
  the control characters 1 to 4, followed by Ctrl-D, executes exactly these bytes as a file, and the
  output is \<^verbatim>\<open>OK\<close>, what the execution printed, an end-of-file character, the text of the exception
  if there was one, another end-of-file character and the prompt \<^verbatim>\<open>>\<close>. The prompt is ready for the
  next source with an empty line.
\<close>

theorem raw_repl_protocol:
  assumes st: "repl_inv st" "pyexec_mode_kind st = PYEXEC_MODE_RAW_REPL" "vs_len (r_line st) = 0" "\<not> vs_fixed (r_line st)"
    and al: "\<forall>n. al n \<noteq> None" and src: "src \<noteq> []" "\<forall>b\<in>set src. b \<notin> {1, 2, 3, 4}" "length src < 2 ^ 30"
    and run: "run (Source_vstr src) MP_PARSE_FILE_INPUT = (out, oc)" "\<forall>code. oc = System_exit code \<longrightarrow> \<not> forced_exit code"
  shows "\<exists>st'. repl_feed al ac run banner (map uint src @ [4]) st = Inr (0, st') \<and> repl_inv st' \<and>
    pyexec_mode_kind st' = PYEXEC_MODE_RAW_REPL \<and> vs_len (r_line st') = 0 \<and>
    rl_out (r_rl st') = rl_out (r_rl st) @ lit ''OK'' @ out @ [4] @ exc_text oc @ [4] @ lit ''>''"
proof -
  have w: "vstr_wf (r_line st)" "hist_ok (readline_hist (r_rl st))" "\<not> r_cont_line st" "\<not> r_paste_mode st" "raw_ready (r_rl st)"
    using st(1,2) by (simp_all add: repl_inv_def)
  have "vs_len (r_line st) + length src + 25 < 2 ^ 32" using st(3) src(3) by simp
  from raw_collect [OF st(2) w(1) st(4) al src(2) this, of ac run banner "[4]"] obtain v where
    v: "repl_feed al ac run banner (map uint src @ [4]) st = repl_feed al ac run banner [4] (set_line v st)"
      "vstr_wf v" "vstr_bytes v = src"
    using st(3) by (auto simp: vstr_bytes_def)
  have vl: "vs_len v \<noteq> 0" using v(3) src(1) by (auto simp: vstr_bytes_def)
  let ?st1 = "rl_tx (lit ''OK'') (set_line v st)"
  obtain ret where p: "parse_compile_execute run (Source_vstr src) MP_PARSE_FILE_INPUT True ?st1 =
      (ret, rl_tx (out @ [4] @ exc_text oc @ [4]) ?st1)" "\<not> forced_exit ret"
    using run by (cases oc) (auto simp: parse_compile_execute_def exc_text_def)
  let ?st2 = "rl_tx (out @ [4] @ exc_text oc @ [4]) ?st1"
  have "pyexec_event_repl_process_char al ac run banner 4 (set_line v st) = Inr (raw_reset ?st2)"
    using st(2) vl v(3) p by (simp add: pyexec_event_repl_process_char_def pyexec_raw_repl_process_char_def)
  then have f: "repl_feed al ac run banner (map uint src @ [4]) st = Inr (0, snd (raw_reset ?st2))"
    unfolding v(1) by (simp add: raw_reset_def)
  have "repl_inv (snd (raw_reset ?st2))" by (rule raw_reset_inv) (use w v(2) st(2) in simp_all)
  then show ?thesis using f st(2)
    by (auto simp: raw_reset_def rl_tx_def tx_def set_line_def r_line_def vstr_reset_def)
qed

theorem raw_repl_protocol_witness:
  "\<exists>st st'. repl_feed (\<lambda>_. Some (\<lambda>_. 0)) (\<lambda>_. Compl_none) (\<lambda>s k. ([], Finished)) [] (map uint [97, 61, 49::byte] @ [4]) st = Inr (0, st') \<and>
    rl_out (r_rl st') = rl_out (r_rl st) @ lit ''OK'' @ [] @ [4] @ [] @ [4] @ lit ''>''"
proof -
  obtain st where st: "pyexec_event_repl_init (\<lambda>_. Some (\<lambda>_. 0)) (\<lambda>_. Compl_none) (\<lambda>s k. ([], Finished)) []
      (sample_repl PYEXEC_MODE_RAW_REPL) = Inr st" "pyexec_mode_kind st = PYEXEC_MODE_RAW_REPL"
      "vs_len (r_line st) = 0" "\<not> vs_fixed (r_line st)"
    using sample_init by blast
  have inv: "repl_inv st" by (rule repl_init_inv [OF st(1) sample_hist_ok])
  show ?thesis
    using raw_repl_protocol [OF inv st(2-4), where al = "\<lambda>_. Some (\<lambda>_. 0)" and src = "[97, 61, 49]" and
        run = "\<lambda>s k. ([], Finished)" and out = "[]" and oc = Finished and ac = "\<lambda>_. Compl_none" and banner = "[]"]
    by (auto simp: exc_text_def)
qed

lemma line_continues_total:
  assumes wf: "vstr_wf (r_line st)" and len: "vs_len (r_line st) + 1 < 2 ^ 32" and nf: "\<not> vs_fixed (r_line st)"
    and al: "\<forall>n. al n \<noteq> None"
  shows "\<exists>v. line_continues al st = Inr (mp_repl_continue_with_input (c_str (vstr_bytes (r_line st))), set_line v st) \<and>
    vstr_wf v \<and> vstr_bytes v = vstr_bytes (r_line st) \<and> vs_len v = vs_len (r_line st) \<and> \<not> vs_fixed v"
proof -
  obtain bf where "m_renew al (vs_buf (r_line st)) (wrap32 (vs_alloc (r_line st) + 1)) = Some bf"
    using m_renew_total [OF al] by blast
  then obtain v where v: "vstr_null_terminated_str (m_renew al) (r_line st) = Inr v"
    using nf by (cases "vs_alloc (r_line st) = vs_len (r_line st)") (auto simp: vstr_null_terminated_str_def vstr_extend_def)
  show ?thesis using mren.null_terminated [OF wf len v] v nf
    by (intro exI [of _ v]) (simp add: line_continues_def)
qed

lemma enter_total:
  assumes wf: "rl_wf rl" "rl_fits rl" and e: "rl_escape_seq rl = ESEQ_NONE" "\<not> vs_fixed (rl_line rl)"
    and al: "\<forall>n. al n \<noteq> None" and ac: "completer_ok ac"
  shows "\<exists>rl'. readline_process_char al ac 13 rl = Inr (0, rl') \<and> rl_wf rl' \<and>
    vstr_bytes (rl_line rl') = vstr_bytes (rl_line rl) \<and> \<not> vs_fixed (rl_line rl') \<and> rl_out rl' = rl_out rl @ [13, 10]"
proof -
  note bd = rl_bounds [OF wf]
  obtain bf where "m_renew al (vs_buf (rl_line rl)) (wrap32 (vs_alloc (rl_line rl) + 1)) = Some bf"
    using m_renew_total [OF al] by blast
  then obtain v where v: "vstr_null_terminated_str (m_renew al) (rl_line rl) = Inr v"
    using e(2) by (cases "vs_alloc (rl_line rl) = vs_len (rl_line rl)") (auto simp: vstr_null_terminated_str_def vstr_extend_def)
  have nf: "\<not> vs_fixed v" using mren.null_terminated [OF bd(1) _ v] bd(4) e(2) by auto
  define rl' where "rl' = readline_push_history al (drop (rl_orig_line_len rl) (vs_buf v)) ((tx [13, 10] rl)\<lparr>rl_line := v\<rparr>)"
  have d: "rl_dispatch al ac 13 rl = Inr (Return 0 rl')"
    using e(1) v unfolding rl'_def by (simp add: rl_dispatch_def rl_none_def rl_newline_def Let_def tx_def)
  have "rl_line rl' = v" unfolding rl'_def by (auto simp: readline_push_history_def tx_def split: option.splits)
  then show ?thesis using dispatch_good [OF wf ac d] d nf
    by (auto simp: readline_process_char_def good_step_def ret_good_def)
qed

text \<open>Executing the collected input, and cancelling it, at the friendly prompt.\<close>

lemma friendly_exec_run:
  assumes wf: "vstr_wf (r_line st)" "hist_ok (readline_hist (r_rl st))" and m: "pyexec_mode_kind st = PYEXEC_MODE_FRIENDLY_REPL"
    and run: "run (Source_vstr (vstr_bytes (r_line st))) k = (out, oc)" "\<forall>code. oc = System_exit code \<longrightarrow> \<not> forced_exit code"
  shows "\<exists>st'. friendly_exec run k st = (0, st') \<and> repl_inv st' \<and> \<not> r_cont_line st' \<and> vstr_bytes (r_line st') = [] \<and>
    rl_out (r_rl st') = rl_out (r_rl st) @ out @ exc_text oc @ ps1"
proof -
  let ?st2 = "rl_tx (out @ exc_text oc) st"
  obtain ret where p: "parse_compile_execute run (Source_vstr (vstr_bytes (r_line st))) k False st = (ret, ?st2)"
    "\<not> forced_exit ret"
    using run by (cases oc) (auto simp: parse_compile_execute_def exc_text_def)
  have fe: "friendly_exec run k st = (0, snd (input_restart ?st2))" using p by (simp add: friendly_exec_def input_restart_def)
  moreover have "repl_inv (snd (input_restart ?st2))" "\<not> r_cont_line (snd (input_restart ?st2))"
    using input_restart_inv [of ?st2] wf m by simp_all
  moreover have "vstr_bytes (r_line (snd (input_restart ?st2))) = []"
      "rl_out (r_rl (snd (input_restart ?st2))) = rl_out (r_rl st) @ out @ exc_text oc @ ps1"
    using reset_wf [OF wf(1)] by (simp_all add: input_restart_def readline_init_def tx_def rl_tx_def r_line_def)
  ultimately show ?thesis by blast
qed

lemma next_line_total:
  assumes wf: "vstr_wf (r_line st)" and len: "vs_len (r_line st) + 25 < 2 ^ 32" and nf: "\<not> vs_fixed (r_line st)"
    and h: "hist_ok (readline_hist (r_rl st))" "hist_cur_ok (r_rl st)"
    and m: "pyexec_mode_kind st = PYEXEC_MODE_FRIENDLY_REPL" "\<not> r_paste_mode st" and al: "\<forall>n. al n \<noteq> None"
  shows "\<exists>st'. next_line al st = Inr (0, st') \<and> repl_inv st' \<and> r_cont_line st' \<and>
    vstr_bytes (r_line st') = vstr_bytes (r_line st) @ [10] \<and> rl_out (r_rl st') = rl_out (r_rl st) @ ps2"
proof -
  obtain u where u: "vstr_add_byte (m_renew al) 10 (r_line st) = Inr u" "vstr_bytes u = vstr_bytes (r_line st) @ [10]"
    using add_byte_total [OF wf len nf al, of 10] by blast
  let ?st' = "(set_line u st)\<lparr>r_cont_line := True, r_rl := readline_note_newline ps2 ((r_rl st)\<lparr>rl_line := u\<rparr>)\<rparr>"
  have nl: "next_line al st = Inr (0, ?st')" using u(1) by (simp add: next_line_def Let_def set_line_def)
  show ?thesis using next_line_inv [OF wf len h m nl] nl u(2)
    by (intro exI [of _ ?st']) (simp add: readline_note_newline_def tx_def)
qed

lemma friendly_enter:
  assumes inv: "repl_inv st" "repl_small st" and m: "pyexec_mode_kind st = PYEXEC_MODE_FRIENDLY_REPL" "\<not> r_paste_mode st"
    and e: "rl_escape_seq (r_rl st) = ESEQ_NONE" "\<not> vs_fixed (r_line st)" and al: "\<forall>n. al n \<noteq> None"
    and ac: "completer_ok ac" and src: "src = vstr_bytes (r_line st)"
    and run: "run (Source_vstr src) MP_PARSE_SINGLE_INPUT = (out, oc)" "\<forall>code. oc = System_exit code \<longrightarrow> \<not> forced_exit code"
  shows "\<exists>st'. pyexec_event_repl_process_char al ac run banner 13 st = Inr (0, st') \<and> repl_inv st' \<and>
      (if mp_repl_continue_with_input (c_str src)
       then r_cont_line st' \<and> vstr_bytes (r_line st') = src @ [10] \<and> rl_out (r_rl st') = rl_out (r_rl st) @ [13, 10] @ ps2
       else \<not> r_cont_line st' \<and> vstr_bytes (r_line st') = [] \<and>
         rl_out (r_rl st') = rl_out (r_rl st) @ [13, 10] @ out @ exc_text oc @ ps1)"
proof -
  have i: "rl_wf (r_rl st)" "rl_fits (r_rl st)" using inv m by (simp_all add: repl_inv_def repl_small_def)
  have w0: "vstr_wf (r_line st)" "hist_ok (readline_hist (r_rl st))" using inv(1) by (simp_all add: repl_inv_def)
  obtain rl where rl: "readline_process_char al ac 13 (r_rl st) = Inr (0, rl)" "rl_wf rl"
    "vstr_bytes (rl_line rl) = src" "\<not> vs_fixed (rl_line rl)" "rl_out rl = rl_out (r_rl st) @ [13, 10]"
    using enter_total [OF i e(1) _ al ac] e(2) src by (auto simp: r_line_def)
  let ?st = "st\<lparr>r_rl := rl\<rparr>"
  have w: "vstr_wf (r_line ?st)" "hist_ok (readline_hist rl)" "hist_cur_ok rl" using rl(2) by (simp_all add: rl_wf_def)
  have "vs_len (rl_line rl) = vs_len (r_line st)"
    using vstr_bytes_length [of "rl_line rl"] vstr_bytes_length [of "r_line st"] w(1) w0(1) rl(3) src by simp
  then have len: "vs_len (r_line ?st) + 25 < 2 ^ 32" using inv(2) by (simp add: repl_small_def)
  obtain v where v: "line_continues al ?st = Inr (mp_repl_continue_with_input (c_str src), set_line v ?st)"
    "vstr_wf v" "vstr_bytes v = src" "vs_len v = vs_len (rl_line rl)" "\<not> vs_fixed v"
    using line_continues_total [of ?st al] w(1) len al rl(3,4) by auto
  have ev: "pyexec_event_repl_process_char al ac run banner 13 st =
      (if mp_repl_continue_with_input (c_str src) then next_line al (set_line v ?st)
       else Inr (friendly_exec run MP_PARSE_SINGLE_INPUT (set_line v ?st)))"
    using m rl(1) v(1)
    by (simp add: pyexec_event_repl_process_char_def pyexec_friendly_repl_process_char_def friendly_first_def friendly_cont_def)
  have "hist_cur_ok (r_rl (set_line v ?st))" using w(3) by (simp add: set_line_def hist_cur_ok_def)
  note nl = next_line_total [of "set_line v ?st" al, OF _ _ _ _ this]
  note ex = friendly_exec_run [of "set_line v ?st" run MP_PARSE_SINGLE_INPUT out oc]
  have o: "rl_out (r_rl (set_line v ?st)) = rl_out (r_rl st) @ [13, 10]" using rl(5) by (simp add: set_line_def)
  show ?thesis
    using ev nl ex v w(2) len m al run o by auto
qed

lemma friendly_cancel:
  assumes inv: "repl_inv st" and m: "pyexec_mode_kind st = PYEXEC_MODE_FRIENDLY_REPL" "\<not> r_paste_mode st"
    and e: "rl_escape_seq (r_rl st) = ESEQ_NONE"
  shows "\<exists>st'. pyexec_event_repl_process_char al ac run banner 3 st = Inr (0, st') \<and> repl_inv st' \<and>
      \<not> r_cont_line st' \<and> vstr_bytes (r_line st') = [] \<and> rl_out (r_rl st') = rl_out (r_rl st) @ [13, 10] @ ps1"
proof -
  have rc: "readline_process_char al ac 3 (r_rl st) = Inr (3, r_rl st)"
    using e by (simp add: readline_process_char_def rl_dispatch_def rl_none_def)
  let ?s3 = "rl_tx [13, 10] (if r_cont_line st then st\<lparr>r_cont_line := False\<rparr> else st)"
  have "pyexec_event_repl_process_char al ac run banner 3 st = Inr (input_restart ?s3)"
    using m rc by (simp add: pyexec_event_repl_process_char_def pyexec_friendly_repl_process_char_def friendly_first_def friendly_cont_def)
  moreover have w: "vstr_wf (r_line ?s3)" "hist_ok (readline_hist (r_rl ?s3))" "pyexec_mode_kind ?s3 = PYEXEC_MODE_FRIENDLY_REPL"
    using inv m by (simp_all add: repl_inv_def)
  moreover have "rl_out (r_rl (snd (input_restart ?s3))) = rl_out (r_rl st) @ [13, 10] @ ps1"
    by (simp add: input_restart_def readline_init_def tx_def rl_tx_def)
  moreover have "vstr_bytes (r_line (snd (input_restart ?s3))) = []"
    using input_restart_inv [OF w] by (simp add: vstr_bytes_def)
  ultimately show ?thesis
    using input_restart_inv [OF w] by (intro exI [of _ "snd (input_restart ?s3)"]) (auto simp: input_restart_def)
qed

text \<open>
  C32. How the friendly prompt ends a line, with memory available; \<open>src\<close> is the whole input so far,
  the line being edited and the lines before it. On Enter, at the first line as on a continuation line: when
  \<open>src\<close> is a complete input, exactly its bytes are executed once as an interactive statement, the output
  is a line break, what the execution printed (with the text of an exception) and the prompt, and the
  input is empty again; when it has to go on, a newline is appended to it and the continuation prompt is
  printed. Ctrl-C, at any line, drops the input without executing it and prompts again; Ctrl-D on an empty
  continuation line executes what was collected.
\<close>

theorem friendly_repl_enter:
  assumes inv: "repl_inv st" "repl_small st" and m: "pyexec_mode_kind st = PYEXEC_MODE_FRIENDLY_REPL" "\<not> r_paste_mode st"
    and e: "rl_escape_seq (r_rl st) = ESEQ_NONE" "\<not> vs_fixed (r_line st)" and al: "\<forall>n. al n \<noteq> None"
    and ac: "completer_ok ac" and src: "src = vstr_bytes (r_line st)"
    and run: "run (Source_vstr src) MP_PARSE_SINGLE_INPUT = (out, oc)" "\<forall>code. oc = System_exit code \<longrightarrow> \<not> forced_exit code"
  shows "(\<exists>st'. pyexec_event_repl_process_char al ac run banner 13 st = Inr (0, st') \<and> repl_inv st' \<and>
      (if mp_repl_continue_with_input (c_str src)
       then r_cont_line st' \<and> vstr_bytes (r_line st') = src @ [10] \<and> rl_out (r_rl st') = rl_out (r_rl st) @ [13, 10] @ ps2
       else \<not> r_cont_line st' \<and> vstr_bytes (r_line st') = [] \<and>
         rl_out (r_rl st') = rl_out (r_rl st) @ [13, 10] @ out @ exc_text oc @ ps1)) \<and>
    (\<exists>st'. pyexec_event_repl_process_char al ac run banner 3 st = Inr (0, st') \<and> repl_inv st' \<and>
      \<not> r_cont_line st' \<and> vstr_bytes (r_line st') = [] \<and> rl_out (r_rl st') = rl_out (r_rl st) @ [13, 10] @ ps1) \<and>
    (r_cont_line st \<and> length src = rl_orig_line_len (r_rl st) \<longrightarrow>
      (\<exists>st'. pyexec_event_repl_process_char al ac run banner 4 st = Inr (0, st') \<and> repl_inv st' \<and>
        \<not> r_cont_line st' \<and> vstr_bytes (r_line st') = [] \<and>
        rl_out (r_rl st') = rl_out (r_rl st) @ out @ exc_text oc @ ps1))"
proof (intro conjI impI)
  assume c: "r_cont_line st \<and> length src = rl_orig_line_len (r_rl st)"
  have w: "vstr_wf (r_line st)" "hist_ok (readline_hist (r_rl st))" using inv(1) by (simp_all add: repl_inv_def)
  have "readline_process_char al ac 4 (r_rl st) = Inr (4, r_rl st)"
    using c e(1) w(1) src by (simp add: readline_process_char_def rl_dispatch_def rl_none_def r_line_def)
  then have "pyexec_event_repl_process_char al ac run banner 4 st = Inr (friendly_exec run MP_PARSE_SINGLE_INPUT st)"
    using m c by (simp add: pyexec_event_repl_process_char_def pyexec_friendly_repl_process_char_def friendly_cont_def)
  then show "\<exists>st'. pyexec_event_repl_process_char al ac run banner 4 st = Inr (0, st') \<and> repl_inv st' \<and>
      \<not> r_cont_line st' \<and> vstr_bytes (r_line st') = [] \<and> rl_out (r_rl st') = rl_out (r_rl st) @ out @ exc_text oc @ ps1"
    using friendly_exec_run [OF w m(1), of run MP_PARSE_SINGLE_INPUT out oc] run src by auto
next
  show "\<exists>st'. pyexec_event_repl_process_char al ac run banner 13 st = Inr (0, st') \<and> repl_inv st' \<and>
      (if mp_repl_continue_with_input (c_str src)
       then r_cont_line st' \<and> vstr_bytes (r_line st') = src @ [10] \<and> rl_out (r_rl st') = rl_out (r_rl st) @ [13, 10] @ ps2
       else \<not> r_cont_line st' \<and> vstr_bytes (r_line st') = [] \<and>
         rl_out (r_rl st') = rl_out (r_rl st) @ [13, 10] @ out @ exc_text oc @ ps1)"
    by (rule friendly_enter) fact+
qed (rule friendly_cancel [OF inv(1) m e(1)])

definition sample_friendly :: "bool \<Rightarrow> repl_t" where
  "sample_friendly cont = \<lparr>r_rl = sample_rl\<lparr>rl_line := sample_vstr, rl_cursor_pos := 3, rl_prompt := if cont then ps2 else ps1\<rparr>,
    r_cont_line = cont, r_paste_mode = False, pyexec_mode_kind = PYEXEC_MODE_FRIENDLY_REPL\<rparr>"

theorem friendly_repl_enter_witness:
  "\<forall>cont. \<exists>st'. pyexec_event_repl_process_char (\<lambda>_. Some (\<lambda>_. 0)) (\<lambda>_. Compl_none) (\<lambda>s k. ([55], Finished)) [] 13 (sample_friendly cont) =
      Inr (0, st') \<and> rl_out (r_rl st') = [13, 10] @ [55] @ [] @ ps1"
proof
  fix cont
  let ?st = "sample_friendly cont"
  have inv: "repl_inv ?st" "repl_small ?st"
    using prompts_printable
    by (auto simp: sample_friendly_def repl_inv_def repl_small_def sample_rl_def sample_vstr_def r_line_def vstr_wf_def
        hist_ok_def rl_wf_def rl_text_def vstr_bytes_def printable_def hist_cur_ok_def rl_fits_def)
  have st: "pyexec_mode_kind ?st = PYEXEC_MODE_FRIENDLY_REPL" "\<not> r_paste_mode ?st" "rl_escape_seq (r_rl ?st) = ESEQ_NONE"
      "\<not> vs_fixed (r_line ?st)" "rl_out (r_rl ?st) = []" "[97, 98, 99] = vstr_bytes (r_line ?st)"
    by (simp_all add: sample_friendly_def r_line_def vstr_bytes_def sample_vstr_def sample_rl_def)
  have nc: "\<not> mp_repl_continue_with_input (c_str [97, 98, 99])"
    by (simp add: mp_repl_continue_with_input_def bracket_count_def starts_with_compound_keyword_def chr_at_def
        kw_if_def kw_while_def kw_for_def kw_try_def kw_with_def kw_def_def kw_class_def c_str_def)
  show "\<exists>st'. pyexec_event_repl_process_char (\<lambda>_. Some (\<lambda>_. 0)) (\<lambda>_. Compl_none) (\<lambda>s k. ([55], Finished)) [] 13 ?st =
      Inr (0, st') \<and> rl_out (r_rl st') = [13, 10] @ [55] @ [] @ ps1"
    using friendly_repl_enter [OF inv st(1-4) _ no_completer_ok st(6), where al = "\<lambda>_. Some (\<lambda>_. 0)" and
        run = "\<lambda>s k. ([55], Finished)" and out = "[55]" and oc = Finished and banner = "[]"] nc st(5)
    by (auto simp: exc_text_def)
qed

subsection \<open>Completion and the screen\<close>

lemma term_ground_step:
  assumes "t_state t = T_ground" and "printable b \<or> b = 13 \<or> b = 10"
  shows "t_state (term_byte b t) = T_ground"
  using assms printable_not_control [of b] by (auto simp: term_byte_def)

lemma term_ground:
  assumes "t_state t = T_ground" and "\<forall>b\<in>set xs. printable b \<or> b = 10"
  shows "t_state (term_run (cook xs) t) = T_ground"
  using assms
proof (induction xs arbitrary: t)
  case (Cons b xs)
  then show ?case
    using term_ground_step [of t 13] term_ground_step [of "term_byte 13 t" 10] term_ground_step [of t b]
    by (auto simp: term_run_Cons)
qed simp

lemma term_newline: "t_state t = T_ground \<Longrightarrow> term_run [13, 10] t = screen [] 0"
  by (simp add: term_run_Cons term_byte_def screen_def)

lemma print_completions_ends:
  assumes "\<forall>(q, d) \<in> set qs. is_candidate s test q d \<longrightarrow> (\<forall>b\<in>set d. printable b)"
  shows "\<exists>xs. print_completions_from s test qs n = xs @ [10] \<and> (\<forall>b\<in>set xs. printable b \<or> b = 10)"
  using assms
proof (induction qs arbitrary: n)
  case (Cons x qs)
  obtain q d where x: "x = (q, d)" by fastforce
  obtain ys k where step: "print_completions_from s test ((q, d) # qs) n =
      (if is_candidate s test q d then ys @ c_str d @ print_completions_from s test qs k
       else print_completions_from s test qs n)" and ys: "set ys \<subseteq> {10, 32}" by (rule print_completions_step)
  have IH: "\<exists>xs. print_completions_from s test qs m = xs @ [10] \<and> (\<forall>b\<in>set xs. printable b \<or> b = 10)" for m
    using Cons by simp
  show ?case
  proof (cases "is_candidate s test q d")
    case True
    have "\<forall>b\<in>set (ys @ c_str d). printable b \<or> b = 10"
      using ys Cons.prems x True by (auto simp: printable_def c_str_def dest: set_takeWhileD)
    moreover obtain xs where "print_completions_from s test qs k = xs @ [10]" "\<forall>b\<in>set xs. printable b \<or> b = 10"
      using IH by blast
    ultimately show ?thesis using True unfolding x step by (intro exI [of _ "ys @ c_str d @ xs"]) auto
  next
    case False
    then show ?thesis using IH [of n] unfolding x step by simp
  qed
qed simp

lemma find_completions_match:
  "find_completions s test qs st = st \<or>
    match_str st \<noteq> None \<and> match_str (find_completions s test qs st) = match_str st \<or>
    (\<exists>(q, d) \<in> set qs. test q \<and> match_str (find_completions s test qs st) = Some d)"
proof (induction s test qs st rule: find_completions.induct)
  case (2 s test q d qs st)
  show ?case
  proof (cases "\<not> (s = [] \<and> chr_at d 0 = 95) \<and> is_candidate s test q d")
    case True
    let ?st1 = "case match_str st of None \<Rightarrow> st\<lparr>match_str := Some d, match_len := length d\<rparr>
       | Some m \<Rightarrow> st\<lparr>match_len := common_prefix_from (length s) (match_len st) m d\<rparr>"
    let ?st2 = "(if q_first ?st1 = 0 then ?st1\<lparr>q_first := q\<rparr> else ?st1)\<lparr>q_last := q\<rparr>"
    have eq: "find_completions s test ((q, d) # qs) st = find_completions s test qs ?st2"
      unfolding find_completions.simps if_not_P [OF conjunct1 [OF True]] if_P [OF conjunct2 [OF True]] Let_def by (rule refl)
    have m: "match_str st \<noteq> None \<and> match_str ?st2 = match_str st \<or> match_str ?st2 = Some d"
      by (cases "match_str st") auto
    have "match_str (find_completions s test qs ?st2) = match_str ?st2 \<or>
        (\<exists>(q, d) \<in> set qs. test q \<and> match_str (find_completions s test qs ?st2) = Some d)"
      using 2(2) [OF conjunct1 [OF True] conjunct2 [OF True] refl refl] by auto
    then show ?thesis using m True unfolding eq by (auto simp: is_candidate_def)
  next
    case False
    then have "find_completions s test ((q, d) # qs) st = find_completions s test qs st" by auto
    then show ?thesis using 2(1,3) False by fastforce
  qed
qed simp

text \<open>
  C33. Completion and the line editor fit together: when the names that objects and the table of modules
  have are printable and shorter than 1000 characters (which is asked of no other interned string, so the line
  break among the constant strings does no harm), \<^verbatim>\<open>mp_repl_autocomplete\<close> keeps the contract that the editor asks of its
  completion function: it inserts printable characters only, and the list of matches it prints leaves the
  terminal at the start of an empty line, whatever was on it.
\<close>

theorem autocomplete_keeps_screen:
  assumes names: "\<forall>(q, d) \<in> set names. (\<exists>ob. test ob q) \<longrightarrow> (\<forall>b\<in>set d. printable b) \<and> length d < 1000"
  shows "completer_ok (mp_repl_autocomplete names test load main)"
proof -
  let ?ac = "mp_repl_autocomplete names test load main"
  have pr: "\<forall>(q, d) \<in> set (filter P names). is_candidate s (test ob) q d \<longrightarrow> (\<forall>b\<in>set d. printable b)" for P s ob
    using names by (auto simp: is_candidate_def)
  have imps: "\<forall>b\<in>set import_str. printable b" "length import_str = 7" by (simp_all add: import_str_def printable_def)
  have one: "(\<forall>b\<in>set ext. printable b) \<and> length ext < 1000" if o: "?ac typed = Compl_one ext" for typed ext
  proof -
    define chain where "chain = rev (takeWhile chain_char (rev typed))"
    obtain obj s where w: "walk_chain load main chain = Some (obj, s)"
      using o by (cases "walk_chain load main chain") (auto simp: mp_repl_autocomplete_def chain_def)
    define obj' where "obj' = (if length typed \<ge> 7 \<and> take 7 typed = import_str then None else Some obj)"
    define st where st: "st = find_completions s (test obj') names compl_init"
    define imp where "imp \<longleftrightarrow> length s = length typed \<and> length s > 0 \<and> length s < 7 \<and> s = take (length s) import_str"
    have ext: "q_first st = 0 \<and> (ext = drop (length s) import_str \<or> ext = [32, 32, 32, 32]) \<or>
        q_first st \<noteq> 0 \<and> ext = take (match_len st - length s) (drop (length s) (the (match_str st)))"
      using o unfolding mp_repl_autocomplete_def Let_def chain_def [symmetric] w option.case prod.case
        obj'_def [symmetric] st [symmetric] imp_def [symmetric]
      by (auto split: if_split_asm)
    show ?thesis
    proof (cases "q_first st = 0")
      case True
      then show ?thesis using ext imps by (auto simp: printable_def dest: in_set_dropD)
    next
      case False
      then obtain q d where d: "(q, d) \<in> set names" "test obj' q" "match_str st = Some d"
        using find_completions_match [of s "test obj'" names compl_init] st by (auto simp: compl_init_def)
      then show ?thesis using False ext names by (fastforce dest: in_set_takeD in_set_dropD)
    qed
  qed
  have many: "term_run out (screen cells col) = screen [] 0" if many: "?ac typed = Compl_many out" for typed out cells col
  proof -
    obtain s obj' P where out: "out = cook (print_completions s (test obj') (filter P names))"
      using many by (auto simp: mp_repl_autocomplete_def Let_def split: option.splits prod.splits if_splits)
    obtain xs where xs: "print_completions s (test obj') (filter P names) = xs @ [10]" "\<forall>b\<in>set xs. printable b \<or> b = 10"
      using print_completions_ends [OF pr] unfolding print_completions_def by blast
    have "t_state (term_run (cook xs) (screen cells col)) = T_ground" by (rule term_ground [OF _ xs(2)]) (simp add: screen_def)
    then show ?thesis using term_newline by (simp add: out xs(1) cook_append)
  qed
  show ?thesis unfolding completer_ok_def using one many by blast
qed

theorem autocomplete_keeps_screen_witness:
  "completer_ok (mp_repl_autocomplete [(2, [10]), (3, [97]), (4, [97, 98])] (\<lambda>_ q. 2 < q) (\<lambda>_ _. None) ())"
  by (rule autocomplete_keeps_screen) (simp add: printable_def)

end
