(* ===== verification/Pyexec_Screen.thy ===== *)
theory Pyexec_Screen
  imports Pyexec_Correct
begin

text \<open>
  The prompt and the terminal: from \<^verbatim>\<open>pyexec_event_repl_init\<close> on, over any sequence of input
  characters, the prompt keeps its invariant, and a terminal that receives everything it sends shows the
  prompt and the line being edited with the cursor in its place.
\<close>

subsection \<open>What the terminal shows\<close>

definition shown :: "terminal \<Rightarrow> repl_t \<Rightarrow> terminal" where
  "shown t0 st = term_run (rl_out (r_rl st)) t0"

text \<open>
  The terminal is between two commands, and at the friendly prompt (outside paste mode) it shows the
  prompt and the line.
\<close>

definition synced :: "terminal \<Rightarrow> repl_t \<Rightarrow> bool" where
  "synced t0 st \<longleftrightarrow> t_state (shown t0 st) = T_ground \<and>
    (pyexec_mode_kind st = PYEXEC_MODE_FRIENDLY_REPL \<and> \<not> r_paste_mode st \<longrightarrow> shown t0 st = rl_screen (r_rl st))"

text \<open>
  What an execution should do to the screen: at the raw prompt, leave no terminal command unfinished; at
  the friendly prompt, print whole lines (the text of an exception included).
\<close>

definition ends_commands :: "runner \<Rightarrow> source \<Rightarrow> input_kind \<Rightarrow> bool" where
  "ends_commands run src k \<longleftrightarrow> (let (out, oc) = run src k in
     \<forall>t. t_state t = T_ground \<longrightarrow> t_state (term_run out t) = T_ground \<and> t_state (term_run (exc_text oc) t) = T_ground)"

definition whole_lines :: "runner \<Rightarrow> source \<Rightarrow> input_kind \<Rightarrow> bool" where
  "whole_lines run src k \<longleftrightarrow> (let (out, oc) = run src k in term_run (out @ exc_text oc) (screen [] 0) = screen [] 0)"

definition banner_ok :: "byte list \<Rightarrow> bool" where
  "banner_ok banner \<longleftrightarrow> term_run banner (screen [] 0) = screen [] 0"

text \<open>
  The keys for which the prompt keeps the screen in order: in paste mode an escape character is echoed
  as it is; on an empty continuation line Ctrl-A, Ctrl-B, Ctrl-D and Ctrl-E end the line without a line
  break; and a key that starts an execution leaves the screen to what it prints.
\<close>

definition quiet_key :: "runner \<Rightarrow> int \<Rightarrow> repl_t \<Rightarrow> bool" where
  "quiet_key run c st \<longleftrightarrow>
    (let src = Source_vstr (vstr_bytes (r_line st)) in
     case pyexec_mode_kind st of
       PYEXEC_MODE_RAW_REPL \<Rightarrow>
         (c = 1 \<longrightarrow> ends_commands run Source_reader MP_PARSE_FILE_INPUT) \<and>
         (c = 4 \<longrightarrow> ends_commands run src MP_PARSE_FILE_INPUT)
     | PYEXEC_MODE_FRIENDLY_REPL \<Rightarrow>
         if r_paste_mode st then word_of_int c \<noteq> (27 :: byte) \<and> (c = 4 \<longrightarrow> whole_lines run src MP_PARSE_FILE_INPUT)
         else (r_cont_line st \<and> vs_len (r_line st) = rl_orig_line_len (r_rl st) \<longrightarrow> c \<notin> {1, 2, 4, 5}) \<and>
           (c = 13 \<longrightarrow> whole_lines run src MP_PARSE_SINGLE_INPUT))"

lemma shown_simps [simp]:
  "shown t0 (rl_tx s st) = term_run s (shown t0 st)" "shown t0 (set_line v st) = shown t0 st"
  "shown t0 (st\<lparr>pyexec_mode_kind := k\<rparr>) = shown t0 st" "shown t0 (st\<lparr>r_cont_line := b\<rparr>) = shown t0 st"
  "shown t0 (st\<lparr>r_paste_mode := b\<rparr>) = shown t0 st" "shown t0 (st\<lparr>r_rl := rl\<rparr>) = term_run (rl_out rl) t0"
  by (simp_all add: shown_def rl_tx_def tx_def set_line_def)

lemma ground_run: "t_state t = T_ground \<Longrightarrow> 27 \<notin> set xs \<Longrightarrow> t_state (term_run xs t) = T_ground"
proof (induction xs arbitrary: t)
  case (Cons b xs)
  then have "t_state (term_byte b t) = T_ground" by (auto simp: term_byte_def)
  then show ?case using Cons by (simp add: term_run_Cons)
qed simp

lemma rl_screen_ground [simp]: "t_state (rl_screen rl) = T_ground" "t_state (screen cells col) = T_ground"
  by (simp_all add: rl_screen_def screen_def)

lemma raw_synced:
  "pyexec_mode_kind st = PYEXEC_MODE_RAW_REPL \<Longrightarrow> t_state (shown t0 st) = T_ground \<Longrightarrow> synced t0 st"
  by (simp add: synced_def)

subsection \<open>The pieces of the prompt\<close>

lemma restart_synced:
  assumes "vstr_wf (r_line st)" and "hist_ok (readline_hist (r_rl st))" and "shown t0 st = screen [] 0"
    and "input_restart st = (r, st')"
  shows "synced t0 st'"
proof -
  note r = reset_wf [OF assms(1)]
  have i: "rl_out (r_rl st') = rl_out (r_rl st) @ ps1" "term_run ps1 (screen [] 0) = rl_screen (r_rl st')"
    using init_in_sync [OF _ _ prompts_printable(1) assms(2), of "vstr_reset (r_line st)"] r assms(4)
    by (auto simp: input_restart_def)
  then show ?thesis using assms(3) by (simp add: synced_def shown_def)
qed

lemma execute_shown:
  assumes "parse_compile_execute run src k e st = (ret, st')"
  shows "ends_commands run src k \<Longrightarrow> t_state (shown t0 st) = T_ground \<Longrightarrow> t_state (shown t0 st') = T_ground"
    and "whole_lines run src k \<Longrightarrow> \<not> e \<Longrightarrow> shown t0 st = screen [] 0 \<Longrightarrow> shown t0 st' = screen [] 0"
proof -
  obtain out oc where r: "run src k = (out, oc)" by fastforce
  have st': "st' = rl_tx (if e then out @ [4] @ exc_text oc @ [4] else out @ exc_text oc) st"
    using assms(1) r by (cases oc) (auto simp: parse_compile_execute_def exc_text_def)
  have four: "t_state t = T_ground \<Longrightarrow> t_state (term_byte 4 t) = T_ground" for t by (simp add: term_byte_def printable_def)
  show "ends_commands run src k \<Longrightarrow> t_state (shown t0 st) = T_ground \<Longrightarrow> t_state (shown t0 st') = T_ground"
    unfolding st' using four by (simp add: term_run_Cons ends_commands_def r)
  show "whole_lines run src k \<Longrightarrow> \<not> e \<Longrightarrow> shown t0 st = screen [] 0 \<Longrightarrow> shown t0 st' = screen [] 0"
    unfolding st' by (simp add: whole_lines_def r)
qed

lemma exec_synced:
  assumes "vstr_wf (r_line st)" and "hist_ok (readline_hist (r_rl st))" and "shown t0 st = screen [] 0"
    and "friendly_exec run k st = (ret, st')" and "\<not> forced_exit ret"
    and run: "whole_lines run (Source_vstr (vstr_bytes (r_line st))) k"
  shows "synced t0 st'"
proof -
  obtain r1 st1 where p: "parse_compile_execute run (Source_vstr (vstr_bytes (r_line st))) k False st = (r1, st1)"
    by fastforce
  then obtain out where st1: "st1 = rl_tx out st" using parse_compile_execute_frame by blast
  have "shown t0 st1 = screen [] 0" using execute_shown(2) [OF p run] assms(3) by simp
  then show ?thesis
    using assms(1,2,4,5) p restart_synced [of st1 t0 ret st'] by (auto simp: friendly_exec_def st1 split: if_splits)
qed

lemma next_line_synced:
  assumes wf: "vstr_wf (r_line st)" and len: "vs_len (r_line st) + 25 < 2 ^ 32" and sh: "shown t0 st = screen [] 0"
    and eq: "next_line al st = Inr (ret, st')"
  shows "synced t0 st'"
proof -
  obtain v where v: "vstr_add_byte (m_renew al) 10 (r_line st) = Inr v"
    using eq by (auto simp: next_line_def split: sum.splits)
  have w: "vstr_wf v" using add_byte_inv [OF wf len v] by simp
  have st': "st' = (set_line v st)\<lparr>r_cont_line := True, r_rl := readline_note_newline ps2 ((r_rl st)\<lparr>rl_line := v\<rparr>)\<rparr>"
    using eq v by (simp add: next_line_def Let_def set_line_def)
  have "rl_screen (r_rl st') = screen ps2 (length ps2)"
    using w unfolding st' by (simp add: rl_screen_def rl_text_def readline_note_newline_def tx_def)
  moreover have "shown t0 st' = term_run ps2 (screen [] 0)"
    using sh unfolding st' by (simp add: readline_note_newline_def tx_def shown_def)
  ultimately show ?thesis using term_printable [OF prompts_printable(2), of 0 "[]"] by (simp add: synced_def)
qed

lemma finish_line_synced:
  assumes wf: "rl_wf (r_rl st)" and len: "vs_len (r_line st) + 25 < 2 ^ 32" and sh: "shown t0 st = screen [] 0"
    and eq: "(case line_continues al st of Inl e \<Rightarrow> Inl e
       | Inr (ctd, st1) \<Rightarrow> if ctd then next_line al st1 else Inr (friendly_exec run MP_PARSE_SINGLE_INPUT st1)) = Inr (ret, st')"
    and nf: "\<not> forced_exit ret" and run: "whole_lines run (Source_vstr (vstr_bytes (r_line st))) MP_PARSE_SINGLE_INPUT"
  shows "synced t0 st'"
proof -
  have w: "vstr_wf (r_line st)" "hist_ok (readline_hist (r_rl st))" using wf by (auto simp: rl_wf_def r_line_def)
  obtain b st1 where lc: "line_continues al st = Inr (b, st1)" using eq by (auto split: sum.splits)
  have "vs_len (r_line st) + 1 < 2 ^ 32" using len by simp
  from line_continues_props [OF w(1) this lc] obtain v where v: "st1 = set_line v st" "vstr_wf v"
    "vs_len v = vs_len (r_line st)" "vstr_bytes v = vstr_bytes (r_line st)" by auto
  show ?thesis
    using eq lc v w len nf sh run next_line_synced [of st1 t0 al ret st'] exec_synced [of st1 t0 run _ ret st']
    by (auto split: if_splits)
qed

subsection \<open>One character\<close>

lemma raw_reset_synced:
  assumes "pyexec_mode_kind st = PYEXEC_MODE_RAW_REPL" and "t_state (shown t0 st) = T_ground"
  shows "synced t0 (snd (raw_reset st))"
  using assms ground_run [of "shown t0 st" "lit ''>''"] by (intro raw_synced) (simp_all add: raw_reset_def lit_def)

lemma raw_ctrl_a_synced:
  assumes m: "pyexec_mode_kind st = PYEXEC_MODE_RAW_REPL" and g: "t_state (shown t0 st) = T_ground"
    and run: "vs_len (r_line st) = 2 \<Longrightarrow> ends_commands run Source_reader MP_PARSE_FILE_INPUT"
    and eq: "raw_ctrl_a run st = (ret, st')"
  shows "synced t0 st'"
proof (cases "vs_len (r_line st) = 2 \<and> vs_buf (r_line st) ! 0 = 5")
  case True
  obtain r1 st1 where d: "do_reader_stdin run (vs_buf (r_line st) ! 1) st = (r1, st1)" by fastforce
  let ?st = "rl_tx (fst (mp_reader_new_stdin 256)) (rl_tx [82, 1] st)"
  have g2: "t_state (shown t0 ?st) = T_ground" "t_state (shown t0 (rl_tx [82, 0] st)) = T_ground"
    using g by (simp_all add: ground_run mp_reader_new_stdin_def)
  have "t_state (shown t0 st1) = T_ground \<and> pyexec_mode_kind st1 = PYEXEC_MODE_RAW_REPL"
  proof (cases "vs_buf (r_line st) ! 1 = 65")
    case reader: True
    then have p: "parse_compile_execute run Source_reader MP_PARSE_FILE_INPUT True ?st = (r1, st1)"
      using d by (simp add: do_reader_stdin_def)
    then obtain out where "st1 = rl_tx out ?st" using parse_compile_execute_frame by blast
    then show ?thesis using execute_shown(1) [OF p _ g2(1)] run True m by simp
  next
    case False
    then show ?thesis using d g2(2) m by (auto simp: do_reader_stdin_def)
  qed
  then show ?thesis using eq d True raw_reset_synced [of st1 t0] raw_synced [of st1 t0]
    by (auto simp: raw_ctrl_a_def split: if_splits)
next
  case False
  let ?msg = "lit ''raw REPL; CTRL-B to exit'' @ [13, 10]"
  have "t_state (shown t0 (rl_tx ?msg st)) = T_ground" using g by (simp add: ground_run lit_def del: term_run_append)
  then show ?thesis using eq False m raw_reset_synced [of "rl_tx ?msg st" t0]
    by (auto simp: raw_ctrl_a_def simp del: shown_simps)
qed

text \<open>A line break and the banner bring the terminal to the start of an empty line.\<close>

lemma newline_shown: "t_state (shown t0 st) = T_ground \<Longrightarrow> shown t0 (rl_tx [13, 10] st) = screen [] 0"
  by (simp add: term_newline)

lemma banner_shown:
  "t_state (shown t0 st) = T_ground \<Longrightarrow> banner_ok banner \<Longrightarrow> shown t0 (rl_tx ([13, 10] @ banner) st) = screen [] 0"
  by (simp add: term_newline banner_ok_def del: append.simps)

lemma ctrl_b_synced:
  assumes "vstr_wf (r_line st)" and "vs_len (r_line st) = 0" and "hist_ok (readline_hist (r_rl st))"
    and "raw_ready (r_rl st)" and "pyexec_mode_kind st = PYEXEC_MODE_FRIENDLY_REPL" "\<not> r_cont_line st" "\<not> r_paste_mode st"
    and "t_state (shown t0 st) = T_ground" and "banner_ok banner"
    and "pyexec_friendly_repl_process_char al ac run banner 2 st = Inr (ret, st')"
  shows "synced t0 st'"
proof (rule restart_synced)
  show "input_restart (rl_tx ([13, 10] @ banner) st) = (ret, st')"
    using ctrl_b_restarts [OF assms(1-7), of al ac run banner] assms(10) by simp
  show "shown t0 (rl_tx ([13, 10] @ banner) st) = screen [] 0" by (rule banner_shown [OF assms(8,9)])
qed (use assms in simp_all)

lemma raw_step_synced:
  assumes inv: "repl_inv st" and m: "pyexec_mode_kind st = PYEXEC_MODE_RAW_REPL" and g: "synced t0 st"
    and eq: "pyexec_raw_repl_process_char al ac run banner c st = Inr (ret, st')" and nf: "\<not> forced_exit ret"
    and key: "quiet_key run c st" and banner: "banner_ok banner"
  shows "synced t0 st'"
proof -
  have w: "vstr_wf (r_line st)" "hist_ok (readline_hist (r_rl st))" "raw_ready (r_rl st)"
    using inv m by (simp_all add: repl_inv_def)
  have g: "t_state (shown t0 st) = T_ground" using g by (simp add: synced_def)
  consider "c = 1" | "c = 2" | "c = 3" | "c = 4" | "c \<noteq> 1" "c \<noteq> 2" "c \<noteq> 3" "c \<noteq> 4" by linarith
  then show ?thesis
  proof cases
    case 1
    then show ?thesis
      using eq key m raw_ctrl_a_synced [OF m g] by (auto simp: pyexec_raw_repl_process_char_def quiet_key_def)
  next
    case 2
    let ?st = "(set_line (vstr_reset (r_line st)) st)
        \<lparr>pyexec_mode_kind := PYEXEC_MODE_FRIENDLY_REPL, r_cont_line := False, r_paste_mode := False\<rparr>"
    obtain r where "pyexec_friendly_repl_process_char al ac run banner 2 ?st = Inr (r, st')"
      using eq 2 by (auto simp: pyexec_raw_repl_process_char_def Let_def split: sum.splits prod.splits)
    from ctrl_b_synced [OF _ _ _ _ _ _ _ _ banner this, of t0] show ?thesis
      using w g reset_wf [OF w(1)] by (simp add: set_line_def raw_ready_def shown_def)
  next
    case 4
    let ?st = "rl_tx (lit ''OK'') st"
    have g1: "t_state (shown t0 ?st) = T_ground" using g by (simp add: ground_run lit_def)
    obtain r st2 where p: "parse_compile_execute run (Source_vstr (vstr_bytes (r_line ?st))) MP_PARSE_FILE_INPUT True ?st = (r, st2)"
      by fastforce
    then obtain out where "st2 = rl_tx out ?st" using parse_compile_execute_frame by blast
    then have "synced t0 (snd (raw_reset st2))"
      using execute_shown(1) [OF p _ g1] key m 4 by (intro raw_reset_synced) (simp_all add: quiet_key_def)
    then show ?thesis using eq nf 4 p
      by (auto simp: pyexec_raw_repl_process_char_def Let_def forced_exit_def PYEXEC_FORCED_EXIT_def split: if_splits)
  qed (use eq m g raw_synced in \<open>auto simp: pyexec_raw_repl_process_char_def split: sum.splits\<close>)
qed

lemma paste_synced:
  assumes inv: "repl_inv st" and m: "pyexec_mode_kind st = PYEXEC_MODE_FRIENDLY_REPL" "r_paste_mode st"
    and g: "t_state (shown t0 st) = T_ground" and key: "quiet_key run c st"
    and eq: "friendly_paste al run c st = Inr (ret, st')" and nf: "\<not> forced_exit ret"
  shows "synced t0 st'"
proof -
  have w: "vstr_wf (r_line st)" "hist_ok (readline_hist (r_rl st))" using inv by (simp_all add: repl_inv_def)
  note nl = newline_shown [OF g]
  consider "c = 3" | "c = 4" | "c \<noteq> 3" "c \<noteq> 4" by linarith
  then show ?thesis
  proof cases
    case 1
    then show ?thesis using eq w restart_synced [OF _ _ nl] by (auto simp: friendly_paste_def)
  next
    case 2
    then show ?thesis using eq w nf key m exec_synced [OF _ _ nl] by (auto simp: friendly_paste_def quiet_key_def)
  next
    case 3
    let ?o = "if c = 13 then [13, 10] @ lit ''=== '' else [word_of_int c]"
    obtain v where "st' = rl_tx ?o (set_line v st)" using eq 3 by (auto simp: friendly_paste_def split: sum.splits)
    moreover have "27 \<notin> set ?o" using key m by (simp add: lit_def quiet_key_def)
    ultimately show ?thesis using g m ground_run [of "shown t0 st" ?o] by (simp add: synced_def del: term_run_append)
  qed
qed

lemma friendly_first_synced:
  assumes wf: "rl_wf (r_rl st)" and len: "vs_len (r_line st) + 25 < 2 ^ 32"
    and g: "t_state (shown t0 st) = T_ground" and r0: "ret = 0 \<Longrightarrow> shown t0 st = screen [] 0"
    and r_neg: "ret < 0 \<Longrightarrow> synced t0 st" and r5: "ret \<le> 5"
    and eq: "friendly_first al run banner ret st = Inr (ret', st')" and nf: "\<not> forced_exit ret'"
    and r1: "ret = 1 \<Longrightarrow> vs_len (r_line st) = 0" and banner: "banner_ok banner"
    and run: "ret = 0 \<Longrightarrow> whole_lines run (Source_vstr (vstr_bytes (r_line st))) MP_PARSE_SINGLE_INPUT"
  shows "synced t0 st'"
proof -
  have w: "vstr_wf (r_line st)" "hist_ok (readline_hist (r_rl st))" using wf by (auto simp: rl_wf_def r_line_def)
  note nl = newline_shown [OF g]
  consider "ret = 1" | "ret = 2" | "ret = 3" | "ret = 4" | "ret = 5" | "ret < 0" | "ret = 0" using r5 by linarith
  then show ?thesis
  proof cases
    case 1
    let ?st = "rl_tx [13, 10] (st\<lparr>pyexec_mode_kind := PYEXEC_MODE_RAW_REPL\<rparr>)"
    obtain a where a: "raw_ctrl_a run ?st = (a, st')" using eq 1 by (cases "raw_ctrl_a run ?st") (auto simp: friendly_first_def)
    show ?thesis by (rule raw_ctrl_a_synced [OF _ _ _ a]) (use nl r1 [OF 1] in simp_all)
  next
    case 2
    then show ?thesis using eq w restart_synced [OF _ _ banner_shown [OF g banner]] by (auto simp: friendly_first_def)
  next
    case 3
    then show ?thesis using eq w restart_synced [OF _ _ nl] by (auto simp: friendly_first_def)
  next
    case 4
    then show ?thesis using eq nf by (auto simp: friendly_first_def Let_def)
  next
    case 5
    let ?o = "[13, 10] @ lit ''paste mode; Ctrl-C to cancel, Ctrl-D to finish'' @ [13, 10] @ lit ''=== ''"
    have "27 \<notin> set ?o" by (simp add: lit_def)
    then have "t_state (term_run ?o (shown t0 st)) = T_ground" by (rule ground_run [OF g])
    then show ?thesis using eq 5 by (auto simp: friendly_first_def Let_def synced_def simp del: term_run_append)
  next
    case 6
    then show ?thesis using eq r_neg by (auto simp: friendly_first_def)
  next
    case 7
    then show ?thesis using eq finish_line_synced [OF wf len r0 _ nf run] by (auto simp: friendly_first_def)
  qed
qed

lemma friendly_cont_synced:
  assumes wf: "rl_wf (r_rl st)" and len: "vs_len (r_line st) + 25 < 2 ^ 32"
    and g: "t_state (shown t0 st) = T_ground" and r0: "ret = 0 \<Longrightarrow> shown t0 st = screen [] 0"
    and r_neg: "ret < 0 \<Longrightarrow> synced t0 st" and ret: "ret < 0 \<or> ret = 0 \<or> ret = 3"
    and eq: "friendly_cont al run ret st = Inr (ret', st')" and nf: "\<not> forced_exit ret'"
    and run: "ret = 0 \<Longrightarrow> whole_lines run (Source_vstr (vstr_bytes (r_line st))) MP_PARSE_SINGLE_INPUT"
  shows "synced t0 st'"
proof -
  have w: "vstr_wf (r_line st)" "hist_ok (readline_hist (r_rl st))" using wf by (auto simp: rl_wf_def r_line_def)
  have nl: "shown t0 (rl_tx [13, 10] (st\<lparr>r_cont_line := False\<rparr>)) = screen [] 0" by (rule newline_shown) (use g in simp)
  from ret consider "ret < 0" | "ret = 0" | "ret = 3" by blast
  then show ?thesis
  proof cases
    case 1
    then show ?thesis using eq r_neg by (auto simp: friendly_cont_def)
  next
    case 2
    then show ?thesis using eq finish_line_synced [OF wf len r0 _ nf run] by (auto simp: friendly_cont_def)
  next
    case 3
    then show ?thesis using eq w restart_synced [OF _ _ nl] by (auto simp: friendly_cont_def)
  qed
qed

lemma friendly_step_synced:
  assumes inv: "repl_inv st" and sm: "repl_small st" and ac: "completer_ok ac"
    and m: "pyexec_mode_kind st = PYEXEC_MODE_FRIENDLY_REPL" and sync: "synced t0 st" and key: "quiet_key run c st"
    and eq: "pyexec_friendly_repl_process_char al ac run banner c st = Inr (ret, st')"
    and nf: "\<not> forced_exit ret" and sm': "repl_small st'" and banner: "banner_ok banner"
  shows "synced t0 st'"
proof (cases "r_paste_mode st")
  case True
  have "friendly_paste al run c st = Inr (ret, st')" using eq True by (simp add: pyexec_friendly_repl_process_char_def)
  from paste_synced [OF inv m True _ key this nf, of t0] show ?thesis using sync by (simp add: synced_def)
next
  case False
  obtain r rl where rp: "readline_process_char al ac c (r_rl st) = Inr (r, rl)"
    and nx: "(if \<not> r_cont_line st then friendly_first al run banner r (st\<lparr>r_rl := rl\<rparr>)
         else friendly_cont al run r (st\<lparr>r_rl := rl\<rparr>)) = Inr (ret, st')"
    and fit: "rl_wf (r_rl st)" "rl_fits (r_rl st)" "r = - 1 \<longrightarrow> rl_fits rl" and len: "vs_len (rl_line rl) + 25 < 2 ^ 32"
    by (rule friendly_readline [OF inv sm ac m False eq sm'])
  let ?st = "st\<lparr>r_rl := rl\<rparr>"
  have sh: "term_run (rl_out (r_rl st)) t0 = rl_screen (r_rl st)" using sync m False by (simp add: synced_def shown_def)
  note p = process_char_in_sync [OF fit(1,2) ac rp mp [OF fit(3)]]
  have wf: "rl_wf rl" and r1: "r = 1 \<Longrightarrow> vs_len (rl_line rl) = rl_orig_line_len (r_rl st)"
    using readline_step_inv [OF fit(1,2) ac rp mp [OF fit(3)]] by blast+
  have stay: "synced t0 ?st" if "r = - 1" using p that sh by (auto simp: synced_def)
  have ret: "r = - 1 \<or> ret_good c (r_rl st) r rl" using p by (auto split: if_splits)
  have good: "t_state (shown t0 ?st) = T_ground" "r = 0 \<Longrightarrow> shown t0 ?st = screen [] 0" "r \<le> 5" "r < 0 \<Longrightarrow> r = - 1"
    "r_cont_line st \<Longrightarrow> r < 0 \<or> r = 0 \<or> r = 3"
    "r = 0 \<Longrightarrow> whole_lines run (Source_vstr (vstr_bytes (rl_line rl))) MP_PARSE_SINGLE_INPUT"
    using ret stay sh key m False term_newline [of "rl_screen (r_rl st)"]
    by (auto simp: synced_def ret_good_def quiet_key_def r_line_def split: if_splits)
  show ?thesis
  proof (cases "r_cont_line st")
    case True
    show ?thesis by (rule friendly_cont_synced [of ?st t0 r al run ret])
      (use wf len good stay nx True nf in simp_all)
  next
    case nc: False
    have "rl_orig_line_len (r_rl st) = 0" using inv m False nc by (simp add: repl_inv_def)
    then have "r = 1 \<Longrightarrow> vs_len (rl_line rl) = 0" using r1 by simp
    then show ?thesis using friendly_first_synced [of ?st t0 r al run banner ret st'] wf len good stay nx nc nf banner
      by simp
  qed
qed

lemma repl_init_synced:
  assumes eq: "pyexec_event_repl_init al ac run banner st0 = Inr st" and h: "hist_ok (readline_hist (r_rl st0))"
    and g: "t_state (shown t0 st0) = T_ground" and banner: "banner_ok banner"
  shows "synced t0 st"
proof -
  obtain v where v: "vstr_new (m_renew al) 32 = Inr v" using eq by (auto simp: pyexec_event_repl_init_def split: sum.splits)
  note w = vstr_new_empty [OF v]
  let ?st = "st0\<lparr>r_cont_line := False, r_paste_mode := False, r_rl := readline_init v [] (r_rl st0)\<rparr>"
  have i: "vstr_wf (r_line ?st)" "vs_len (r_line ?st) = 0" "hist_ok (readline_hist (r_rl ?st))" "raw_ready (r_rl ?st)"
    "t_state (shown t0 ?st) = T_ground"
    using w h g by (simp_all add: readline_init_def tx_def raw_ready_def shown_def c_str_def)
  show ?thesis
  proof (cases "pyexec_mode_kind st0")
    case PYEXEC_MODE_FRIENDLY_REPL
    then obtain r where "pyexec_friendly_repl_process_char al ac run banner 2 ?st = Inr (r, st)"
      using eq v by (auto simp: pyexec_event_repl_init_def Let_def split: sum.splits prod.splits)
    from ctrl_b_synced [OF i(1-4) _ _ _ i(5) banner this] show ?thesis using PYEXEC_MODE_FRIENDLY_REPL by simp
  next
    case PYEXEC_MODE_RAW_REPL
    then obtain r where "raw_ctrl_a run ?st = (r, st)"
      using eq v by (auto simp: pyexec_event_repl_init_def Let_def pyexec_raw_repl_process_char_def split: prod.splits)
    from raw_ctrl_a_synced [OF _ i(5) _ this] show ?thesis using PYEXEC_MODE_RAW_REPL i(2) by simp
  qed
qed

subsection \<open>The prompt over a whole session\<close>

text \<open>
  The states the prompt can be in between two characters, from \<^verbatim>\<open>pyexec_event_repl_init\<close> on, and
  whether all keys so far were such that the screen is kept in order.
\<close>

inductive repl_reach ::
  "allocator \<Rightarrow> (byte list \<Rightarrow> completion) \<Rightarrow> runner \<Rightarrow> byte list \<Rightarrow> repl_t \<Rightarrow> bool \<Rightarrow> repl_t \<Rightarrow> bool"
  for al ac run banner st0 where
  init: "pyexec_event_repl_init al ac run banner st0 = Inr st \<Longrightarrow> repl_small st \<Longrightarrow>
    repl_reach al ac run banner st0 True st"
| char: "repl_reach al ac run banner st0 quiet st \<Longrightarrow>
    pyexec_event_repl_process_char al ac run banner c st = Inr (ret, st') \<Longrightarrow> \<not> forced_exit ret \<Longrightarrow> repl_small st' \<Longrightarrow>
    repl_reach al ac run banner st0 (quiet \<and> quiet_key run c st) st'"

lemma event_step:
  assumes inv: "repl_inv st" "repl_small st" and ac: "completer_ok ac"
    and eq: "pyexec_event_repl_process_char al ac run banner c st = Inr (ret, st')"
    and nf: "\<not> forced_exit ret" and sm': "repl_small st'"
  shows "repl_inv st'"
    and "synced t0 st \<Longrightarrow> quiet_key run c st \<Longrightarrow> banner_ok banner \<Longrightarrow> synced t0 st'"
proof -
  have f: "pyexec_friendly_repl_process_char al ac run banner c st = Inr (ret, st')"
    if "pyexec_mode_kind st = PYEXEC_MODE_FRIENDLY_REPL" using eq that by (simp add: pyexec_event_repl_process_char_def)
  have r: "pyexec_raw_repl_process_char al ac run banner c st = Inr (ret, st')"
    if "pyexec_mode_kind st = PYEXEC_MODE_RAW_REPL" using eq that by (simp add: pyexec_event_repl_process_char_def)
  show "repl_inv st'"
    using friendly_step_inv [OF inv ac _ f nf sm'] raw_step_inv [OF inv _ r nf] by (cases "pyexec_mode_kind st") auto
  show "synced t0 st'" if "synced t0 st" "quiet_key run c st" "banner_ok banner"
    using friendly_step_synced [OF inv ac _ that(1,2) f nf sm' that(3)] raw_step_synced [OF inv(1) _ that(1) r nf that(2,3)]
    by (cases "pyexec_mode_kind st") auto
qed

text \<open>
  C30. The prompt over a whole session. Over any sequence of input characters that does not end it
  (with a completion function that keeps its contract, the history in order and the line below the bounds)
  the editor's state is well formed wherever a key may reach it, a new input starts at the start of
  the buffer, and in raw mode Ctrl-B always leads back to the friendly prompt with an empty line. And at the
  friendly prompt a terminal that received all that was sent shows exactly the prompt and
  the line being edited with the cursor at the editor's position, as long as what was executed there printed whole
  lines, and after any keys but an escape character in paste mode and Ctrl-A, Ctrl-B, Ctrl-D or Ctrl-E on an
  empty continuation line.
\<close>

theorem repl_invariant:
  assumes reach: "repl_reach al ac run banner st0 quiet st" and h: "hist_ok (readline_hist (r_rl st0))" and ac: "completer_ok ac"
    and t0: "t_state (term_run (rl_out (r_rl st0)) t0) = T_ground" and banner: "banner_ok banner"
  shows "repl_inv st \<and>
    (pyexec_mode_kind st = PYEXEC_MODE_RAW_REPL \<longrightarrow>
      (\<exists>st'. pyexec_event_repl_process_char al ac run banner 2 st = Inr (0, st') \<and>
        pyexec_mode_kind st' = PYEXEC_MODE_FRIENDLY_REPL \<and> vs_len (r_line st') = 0 \<and> rl_prompt (r_rl st') = ps1)) \<and>
    (quiet \<and> pyexec_mode_kind st = PYEXEC_MODE_FRIENDLY_REPL \<and> \<not> r_paste_mode st \<longrightarrow>
      term_run (rl_out (r_rl st)) t0 =
        screen (rl_prompt (r_rl st) @ rl_text (r_rl st))
          (length (rl_prompt (r_rl st)) + (rl_cursor_pos (r_rl st) - rl_orig_line_len (r_rl st))))"
proof -
  have "repl_inv st \<and> repl_small st \<and> (quiet \<longrightarrow> synced t0 st)" using reach
  proof induction
    case (init st)
    then show ?case using repl_init_inv h repl_init_synced [OF init(1) h _ banner, of t0] t0 by (simp add: shown_def)
  next
    case (char quiet st c ret st')
    then show ?case using event_step [OF _ _ ac char.hyps(2-4)] banner by blast
  qed
  then show ?thesis
    using raw_ctrl_b [of st al ac run banner] by (auto simp: pyexec_event_repl_process_char_def synced_def shown_def rl_screen_def)
qed

text \<open>An example: the friendly prompt after its start.\<close>

lemma sample_friendly_init:
  "\<exists>st. pyexec_event_repl_init (\<lambda>_. Some (\<lambda>_. 0)) (\<lambda>_. Compl_none) (\<lambda>s k. ([], Finished)) [] (sample_repl PYEXEC_MODE_FRIENDLY_REPL) = Inr st \<and>
    repl_small st \<and> pyexec_mode_kind st = PYEXEC_MODE_FRIENDLY_REPL \<and> \<not> r_paste_mode st \<and>
    rl_prompt (r_rl st) = ps1 \<and> rl_text (r_rl st) = [] \<and> rl_cursor_pos (r_rl st) = 0"
  by (simp add: pyexec_event_repl_init_def vstr_new_def vstr_init_def m_renew_def pyexec_friendly_repl_process_char_def
      readline_process_char_def rl_dispatch_def rl_none_def friendly_first_def input_restart_def
      sample_repl_def readline_init_def tx_def rl_tx_def set_line_def r_line_def
      vstr_reset_def repl_small_def rl_fits_def rl_text_def vstr_bytes_def c_str_def [of "[]"])

theorem repl_invariant_witness:
  "\<exists>st. repl_reach (\<lambda>_. Some (\<lambda>_. 0)) (\<lambda>_. Compl_none) (\<lambda>s k. ([], Finished)) [] (sample_repl PYEXEC_MODE_FRIENDLY_REPL) True st \<and>
    repl_inv st \<and> term_run (rl_out (r_rl st)) (screen [] 0) = screen ps1 4"
proof -
  obtain st where st: "pyexec_event_repl_init (\<lambda>_. Some (\<lambda>_. 0)) (\<lambda>_. Compl_none) (\<lambda>s k. ([], Finished)) []
      (sample_repl PYEXEC_MODE_FRIENDLY_REPL) = Inr st" "repl_small st" "pyexec_mode_kind st = PYEXEC_MODE_FRIENDLY_REPL"
      "\<not> r_paste_mode st" "rl_prompt (r_rl st) = ps1" "rl_text (r_rl st) = []" "rl_cursor_pos (r_rl st) = 0"
    using sample_friendly_init by blast
  note r = repl_reach.init [OF st(1,2)]
  have "t_state (term_run (rl_out (r_rl (sample_repl PYEXEC_MODE_FRIENDLY_REPL))) (screen [] 0)) = T_ground"
    by (simp add: sample_repl_def sample_rl_def)
  from repl_invariant [OF r sample_hist_ok no_completer_ok this] show ?thesis
    using r st by (auto simp: banner_ok_def ps1_def lit_def numeral_eq_Suc)
qed

end
