(* ===== verification/Lexer_State.thy ===== *)
theory Lexer_State
  imports Unichar Vstr
begin

text \<open>
  The state of the tokeniser of \<^verbatim>\<open>py/lexer.c\<close> with the reader on memory of \<^verbatim>\<open>py/reader.c\<close>, as
  this port configures it (no f-strings, no \<^verbatim>\<open>async\<close>, strings of bytes): the token kinds, the three
  characters of lookahead, positions and the stack of indentations. Characters are \<^verbatim>\<open>unichar\<close>s, 32-bit
  numbers, with \<open>MP_LEXER_EOF\<close> behind the end of the source. Token text goes to a growable string, so
  every function that adds to it takes the allocator and may raise.
\<close>

subsection \<open>Tokens\<close>

text \<open>
  The enumeration \<^verbatim>\<open>mp_token_kind_t\<close>, with the keywords, the operators and the delimiters as
  enumerations of their own, in the order of the header.
\<close>

datatype token_kw =
    KW_FALSE | KW_NONE | KW_TRUE | KW_DEBUG | KW_AND | KW_AS | KW_ASSERT | KW_BREAK | KW_CLASS | KW_CONTINUE
  | KW_DEF | KW_DEL | KW_ELIF | KW_ELSE | KW_EXCEPT | KW_FINALLY | KW_FOR | KW_FROM | KW_GLOBAL | KW_IF
  | KW_IMPORT | KW_IN | KW_IPUSYSCALL | KW_IS | KW_LAMBDA | KW_LONGYIELD | KW_NONLOCAL | KW_NOT | KW_OR
  | KW_PASS | KW_RAISE | KW_RETURN | KW_TRY | KW_WHILE | KW_WITH | KW_YIELD

datatype token_op =
    OP_ASSIGN | OP_TILDE | OP_LESS | OP_MORE | OP_DBL_EQUAL | OP_LESS_EQUAL | OP_MORE_EQUAL | OP_NOT_EQUAL
  | OP_PIPE | OP_CARET | OP_AMPERSAND | OP_DBL_LESS | OP_DBL_MORE | OP_PLUS | OP_MINUS | OP_STAR | OP_AT
  | OP_DBL_SLASH | OP_SLASH | OP_PERCENT | OP_DBL_STAR

datatype token_del =
    DEL_PIPE_EQUAL | DEL_CARET_EQUAL | DEL_AMPERSAND_EQUAL | DEL_DBL_LESS_EQUAL | DEL_DBL_MORE_EQUAL
  | DEL_PLUS_EQUAL | DEL_MINUS_EQUAL | DEL_STAR_EQUAL | DEL_AT_EQUAL | DEL_DBL_SLASH_EQUAL | DEL_SLASH_EQUAL
  | DEL_PERCENT_EQUAL | DEL_DBL_STAR_EQUAL | DEL_PAREN_OPEN | DEL_PAREN_CLOSE | DEL_BRACKET_OPEN
  | DEL_BRACKET_CLOSE | DEL_BRACE_OPEN | DEL_BRACE_CLOSE | DEL_COMMA | DEL_COLON | DEL_PERIOD | DEL_SEMICOLON
  | DEL_EQUAL | DEL_MINUS_MORE

datatype mp_token_kind_t =
    MP_TOKEN_END | MP_TOKEN_INVALID | MP_TOKEN_DEDENT_MISMATCH | MP_TOKEN_LONELY_STRING_OPEN | MP_TOKEN_NEWLINE
  | MP_TOKEN_INDENT | MP_TOKEN_DEDENT | MP_TOKEN_NAME | MP_TOKEN_INTEGER | MP_TOKEN_FLOAT_OR_IMAG
  | MP_TOKEN_STRING | MP_TOKEN_BYTES | MP_TOKEN_ELLIPSIS | MP_TOKEN_KW token_kw | MP_TOKEN_OP token_op
  | MP_TOKEN_DEL token_del

subsection \<open>The reader on memory\<close>

record mp_reader_mem_t =
  rm_buf :: "byte list"
  rm_cur :: nat

definition MP_READER_EOF :: nat where
  "MP_READER_EOF = 2 ^ 32 - 1"

definition mp_reader_mem_readbyte :: "mp_reader_mem_t \<Rightarrow> nat \<times> mp_reader_mem_t" where
  "mp_reader_mem_readbyte r =
    (if rm_cur r < length (rm_buf r) then (unat (rm_buf r ! rm_cur r), r\<lparr>rm_cur := rm_cur r + 1\<rparr>)
     else (MP_READER_EOF, r))"

text \<open>The structure has four words.\<close>

definition mp_reader_new_mem :: "allocator \<Rightarrow> byte list \<Rightarrow> mp_reader_mem_t result" where
  "mp_reader_new_mem al buf =
    (case al 16 of None \<Rightarrow> Inl MemoryError | Some _ \<Rightarrow> Inr \<lparr>rm_buf = buf, rm_cur = 0\<rparr>)"

subsection \<open>State\<close>

record mp_lexer_t =
  lx_reader :: mp_reader_mem_t
  chr0 :: nat
  chr1 :: nat
  chr2 :: nat
  lx_line :: nat
  lx_column :: nat
  emit_dent :: int
  nested_bracket_level :: int
  alloc_indent_level :: nat
  num_indent_level :: nat
  indent_level :: "nat list"
  tok_line :: nat
  tok_column :: nat
  tok_kind :: mp_token_kind_t
  lx_vstr :: vstr

definition MP_LEXER_EOF :: nat where
  "MP_LEXER_EOF = MP_READER_EOF"

definition is_end :: "mp_lexer_t \<Rightarrow> bool" where
  "is_end lx \<longleftrightarrow> chr0 lx = MP_LEXER_EOF"

definition is_physical_newline :: "mp_lexer_t \<Rightarrow> bool" where
  "is_physical_newline lx \<longleftrightarrow> chr0 lx = 10"

definition is_char :: "mp_lexer_t \<Rightarrow> nat \<Rightarrow> bool" where
  "is_char lx c \<longleftrightarrow> chr0 lx = c"

definition is_char_or :: "mp_lexer_t \<Rightarrow> nat \<Rightarrow> nat \<Rightarrow> bool" where
  "is_char_or lx c1 c2 \<longleftrightarrow> chr0 lx = c1 \<or> chr0 lx = c2"

definition is_char_or3 :: "mp_lexer_t \<Rightarrow> nat \<Rightarrow> nat \<Rightarrow> nat \<Rightarrow> bool" where
  "is_char_or3 lx c1 c2 c3 \<longleftrightarrow> chr0 lx = c1 \<or> chr0 lx = c2 \<or> chr0 lx = c3"

definition is_char_following :: "mp_lexer_t \<Rightarrow> nat \<Rightarrow> bool" where
  "is_char_following lx c \<longleftrightarrow> chr1 lx = c"

definition is_char_following_or :: "mp_lexer_t \<Rightarrow> nat \<Rightarrow> nat \<Rightarrow> bool" where
  "is_char_following_or lx c1 c2 \<longleftrightarrow> chr1 lx = c1 \<or> chr1 lx = c2"

definition is_char_following_following_or :: "mp_lexer_t \<Rightarrow> nat \<Rightarrow> nat \<Rightarrow> bool" where
  "is_char_following_following_or lx c1 c2 \<longleftrightarrow> chr2 lx = c1 \<or> chr2 lx = c2"

definition is_char_and :: "mp_lexer_t \<Rightarrow> nat \<Rightarrow> nat \<Rightarrow> bool" where
  "is_char_and lx c1 c2 \<longleftrightarrow> chr0 lx = c1 \<and> chr1 lx = c2"

definition is_whitespace :: "mp_lexer_t \<Rightarrow> bool" where
  "is_whitespace lx \<longleftrightarrow> unichar_isspace (chr0 lx)"

definition is_letter :: "mp_lexer_t \<Rightarrow> bool" where
  "is_letter lx \<longleftrightarrow> unichar_isalpha (chr0 lx)"

definition is_digit :: "mp_lexer_t \<Rightarrow> bool" where
  "is_digit lx \<longleftrightarrow> unichar_isdigit (chr0 lx)"

definition is_following_digit :: "mp_lexer_t \<Rightarrow> bool" where
  "is_following_digit lx \<longleftrightarrow> unichar_isdigit (chr1 lx)"

text \<open>The characters b 98, o 111 and x 120 in either case.\<close>

definition is_following_base_char :: "mp_lexer_t \<Rightarrow> bool" where
  "is_following_base_char lx \<longleftrightarrow> (let c = chr1 lx OR 32 in c = 98 \<or> c = 111 \<or> c = 120)"

definition is_following_odigit :: "mp_lexer_t \<Rightarrow> bool" where
  "is_following_odigit lx \<longleftrightarrow> 48 \<le> chr1 lx \<and> chr1 lx \<le> 55"

text \<open>The quotes are 39 and 34; the prefixes r 114, u 117 and b 98.\<close>

definition is_string_or_bytes :: "mp_lexer_t \<Rightarrow> bool" where
  "is_string_or_bytes lx \<longleftrightarrow>
    is_char_or lx 39 34
    \<or> is_char_or3 lx 114 117 98 \<and> is_char_following_or lx 39 34
    \<or> (is_char_and lx 114 98 \<or> is_char_and lx 98 114) \<and> is_char_following_following_or lx 39 34"

definition is_head_of_identifier :: "mp_lexer_t \<Rightarrow> bool" where
  "is_head_of_identifier lx \<longleftrightarrow> is_letter lx \<or> chr0 lx = 95 \<or> chr0 lx \<ge> 0x80"

definition is_tail_of_identifier :: "mp_lexer_t \<Rightarrow> bool" where
  "is_tail_of_identifier lx \<longleftrightarrow> is_head_of_identifier lx \<or> is_digit lx"

subsection \<open>Characters and positions\<close>

definition TAB_SIZE :: nat where "TAB_SIZE = 8"

definition advance_position :: "mp_lexer_t \<Rightarrow> mp_lexer_t" where
  "advance_position lx =
    (if chr0 lx = 10 then lx\<lparr>lx_line := wrap32 (lx_line lx + 1), lx_column := 1\<rparr>
     else if chr0 lx = 9 then
       lx\<lparr>lx_column := wrap32 (wrap32 (sub32 (lx_column lx) 1 + TAB_SIZE) div TAB_SIZE * TAB_SIZE + 1)\<rparr>
     else lx\<lparr>lx_column := wrap32 (lx_column lx + 1)\<rparr>)"

definition read_chr2 :: "mp_lexer_t \<Rightarrow> mp_lexer_t" where
  "read_chr2 lx = (let (c, r) = mp_reader_mem_readbyte (lx_reader lx) in lx\<lparr>chr2 := c, lx_reader := r\<rparr>)"

definition next_char :: "mp_lexer_t \<Rightarrow> mp_lexer_t" where
  "next_char lx =
    (let lx = advance_position lx;
         lx = read_chr2 (lx\<lparr>chr0 := chr1 lx, chr1 := chr2 lx\<rparr>);
         lx = (if chr1 lx = 13 then
                  (let lx = lx\<lparr>chr1 := 10\<rparr> in if chr2 lx = 10 then read_chr2 lx else lx)
                else lx)
     in if chr2 lx = MP_LEXER_EOF \<and> chr1 lx \<noteq> MP_LEXER_EOF \<and> chr1 lx \<noteq> 10 then lx\<lparr>chr2 := 10\<rparr> else lx)"

subsection \<open>Indentation\<close>

text \<open>
  The levels are 16-bit numbers in a buffer of \<^verbatim>\<open>alloc_indent_level\<close> entries that grows by
  \<^verbatim>\<open>MICROPY_ALLOC_LEXEL_INDENT_INC\<close> (8) entries; the new entries hold what the allocator left there.
\<close>

definition indent_entries :: "(nat \<Rightarrow> byte) \<Rightarrow> nat \<Rightarrow> nat \<Rightarrow> nat list" where
  "indent_entries f i j = map (\<lambda>k. unat (f (2 * k)) + 256 * unat (f (2 * k + 1))) [i..<j]"

definition indent_push :: "allocator \<Rightarrow> nat \<Rightarrow> mp_lexer_t \<Rightarrow> mp_lexer_t result" where
  "indent_push al indent lx =
    rbind (if num_indent_level lx \<ge> alloc_indent_level lx then
             (case al (wrap32 (2 * (alloc_indent_level lx + 8))) of
                None \<Rightarrow> Inl MemoryError
              | Some f \<Rightarrow> Inr (lx\<lparr>
                  indent_level := indent_level lx @ indent_entries f (alloc_indent_level lx) (alloc_indent_level lx + 8),
                  alloc_indent_level := alloc_indent_level lx + 8\<rparr>))
           else Inr lx)
      (\<lambda>lx. Inr (lx\<lparr>indent_level := (indent_level lx)[num_indent_level lx := indent mod 2 ^ 16],
                     num_indent_level := num_indent_level lx + 1\<rparr>))"

definition indent_top :: "mp_lexer_t \<Rightarrow> nat" where
  "indent_top lx = indent_level lx ! (num_indent_level lx - 1)"

definition indent_pop :: "mp_lexer_t \<Rightarrow> mp_lexer_t" where
  "indent_pop lx = lx\<lparr>num_indent_level := num_indent_level lx - 1\<rparr>"

subsection \<open>Token text\<close>

definition lex_add_byte :: "allocator \<Rightarrow> nat \<Rightarrow> mp_lexer_t \<Rightarrow> mp_lexer_t result" where
  "lex_add_byte al c lx = rbind (vstr_add_byte (m_renew al) (word_of_nat c) (lx_vstr lx)) (\<lambda>v. Inr (lx\<lparr>lx_vstr := v\<rparr>))"

definition lex_add_char :: "allocator \<Rightarrow> nat \<Rightarrow> mp_lexer_t \<Rightarrow> mp_lexer_t result" where
  "lex_add_char al c lx = rbind (vstr_add_char (m_renew al) c (lx_vstr lx)) (\<lambda>v. Inr (lx\<lparr>lx_vstr := v\<rparr>))"

subsection \<open>Termination\<close>

text \<open>
  A bound on the characters still to come. A byte in the reader counts twice, because a newline may be
  added behind it at the end of the source.
\<close>

definition lex_left :: "mp_lexer_t \<Rightarrow> nat" where
  "lex_left lx =
    2 * (length (rm_buf (lx_reader lx)) - rm_cur (lx_reader lx))
    + (if chr2 lx = MP_LEXER_EOF then 0 else if chr2 lx = 10 then 1 else 2)
    + (if chr1 lx = MP_LEXER_EOF then 0 else 1) + (if chr0 lx = MP_LEXER_EOF then 0 else 1)"

lemma read_chr2_left:
  "2 * (length (rm_buf (lx_reader (read_chr2 lx))) - rm_cur (lx_reader (read_chr2 lx)))
    + (if chr2 (read_chr2 lx) = MP_LEXER_EOF then 0 else 2) =
   2 * (length (rm_buf (lx_reader lx)) - rm_cur (lx_reader lx))"
proof -
  have "unat b \<noteq> MP_READER_EOF" for b :: byte using unsigned_less [of b, where 'a = nat] by (simp add: MP_READER_EOF_def)
  then show ?thesis by (auto simp: read_chr2_def mp_reader_mem_readbyte_def MP_LEXER_EOF_def)
qed

lemma read_chr2_other [simp]:
  "chr0 (read_chr2 lx) = chr0 lx" "chr1 (read_chr2 lx) = chr1 lx" "lx_vstr (read_chr2 lx) = lx_vstr lx"
  "tok_kind (read_chr2 lx) = tok_kind lx" "emit_dent (read_chr2 lx) = emit_dent lx"
  "nested_bracket_level (read_chr2 lx) = nested_bracket_level lx" "num_indent_level (read_chr2 lx) = num_indent_level lx"
  "alloc_indent_level (read_chr2 lx) = alloc_indent_level lx" "indent_level (read_chr2 lx) = indent_level lx"
  by (simp_all add: read_chr2_def split: prod.splits)

lemma advance_position_other [simp]:
  "chr0 (advance_position lx) = chr0 lx" "chr1 (advance_position lx) = chr1 lx" "chr2 (advance_position lx) = chr2 lx"
  "lx_reader (advance_position lx) = lx_reader lx" "lx_vstr (advance_position lx) = lx_vstr lx"
  "tok_kind (advance_position lx) = tok_kind lx" "emit_dent (advance_position lx) = emit_dent lx"
  "nested_bracket_level (advance_position lx) = nested_bracket_level lx"
  "num_indent_level (advance_position lx) = num_indent_level lx"
  "alloc_indent_level (advance_position lx) = alloc_indent_level lx" "indent_level (advance_position lx) = indent_level lx"
  by (simp_all add: advance_position_def)

lemma next_char_other [simp]:
  "lx_vstr (next_char lx) = lx_vstr lx" "tok_kind (next_char lx) = tok_kind lx"
  "emit_dent (next_char lx) = emit_dent lx" "nested_bracket_level (next_char lx) = nested_bracket_level lx"
  "num_indent_level (next_char lx) = num_indent_level lx"
  "alloc_indent_level (next_char lx) = alloc_indent_level lx" "indent_level (next_char lx) = indent_level lx"
  "chr0 (next_char lx) = chr1 lx"
  by (simp_all add: next_char_def Let_def)

lemma lex_left_other [simp]:
  "lex_left (lx\<lparr>lx_vstr := v\<rparr>) = lex_left lx" "lex_left (lx\<lparr>tok_kind := k\<rparr>) = lex_left lx"
  "lex_left (lx\<lparr>tok_line := l\<rparr>) = lex_left lx" "lex_left (lx\<lparr>tok_column := l\<rparr>) = lex_left lx"
  by (simp_all add: lex_left_def)

text \<open>Each character that is taken brings the end closer.\<close>

lemma next_char_left: "lex_left (next_char lx) + (if chr0 lx = MP_LEXER_EOF then 0 else 1) \<le> lex_left lx"
proof -
  have eof: "MP_LEXER_EOF \<noteq> 10" "MP_LEXER_EOF \<noteq> 13" by (simp_all add: MP_LEXER_EOF_def MP_READER_EOF_def)
  define rest where "rest l = 2 * (length (rm_buf (lx_reader l)) - rm_cur (lx_reader l))" for l :: mp_lexer_t
  have read: "rest (read_chr2 l) + (if chr2 (read_chr2 l) = MP_LEXER_EOF then 0 else 2) = rest l" for l
    unfolding rest_def by (rule read_chr2_left)
  define a where "a = read_chr2 ((advance_position lx)\<lparr>chr0 := chr1 lx, chr1 := chr2 lx\<rparr>)"
  define b where "b = read_chr2 (a\<lparr>chr1 := 10\<rparr>)"
  have a: "rest a + (if chr2 a = MP_LEXER_EOF then 0 else 2) = rest lx" "chr0 a = chr1 lx" "chr1 a = chr2 lx"
    using read [of "(advance_position lx)\<lparr>chr0 := chr1 lx, chr1 := chr2 lx\<rparr>"] by (simp_all add: a_def rest_def)
  have b: "rest b + (if chr2 b = MP_LEXER_EOF then 0 else 2) = rest a" "chr0 b = chr1 lx" "chr1 b = 10"
    using read [of "a\<lparr>chr1 := 10\<rparr>"] a(2) by (simp_all add: b_def rest_def)
  define c where "c = (if chr1 a = 13 then if chr2 a = 10 then b else a\<lparr>chr1 := 10\<rparr> else a)"
  have c: "rest c + (if chr2 c = MP_LEXER_EOF then 0 else 2) \<le> rest lx" "chr0 c = chr1 lx"
    "chr1 c = (if chr2 lx = 13 then 10 else chr2 lx)"
    using a b by (auto simp: c_def rest_def)
  have n: "next_char lx = (if chr2 c = MP_LEXER_EOF \<and> chr1 c \<noteq> MP_LEXER_EOF \<and> chr1 c \<noteq> 10 then c\<lparr>chr2 := 10\<rparr> else c)"
    by (simp add: next_char_def Let_def a_def b_def c_def)
  have left: "lex_left l = rest l + (if chr2 l = MP_LEXER_EOF then 0 else if chr2 l = 10 then 1 else 2)
    + (if chr1 l = MP_LEXER_EOF then 0 else 1) + (if chr0 l = MP_LEXER_EOF then 0 else 1)" for l
    by (simp add: lex_left_def rest_def)
  have r: "rest (c\<lparr>chr2 := 10\<rparr>) = rest c" by (simp add: rest_def)
  show ?thesis using c eof unfolding n left by (auto simp: r split: if_splits)
qed

lemma next_char_less: "chr0 lx \<noteq> MP_LEXER_EOF \<Longrightarrow> lex_left (next_char lx) < lex_left lx"
  using next_char_left [of lx] by simp

lemma next_char_le: "lex_left (next_char lx) \<le> lex_left lx"
  using next_char_left [of lx] by (simp split: if_splits)

lemma lex_add_left:
  "lex_add_byte al c lx = Inr lx' \<Longrightarrow> lex_left lx' = lex_left lx \<and> chr0 lx' = chr0 lx"
  "lex_add_char al c lx = Inr lx' \<Longrightarrow> lex_left lx' = lex_left lx \<and> chr0 lx' = chr0 lx"
  by (auto simp: lex_add_byte_def lex_add_char_def rbind_Inr)

end
