(* ===== verification/Lexer.thy ===== *)
theory Lexer
  imports Lexer_State
begin

text \<open>
  The functions of \<^verbatim>\<open>py/lexer.c\<close>: string literals, white space, \<^verbatim>\<open>mp_lexer_to_next\<close> with a
  definition per kind of token, and the construction of a lexer on a string.
\<close>

subsection \<open>String literals\<close>

text \<open>The result of \<^verbatim>\<open>get_hex\<close> is \<open>None\<close> where the C function returns false and leaves the
  result alone.\<close>

fun get_hex :: "nat \<Rightarrow> nat \<Rightarrow> mp_lexer_t \<Rightarrow> nat option \<times> mp_lexer_t" where
  "get_hex 0 num lx = (Some num, lx)"
| "get_hex (Suc num_digits) num lx =
    (let lx = next_char lx; c = chr0 lx in
     if \<not> unichar_isxdigit c then (None, lx)
     else get_hex num_digits (wrap32 (wrap32 (num * 16) + unichar_xdigit_value c)) lx)"

text \<open>The loop over an octal escape; \<open>digits\<close> counts down from 3.\<close>

fun get_octal :: "nat \<Rightarrow> nat \<Rightarrow> mp_lexer_t \<Rightarrow> nat \<times> mp_lexer_t" where
  "get_octal 0 num lx = (num, lx)"
| "get_octal (Suc digits) num lx =
    (if is_following_odigit lx \<and> digits \<noteq> 0 then
       (let lx = next_char lx in get_octal digits (num * 8 + (chr0 lx - 48)) lx)
     else (num, lx))"

text \<open>
  The \<^verbatim>\<open>switch\<close> on the character after a backslash: the character it stands for, or
  \<open>MP_LEXER_EOF\<close> for a line continuation inside the literal.
\<close>

definition escape_char :: "allocator \<Rightarrow> nat \<Rightarrow> mp_lexer_t \<Rightarrow> (nat \<times> mp_lexer_t) result" where
  "escape_char al c lx =
    (if c = 10 then Inr (MP_LEXER_EOF, lx)
     else if c = 92 \<or> c = 39 \<or> c = 34 then Inr (c, lx)
     else if c = 97 then Inr (0x07, lx)
     else if c = 98 then Inr (0x08, lx)
     else if c = 116 then Inr (0x09, lx)
     else if c = 110 then Inr (0x0a, lx)
     else if c = 118 then Inr (0x0b, lx)
     else if c = 102 then Inr (0x0c, lx)
     else if c = 114 then Inr (0x0d, lx)
     else if (c = 117 \<or> c = 85) \<and> tok_kind lx = MP_TOKEN_BYTES then
       rbind (lex_add_char al 92 lx) (\<lambda>lx. Inr (c, lx))
     else if c = 120 \<or> c = 117 \<or> c = 85 then
       (case get_hex (if c = 120 then 2 else if c = 117 then 4 else 8) 0 lx of
          (None, lx) \<Rightarrow> Inr (0, lx\<lparr>tok_kind := MP_TOKEN_INVALID\<rparr>)
        | (Some num, lx) \<Rightarrow> Inr (num, lx))
     else if c = 78 then Inl NotImplementedError
     else if 48 \<le> c \<and> c \<le> 55 then Inr (get_octal 3 (c - 48) lx)
     else rbind (lex_add_char al 92 lx) (\<lambda>lx. Inr (c, lx)))"

text \<open>One character of a literal that is not a quote, without the final \<^verbatim>\<open>next_char\<close>.\<close>

definition string_char :: "allocator \<Rightarrow> bool \<Rightarrow> mp_lexer_t \<Rightarrow> mp_lexer_t result" where
  "string_char al is_raw lx =
    (if is_char lx 92 then
       (let lx = next_char lx; c = chr0 lx in
        rbind (if is_raw then rbind (lex_add_char al 92 lx) (\<lambda>lx. Inr (c, lx)) else escape_char al c lx)
          (\<lambda>(c, lx). if c \<noteq> MP_LEXER_EOF then
             if c < 0x100 then lex_add_byte al c lx else Inr (lx\<lparr>tok_kind := MP_TOKEN_INVALID\<rparr>)
           else Inr lx))
     else lex_add_byte al (chr0 lx) lx)"

lemma get_hex_left: "get_hex n num lx = (r, lx') \<Longrightarrow> lex_left lx' \<le> lex_left lx"
proof (induction n num lx rule: get_hex.induct)
  case (2 n num lx)
  then show ?case using next_char_le [of lx] by (force simp: Let_def split: if_splits)
qed simp

lemma get_octal_left: "get_octal n num lx = (r, lx') \<Longrightarrow> lex_left lx' \<le> lex_left lx"
proof (induction n num lx rule: get_octal.induct)
  case (2 n num lx)
  then show ?case using next_char_le [of lx] by (force simp: Let_def split: if_splits)
qed simp

lemma escape_char_left: "escape_char al c lx = Inr (r, lx') \<Longrightarrow> lex_left lx' \<le> lex_left lx"
  by (auto simp: escape_char_def rbind_Inr lex_add_left dest: get_hex_left get_octal_left
      split: if_splits prod.splits option.splits)

lemma string_char_left:
  assumes "string_char al raw lx = Inr lx'" and "chr0 lx \<noteq> MP_LEXER_EOF"
  shows "lex_left (next_char lx') < lex_left lx"
proof (cases "is_char lx 92")
  case True
  let ?n = "next_char lx"
  obtain c l where l: "(if raw then rbind (lex_add_char al 92 ?n) (\<lambda>lx. Inr (chr0 ?n, lx)) else escape_char al (chr0 ?n) ?n) = Inr (c, l)"
    and l': "(if c \<noteq> MP_LEXER_EOF then if c < 0x100 then lex_add_byte al c l else Inr (l\<lparr>tok_kind := MP_TOKEN_INVALID\<rparr>)
      else Inr l) = Inr lx'"
    using assms(1) True unfolding string_char_def Let_def rbind_Inr if_P [OF True] by auto
  have "lex_left l \<le> lex_left ?n"
    using l by (cases raw) (auto simp: rbind_Inr dest: escape_char_left lex_add_left)
  moreover have "lex_left lx' = lex_left l" using l' by (auto dest: lex_add_left split: if_splits)
  ultimately have "lex_left lx' \<le> lex_left (next_char lx)" by simp
  then show ?thesis using next_char_less [OF assms(2)] next_char_le [of lx'] by linarith
next
  case False
  then show ?thesis using assms next_char_less [of lx'] by (auto simp: string_char_def lex_add_left)
qed

function string_loop :: "allocator \<Rightarrow> bool \<Rightarrow> nat \<Rightarrow> nat \<Rightarrow> nat \<Rightarrow> mp_lexer_t \<Rightarrow> (nat \<times> mp_lexer_t) result" where
  "string_loop al is_raw quote_char num_quotes n_closing lx =
    (if \<not> is_end lx \<and> (num_quotes > 1 \<or> \<not> is_char lx 10) \<and> n_closing < num_quotes then
       if is_char lx quote_char then
         rbind (lex_add_char al (chr0 lx) lx)
           (\<lambda>lx. string_loop al is_raw quote_char num_quotes (n_closing + 1) (next_char lx))
       else
         rbind (string_char al is_raw lx)
           (\<lambda>lx. string_loop al is_raw quote_char num_quotes 0 (next_char lx))
     else Inr (n_closing, lx))"
  by pat_completeness auto
termination
proof (relation "measure (\<lambda>(al, is_raw, q, nq, nc, lx). lex_left lx)", goal_cases)
  case (2 al is_raw q nq nc lx x)
  then show ?case using next_char_less [of x] by (auto simp: is_end_def lex_add_left)
next
  case (3 al is_raw q nq nc lx x)
  then show ?case using string_char_left [of al is_raw lx x] by (auto simp: is_end_def)
qed simp

declare string_loop.simps [simp del]

definition parse_string_literal :: "allocator \<Rightarrow> bool \<Rightarrow> mp_lexer_t \<Rightarrow> mp_lexer_t result" where
  "parse_string_literal al is_raw lx =
    (let quote_char = (if is_char lx 34 then 34 else 39);
         lx = next_char lx;
         (num_quotes, lx) = (if is_char_and lx quote_char quote_char then (3, next_char (next_char lx)) else (1, lx))
     in rbind (string_loop al is_raw quote_char num_quotes 0 lx)
       (\<lambda>(n_closing, lx).
          let lx = (if n_closing < num_quotes then lx\<lparr>tok_kind := MP_TOKEN_LONELY_STRING_OPEN\<rparr> else lx)
          in Inr (lx\<lparr>lx_vstr := vstr_cut_tail_bytes n_closing (lx_vstr lx)\<rparr>)))"

lemma string_loop_left: "string_loop al raw q nq nc lx = Inr (n, lx') \<Longrightarrow> lex_left lx' \<le> lex_left lx"
proof (induction al raw q nq nc lx rule: string_loop.induct)
  case (1 al raw q nq nc lx)
  show ?case
  proof (cases "\<not> is_end lx \<and> (nq > 1 \<or> \<not> is_char lx 10) \<and> nc < nq")
    case c: True
    show ?thesis
    proof (cases "is_char lx q")
      case True
      then obtain x where x: "lex_add_char al (chr0 lx) lx = Inr x" "string_loop al raw q nq (nc + 1) (next_char x) = Inr (n, lx')"
        using 1(3) c by (auto simp: string_loop.simps [of _ _ _ _ nc lx] rbind_Inr)
      then show ?thesis using 1(1) [OF c True x] next_char_le [of x] lex_add_left(2) [OF x(1)] by linarith
    next
      case False
      then obtain x where x: "string_char al raw lx = Inr x" "string_loop al raw q nq 0 (next_char x) = Inr (n, lx')"
        using 1(3) c by (auto simp: string_loop.simps [of _ _ _ _ nc lx] rbind_Inr)
      then show ?thesis using 1(2) [OF c False x] string_char_left [OF x(1)] c by (simp add: is_end_def)
    qed
  qed (use 1(3) in \<open>auto simp: string_loop.simps [of _ _ _ _ nc lx]\<close>)
qed

lemma parse_string_literal_left:
  assumes "parse_string_literal al raw lx = Inr lx'" and "chr0 lx \<noteq> MP_LEXER_EOF"
  shows "lex_left lx' < lex_left lx"
proof -
  have "lex_left (next_char (next_char (next_char lx))) \<le> lex_left (next_char lx)"
    using next_char_le [of "next_char lx"] next_char_le [of "next_char (next_char lx)"] by linarith
  then have "lex_left lx' \<le> lex_left (next_char lx)"
    using assms(1)
    by (auto simp: parse_string_literal_def Let_def rbind_Inr dest!: string_loop_left split: if_splits prod.splits)
  then show ?thesis using next_char_less [OF assms(2)] by simp
qed

subsection \<open>White space\<close>

function skip_comment :: "mp_lexer_t \<Rightarrow> mp_lexer_t" where
  "skip_comment lx = (if \<not> is_end lx \<and> \<not> is_physical_newline lx then skip_comment (next_char lx) else lx)"
  by pat_completeness auto
termination by (relation "measure lex_left") (auto simp: is_end_def next_char_less)

declare skip_comment.simps [simp del]

lemma skip_comment_left: "lex_left (skip_comment lx) \<le> lex_left lx"
proof (induction lx rule: skip_comment.induct)
  case (1 lx)
  then show ?case using next_char_le [of lx] by (subst skip_comment.simps) (auto intro: order_trans)
qed

function skip_whitespace_from :: "bool \<Rightarrow> bool \<Rightarrow> mp_lexer_t \<Rightarrow> bool \<times> mp_lexer_t" where
  "skip_whitespace_from stop_at_newline had_physical_newline lx =
    (if \<not> is_end lx then
       if is_physical_newline lx then
         if stop_at_newline \<and> nested_bracket_level lx = 0 then (had_physical_newline, lx)
         else skip_whitespace_from stop_at_newline True (next_char lx)
       else if is_whitespace lx then skip_whitespace_from stop_at_newline had_physical_newline (next_char lx)
       else if is_char lx 35 then
         skip_whitespace_from stop_at_newline had_physical_newline (skip_comment (next_char lx))
       else if is_char_and lx 92 10 then
         skip_whitespace_from stop_at_newline had_physical_newline (next_char (next_char lx))
       else (had_physical_newline, lx)
     else (had_physical_newline, lx))"
  by pat_completeness auto
termination
proof (relation "measure (\<lambda>(s, h, lx). lex_left lx)", goal_cases)
  case (4 s h lx)
  then show ?case using next_char_less [of lx] skip_comment_left [of "next_char lx"] by (auto simp: is_end_def)
next
  case (5 s h lx)
  then show ?case using next_char_less [of lx] next_char_le [of "next_char lx"] by (auto simp: is_end_def)
qed (auto simp: is_end_def next_char_less)

declare skip_whitespace_from.simps [simp del]

definition skip_whitespace :: "bool \<Rightarrow> mp_lexer_t \<Rightarrow> bool \<times> mp_lexer_t" where
  "skip_whitespace stop_at_newline lx = skip_whitespace_from stop_at_newline False lx"

lemma skip_whitespace_from_left: "skip_whitespace_from s h lx = (r, lx') \<Longrightarrow> lex_left lx' \<le> lex_left lx"
proof (induction s h lx arbitrary: r lx' rule: skip_whitespace_from.induct)
  case (1 s h lx)
  have n: "lex_left (next_char lx) \<le> lex_left lx" "lex_left (next_char (next_char lx)) \<le> lex_left lx"
    "lex_left (skip_comment (next_char lx)) \<le> lex_left lx"
    using next_char_le [of lx] next_char_le [of "next_char lx"] skip_comment_left [of "next_char lx"] by linarith+
  show ?case using 1(5) unfolding skip_whitespace_from.simps [of s h lx]
    by (auto split: if_split_asm dest: 1(1-4) intro: order_trans [OF _ n(1)] order_trans [OF _ n(2)] order_trans [OF _ n(3)])
qed

subsection \<open>New lines\<close>

text \<open>
  The loop over the levels that end. The level at the bottom is 0, so the loop stops there; the test of
  the number of levels is for states that do not have it.
\<close>

function dedent_loop :: "nat \<Rightarrow> mp_lexer_t \<Rightarrow> mp_lexer_t" where
  "dedent_loop num_spaces lx =
    (if num_spaces < indent_top lx \<and> num_indent_level lx \<noteq> 0
     then dedent_loop num_spaces ((indent_pop lx)\<lparr>emit_dent := emit_dent lx - 1\<rparr>)
     else lx)"
  by pat_completeness auto
termination by (relation "measure (\<lambda>(n, lx). num_indent_level lx)") (auto simp: indent_pop_def)

declare dedent_loop.simps [simp del]

definition lex_newline :: "allocator \<Rightarrow> mp_lexer_t \<Rightarrow> mp_lexer_t result" where
  "lex_newline al lx =
    (let lx = lx\<lparr>tok_kind := MP_TOKEN_NEWLINE\<rparr>; num_spaces = sub32 (lx_column lx) 1 in
     if num_spaces = indent_top lx then Inr lx
     else if num_spaces > indent_top lx then
       rbind (indent_push al num_spaces lx) (\<lambda>lx. Inr (lx\<lparr>emit_dent := emit_dent lx + 1\<rparr>))
     else let lx = dedent_loop num_spaces lx in
       if num_spaces \<noteq> indent_top lx then Inr (lx\<lparr>tok_kind := MP_TOKEN_DEDENT_MISMATCH\<rparr>) else Inr lx)"

subsection \<open>String tokens\<close>

text \<open>The prefix of a literal: raw or not, the kind, and how many characters it has.\<close>

definition string_prefix :: "mp_lexer_t \<Rightarrow> bool \<times> mp_token_kind_t \<times> nat" where
  "string_prefix lx =
    (if is_char lx 117 then (False, MP_TOKEN_STRING, 1)
     else if is_char lx 98 then
       if is_char_following lx 114 then (True, MP_TOKEN_BYTES, 2) else (False, MP_TOKEN_BYTES, 1)
     else if is_char lx 114 then
       if is_char_following lx 98 then (True, MP_TOKEN_BYTES, 2) else (True, MP_TOKEN_STRING, 1)
     else (False, MP_TOKEN_STRING, 0))"

lemma string_or_bytes_not_end: "is_string_or_bytes lx \<Longrightarrow> \<not> is_end lx"
  by (auto simp: is_string_or_bytes_def is_end_def is_char_or_def is_char_or3_def is_char_and_def MP_LEXER_EOF_def
      MP_READER_EOF_def)

text \<open>The body of the loop from the opening quote on.\<close>

definition string_token :: "allocator \<Rightarrow> bool \<Rightarrow> nat \<Rightarrow> mp_lexer_t \<Rightarrow> mp_lexer_t result" where
  "string_token al is_raw n_char lx =
    (let lx = (if n_char \<noteq> 0 then (let lx = next_char lx in if n_char = 2 then next_char lx else lx) else lx)
     in rbind (parse_string_literal al is_raw lx) (\<lambda>lx. Inr (snd (skip_whitespace True lx))))"

lemma parse_string_literal_le: "parse_string_literal al raw lx = Inr lx' \<Longrightarrow> lex_left lx' \<le> lex_left (next_char lx)"
  using next_char_le [of "next_char lx"] next_char_le [of "next_char (next_char lx)"]
  by (auto simp: parse_string_literal_def Let_def rbind_Inr dest!: string_loop_left split: if_splits prod.splits)

lemma string_token_left:
  assumes "string_token al raw n lx = Inr lx'" and "\<not> is_end lx"
  shows "lex_left lx' < lex_left lx"
proof -
  define l where "l = (if n \<noteq> 0 then (let lx = next_char lx in if n = 2 then next_char lx else lx) else lx)"
  obtain k where k: "parse_string_literal al raw l = Inr k" "lx' = snd (skip_whitespace True k)"
    using assms(1) by (auto simp: string_token_def l_def rbind_Inr Let_def)
  have "lex_left lx' \<le> lex_left (next_char l)"
    using parse_string_literal_le [OF k(1)] skip_whitespace_from_left [of True False k] k(2)
    by (cases "skip_whitespace_from True False k") (auto simp: skip_whitespace_def)
  moreover have "lex_left (next_char l) \<le> lex_left (next_char lx)"
    using next_char_le [of "next_char lx"] next_char_le [of "next_char (next_char lx)"] by (auto simp: l_def Let_def)
  ultimately show ?thesis using next_char_less [of lx] assms(2) by (simp add: is_end_def)
qed

text \<open>The loop that joins adjacent literals, entered with a literal ahead (so not at the end of the source).\<close>

function string_tokens :: "allocator \<Rightarrow> mp_lexer_t \<Rightarrow> mp_lexer_t result" where
  "string_tokens al lx =
    (case string_prefix lx of (is_raw, kind, n_char) \<Rightarrow>
       if tok_kind lx \<noteq> MP_TOKEN_END \<and> tok_kind lx \<noteq> kind then Inr lx
       else rbind (string_token al is_raw n_char (lx\<lparr>tok_kind := kind\<rparr>))
         (\<lambda>lx'. if is_string_or_bytes lx' \<and> \<not> is_end lx then string_tokens al lx' else Inr lx'))"
  by pat_completeness auto
termination
  by (relation "measure (\<lambda>(al, lx). lex_left lx)") (auto simp: is_end_def dest!: string_token_left)

declare string_tokens.simps [simp del]

subsection \<open>Names\<close>

definition tok_kw :: "byte list list" where
  "tok_kw = [
    lit ''False'', lit ''None'', lit ''True'', lit ''__debug__'', lit ''and'', lit ''as'', lit ''assert'',
    lit ''break'', lit ''class'', lit ''continue'', lit ''def'', lit ''del'', lit ''elif'', lit ''else'',
    lit ''except'', lit ''finally'', lit ''for'', lit ''from'', lit ''global'', lit ''if'', lit ''import'',
    lit ''in'', lit ''ipusyscall'', lit ''is'', lit ''lambda'', lit ''longyield'', lit ''nonlocal'',
    lit ''not'', lit ''or'', lit ''pass'', lit ''raise'', lit ''return'', lit ''try'', lit ''while'',
    lit ''with'', lit ''yield'']"

text \<open>The keywords in the order of the enumeration, for \<^verbatim>\<open>MP_TOKEN_KW_FALSE + i\<close>.\<close>

definition kw_order :: "token_kw list" where
  "kw_order = [
    KW_FALSE, KW_NONE, KW_TRUE, KW_DEBUG, KW_AND, KW_AS, KW_ASSERT, KW_BREAK, KW_CLASS, KW_CONTINUE,
    KW_DEF, KW_DEL, KW_ELIF, KW_ELSE, KW_EXCEPT, KW_FINALLY, KW_FOR, KW_FROM, KW_GLOBAL, KW_IF, KW_IMPORT,
    KW_IN, KW_IPUSYSCALL, KW_IS, KW_LAMBDA, KW_LONGYIELD, KW_NONLOCAL, KW_NOT, KW_OR, KW_PASS, KW_RAISE,
    KW_RETURN, KW_TRY, KW_WHILE, KW_WITH, KW_YIELD]"

text \<open>The sign of \<^verbatim>\<open>strcmp\<close> on strings without their terminators.\<close>

fun strcmp :: "byte list \<Rightarrow> byte list \<Rightarrow> int" where
  "strcmp [] [] = 0"
| "strcmp [] (b # t) = -1"
| "strcmp (a # s) [] = 1"
| "strcmp (a # s) (b # t) = (if a = b then strcmp s t else if a < b then -1 else 1)"

fun kw_search :: "byte list \<Rightarrow> byte list list \<Rightarrow> nat \<Rightarrow> nat option" where
  "kw_search s [] i = None"
| "kw_search s (k # ks) i =
    (if strcmp s k = 0 then Some i else if strcmp s k < 0 then None else kw_search s ks (i + 1))"

definition keyword_kind :: "nat \<Rightarrow> byte list \<Rightarrow> mp_token_kind_t \<Rightarrow> mp_token_kind_t" where
  "keyword_kind optimise s kind =
    (case kw_search s tok_kw 0 of
       None \<Rightarrow> kind
     | Some i \<Rightarrow>
         if kw_order ! i = KW_DEBUG then MP_TOKEN_KW (if optimise = 0 then KW_TRUE else KW_FALSE)
         else MP_TOKEN_KW (kw_order ! i))"

function name_tail :: "allocator \<Rightarrow> mp_lexer_t \<Rightarrow> mp_lexer_t result" where
  "name_tail al lx =
    (if \<not> is_end lx \<and> is_tail_of_identifier lx
     then rbind (lex_add_byte al (chr0 lx) lx) (\<lambda>lx. name_tail al (next_char lx))
     else Inr lx)"
  by pat_completeness auto
termination
  by (relation "measure (\<lambda>(al, lx). lex_left lx)")
    (auto simp: is_end_def, metis lex_add_left(1) next_char_less)

declare name_tail.simps [simp del]

text \<open>\<open>optimise\<close> is \<^verbatim>\<open>mp_optimise_value\<close>, which decides the value of \<^verbatim>\<open>__debug__\<close>.\<close>

definition lex_name :: "allocator \<Rightarrow> nat \<Rightarrow> mp_lexer_t \<Rightarrow> mp_lexer_t result" where
  "lex_name al optimise lx =
    rbind (lex_add_byte al (chr0 lx) (lx\<lparr>tok_kind := MP_TOKEN_NAME\<rparr>)) (\<lambda>lx.
    rbind (name_tail al (next_char lx)) (\<lambda>lx.
    rbind (vstr_null_terminated_str (m_renew al) (lx_vstr lx)) (\<lambda>v.
      Inr (lx\<lparr>lx_vstr := v, tok_kind := keyword_kind optimise (c_str (vs_buf v)) (tok_kind lx)\<rparr>))))"

subsection \<open>Numbers\<close>

text \<open>The letters e 101 and E 69, j 106 and J 74; the signs 43 and 45; the underscore 95.\<close>

definition number_exponent :: "allocator \<Rightarrow> mp_lexer_t \<Rightarrow> mp_lexer_t result" where
  "number_exponent al lx =
    rbind (lex_add_char al 101 (lx\<lparr>tok_kind := MP_TOKEN_FLOAT_OR_IMAG\<rparr>)) (\<lambda>lx.
      let lx = next_char lx in
      if is_char lx 43 \<or> is_char lx 45 then rbind (lex_add_char al (chr0 lx) lx) (\<lambda>lx. Inr (next_char lx)) else Inr lx)"

lemma number_exponent_left:
  assumes "number_exponent al lx = Inr lx'" and "\<not> is_end lx"
  shows "lex_left lx' < lex_left lx"
proof -
  obtain a where a: "lex_add_char al 101 (lx\<lparr>tok_kind := MP_TOKEN_FLOAT_OR_IMAG\<rparr>) = Inr a"
    "(if is_char (next_char a) 43 \<or> is_char (next_char a) 45
      then rbind (lex_add_char al (chr0 (next_char a)) (next_char a)) (\<lambda>lx. Inr (next_char lx)) else Inr (next_char a)) = Inr lx'"
    using assms(1) by (auto simp: number_exponent_def rbind_Inr Let_def)
  have "lex_left (next_char a) < lex_left lx"
    using lex_add_left(2) [OF a(1)] assms(2) next_char_less [of a] by (simp add: is_end_def)
  moreover have "lex_left lx' \<le> lex_left (next_char a)"
    using a(2) by (auto simp: rbind_Inr split: if_splits dest!: lex_add_left(2)) (metis next_char_le)+
  ultimately show ?thesis by simp
qed

function number_loop :: "allocator \<Rightarrow> bool \<Rightarrow> mp_lexer_t \<Rightarrow> mp_lexer_t result" where
  "number_loop al forced_integer lx =
    (if is_end lx then Inr lx
     else if \<not> forced_integer \<and> is_char_or lx 101 69 then
       rbind (number_exponent al lx) (\<lambda>lx. number_loop al forced_integer lx)
     else if is_letter lx \<or> is_digit lx \<or> is_char lx 46 then
       rbind (lex_add_char al (chr0 lx) (if is_char_or3 lx 46 106 74 then lx\<lparr>tok_kind := MP_TOKEN_FLOAT_OR_IMAG\<rparr> else lx))
         (\<lambda>lx. number_loop al forced_integer (next_char lx))
     else if is_char lx 95 then number_loop al forced_integer (next_char lx)
     else Inr lx)"
  by pat_completeness auto
termination
proof (relation "measure (\<lambda>(al, f, lx). lex_left lx)", goal_cases)
  case (3 al f lx x)
  then show ?case using lex_add_left(2) [OF 3(4)] next_char_less [of x] by (auto simp: is_end_def split: if_splits)
qed (auto simp: is_end_def number_exponent_left next_char_less)

declare number_loop.simps [simp del]

definition lex_number :: "allocator \<Rightarrow> mp_lexer_t \<Rightarrow> mp_lexer_t result" where
  "lex_number al lx =
    (let forced_integer = (\<not> is_char lx 46 \<and> is_char lx 48 \<and> is_following_base_char lx);
         lx = lx\<lparr>tok_kind := (if is_char lx 46 then MP_TOKEN_FLOAT_OR_IMAG else MP_TOKEN_INTEGER)\<rparr>
     in rbind (lex_add_char al (chr0 lx) lx) (\<lambda>lx. number_loop al forced_integer (next_char lx)))"

subsection \<open>Operators and delimiters\<close>

text \<open>
  The encoded table: a character starts a group of tokens, \<open>e\<close> and \<open>c\<close> mark a character that ends
  or continues one. The kinds are in the order of the marked and unmarked characters.
\<close>

definition tok_enc :: "byte list" where
  "tok_enc = lit (''()[]{},;~'' @ '':e='' @ ''<e=c<e='' @ ''>e=c>e='' @ ''*e=c*e='' @ ''+e='' @ ''-e=e>'' @ ''&e='' @
    ''|e='' @ ''/e=c/e='' @ ''%e='' @ ''^e='' @ ''@e='' @ ''=e='' @ ''!.'')"

definition tok_enc_kind :: "mp_token_kind_t list" where
  "tok_enc_kind = [
    MP_TOKEN_DEL DEL_PAREN_OPEN, MP_TOKEN_DEL DEL_PAREN_CLOSE, MP_TOKEN_DEL DEL_BRACKET_OPEN,
    MP_TOKEN_DEL DEL_BRACKET_CLOSE, MP_TOKEN_DEL DEL_BRACE_OPEN, MP_TOKEN_DEL DEL_BRACE_CLOSE,
    MP_TOKEN_DEL DEL_COMMA, MP_TOKEN_DEL DEL_SEMICOLON, MP_TOKEN_OP OP_TILDE, MP_TOKEN_DEL DEL_COLON,
    MP_TOKEN_OP OP_ASSIGN, MP_TOKEN_OP OP_LESS, MP_TOKEN_OP OP_LESS_EQUAL, MP_TOKEN_OP OP_DBL_LESS,
    MP_TOKEN_DEL DEL_DBL_LESS_EQUAL, MP_TOKEN_OP OP_MORE, MP_TOKEN_OP OP_MORE_EQUAL,
    MP_TOKEN_OP OP_DBL_MORE, MP_TOKEN_DEL DEL_DBL_MORE_EQUAL, MP_TOKEN_OP OP_STAR,
    MP_TOKEN_DEL DEL_STAR_EQUAL, MP_TOKEN_OP OP_DBL_STAR, MP_TOKEN_DEL DEL_DBL_STAR_EQUAL,
    MP_TOKEN_OP OP_PLUS, MP_TOKEN_DEL DEL_PLUS_EQUAL, MP_TOKEN_OP OP_MINUS, MP_TOKEN_DEL DEL_MINUS_EQUAL,
    MP_TOKEN_DEL DEL_MINUS_MORE, MP_TOKEN_OP OP_AMPERSAND, MP_TOKEN_DEL DEL_AMPERSAND_EQUAL,
    MP_TOKEN_OP OP_PIPE, MP_TOKEN_DEL DEL_PIPE_EQUAL, MP_TOKEN_OP OP_SLASH, MP_TOKEN_DEL DEL_SLASH_EQUAL,
    MP_TOKEN_OP OP_DBL_SLASH, MP_TOKEN_DEL DEL_DBL_SLASH_EQUAL, MP_TOKEN_OP OP_PERCENT,
    MP_TOKEN_DEL DEL_PERCENT_EQUAL, MP_TOKEN_OP OP_CARET, MP_TOKEN_DEL DEL_CARET_EQUAL, MP_TOKEN_OP OP_AT,
    MP_TOKEN_DEL DEL_AT_EQUAL, MP_TOKEN_DEL DEL_EQUAL, MP_TOKEN_OP OP_DBL_EQUAL]"

text \<open>The search for the first character (\<open>e\<close> is 101 and \<open>c\<close> is 99): the rest of the table from the
  match on, and the index of the kind.\<close>

fun enc_search :: "nat \<Rightarrow> byte list \<Rightarrow> nat \<Rightarrow> byte list \<times> nat" where
  "enc_search c [] tok_enc_index = ([], tok_enc_index)"
| "enc_search c (b # t) tok_enc_index =
    (if c = unat b then (b # t, tok_enc_index)
     else if b = 101 \<or> b = 99 then (case t of [] \<Rightarrow> ([], tok_enc_index + 1) | _ # t' \<Rightarrow> enc_search c t' (tok_enc_index + 1))
     else enc_search c t (tok_enc_index + 1))"

text \<open>The longest token of the group: the index of its kind and the lexer behind it.\<close>

fun enc_extend :: "byte list \<Rightarrow> nat \<Rightarrow> nat \<Rightarrow> mp_lexer_t \<Rightarrow> nat \<times> mp_lexer_t" where
  "enc_extend (m # b # t) t_index tok_enc_index lx =
    (if m = 99 \<or> m = 101 then
       if is_char lx (unat b) then
         if m = 101 then (t_index + 1, next_char lx) else enc_extend t (t_index + 1) (t_index + 1) (next_char lx)
       else if m = 99 then (tok_enc_index, lx)
       else enc_extend t (t_index + 1) tok_enc_index lx
     else (tok_enc_index, lx))"
| "enc_extend t t_index tok_enc_index lx = (tok_enc_index, lx)"

definition bracket_level :: "mp_lexer_t \<Rightarrow> mp_lexer_t" where
  "bracket_level lx =
    (if tok_kind lx \<in> {MP_TOKEN_DEL DEL_PAREN_OPEN, MP_TOKEN_DEL DEL_BRACKET_OPEN, MP_TOKEN_DEL DEL_BRACE_OPEN}
     then lx\<lparr>nested_bracket_level := nested_bracket_level lx + 1\<rparr>
     else if tok_kind lx \<in> {MP_TOKEN_DEL DEL_PAREN_CLOSE, MP_TOKEN_DEL DEL_BRACKET_CLOSE, MP_TOKEN_DEL DEL_BRACE_CLOSE}
     then lx\<lparr>nested_bracket_level := nested_bracket_level lx - 1\<rparr>
     else lx)"

definition lex_operator :: "mp_lexer_t \<Rightarrow> mp_lexer_t" where
  "lex_operator lx =
    (let (t, tok_enc_index) = enc_search (chr0 lx) tok_enc 0; lx = next_char lx in
     case t of
       [] \<Rightarrow> lx\<lparr>tok_kind := MP_TOKEN_INVALID\<rparr>
     | b # t' \<Rightarrow>
         if b = 33 then
           if is_char lx 61 then (next_char lx)\<lparr>tok_kind := MP_TOKEN_OP OP_NOT_EQUAL\<rparr>
           else lx\<lparr>tok_kind := MP_TOKEN_INVALID\<rparr>
         else if b = 46 then
           if is_char_and lx 46 46 then (next_char (next_char lx))\<lparr>tok_kind := MP_TOKEN_ELLIPSIS\<rparr>
           else lx\<lparr>tok_kind := MP_TOKEN_DEL DEL_PERIOD\<rparr>
         else let (i, lx) = enc_extend t' tok_enc_index tok_enc_index lx
           in bracket_level (lx\<lparr>tok_kind := tok_enc_kind ! i\<rparr>))"

subsection \<open>The next token\<close>

definition mp_lexer_to_next :: "allocator \<Rightarrow> nat \<Rightarrow> mp_lexer_t \<Rightarrow> mp_lexer_t result" where
  "mp_lexer_to_next al optimise lx =
    (let lx = lx\<lparr>lx_vstr := vstr_reset (lx_vstr lx)\<rparr>;
         (had_physical_newline, lx) = skip_whitespace False lx;
         lx = lx\<lparr>tok_line := lx_line lx, tok_column := lx_column lx\<rparr>
     in if emit_dent lx < 0 then Inr (lx\<lparr>tok_kind := MP_TOKEN_DEDENT, emit_dent := emit_dent lx + 1\<rparr>)
        else if emit_dent lx > 0 then Inr (lx\<lparr>tok_kind := MP_TOKEN_INDENT, emit_dent := emit_dent lx - 1\<rparr>)
        else if had_physical_newline \<and> nested_bracket_level lx = 0 then lex_newline al lx
        else if is_end lx then Inr (lx\<lparr>tok_kind := MP_TOKEN_END\<rparr>)
        else if is_string_or_bytes lx then string_tokens al (lx\<lparr>tok_kind := MP_TOKEN_END\<rparr>)
        else if is_head_of_identifier lx then lex_name al optimise lx
        else if is_digit lx \<or> is_char lx 46 \<and> is_following_digit lx then lex_number al lx
        else Inr (lex_operator lx))"

text \<open>
  The construction of a lexer: the structure (84 bytes), ten 16-bit levels and a string of 32 bytes are
  allocated. The column starts at -2 for the three dummy characters; the token fields are set by the
  first call of \<^verbatim>\<open>mp_lexer_to_next\<close>.
\<close>

definition lexer_start :: "mp_reader_mem_t \<Rightarrow> nat list \<Rightarrow> vstr \<Rightarrow> mp_lexer_t" where
  "lexer_start reader levels v =
    next_char (next_char (next_char
      \<lparr>lx_reader = reader, chr0 = 0, chr1 = 0, chr2 = 0, lx_line = 1, lx_column = sub32 0 2, emit_dent = 0,
       nested_bracket_level = 0, alloc_indent_level = 10, num_indent_level = 1, indent_level = levels[0 := 0],
       tok_line = 0, tok_column = 0, tok_kind = MP_TOKEN_END, lx_vstr = v\<rparr>))"

definition mp_lexer_new :: "allocator \<Rightarrow> nat \<Rightarrow> mp_reader_mem_t \<Rightarrow> mp_lexer_t result" where
  "mp_lexer_new al optimise reader =
    (case al 84 of None \<Rightarrow> Inl MemoryError | Some _ \<Rightarrow>
     (case al 20 of None \<Rightarrow> Inl MemoryError | Some f \<Rightarrow>
      rbind (vstr_init (m_renew al) 32) (\<lambda>v.
      rbind (mp_lexer_to_next al optimise (lexer_start reader (indent_entries f 0 10) v)) (\<lambda>lx.
        Inr (if tok_column lx \<noteq> 1 then lx\<lparr>tok_kind := MP_TOKEN_INDENT\<rparr> else lx)))))"

definition mp_lexer_new_from_str_len :: "allocator \<Rightarrow> nat \<Rightarrow> byte list \<Rightarrow> mp_lexer_t result" where
  "mp_lexer_new_from_str_len al optimise str = rbind (mp_reader_new_mem al str) (mp_lexer_new al optimise)"

end
