(* ===== verification/Lexer_Stream.thy ===== *)
theory Lexer_Stream
  imports Lexer
begin

text \<open>
  What the tokeniser sees of its source: the characters with the line ends normalised and the last line
  ended. The three characters of lookahead and the reader are abstracted to the list of the characters
  still to come, on which \<^verbatim>\<open>next_char\<close> is the tail.
\<close>

subsection \<open>The source as characters\<close>

text \<open>Carriage returns, alone or before a line feed, become line feeds, and a line feed is added when
  the source does not end with one.\<close>

fun unix_newlines :: "nat list \<Rightarrow> nat list" where
  "unix_newlines [] = []"
| "unix_newlines (c # cs) =
    (if c = 13 then 10 # unix_newlines (if cs \<noteq> [] \<and> hd cs = 10 then tl cs else cs) else c # unix_newlines cs)"

definition source_chars :: "byte list \<Rightarrow> nat list" where
  "source_chars src =
    (let cs = unix_newlines (map unat src) in if cs \<noteq> [] \<and> last cs = 10 then cs else cs @ [10])"

text \<open>The same in one pass, where \<open>p\<close> is the character before.\<close>

fun finish :: "nat \<Rightarrow> nat list \<Rightarrow> nat list" where
  "finish p [] = (if p = 10 then [] else [10])"
| "finish p (c # cs) =
    (if c = 13 then 10 # finish 10 (if cs \<noteq> [] \<and> hd cs = 10 then tl cs else cs) else c # finish c cs)"

lemma finish_unix: "finish p cs = unix_newlines cs @ (if last (p # unix_newlines cs) = 10 then [] else [10])"
  by (induction p cs rule: finish.induct) auto

lemma source_chars_finish: "source_chars src = finish 0 (map unat src)"
  unfolding source_chars_def Let_def finish_unix by auto

subsection \<open>The characters to come\<close>

definition reader_rest :: "mp_lexer_t \<Rightarrow> nat list" where
  "reader_rest lx = map unat (drop (rm_cur (lx_reader lx)) (rm_buf (lx_reader lx)))"

definition stream :: "mp_lexer_t \<Rightarrow> nat list" where
  "stream lx =
    (if chr0 lx = MP_LEXER_EOF then []
     else chr0 lx # (if chr1 lx = MP_LEXER_EOF then []
       else chr1 lx # (if chr2 lx = MP_LEXER_EOF then [] else finish (chr1 lx) (chr2 lx # reader_rest lx))))"

text \<open>The lookahead is normalised up to \<^verbatim>\<open>chr1\<close>, and the end of the source only follows a line
  feed.\<close>

definition chars_ok :: "mp_lexer_t \<Rightarrow> bool" where
  "chars_ok lx \<longleftrightarrow>
    (chr0 lx < 256 \<or> chr0 lx = MP_LEXER_EOF) \<and> (chr1 lx < 256 \<or> chr1 lx = MP_LEXER_EOF) \<and>
    (chr2 lx < 256 \<or> chr2 lx = MP_LEXER_EOF) \<and> chr0 lx \<noteq> 13 \<and> chr1 lx \<noteq> 13 \<and>
    (chr0 lx = MP_LEXER_EOF \<longrightarrow> chr1 lx = MP_LEXER_EOF) \<and>
    (chr1 lx = MP_LEXER_EOF \<longrightarrow> chr2 lx = MP_LEXER_EOF \<and> (chr0 lx = 10 \<or> chr0 lx = MP_LEXER_EOF)) \<and>
    (chr2 lx = MP_LEXER_EOF \<longrightarrow> reader_rest lx = [] \<and> (chr1 lx = 10 \<or> chr1 lx = MP_LEXER_EOF))"

lemma eof_not [simp]: "MP_LEXER_EOF \<noteq> 10" "MP_LEXER_EOF \<noteq> 13" "\<not> MP_LEXER_EOF < 256" "10 \<noteq> MP_LEXER_EOF"
  "13 \<noteq> MP_LEXER_EOF"
  by (simp_all add: MP_LEXER_EOF_def MP_READER_EOF_def)

lemma byte_not_eof [simp]: "unat (b :: byte) \<noteq> MP_LEXER_EOF" "unat (b :: byte) < 256"
  using unsigned_less [of b, where 'a = nat] by (simp_all add: MP_LEXER_EOF_def MP_READER_EOF_def)

lemma read_chr2_end: "reader_rest lx = [] \<Longrightarrow> read_chr2 lx = lx\<lparr>chr2 := MP_LEXER_EOF\<rparr>"
  by (auto simp: reader_rest_def read_chr2_def mp_reader_mem_readbyte_def MP_LEXER_EOF_def)

lemma read_chr2_byte:
  assumes "reader_rest lx = c # r"
  shows "chr2 (read_chr2 lx) = c \<and> reader_rest (read_chr2 lx) = r \<and> c < 256"
proof -
  have "rm_cur (lx_reader lx) < length (rm_buf (lx_reader lx))" using assms by (auto simp: reader_rest_def intro: ccontr)
  then show ?thesis using assms
    by (auto simp: reader_rest_def read_chr2_def mp_reader_mem_readbyte_def Cons_nth_drop_Suc [symmetric])
qed

lemma reader_rest_other [simp]:
  "reader_rest (lx\<lparr>chr0 := a\<rparr>) = reader_rest lx" "reader_rest (lx\<lparr>chr1 := a\<rparr>) = reader_rest lx"
  "reader_rest (lx\<lparr>chr2 := a\<rparr>) = reader_rest lx" "reader_rest (advance_position lx) = reader_rest lx"
  by (simp_all add: reader_rest_def)

text \<open>The lookahead after one step, as a function of the lookahead before.\<close>

lemma next_char_chars:
  assumes "chars_ok lx"
  shows "chr0 (next_char lx) = chr1 lx" and "chr1 (next_char lx) = (if chr2 lx = 13 then 10 else chr2 lx)"
    and "chr2 (next_char lx) # reader_rest (next_char lx) =
      (let r = (if chr2 lx = 13 \<and> reader_rest lx \<noteq> [] \<and> hd (reader_rest lx) = 10 then tl (reader_rest lx) else reader_rest lx)
       in if r \<noteq> [] then r else if chr2 lx \<in> {10, 13, MP_LEXER_EOF} then [MP_LEXER_EOF] else [10])"
proof -
  define a where "a = (advance_position lx)\<lparr>chr0 := chr1 lx, chr1 := chr2 lx\<rparr>"
  have ra: "reader_rest a = reader_rest lx" "chr1 a = chr2 lx" by (simp_all add: a_def)
  have n: "next_char lx = (let lx = read_chr2 a;
      lx = (if chr1 lx = 13 then (let lx = lx\<lparr>chr1 := 10\<rparr> in if chr2 lx = 10 then read_chr2 lx else lx) else lx)
     in if chr2 lx = MP_LEXER_EOF \<and> chr1 lx \<noteq> MP_LEXER_EOF \<and> chr1 lx \<noteq> 10 then lx\<lparr>chr2 := 10\<rparr> else lx)"
    by (simp add: next_char_def a_def Let_def)
  show "chr0 (next_char lx) = chr1 lx" by simp
  show "chr1 (next_char lx) = (if chr2 lx = 13 then 10 else chr2 lx)"
    by (simp add: n Let_def ra)
  show "chr2 (next_char lx) # reader_rest (next_char lx) =
      (let r = (if chr2 lx = 13 \<and> reader_rest lx \<noteq> [] \<and> hd (reader_rest lx) = 10 then tl (reader_rest lx) else reader_rest lx)
       in if r \<noteq> [] then r else if chr2 lx \<in> {10, 13, MP_LEXER_EOF} then [MP_LEXER_EOF] else [10])"
  proof (cases "reader_rest lx")
    case Nil
    then show ?thesis using read_chr2_end [of a] by (simp add: n Let_def ra)
  next
    case (Cons c r)
    note b = read_chr2_byte [of a c r]
    have c: "c \<noteq> MP_LEXER_EOF" using b Cons ra(1) by auto
    show ?thesis
    proof (cases "chr2 lx = 13 \<and> c = 10")
      case True
      then have step: "next_char lx = read_chr2 ((read_chr2 a)\<lparr>chr1 := 10\<rparr>)"
        using b Cons ra by (simp add: n Let_def)
      show ?thesis
      proof (cases r)
        case Nil
        then show ?thesis using True Cons b ra read_chr2_end [of "(read_chr2 a)\<lparr>chr1 := 10\<rparr>"] by (simp add: step)
      next
        case (Cons d r')
        then show ?thesis using True b ra \<open>reader_rest lx = c # r\<close> read_chr2_byte [of "(read_chr2 a)\<lparr>chr1 := 10\<rparr>" d r']
          by (simp add: step)
      qed
    next
      case False
      then show ?thesis using b c Cons ra by (auto simp: n Let_def)
    qed
  qed
qed

lemma reader_rest_bytes: "c \<in> set (reader_rest lx) \<Longrightarrow> c < 256"
  by (auto simp: reader_rest_def)

lemma next_char_stream:
  assumes ok: "chars_ok lx"
  shows "chars_ok (next_char lx) \<and> stream (next_char lx) = tl (stream lx)"
proof -
  note n = next_char_chars [OF ok]
  define r where "r = (if chr2 lx = 13 \<and> reader_rest lx \<noteq> [] \<and> hd (reader_rest lx) = 10 then tl (reader_rest lx) else reader_rest lx)"
  have n3: "chr2 (next_char lx) # reader_rest (next_char lx) =
      (if r \<noteq> [] then r else if chr2 lx \<in> {10, 13, MP_LEXER_EOF} then [MP_LEXER_EOF] else [10])"
    using n(3) unfolding r_def Let_def .
  have b: "c < 256" if "c \<in> set r" for c
    using that reader_rest_bytes [of c lx] by (auto simp: r_def split: if_splits dest: list.set_sel(2))
  show ?thesis
  proof (cases r)
    case Nil
    have e: "chr2 lx = MP_LEXER_EOF \<longrightarrow> reader_rest lx = []" using ok by (simp add: chars_ok_def)
    have fin: "finish (chr1 lx) (chr2 lx # reader_rest lx) = (if chr2 lx = 13 then [10] else chr2 lx # finish (chr2 lx) [])"
      if "chr2 lx \<noteq> MP_LEXER_EOF" using Nil by (auto simp: r_def split: if_splits)
    show ?thesis using ok n(1,2) n3 Nil fin e unfolding chars_ok_def stream_def by (auto split: if_splits)
  next
    case (Cons d r')
    have e: "chr2 lx \<noteq> MP_LEXER_EOF" "chr1 lx \<noteq> MP_LEXER_EOF" "chr0 lx \<noteq> MP_LEXER_EOF"
      using ok Cons by (auto simp: chars_ok_def r_def split: if_splits)
    have d: "chr2 (next_char lx) = d" "reader_rest (next_char lx) = r'" "d < 256" using n3 Cons b [of d] by auto
    have fin: "finish (chr1 lx) (chr2 lx # reader_rest lx) =
        (if chr2 lx = 13 then 10 else chr2 lx) # finish (if chr2 lx = 13 then 10 else chr2 lx) (d # r')"
      using Cons by (auto simp: r_def split: if_splits)
    have "d \<noteq> MP_LEXER_EOF" using d(3) by auto
    then show ?thesis using ok n(1,2) d e fin unfolding chars_ok_def stream_def by auto
  qed
qed

lemmas chars_ok_next [simp] = next_char_stream [THEN conjunct1]
lemmas stream_next [simp] = next_char_stream [THEN conjunct2]

lemma chars_ok_start: "chars_ok (lexer_start \<lparr>rm_buf = src, rm_cur = 0\<rparr> levels v)"
  and stream_start: "stream (lexer_start \<lparr>rm_buf = src, rm_cur = 0\<rparr> levels v) = source_chars src"
proof -
  define l0 where "l0 = \<lparr>lx_reader = \<lparr>rm_buf = src, rm_cur = 0\<rparr>, chr0 = 0, chr1 = 0, chr2 = 0, lx_line = 1,
    lx_column = sub32 0 2, emit_dent = 0, nested_bracket_level = 0, alloc_indent_level = 10, num_indent_level = 1,
    indent_level = levels[0 := 0], tok_line = 0, tok_column = 0, tok_kind = MP_TOKEN_END, lx_vstr = v\<rparr>"
  have s: "lexer_start \<lparr>rm_buf = src, rm_cur = 0\<rparr> levels v = next_char (next_char (next_char l0))"
    by (simp add: lexer_start_def l0_def)
  have z: "(0::nat) \<noteq> MP_LEXER_EOF" by (simp add: MP_LEXER_EOF_def MP_READER_EOF_def)
  then have ok: "chars_ok l0" by (simp add: chars_ok_def l0_def)
  have "stream l0 = 0 # 0 # 0 # finish 0 (map unat src)" using z by (simp add: stream_def l0_def reader_rest_def)
  then show "stream (lexer_start \<lparr>rm_buf = src, rm_cur = 0\<rparr> levels v) = source_chars src"
    using ok by (simp add: s source_chars_finish)
  show "chars_ok (lexer_start \<lparr>rm_buf = src, rm_cur = 0\<rparr> levels v)" using ok by (simp add: s)
qed

lemma chr0_stream: "chars_ok lx \<Longrightarrow> chr0 lx = (case stream lx of [] \<Rightarrow> MP_LEXER_EOF | c # _ \<Rightarrow> c)"
  by (simp add: stream_def)

subsection \<open>Positions\<close>

text \<open>The width of the current line after the characters \<open>cs\<close>, with tab stops at multiples of 8.\<close>

definition line_width :: "nat list \<Rightarrow> nat" where
  "line_width cs = fold (\<lambda>c w. if c = 10 then 0 else if c = 9 then (w div 8 + 1) * 8 else w + 1) cs 0"

lemma line_width_snoc: "line_width (cs @ [c]) =
    (if c = 10 then 0 else if c = 9 then (line_width cs div 8 + 1) * 8 else line_width cs + 1)"
  by (simp add: line_width_def)

lemma line_width_le: "line_width cs \<le> 8 * length cs"
  by (induction cs rule: rev_induct) (auto simp: line_width_snoc line_width_def [of "[]"])

lemma read_chr2_position [simp]: "lx_line (read_chr2 lx) = lx_line lx" "lx_column (read_chr2 lx) = lx_column lx"
  by (simp_all add: read_chr2_def split: prod.splits)

lemma next_char_position:
  "lx_line (next_char lx) = (if chr0 lx = 10 then wrap32 (lx_line lx + 1) else lx_line lx)"
  "lx_column (next_char lx) = (if chr0 lx = 10 then 1
     else if chr0 lx = 9 then wrap32 (wrap32 (sub32 (lx_column lx) 1 + 8) div 8 * 8 + 1)
     else wrap32 (lx_column lx + 1))"
  by (simp_all add: next_char_def Let_def) (simp_all add: advance_position_def TAB_SIZE_def)

lemma start_position:
  "lx_line (lexer_start reader levels v) = 1" "lx_column (lexer_start reader levels v) = 1"
proof -
  have "chr0 (next_char (next_char l)) = 0" if "chr1 l = 0" "chr2 l = 0" for l
    using that by (simp add: next_char_def Let_def)
  then show "lx_line (lexer_start reader levels v) = 1" "lx_column (lexer_start reader levels v) = 1"
    by (simp_all add: lexer_start_def next_char_position sub32_def wrap32_def)
qed

lemma next_char_walk:
  assumes "chars_ok lx" and "i \<le> length (stream lx)"
  shows "chars_ok ((next_char ^^ i) lx) \<and> stream ((next_char ^^ i) lx) = drop i (stream lx)"
  using assms(2) by (induction i) (use assms(1) in \<open>auto simp: drop_Suc tl_drop\<close>)

lemma unix_newlines_length: "length (unix_newlines cs) \<le> length cs"
proof (induction cs rule: unix_newlines.induct)
  case (2 c cs)
  then show ?case by (cases cs) (auto split: if_splits)
qed simp

lemma source_chars_length: "length (source_chars src) \<le> length src + 1"
  using unix_newlines_length [of "map unat src"] by (auto simp: source_chars_def Let_def)

text \<open>
  C34. The characters the tokeniser works on are those of the source with its line ends normalised: after
  \<open>i\<close> calls of \<^verbatim>\<open>next_char\<close> on a new lexer the current character is the \<open>i\<close>th one of the source
  (where CR and CR LF became LF and the last line was ended), the end of the source comes exactly behind
  the last of them, and line and column are those of the character, with tab stops every 8 columns.
\<close>

theorem next_char_refines:
  assumes "length src < 2 ^ 28" and "i \<le> length (source_chars src)"
  shows "let lx = (next_char ^^ i) (lexer_start \<lparr>rm_buf = src, rm_cur = 0\<rparr> levels v) in
    chr0 lx = (if i < length (source_chars src) then source_chars src ! i else MP_LEXER_EOF) \<and>
    lx_line lx = 1 + count_list (take i (source_chars src)) 10 \<and>
    lx_column lx = 1 + line_width (take i (source_chars src))"
  using assms(2) unfolding Let_def
proof (induction i)
  case 0
  then show ?case using chr0_stream [OF chars_ok_start, of src levels v]
    by (cases "source_chars src") (auto simp: stream_start start_position line_width_def source_chars_def Let_def split: if_splits)
next
  case (Suc i)
  let ?s = "source_chars src" and ?l = "(next_char ^^ i) (lexer_start \<lparr>rm_buf = src, rm_cur = 0\<rparr> levels v)"
  have i: "i < length ?s" using Suc.prems by simp
  have small: "length ?s < 2 ^ 28 + 1" using source_chars_length [of src] assms(1) by simp
  have w: "line_width (take i ?s) \<le> 8 * i" using line_width_le [of "take i ?s"] i by simp
  have c: "count_list (take i ?s) 10 \<le> i" using count_le_length [of "take i ?s" 10] i by simp
  have ok: "chars_ok ?l" "stream ?l = drop i ?s"
    using next_char_walk [OF chars_ok_start, of i src levels v] i by (auto simp: stream_start)
  have n: "chr0 (next_char ?l) = (if Suc i < length ?s then ?s ! Suc i else MP_LEXER_EOF)"
    using chr0_stream [of "next_char ?l"] ok by (cases "Suc i < length ?s")
      (simp_all add: tl_drop drop_Suc [symmetric] Cons_nth_drop_Suc [symmetric])
  have t: "take (Suc i) ?s = take i ?s @ [?s ! i]" by (simp add: take_Suc_conv_app_nth i)
  have e: "chr0 ?l = ?s ! i" "lx_line ?l = 1 + count_list (take i ?s) 10" "lx_column ?l = 1 + line_width (take i ?s)"
    using Suc i by auto
  have tab: "wrap32 (wrap32 (sub32 (1 + line_width (take i ?s)) 1 + 8) div 8 * 8 + 1) = 1 + (line_width (take i ?s) div 8 + 1) * 8"
    using w i small div_add_self2 [of 8 "line_width (take i ?s)"] by (simp add: sub32_le)
  show ?case
    using n e tab w c i small by (simp add: next_char_position t line_width_snoc count_list_append)
qed

theorem next_char_refines_witness:
  "let lx = (next_char ^^ 3) (lexer_start \<lparr>rm_buf = [97, 13, 10, 9, 98], rm_cur = 0\<rparr> [0] (vstr_init_fixed_buf 0 [])) in
    chr0 lx = 98 \<and> lx_line lx = 2 \<and> lx_column lx = 9"
  using next_char_refines [of "[97, 13, 10, 9, 98]" 3 "[0]" "vstr_init_fixed_buf 0 []"]
  by (simp add: source_chars_def line_width_def Let_def del: funpow.simps)

end
