(* ===== verification/Lexer_Tables.thy ===== *)
theory Lexer_Tables
  imports Lexer_Stream
begin

text \<open>
  The tables of the tokeniser against plain lists of Python's operators and keywords: the encoded search
  finds the longest operator, and the search through the sorted keywords finds exactly the keywords.
\<close>

subsection \<open>Operators\<close>

definition op_table :: "(byte list \<times> mp_token_kind_t) list" where
  "op_table = [
    (lit ''('', MP_TOKEN_DEL DEL_PAREN_OPEN), (lit '')'', MP_TOKEN_DEL DEL_PAREN_CLOSE),
    (lit ''['', MP_TOKEN_DEL DEL_BRACKET_OPEN), (lit '']'', MP_TOKEN_DEL DEL_BRACKET_CLOSE),
    (lit ''{'', MP_TOKEN_DEL DEL_BRACE_OPEN), (lit ''}'', MP_TOKEN_DEL DEL_BRACE_CLOSE),
    (lit '','', MP_TOKEN_DEL DEL_COMMA), (lit '';'', MP_TOKEN_DEL DEL_SEMICOLON),
    (lit ''~'', MP_TOKEN_OP OP_TILDE), (lit '':'', MP_TOKEN_DEL DEL_COLON),
    (lit '':='', MP_TOKEN_OP OP_ASSIGN), (lit ''<'', MP_TOKEN_OP OP_LESS),
    (lit ''<='', MP_TOKEN_OP OP_LESS_EQUAL), (lit ''<<'', MP_TOKEN_OP OP_DBL_LESS),
    (lit ''<<='', MP_TOKEN_DEL DEL_DBL_LESS_EQUAL), (lit ''>'', MP_TOKEN_OP OP_MORE),
    (lit ''>='', MP_TOKEN_OP OP_MORE_EQUAL), (lit ''>>'', MP_TOKEN_OP OP_DBL_MORE),
    (lit ''>>='', MP_TOKEN_DEL DEL_DBL_MORE_EQUAL), (lit ''*'', MP_TOKEN_OP OP_STAR),
    (lit ''*='', MP_TOKEN_DEL DEL_STAR_EQUAL), (lit ''**'', MP_TOKEN_OP OP_DBL_STAR),
    (lit ''**='', MP_TOKEN_DEL DEL_DBL_STAR_EQUAL), (lit ''+'', MP_TOKEN_OP OP_PLUS),
    (lit ''+='', MP_TOKEN_DEL DEL_PLUS_EQUAL), (lit ''-'', MP_TOKEN_OP OP_MINUS),
    (lit ''-='', MP_TOKEN_DEL DEL_MINUS_EQUAL), (lit ''->'', MP_TOKEN_DEL DEL_MINUS_MORE),
    (lit ''&'', MP_TOKEN_OP OP_AMPERSAND), (lit ''&='', MP_TOKEN_DEL DEL_AMPERSAND_EQUAL),
    (lit ''|'', MP_TOKEN_OP OP_PIPE), (lit ''|='', MP_TOKEN_DEL DEL_PIPE_EQUAL),
    (lit ''/'', MP_TOKEN_OP OP_SLASH), (lit ''/='', MP_TOKEN_DEL DEL_SLASH_EQUAL),
    (lit ''//'', MP_TOKEN_OP OP_DBL_SLASH), (lit ''//='', MP_TOKEN_DEL DEL_DBL_SLASH_EQUAL),
    (lit ''%'', MP_TOKEN_OP OP_PERCENT), (lit ''%='', MP_TOKEN_DEL DEL_PERCENT_EQUAL),
    (lit ''^'', MP_TOKEN_OP OP_CARET), (lit ''^='', MP_TOKEN_DEL DEL_CARET_EQUAL),
    (lit ''@'', MP_TOKEN_OP OP_AT), (lit ''@='', MP_TOKEN_DEL DEL_AT_EQUAL),
    (lit ''='', MP_TOKEN_DEL DEL_EQUAL), (lit ''=='', MP_TOKEN_OP OP_DBL_EQUAL),
    (lit ''!='', MP_TOKEN_OP OP_NOT_EQUAL), (lit ''.'', MP_TOKEN_DEL DEL_PERIOD),
    (lit ''...'', MP_TOKEN_ELLIPSIS)]"

lemma chr1_next: "chr1 (next_char lx) = (if chr2 lx = 13 then 10 else chr2 lx)"
  by (simp add: next_char_def Let_def)

definition op_matches :: "mp_lexer_t \<Rightarrow> (byte list \<times> mp_token_kind_t) list" where
  "op_matches lx = filter (\<lambda>(s, k). map unat s = take (length s) [chr0 lx, chr1 lx, chr2 lx]) op_table"

text \<open>The lexer behind an operator of length \<open>n\<close>.\<close>

definition op_token :: "nat \<Rightarrow> mp_token_kind_t \<Rightarrow> mp_lexer_t \<Rightarrow> mp_lexer_t" where
  "op_token n k lx = bracket_level (((next_char ^^ n) lx)\<lparr>tok_kind := k\<rparr>)"

lemma op_table_bytes:
  "op_table = [
    ([40], MP_TOKEN_DEL DEL_PAREN_OPEN), ([41], MP_TOKEN_DEL DEL_PAREN_CLOSE),
    ([91], MP_TOKEN_DEL DEL_BRACKET_OPEN), ([93], MP_TOKEN_DEL DEL_BRACKET_CLOSE),
    ([123], MP_TOKEN_DEL DEL_BRACE_OPEN), ([125], MP_TOKEN_DEL DEL_BRACE_CLOSE),
    ([44], MP_TOKEN_DEL DEL_COMMA), ([59], MP_TOKEN_DEL DEL_SEMICOLON), ([126], MP_TOKEN_OP OP_TILDE),
    ([58], MP_TOKEN_DEL DEL_COLON), ([58, 61], MP_TOKEN_OP OP_ASSIGN), ([60], MP_TOKEN_OP OP_LESS),
    ([60, 61], MP_TOKEN_OP OP_LESS_EQUAL), ([60, 60], MP_TOKEN_OP OP_DBL_LESS),
    ([60, 60, 61], MP_TOKEN_DEL DEL_DBL_LESS_EQUAL), ([62], MP_TOKEN_OP OP_MORE),
    ([62, 61], MP_TOKEN_OP OP_MORE_EQUAL), ([62, 62], MP_TOKEN_OP OP_DBL_MORE),
    ([62, 62, 61], MP_TOKEN_DEL DEL_DBL_MORE_EQUAL), ([42], MP_TOKEN_OP OP_STAR),
    ([42, 61], MP_TOKEN_DEL DEL_STAR_EQUAL), ([42, 42], MP_TOKEN_OP OP_DBL_STAR),
    ([42, 42, 61], MP_TOKEN_DEL DEL_DBL_STAR_EQUAL), ([43], MP_TOKEN_OP OP_PLUS),
    ([43, 61], MP_TOKEN_DEL DEL_PLUS_EQUAL), ([45], MP_TOKEN_OP OP_MINUS),
    ([45, 61], MP_TOKEN_DEL DEL_MINUS_EQUAL), ([45, 62], MP_TOKEN_DEL DEL_MINUS_MORE),
    ([38], MP_TOKEN_OP OP_AMPERSAND), ([38, 61], MP_TOKEN_DEL DEL_AMPERSAND_EQUAL),
    ([124], MP_TOKEN_OP OP_PIPE), ([124, 61], MP_TOKEN_DEL DEL_PIPE_EQUAL), ([47], MP_TOKEN_OP OP_SLASH),
    ([47, 61], MP_TOKEN_DEL DEL_SLASH_EQUAL), ([47, 47], MP_TOKEN_OP OP_DBL_SLASH),
    ([47, 47, 61], MP_TOKEN_DEL DEL_DBL_SLASH_EQUAL), ([37], MP_TOKEN_OP OP_PERCENT),
    ([37, 61], MP_TOKEN_DEL DEL_PERCENT_EQUAL), ([94], MP_TOKEN_OP OP_CARET),
    ([94, 61], MP_TOKEN_DEL DEL_CARET_EQUAL), ([64], MP_TOKEN_OP OP_AT), ([64, 61], MP_TOKEN_DEL DEL_AT_EQUAL),
    ([61], MP_TOKEN_DEL DEL_EQUAL), ([61, 61], MP_TOKEN_OP OP_DBL_EQUAL), ([33, 61], MP_TOKEN_OP OP_NOT_EQUAL),
    ([46], MP_TOKEN_DEL DEL_PERIOD), ([46, 46, 46], MP_TOKEN_ELLIPSIS)]"
  by (simp add: op_table_def lit_def)

lemma tok_enc_bytes:
  "tok_enc = [
    40, 41, 91, 93, 123, 125, 44, 59, 126, 58, 101, 61, 60, 101, 61, 99, 60, 101, 61, 62, 101, 61, 99, 62, 101,
    61, 42, 101, 61, 99, 42, 101, 61, 43, 101, 61, 45, 101, 61, 101, 62, 38, 101, 61, 124, 101, 61, 47, 101,
    61, 99, 47, 101, 61, 37, 101, 61, 94, 101, 61, 64, 101, 61, 61, 101, 61, 33, 46]"
  by (simp add: tok_enc_def lit_def)

text \<open>Where the search ends for each first character.\<close>

lemma enc_search_first:
  "enc_search 40 tok_enc 0 = (40 # 41 # drop 2 tok_enc, 0)"
  "enc_search 41 tok_enc 0 = (41 # 91 # drop 3 tok_enc, 1)"
  "enc_search 91 tok_enc 0 = (91 # 93 # drop 4 tok_enc, 2)"
  "enc_search 93 tok_enc 0 = (93 # 123 # drop 5 tok_enc, 3)"
  "enc_search 123 tok_enc 0 = (123 # 125 # drop 6 tok_enc, 4)"
  "enc_search 125 tok_enc 0 = (125 # 44 # drop 7 tok_enc, 5)"
  "enc_search 44 tok_enc 0 = (44 # 59 # drop 8 tok_enc, 6)"
  "enc_search 59 tok_enc 0 = (59 # 126 # drop 9 tok_enc, 7)"
  "enc_search 126 tok_enc 0 = (126 # 58 # drop 10 tok_enc, 8)"
  "enc_search 58 tok_enc 0 = (58 # 101 # 61 # 60 # drop 13 tok_enc, 9)"
  "enc_search 60 tok_enc 0 = (60 # 101 # 61 # 99 # 60 # 101 # 61 # 62 # drop 20 tok_enc, 11)"
  "enc_search 62 tok_enc 0 = (62 # 101 # 61 # 99 # 62 # 101 # 61 # 42 # drop 27 tok_enc, 15)"
  "enc_search 42 tok_enc 0 = (42 # 101 # 61 # 99 # 42 # 101 # 61 # 43 # drop 34 tok_enc, 19)"
  "enc_search 43 tok_enc 0 = (43 # 101 # 61 # 45 # drop 37 tok_enc, 23)"
  "enc_search 45 tok_enc 0 = (45 # 101 # 61 # 101 # 62 # 38 # drop 42 tok_enc, 25)"
  "enc_search 38 tok_enc 0 = (38 # 101 # 61 # 124 # drop 45 tok_enc, 28)"
  "enc_search 124 tok_enc 0 = (124 # 101 # 61 # 47 # drop 48 tok_enc, 30)"
  "enc_search 47 tok_enc 0 = (47 # 101 # 61 # 99 # 47 # 101 # 61 # 37 # drop 55 tok_enc, 32)"
  "enc_search 37 tok_enc 0 = (37 # 101 # 61 # 94 # drop 58 tok_enc, 36)"
  "enc_search 94 tok_enc 0 = (94 # 101 # 61 # 64 # drop 61 tok_enc, 38)"
  "enc_search 64 tok_enc 0 = (64 # 101 # 61 # 61 # drop 64 tok_enc, 40)"
  "enc_search 61 tok_enc 0 = (61 # 101 # 61 # 33 # drop 67 tok_enc, 42)"
  "enc_search 33 tok_enc 0 = (33 # 46 # drop 68 tok_enc, 44)"
  "enc_search 46 tok_enc 0 = (46 # drop 68 tok_enc, 45)"
  by (simp_all add: tok_enc_bytes)

lemma op_token_simps:
  "op_token (Suc 0) k lx = bracket_level ((next_char lx)\<lparr>tok_kind := k\<rparr>)"
  "op_token 2 k lx = bracket_level ((next_char (next_char lx))\<lparr>tok_kind := k\<rparr>)"
  "op_token 3 k lx = bracket_level ((next_char (next_char (next_char lx)))\<lparr>tok_kind := k\<rparr>)"
  by (simp_all add: op_token_def numeral_2_eq_2 numeral_3_eq_3)

lemma enc_none:
  assumes "chr0 lx \<notin> set (map (unat \<circ> hd \<circ> fst) op_table)" and "\<not> is_letter lx"
  shows "lex_operator lx = (next_char lx)\<lparr>tok_kind := MP_TOKEN_INVALID\<rparr> \<and> op_matches lx = []"
proof -
  have "chr0 lx \<noteq> 101" "chr0 lx \<noteq> 99" using assms(2) by (auto simp: is_letter_def unichar_isalpha_iff)
  then show ?thesis using assms(1) by (simp add: tok_enc_bytes op_table_bytes op_matches_def lex_operator_def)
qed

lemma op_matches_first:
  "op_matches lx = filter (\<lambda>(s, k). map unat s = take (length s) [chr0 lx, chr1 lx, chr2 lx])
    (filter (\<lambda>(s, k). unat (hd s) = chr0 lx) op_table)"
proof -
  have "unat (hd s) = chr0 lx" if "map unat s = take (length s) [chr0 lx, chr1 lx, chr2 lx]" "(s, k) \<in> set op_table" for s k
    using that by (cases s) (auto simp: op_table_bytes)
  then show ?thesis unfolding op_matches_def filter_filter by (intro filter_cong) auto
qed

text \<open>The longest operator is taken: for each shape of a group in the table.\<close>

definition longest_taken :: "mp_lexer_t \<Rightarrow> bool" where
  "longest_taken lx \<longleftrightarrow>
    (\<exists>s k. (s, k) \<in> set (op_matches lx) \<and> length s = Max (set (map (length \<circ> fst) (op_matches lx))) \<and>
      lex_operator lx = op_token (length s) k lx)"

lemma longest_takenI:
  "op_matches lx = ms \<Longrightarrow> (s, k) \<in> set ms \<Longrightarrow> length s = n \<Longrightarrow> n = Max (set (map (length \<circ> fst) ms)) \<Longrightarrow>
    lex_operator lx = op_token n k lx \<Longrightarrow> longest_taken lx"
  unfolding longest_taken_def by (intro exI [of _ s] exI [of _ k]) simp

lemma group_single:
  assumes "chr0 lx = c" and "enc_search c tok_enc 0 = (b # x # r, i)" and "x \<notin> {99, 101}" and "b \<notin> {33, 46}"
    and "filter (\<lambda>(s, k). unat (hd s) = c) op_table = [([b], tok_enc_kind ! i)]" and "unat b = c"
  shows "longest_taken lx"
proof -
  have "enc_extend (x # r) i i (next_char lx) = (i, next_char lx)" using assms(3) by (cases r) auto
  then have "lex_operator lx = op_token 1 (tok_enc_kind ! i) lx"
    using assms(1,2,4) by (simp add: lex_operator_def op_token_simps)
  moreover have "op_matches lx = [([b], tok_enc_kind ! i)]" unfolding op_matches_first assms(1,5) using assms(1,6) by simp
  ultimately show ?thesis by (simp add: longest_takenI [where n = 1])
qed

lemma group_assign:
  assumes "chr0 lx = c" and "enc_search c tok_enc 0 = (b # 101 # 61 # x # r, i)" and "x \<notin> {99, 101}" and "b \<notin> {33, 46}"
    and "filter (\<lambda>(s, k). unat (hd s) = c) op_table = [([b], tok_enc_kind ! i), ([b, 61], tok_enc_kind ! (i + 1))]"
    and "unat b = c"
  shows "longest_taken lx"
proof -
  have "enc_extend (101 # 61 # x # r) i i (next_char lx) =
      (if chr1 lx = 61 then (i + 1, next_char (next_char lx)) else (i, next_char lx))"
    using assms(3) by (cases r) (auto simp: is_char_def)
  then have "lex_operator lx = (if chr1 lx = 61 then op_token 2 (tok_enc_kind ! (i + 1)) lx else op_token 1 (tok_enc_kind ! i) lx)"
    using assms(1,2,4) by (simp add: lex_operator_def op_token_simps)
  moreover have "op_matches lx = ([b], tok_enc_kind ! i) # (if chr1 lx = 61 then [([b, 61], tok_enc_kind ! (i + 1))] else [])"
    unfolding op_matches_first assms(1,5) using assms(1,6) by auto
  ultimately show ?thesis
    by (cases "chr1 lx = 61") (auto intro: longest_takenI [where s = "[b, 61]" and n = 2] longest_takenI [where s = "[b]" and n = 1])
qed

lemma group_double:
  assumes "chr0 lx = c" and "enc_search c tok_enc 0 = (b # 101 # 61 # 99 # b # 101 # 61 # x # r, i)" and "x \<notin> {99, 101}"
    and "b \<notin> {33, 46, 61, 10, 13}"
    and "filter (\<lambda>(s, k). unat (hd s) = c) op_table = [([b], tok_enc_kind ! i), ([b, 61], tok_enc_kind ! (i + 1)),
      ([b, b], tok_enc_kind ! (i + 2)), ([b, b, 61], tok_enc_kind ! (i + 3))]"
    and "unat b = c"
  shows "longest_taken lx"
proof -
  have b61: "unat b \<noteq> 61" "unat b \<noteq> 13" "unat b \<noteq> 10" using assms(4) by (auto simp: word_unat_eq_iff)
  have "enc_extend (101 # 61 # 99 # b # 101 # 61 # x # r) i i (next_char lx) =
      (if chr1 lx = 61 then (i + 1, next_char (next_char lx))
       else if chr1 lx = unat b then
         if chr2 lx = 61 then (i + 3, next_char (next_char (next_char lx))) else (i + 2, next_char (next_char lx))
       else (i, next_char lx))"
    using assms(3) by (cases r) (auto simp: is_char_def chr1_next)
  then have o: "lex_operator lx = (if chr1 lx = 61 then op_token 2 (tok_enc_kind ! (i + 1)) lx
       else if chr1 lx = unat b then
         if chr2 lx = 61 then op_token 3 (tok_enc_kind ! (i + 3)) lx else op_token 2 (tok_enc_kind ! (i + 2)) lx
       else op_token 1 (tok_enc_kind ! i) lx)"
    using assms(1,2,4) by (simp add: lex_operator_def op_token_simps)
  have m: "op_matches lx = ([b], tok_enc_kind ! i) # (if chr1 lx = 61 then [([b, 61], tok_enc_kind ! (i + 1))]
      else if chr1 lx = unat b then ([b, b], tok_enc_kind ! (i + 2)) #
        (if chr2 lx = 61 then [([b, b, 61], tok_enc_kind ! (i + 3))] else []) else [])"
    unfolding op_matches_first assms(1,5) using assms(1,6) b61 by auto
  consider "chr1 lx = 61" | "chr1 lx = unat b" "chr2 lx = 61" | "chr1 lx = unat b" "chr2 lx \<noteq> 61"
    | "chr1 lx \<noteq> 61" "chr1 lx \<noteq> unat b" by blast
  then show ?thesis
    by cases (use m o b61 in \<open>auto intro: longest_takenI [where s = "[b, 61]" and n = 2] longest_takenI [where s = "[b, b]" and n = 2]
      longest_takenI [where s = "[b, b, 61]" and n = 3] longest_takenI [where s = "[b]" and n = 1]\<close>)
qed

lemma op_singles: "chr0 lx \<in> set [40, 41, 91, 93, 123, 125, 44, 59, 126] \<Longrightarrow> longest_taken lx"
  unfolding list.set insert_iff empty_iff
  by (elim disjE FalseE; erule group_single, rule enc_search_first) (simp_all add: op_table_bytes tok_enc_kind_def)

lemma op_assigns: "chr0 lx \<in> set [58, 43, 38, 124, 37, 94, 64, 61] \<Longrightarrow> longest_taken lx"
  unfolding list.set insert_iff empty_iff
  by (elim disjE FalseE; erule group_assign, rule enc_search_first) (simp_all add: op_table_bytes tok_enc_kind_def)

lemma op_doubles: "chr0 lx \<in> set [60, 62, 42, 47] \<Longrightarrow> longest_taken lx"
  unfolding list.set insert_iff empty_iff
  by (elim disjE FalseE; erule group_double, rule enc_search_first) (simp_all add: op_table_bytes tok_enc_kind_def)

lemma op_minus: "chr0 lx = 45 \<Longrightarrow> longest_taken lx"
proof -
  assume c: "chr0 lx = 45"
  have f: "filter (\<lambda>(s, k). unat (hd s) = 45) op_table = [([45], MP_TOKEN_OP OP_MINUS), ([45, 61], MP_TOKEN_DEL DEL_MINUS_EQUAL),
    ([45, 62], MP_TOKEN_DEL DEL_MINUS_MORE)]" by (simp add: op_table_bytes)
  have e: "enc_extend (101 # 61 # 101 # 62 # 38 # drop 42 tok_enc) 25 25 (next_char lx) =
      (if chr1 lx = 61 then (26, next_char (next_char lx)) else if chr1 lx = 62 then (27, next_char (next_char lx))
       else (25, next_char lx))"
    by (cases "drop 42 tok_enc") (auto simp: is_char_def)
  have "lex_operator lx = (if chr1 lx = 61 then op_token 2 (MP_TOKEN_DEL DEL_MINUS_EQUAL) lx
      else if chr1 lx = 62 then op_token 2 (MP_TOKEN_DEL DEL_MINUS_MORE) lx else op_token 1 (MP_TOKEN_OP OP_MINUS) lx)"
    using enc_search_first(15) e by (simp add: lex_operator_def c op_token_simps tok_enc_kind_def)
  moreover have "op_matches lx = ([45], MP_TOKEN_OP OP_MINUS) # (if chr1 lx = 61 then [([45, 61], MP_TOKEN_DEL DEL_MINUS_EQUAL)]
      else if chr1 lx = 62 then [([45, 62], MP_TOKEN_DEL DEL_MINUS_MORE)] else [])"
    unfolding op_matches_first c f by auto
  ultimately show ?thesis
    by (auto intro: longest_takenI [where s = "[45, 61]" and n = 2] longest_takenI [where s = "[45, 62]" and n = 2] longest_takenI [where s = "[45]" and n = 1]
        split: if_splits)
qed

lemma op_bang:
  assumes c: "chr0 lx = 33"
  shows "if op_matches lx = [] then lex_operator lx = (next_char lx)\<lparr>tok_kind := MP_TOKEN_INVALID\<rparr> else longest_taken lx"
proof -
  have f: "filter (\<lambda>(s, k). unat (hd s) = 33) op_table = [([33, 61], MP_TOKEN_OP OP_NOT_EQUAL)]" by (simp add: op_table_bytes)
  have m: "op_matches lx = (if chr1 lx = 61 then [([33, 61], MP_TOKEN_OP OP_NOT_EQUAL)] else [])"
    unfolding op_matches_first c f by auto
  have o: "lex_operator lx = (if chr1 lx = 61 then op_token 2 (MP_TOKEN_OP OP_NOT_EQUAL) lx
      else (next_char lx)\<lparr>tok_kind := MP_TOKEN_INVALID\<rparr>)"
    using enc_search_first(23) by (simp add: lex_operator_def c op_token_simps is_char_def bracket_level_def)
  show ?thesis
  proof (cases "chr1 lx = 61")
    case True
    then have "longest_taken lx" using m o by (intro longest_takenI [where s = "[33, 61]" and n = 2]) auto
    then show ?thesis using True m by simp
  next
    case False
    then show ?thesis using m o by simp
  qed
qed

lemma op_dot:
  assumes c: "chr0 lx = 46"
  shows "longest_taken lx"
proof -
  have f: "filter (\<lambda>(s, k). unat (hd s) = 46) op_table = [([46], MP_TOKEN_DEL DEL_PERIOD), ([46, 46, 46], MP_TOKEN_ELLIPSIS)]"
    by (simp add: op_table_bytes)
  have m: "op_matches lx = ([46], MP_TOKEN_DEL DEL_PERIOD) #
      (if chr1 lx = 46 \<and> chr2 lx = 46 then [([46, 46, 46], MP_TOKEN_ELLIPSIS)] else [])"
    unfolding op_matches_first c f by auto
  have o: "lex_operator lx = (if chr1 lx = 46 \<and> chr2 lx = 46 then op_token 3 MP_TOKEN_ELLIPSIS lx
      else op_token 1 (MP_TOKEN_DEL DEL_PERIOD) lx)"
    using enc_search_first(24) by (simp add: lex_operator_def c op_token_simps is_char_and_def chr1_next bracket_level_def Let_def)
  show ?thesis
  proof (cases "chr1 lx = 46 \<and> chr2 lx = 46")
    case True
    then show ?thesis using m o by (intro longest_takenI [where s = "[46, 46, 46]" and n = 3]) auto
  next
    case False
    then show ?thesis using m o by (intro longest_takenI [where s = "[46]" and n = 1]) auto
  qed
qed

lemma lex_operator_longest:
  assumes "\<not> is_letter lx"
  shows "if op_matches lx = [] then lex_operator lx = (next_char lx)\<lparr>tok_kind := MP_TOKEN_INVALID\<rparr> else longest_taken lx"
proof (cases "chr0 lx \<in> set (map (unat \<circ> hd \<circ> fst) op_table)")
  case False
  then show ?thesis using enc_none [OF False assms] by simp
next
  case True
  then have "chr0 lx \<in> set [40, 41, 91, 93, 123, 125, 44, 59, 126] \<or> chr0 lx \<in> set [58, 43, 38, 124, 37, 94, 64, 61] \<or>
      chr0 lx \<in> set [60, 62, 42, 47] \<or> chr0 lx = 45 \<or> chr0 lx = 33 \<or> chr0 lx = 46"
    by (simp add: op_table_bytes) blast
  then consider "longest_taken lx" | "chr0 lx = 33" using op_singles op_assigns op_doubles op_minus op_dot by blast
  then show ?thesis
  proof cases
    case 1
    then show ?thesis by (auto simp: longest_taken_def)
  qed (rule op_bang)
qed

subsection \<open>Keywords\<close>

definition kw_table :: "(byte list \<times> token_kw) list" where
  "kw_table = [
    (lit ''False'', KW_FALSE), (lit ''None'', KW_NONE), (lit ''True'', KW_TRUE), (lit ''__debug__'', KW_DEBUG),
    (lit ''and'', KW_AND), (lit ''as'', KW_AS), (lit ''assert'', KW_ASSERT), (lit ''break'', KW_BREAK),
    (lit ''class'', KW_CLASS), (lit ''continue'', KW_CONTINUE), (lit ''def'', KW_DEF), (lit ''del'', KW_DEL),
    (lit ''elif'', KW_ELIF), (lit ''else'', KW_ELSE), (lit ''except'', KW_EXCEPT),
    (lit ''finally'', KW_FINALLY), (lit ''for'', KW_FOR), (lit ''from'', KW_FROM), (lit ''global'', KW_GLOBAL),
    (lit ''if'', KW_IF), (lit ''import'', KW_IMPORT), (lit ''in'', KW_IN), (lit ''ipusyscall'', KW_IPUSYSCALL),
    (lit ''is'', KW_IS), (lit ''lambda'', KW_LAMBDA), (lit ''longyield'', KW_LONGYIELD),
    (lit ''nonlocal'', KW_NONLOCAL), (lit ''not'', KW_NOT), (lit ''or'', KW_OR), (lit ''pass'', KW_PASS),
    (lit ''raise'', KW_RAISE), (lit ''return'', KW_RETURN), (lit ''try'', KW_TRY), (lit ''while'', KW_WHILE),
    (lit ''with'', KW_WITH), (lit ''yield'', KW_YIELD)]"

lemma strcmp_trans: "strcmp a b < 0 \<Longrightarrow> strcmp b c < 0 \<Longrightarrow> strcmp a c < 0"
proof (induction a b arbitrary: c rule: strcmp.induct)
  case (2 b t)
  then show ?case by (cases c) auto
next
  case (4 a s b t)
  then show ?case by (cases c) (auto split: if_splits)
qed auto

lemma strcmp_eq: "strcmp a b = 0 \<longleftrightarrow> a = b"
  by (induction a b rule: strcmp.induct) auto

lemma kw_search_map:
  assumes "sorted_wrt (\<lambda>a b. strcmp a b < 0) ks" and "length os = length ks"
  shows "case kw_search s ks i of None \<Rightarrow> map_of (zip ks os) s = None
    | Some j \<Rightarrow> i \<le> j \<and> j - i < length ks \<and> map_of (zip ks os) s = Some (os ! (j - i))"
  using assms
proof (induction s ks i arbitrary: os rule: kw_search.induct)
  case (2 s k ks i)
  obtain o1 os' where os: "os = o1 # os'" using 2(3) by (cases os) auto
  show ?case
  proof (cases "strcmp s k = 0 \<or> strcmp s k < 0")
    case True
    have "s \<notin> fst ` set (zip ks os')" if "strcmp s k < 0"
    proof
      assume "s \<in> fst ` set (zip ks os')"
      then have "s \<in> set ks" by (auto dest: set_zip_leftD)
      then have "strcmp s s < 0" using strcmp_trans [OF that] 2(2) by simp
      then show False using strcmp_eq [of s s] by simp
    qed
    then show ?thesis using True os strcmp_eq [of s k] by (auto simp: map_of_eq_None_iff)
  next
    case False
    then have "s \<noteq> k" using strcmp_eq by auto
    then show ?thesis using 2(1) [of os'] False 2(2,3) os by (auto split: option.splits simp: Suc_diff_le nth_Cons' Suc_le_eq)
  qed
qed simp

lemma tok_kw_sorted: "sorted_wrt (\<lambda>a b. strcmp a b < 0) tok_kw"
  by (simp add: tok_kw_def lit_def)

lemma kw_table_zip: "zip tok_kw kw_order = kw_table"
  by (simp add: tok_kw_def kw_order_def kw_table_def)

lemma keyword_kind_table:
  "keyword_kind optimise s k = (case map_of kw_table s of None \<Rightarrow> k
    | Some w \<Rightarrow> MP_TOKEN_KW (if w = KW_DEBUG then if optimise = 0 then KW_TRUE else KW_FALSE else w))"
  using kw_search_map [OF tok_kw_sorted, of kw_order s 0]
  by (auto simp: keyword_kind_def kw_table_zip split: option.splits) (auto simp: tok_kw_def kw_order_def)

subsection \<open>Properties\<close>

text \<open>
  C35. The tables are exact. On a character that does not start a name, the operator search takes the
  longest of Python's 47 operators and delimiters that the next three characters match, with its kind and
  the bracket level it implies, and an invalid token of one character when none matches. A name is a
  keyword exactly when it is one of the 36 words of the table, \<^verbatim>\<open>__debug__\<close> being the constant
  that the optimisation level selects.
\<close>

theorem lexer_tables_exact:
  assumes "\<not> is_letter lx"
  shows "(if op_matches lx = [] then lex_operator lx = (next_char lx)\<lparr>tok_kind := MP_TOKEN_INVALID\<rparr>
      else \<exists>s k. (s, k) \<in> set (op_matches lx) \<and> length s = Max (set (map (length \<circ> fst) (op_matches lx))) \<and>
        lex_operator lx = bracket_level (((next_char ^^ length s) lx)\<lparr>tok_kind := k\<rparr>)) \<and>
    keyword_kind optimise name kind = (case map_of kw_table name of None \<Rightarrow> kind
      | Some w \<Rightarrow> MP_TOKEN_KW (if w = KW_DEBUG then if optimise = 0 then KW_TRUE else KW_FALSE else w))"
  using lex_operator_longest [OF assms] keyword_kind_table
  unfolding longest_taken_def op_token_def by (auto split: if_splits)

definition sample_lexer :: "byte list \<Rightarrow> mp_lexer_t" where
  "sample_lexer src = lexer_start \<lparr>rm_buf = src, rm_cur = 0\<rparr> [0] (vstr_init_fixed_buf 0 [])"

theorem lexer_tables_exact_witness:
  "(let lx = sample_lexer (lit ''<<=1'') in \<not> is_letter lx \<and>
      lex_operator lx = bracket_level (((next_char ^^ 3) lx)\<lparr>tok_kind := MP_TOKEN_DEL DEL_DBL_LESS_EQUAL\<rparr>)) \<and>
   keyword_kind 0 (lit ''lambda'') MP_TOKEN_NAME = MP_TOKEN_KW KW_LAMBDA"
proof -
  let ?lx = "sample_lexer (lit ''<<=1'')"
  have c: "chr0 ?lx = 60" "chr1 ?lx = 60" "chr2 ?lx = 61"
    by (simp_all add: sample_lexer_def lexer_start_def lit_def next_char_def Let_def read_chr2_def
        mp_reader_mem_readbyte_def advance_position_def MP_LEXER_EOF_def MP_READER_EOF_def)
  then have l: "\<not> is_letter ?lx" by (simp add: is_letter_def unichar_isalpha_iff)
  have m: "op_matches ?lx = [([60], MP_TOKEN_OP OP_LESS), ([60, 60], MP_TOKEN_OP OP_DBL_LESS),
      ([60, 60, 61], MP_TOKEN_DEL DEL_DBL_LESS_EQUAL)]"
    unfolding op_matches_first c by (simp add: op_table_bytes)
  show ?thesis using lexer_tables_exact [OF l, where optimise = 0 and name = "lit ''lambda''" and kind = MP_TOKEN_NAME] l
    unfolding m by (auto simp: kw_table_def lit_def Let_def numeral_3_eq_3)
qed

end
