(* ===== verification/Lexer_Text.thy ===== *)
theory Lexer_Text
  imports Lexer_Tables
begin

text \<open>
  The functions of the tokeniser that read the text of a token: each keeps the text well formed and the
  indentation untouched, and raises only for lack of memory and for the escapes it does not implement. The
  number of characters to come goes down with each token.
\<close>

subsection \<open>Functions that may raise\<close>

text \<open>A result is as expected, or the allocator refused, or the escape is not implemented.\<close>

definition lex_spec :: "allocator \<Rightarrow> ('a \<Rightarrow> bool) \<Rightarrow> 'a result \<Rightarrow> bool" where
  "lex_spec al P r \<longleftrightarrow>
    (case r of Inr x \<Rightarrow> P x | Inl e \<Rightarrow> e = NotImplementedError \<or> e = MemoryError \<and> (\<exists>n. al n = None))"

lemma lex_spec_Inr [simp]: "lex_spec al P (Inr x) = P x"
  by (simp add: lex_spec_def)

lemma lex_spec_NotImplemented [simp]: "lex_spec al P (Inl NotImplementedError)"
  by (simp add: lex_spec_def)

lemma lex_spec_bind: "lex_spec al P r \<Longrightarrow> (\<And>x. P x \<Longrightarrow> lex_spec al Q (f x)) \<Longrightarrow> lex_spec al Q (rbind r f)"
  by (cases r) (auto simp: lex_spec_def)

lemma lex_spec_bind_eq:
  "lex_spec al P r \<Longrightarrow> (\<And>x. r = Inr x \<Longrightarrow> P x \<Longrightarrow> lex_spec al Q (f x)) \<Longrightarrow> lex_spec al Q (rbind r f)"
  by (cases r) (auto simp: lex_spec_def)

lemma lex_spec_mono: "lex_spec al P r \<Longrightarrow> (\<And>x. P x \<Longrightarrow> Q x) \<Longrightarrow> lex_spec al Q r"
  by (cases r) (auto simp: lex_spec_def)

subsection \<open>The token text\<close>

text \<open>
  The text is well formed, and together with what the characters to come can add to it (each at most
  twice) it stays below the bound \<open>B\<close>.
\<close>

definition text_ok :: "nat \<Rightarrow> mp_lexer_t \<Rightarrow> bool" where
  "text_ok B lx \<longleftrightarrow> vstr_wf (lx_vstr lx) \<and> \<not> vs_fixed (lx_vstr lx) \<and> vs_len (lx_vstr lx) + 2 * lex_left lx \<le> B"

text \<open>What the functions for the text of a token leave alone, and the characters.\<close>

definition same_dent :: "mp_lexer_t \<Rightarrow> mp_lexer_t \<Rightarrow> bool" where
  "same_dent lx lx' \<longleftrightarrow> emit_dent lx' = emit_dent lx \<and> num_indent_level lx' = num_indent_level lx \<and>
    alloc_indent_level lx' = alloc_indent_level lx \<and> indent_level lx' = indent_level lx"

lemma same_dent_refl [simp]: "same_dent lx lx"
  by (simp add: same_dent_def)

lemma same_dent_trans [trans]: "same_dent a b \<Longrightarrow> same_dent b c \<Longrightarrow> same_dent a c"
  by (simp add: same_dent_def)

lemma same_dent_updates [simp]:
  "same_dent lx (lx'\<lparr>lx_vstr := v\<rparr>) = same_dent lx lx'" "same_dent lx (lx'\<lparr>tok_kind := k\<rparr>) = same_dent lx lx'"
  "same_dent lx (next_char lx') = same_dent lx lx'" "same_dent (lx\<lparr>tok_kind := k\<rparr>) lx' = same_dent lx lx'"
  "same_dent (lx\<lparr>lx_vstr := v\<rparr>) lx' = same_dent lx lx'" "same_dent (next_char lx) lx' = same_dent lx lx'"
  "same_dent (lx\<lparr>tok_line := l\<rparr>) lx' = same_dent lx lx'" "same_dent (lx\<lparr>tok_column := l\<rparr>) lx' = same_dent lx lx'"
  by (simp_all add: same_dent_def)

lemma read_chr2_updates:
  "read_chr2 (lx\<lparr>tok_kind := k\<rparr>) = (read_chr2 lx)\<lparr>tok_kind := k\<rparr>" "read_chr2 (lx\<lparr>lx_vstr := v\<rparr>) = (read_chr2 lx)\<lparr>lx_vstr := v\<rparr>"
  by (simp_all add: read_chr2_def split: prod.splits)

lemma advance_position_updates:
  "advance_position (lx\<lparr>tok_kind := k\<rparr>) = (advance_position lx)\<lparr>tok_kind := k\<rparr>"
  "advance_position (lx\<lparr>lx_vstr := v\<rparr>) = (advance_position lx)\<lparr>lx_vstr := v\<rparr>"
  by (simp_all add: advance_position_def)

lemma next_char_updates [simp]:
  "next_char (lx\<lparr>tok_kind := k\<rparr>) = (next_char lx)\<lparr>tok_kind := k\<rparr>" "next_char (lx\<lparr>lx_vstr := v\<rparr>) = (next_char lx)\<lparr>lx_vstr := v\<rparr>"
proof -
  define shift where "shift l = l\<lparr>chr0 := chr1 l, chr1 := chr2 l\<rparr>" for l :: mp_lexer_t
  define cr where "cr l = (if chr1 l = 13 then if chr2 l = 10 then read_chr2 (l\<lparr>chr1 := 10\<rparr>) else l\<lparr>chr1 := 10\<rparr> else l)" for l
  define eof where "eof l = (if chr2 l = MP_LEXER_EOF \<and> chr1 l \<noteq> MP_LEXER_EOF \<and> chr1 l \<noteq> 10 then l\<lparr>chr2 := 10\<rparr> else l)"
    for l :: mp_lexer_t
  have n: "next_char l = eof (cr (read_chr2 (shift (advance_position l))))" for l
    by (simp add: next_char_def Let_def shift_def cr_def eof_def)
  have u: "l\<lparr>tok_kind := k, chr1 := 10\<rparr> = l\<lparr>chr1 := 10, tok_kind := k\<rparr>" "l\<lparr>lx_vstr := v, chr1 := 10\<rparr> = l\<lparr>chr1 := 10, lx_vstr := v\<rparr>"
    for l :: mp_lexer_t by simp_all
  have s: "shift (l\<lparr>tok_kind := k\<rparr>) = (shift l)\<lparr>tok_kind := k\<rparr>" "shift (l\<lparr>lx_vstr := v\<rparr>) = (shift l)\<lparr>lx_vstr := v\<rparr>"
    "eof (l\<lparr>tok_kind := k\<rparr>) = (eof l)\<lparr>tok_kind := k\<rparr>" "eof (l\<lparr>lx_vstr := v\<rparr>) = (eof l)\<lparr>lx_vstr := v\<rparr>" for l
    by (simp_all add: shift_def eof_def)
  have "cr (l\<lparr>tok_kind := k\<rparr>) = (cr l)\<lparr>tok_kind := k\<rparr>" "cr (l\<lparr>lx_vstr := v\<rparr>) = (cr l)\<lparr>lx_vstr := v\<rparr>" for l
    by (simp_all only: cr_def mp_lexer_t.simps u read_chr2_updates split: if_split) simp_all
  then show "next_char (lx\<lparr>tok_kind := k\<rparr>) = (next_char lx)\<lparr>tok_kind := k\<rparr>"
    "next_char (lx\<lparr>lx_vstr := v\<rparr>) = (next_char lx)\<lparr>lx_vstr := v\<rparr>"
    by (simp_all add: n advance_position_updates read_chr2_updates s)
qed

lemma text_ok_updates [simp]:
  "text_ok B (lx\<lparr>tok_kind := k\<rparr>) = text_ok B lx" "text_ok B (lx\<lparr>tok_line := l\<rparr>) = text_ok B lx"
  "text_ok B (lx\<lparr>tok_column := l\<rparr>) = text_ok B lx"
  by (simp_all add: text_ok_def)

lemma text_ok_next: "text_ok B lx \<Longrightarrow> text_ok B (next_char lx)"
  using next_char_le [of lx] by (simp add: text_ok_def)

lemma text_ok_take:
  assumes "text_ok B lx" and "chr0 lx \<noteq> MP_LEXER_EOF"
  obtains B' where "B = B' + 2" "text_ok B' (next_char lx)"
proof -
  have "vs_len (lx_vstr lx) + 2 * lex_left (next_char lx) + 2 \<le> B"
    using assms(1) next_char_less [OF assms(2)] by (simp add: text_ok_def)
  then have "B = (B - 2) + 2" "text_ok (B - 2) (next_char lx)" using assms(1) by (simp_all add: text_ok_def)
  then show ?thesis by (rule that)
qed

lemma text_ok_mono: "text_ok B lx \<Longrightarrow> B \<le> B' \<Longrightarrow> text_ok B' lx"
  by (simp add: text_ok_def)

lemma text_ok_step: "text_ok (B + 2) lx \<Longrightarrow> chr0 lx \<noteq> MP_LEXER_EOF \<Longrightarrow> text_ok B (next_char lx)"
  by (erule text_ok_take) simp_all

lemma lex_add_spec:
  assumes "text_ok B lx" and "B < 2 ^ 31"
  shows "lex_spec al (\<lambda>lx'. \<exists>v. lx' = lx\<lparr>lx_vstr := v\<rparr> \<and> vstr_wf v \<and> \<not> vs_fixed v \<and>
      vstr_bytes v = vstr_bytes (lx_vstr lx) @ [word_of_nat c] \<and> vs_len v = vs_len (lx_vstr lx) + 1) (lex_add_byte al c lx)"
    (is "lex_spec al ?P _")
    and "lex_spec al (\<lambda>lx'. text_ok (B + 1) lx' \<and> lex_left lx' = lex_left lx \<and> chr0 lx' = chr0 lx \<and> same_dent lx lx' \<and>
      tok_kind lx' = tok_kind lx) (lex_add_byte al c lx)"
proof -
  have t: "vstr_wf (lx_vstr lx)" "\<not> vs_fixed (lx_vstr lx)" "vs_len (lx_vstr lx) \<le> B" using assms(1) by (simp_all add: text_ok_def)
  have sm: "vstr_small 1 (lx_vstr lx)" using t(3) assms(2) by (simp add: vstr_small_def)
  have y: "vstr_yields (m_renew al) 1 (lx_vstr lx) (vstr_add_byte (m_renew al) (word_of_nat c) (lx_vstr lx))
      (vstr_bytes (lx_vstr lx) @ [word_of_nat c])"
    by (rule mren.add_byte_yields [OF t(1) sm])
  show a: "lex_spec al ?P (lex_add_byte al c lx)"
    using y
  proof (cases rule: vstr_yieldsE)
    case (1 e)
    then have "e = MemoryError \<and> (\<exists>n. al n = None)"
      using t(2) by (auto simp: vstr_room_def m_renew_def split: if_splits)
    then show ?thesis using 1 by (auto simp: lex_add_byte_def lex_spec_def)
  next
    case (2 v')
    then show ?thesis using t by (auto simp: lex_add_byte_def intro!: exI [of _ v'])
  qed
  show "lex_spec al (\<lambda>lx'. text_ok (B + 1) lx' \<and> lex_left lx' = lex_left lx \<and> chr0 lx' = chr0 lx \<and> same_dent lx lx' \<and>
      tok_kind lx' = tok_kind lx) (lex_add_byte al c lx)"
    by (rule lex_spec_mono [OF a]) (use assms(1) in \<open>auto simp: text_ok_def\<close>)
qed

lemma lex_add_char_byte: "lex_add_char al c lx = lex_add_byte al c lx"
  by (simp add: lex_add_char_def lex_add_byte_def vstr_add_char_def)

subsection \<open>Functions that only move on\<close>

definition moved :: "mp_lexer_t \<Rightarrow> mp_lexer_t \<Rightarrow> bool" where
  "moved lx lx' \<longleftrightarrow> (\<exists>n. lx' = (next_char ^^ n) lx)"

lemma moved_refl [simp]: "moved lx lx"
  unfolding moved_def by (intro exI [of _ 0]) simp

lemma moved_next: "moved (next_char lx) lx' \<Longrightarrow> moved lx lx'"
  unfolding moved_def by (metis comp_apply funpow_Suc_right)

lemma moved_trans: "moved a b \<Longrightarrow> moved b c \<Longrightarrow> moved a c"
  unfolding moved_def by (metis comp_apply funpow_add)

lemma moved_props:
  assumes "moved lx lx'"
  shows "same_dent lx lx' \<and> lx_vstr lx' = lx_vstr lx \<and> tok_kind lx' = tok_kind lx \<and>
    nested_bracket_level lx' = nested_bracket_level lx \<and> lex_left lx' \<le> lex_left lx \<and> (chars_ok lx \<longrightarrow> chars_ok lx') \<and>
    (text_ok B lx \<longrightarrow> text_ok B lx')"
proof -
  obtain n where "lx' = (next_char ^^ n) lx" using assms by (auto simp: moved_def)
  then show ?thesis
  proof (induction n arbitrary: lx')
    case (Suc n)
    then show ?case using next_char_le [of "(next_char ^^ n) lx"] by (auto intro: text_ok_next order_trans)
  qed simp
qed

lemma get_hex_moved: "moved lx (snd (get_hex n num lx))"
  by (induction n num lx rule: get_hex.induct) (auto simp: Let_def intro: moved_next)

lemma get_octal_moved: "moved lx (snd (get_octal n num lx))"
  by (induction n num lx rule: get_octal.induct) (auto simp: Let_def intro: moved_next)

lemma skip_comment_moved: "moved lx (skip_comment lx)"
proof (induction lx rule: skip_comment.induct)
  case (1 lx)
  then show ?case by (subst skip_comment.simps) (auto intro: moved_next)
qed

lemma skip_whitespace_moved: "moved lx (snd (skip_whitespace_from s h lx))"
proof (induction s h lx rule: skip_whitespace_from.induct)
  case (1 s h lx)
  have n: "moved lx (next_char lx)" "moved lx (next_char (next_char lx))" "moved lx (skip_comment (next_char lx))"
    using skip_comment_moved [of "next_char lx"] moved_next [OF moved_next [OF moved_refl]] by (auto intro: moved_next)
  show ?case unfolding skip_whitespace_from.simps [of s h lx]
    using 1 by (auto intro: moved_trans [OF n(1)] moved_trans [OF n(2)] moved_trans [OF n(3)])
qed

text \<open>A line end among the white space was a character.\<close>

lemma skip_newline_left:
  "fst (skip_whitespace_from s h lx) \<Longrightarrow> \<not> h \<Longrightarrow> lex_left (snd (skip_whitespace_from s h lx)) < lex_left lx"
proof (induction s h lx rule: skip_whitespace_from.induct)
  case (1 s h lx)
  have le: "lex_left (snd (skip_whitespace_from s h' l)) \<le> lex_left l" for h' l
    using moved_props [OF skip_whitespace_moved] by blast
  show ?case
  proof (cases "is_end lx \<or> is_physical_newline lx")
    case True
    then show ?thesis using 1(5,6) le [of True "next_char lx"] next_char_less [of lx]
      unfolding skip_whitespace_from.simps [of s h lx] by (auto simp: is_end_def split: if_splits)
  next
    case False
    have n: "lex_left (next_char lx) < lex_left lx" using False next_char_less [of lx] by (simp add: is_end_def)
    have l: "lex_left (next_char (next_char lx)) \<le> lex_left (next_char lx)" "lex_left (skip_comment (next_char lx)) \<le> lex_left (next_char lx)"
      using next_char_le skip_comment_left by auto
    show ?thesis using 1(5,6) False n l le [of h "next_char lx"] le [of h "next_char (next_char lx)"] le [of h "skip_comment (next_char lx)"]
      unfolding skip_whitespace_from.simps [of s h lx] by (auto split: if_splits)
  qed
qed

subsection \<open>String literals\<close>

text \<open>The postcondition of the functions that read the text of a token.\<close>

definition dent_kind :: "mp_token_kind_t \<Rightarrow> bool" where
  "dent_kind k \<longleftrightarrow> k = MP_TOKEN_INDENT \<or> k = MP_TOKEN_DEDENT"

definition reads :: "nat \<Rightarrow> mp_lexer_t \<Rightarrow> mp_lexer_t \<Rightarrow> bool" where
  "reads B lx lx' \<longleftrightarrow> text_ok B lx' \<and> same_dent lx lx' \<and> (chars_ok lx \<longrightarrow> chars_ok lx') \<and>
    (dent_kind (tok_kind lx') \<longrightarrow> dent_kind (tok_kind lx))"

lemma reads_trans: "reads B a b \<Longrightarrow> reads B' b c \<Longrightarrow> reads B' a c"
  by (auto simp: reads_def intro: same_dent_trans)

lemma reads_text: "reads B lx lx' \<Longrightarrow> text_ok B lx'"
  by (simp add: reads_def)

lemma lex_spec_reads: "lex_spec al (reads B l) r \<Longrightarrow> reads B' lx l \<Longrightarrow> lex_spec al (reads B lx) r"
  by (erule lex_spec_mono) (rule reads_trans)

lemma moved_reads: "moved lx lx' \<Longrightarrow> text_ok B lx \<Longrightarrow> reads B lx lx'"
  using moved_props [of lx lx' B] by (simp add: reads_def)

lemma chars_ok_updates [simp]:
  "chars_ok (lx\<lparr>lx_vstr := v\<rparr>) = chars_ok lx" "chars_ok (lx\<lparr>tok_kind := k\<rparr>) = chars_ok lx"
  "chars_ok (lx\<lparr>tok_line := l\<rparr>) = chars_ok lx" "chars_ok (lx\<lparr>tok_column := l\<rparr>) = chars_ok lx"
  by (simp_all add: chars_ok_def reader_rest_def)

lemma dent_kind_simps [simp]:
  "\<not> dent_kind MP_TOKEN_INVALID" "\<not> dent_kind MP_TOKEN_LONELY_STRING_OPEN" "\<not> dent_kind MP_TOKEN_STRING" "\<not> dent_kind MP_TOKEN_BYTES"
  "\<not> dent_kind MP_TOKEN_NAME" "\<not> dent_kind MP_TOKEN_INTEGER" "\<not> dent_kind MP_TOKEN_FLOAT_OR_IMAG" "\<not> dent_kind (MP_TOKEN_KW w)"
  "\<not> dent_kind (MP_TOKEN_OP p)" "\<not> dent_kind (MP_TOKEN_DEL d)" "\<not> dent_kind MP_TOKEN_ELLIPSIS" "\<not> dent_kind MP_TOKEN_END"
  "\<not> dent_kind MP_TOKEN_NEWLINE" "\<not> dent_kind MP_TOKEN_DEDENT_MISMATCH" "dent_kind MP_TOKEN_INDENT" "dent_kind MP_TOKEN_DEDENT"
  by (simp_all add: dent_kind_def)

lemma reads_kind: "reads B lx lx' \<Longrightarrow> \<not> dent_kind k \<Longrightarrow> reads B lx (lx'\<lparr>tok_kind := k\<rparr>)"
  "reads B (lx\<lparr>tok_kind := k\<rparr>) lx' \<Longrightarrow> \<not> dent_kind k \<Longrightarrow> reads B lx lx'"
  by (simp_all add: reads_def)

lemma reads_refl: "text_ok B lx \<Longrightarrow> reads B lx lx"
  by (simp add: reads_def)

lemma reads_next: "reads B lx lx' \<Longrightarrow> reads B lx (next_char lx')"
  by (auto simp: reads_def intro: text_ok_next)

lemma reads_mono: "reads B lx lx' \<Longrightarrow> B \<le> B' \<Longrightarrow> reads B' lx lx'"
  by (auto simp: reads_def intro: text_ok_mono)

lemma add_reads:
  assumes "text_ok B lx" and "B < 2 ^ 31"
  shows "lex_spec al (\<lambda>lx'. reads (B + 1) lx lx' \<and> chr0 lx' = chr0 lx) (lex_add_byte al c lx)"
  by (rule lex_spec_mono [OF lex_add_spec(1) [OF assms]]) (use assms(1) in \<open>auto simp: reads_def text_ok_def\<close>)

lemma add_take:
  assumes "text_ok B lx" and "B < 2 ^ 31" and "chr0 lx \<noteq> MP_LEXER_EOF"
  shows "lex_spec al (\<lambda>lx'. reads B lx (next_char lx')) (lex_add_byte al c lx)"
proof (rule lex_spec_mono [OF add_reads [OF assms(1,2)]])
  fix l
  assume "reads (B + 1) lx l \<and> chr0 l = chr0 lx"
  then show "reads B lx (next_char l)"
    using text_ok_step [of B l] assms(3) text_ok_mono [of "B + 1" l "B + 2"] by (auto simp: reads_def)
qed

lemma add_backslash:
  assumes "text_ok B lx" and "B < 2 ^ 31"
  shows "lex_spec al (\<lambda>(c, lx'). reads (B + 1) lx lx') (rbind (lex_add_char al 92 lx) (\<lambda>lx. Inr (c, lx)))"
  unfolding lex_add_char_byte by (rule lex_spec_bind [OF add_reads [OF assms]]) simp

lemma escape_char_spec:
  assumes t: "text_ok B lx" and B: "B < 2 ^ 31"
  shows "lex_spec al (\<lambda>(c, lx'). reads (B + 1) lx lx') (escape_char al c lx)"
proof -
  define Q where "Q = (\<lambda>(c::nat, lx'). reads (B + 1) lx lx')"
  have r: "Q (c, lx)" for c using reads_mono [OF reads_refl [OF t]] by (simp add: Q_def)
  have add: "lex_spec al Q (rbind (lex_add_char al 92 lx) (\<lambda>lx. Inr (c, lx)))"
    unfolding Q_def by (rule add_backslash [OF t B])
  have h: "reads (B + 1) lx (snd (get_hex n 0 lx))" "reads (B + 1) lx (snd (get_octal n k lx))" for n k
    by (rule reads_mono [OF moved_reads [OF get_hex_moved t]], simp, rule reads_mono [OF moved_reads [OF get_octal_moved t]], simp)
  then have hex: "lex_spec al Q (case get_hex n 0 lx of
      (None, lx) \<Rightarrow> Inr (0, lx\<lparr>tok_kind := MP_TOKEN_INVALID\<rparr>) | (Some num, lx) \<Rightarrow> Inr (num, lx))" for n
    using h(1) [of n] by (cases "get_hex n 0 lx") (auto simp: Q_def reads_kind(1) split: option.splits)
  have oct: "Q (get_octal 3 n lx)" for n using h(2) [of 3 n] by (simp add: Q_def case_prod_beta)
  have "lex_spec al Q (escape_char al c lx)" unfolding escape_char_def using r add hex oct by simp
  then show ?thesis by (simp add: Q_def)
qed

lemma string_char_spec:
  assumes t: "text_ok B lx" and B: "B < 2 ^ 31" and e: "chr0 lx \<noteq> MP_LEXER_EOF"
  shows "lex_spec al (\<lambda>lx'. reads B lx (next_char lx')) (string_char al raw lx)"
proof (cases "is_char lx 92")
  case True
  obtain B' where B': "B = B' + 2" "text_ok B' (next_char lx)" using text_ok_take [OF t e] .
  have b: "B' < 2 ^ 31" "B' + 1 < 2 ^ 31" using B B'(1) by simp_all
  have first: "lex_spec al (\<lambda>(c, lx'). reads (B' + 1) (next_char lx) lx')
      (if raw then rbind (lex_add_char al 92 (next_char lx)) (\<lambda>lx'. Inr (chr0 (next_char lx), lx')) else escape_char al (chr0 (next_char lx)) (next_char lx))"
    using escape_char_spec [OF B'(2) b(1)] add_backslash [OF B'(2) b(1)] by (cases raw) (simp_all only: if_True if_False)
  have "reads B lx l" if "reads B (next_char lx) l" for l
    using that by (auto simp: reads_def)
  moreover have "lex_spec al (\<lambda>lx'. reads B (next_char lx) (next_char lx'))
      (if c \<noteq> MP_LEXER_EOF then if c < 0x100 then lex_add_byte al c l else Inr (l\<lparr>tok_kind := MP_TOKEN_INVALID\<rparr>) else Inr l)"
    if l: "reads (B' + 1) (next_char lx) l" for c l
  proof -
    have "lex_spec al (\<lambda>lx'. reads B (next_char lx) (next_char lx')) (lex_add_byte al c l)"
      by (rule lex_spec_mono [OF add_reads [OF _ b(2)]]) (use l B'(1) in \<open>auto simp: reads_def intro: same_dent_trans text_ok_next\<close>)
    moreover have "reads B (next_char lx) (next_char l)" using reads_next [OF l] B'(1) by (auto intro: reads_mono)
    ultimately show ?thesis by (simp add: reads_def) 
  qed
  ultimately show ?thesis using True unfolding string_char_def Let_def if_P [OF True]
    by (intro lex_spec_bind [OF first]) (auto intro: lex_spec_mono)
next
  case False
  then show ?thesis using add_take [OF t B e] by (simp add: string_char_def)
qed

lemma string_loop_spec:
  assumes "text_ok B lx" and "B < 2 ^ 31"
  shows "lex_spec al (\<lambda>(n, lx'). reads B lx lx') (string_loop al raw q nq nc lx)"
  using assms(1)
proof (induction al raw q nq nc lx rule: string_loop.induct)
  case (1 al raw q nq nc lx)
  have post: "lex_spec al (\<lambda>(n, lx'). reads B lx lx') r"
    if "lex_spec al (\<lambda>(n, lx'). reads B l lx') r" "reads B lx l" for l r
    by (rule lex_spec_mono [OF that(1)]) (use that(2) in \<open>auto intro: reads_trans\<close>)
  show ?case
  proof (cases "\<not> is_end lx \<and> (nq > 1 \<or> \<not> is_char lx 10) \<and> nc < nq")
    case c: True
    then have e: "chr0 lx \<noteq> MP_LEXER_EOF" by (simp add: is_end_def)
    show ?thesis
    proof (cases "is_char lx q")
      case True
      show ?thesis unfolding string_loop.simps [of al raw q nq nc lx] if_P [OF c] if_P [OF True]
      proof (rule lex_spec_bind_eq)
        show "lex_spec al (\<lambda>lx'. reads B lx (next_char lx')) (lex_add_char al (chr0 lx) lx)"
          unfolding lex_add_char_byte by (rule add_take [OF 1(3) assms(2) e])
        show "lex_spec al (\<lambda>(n, lx'). reads B lx lx') (string_loop al raw q nq (nc + 1) (next_char x))"
          if "lex_add_char al (chr0 lx) lx = Inr x" "reads B lx (next_char x)" for x
          by (rule post [OF 1(1) [OF c True that(1)] that(2)]) (use that(2) in \<open>simp add: reads_def\<close>)
      qed
    next
      case False
      show ?thesis unfolding string_loop.simps [of al raw q nq nc lx] if_P [OF c] if_not_P [OF False]
      proof (rule lex_spec_bind_eq [OF string_char_spec [OF 1(3) assms(2) e]])
        show "lex_spec al (\<lambda>(n, lx'). reads B lx lx') (string_loop al raw q nq 0 (next_char x))"
          if "string_char al raw lx = Inr x" "reads B lx (next_char x)" for x
          by (rule post [OF 1(2) [OF c False that(1)] that(2)]) (use that(2) in \<open>simp add: reads_def\<close>)
      qed
    qed
  next
    case False
    then show ?thesis using reads_refl [OF 1(3)] by (subst string_loop.simps) (simp only: if_False lex_spec_Inr prod.case)
  qed
qed

lemma text_ok_cut: "text_ok B lx \<Longrightarrow> text_ok B (lx\<lparr>lx_vstr := vstr_cut_tail_bytes n (lx_vstr lx)\<rparr>)"
  using cut_tail_wf [of "lx_vstr lx" n] by (auto simp: text_ok_def) (auto simp: vstr_cut_tail_bytes_def)

lemma parse_string_literal_spec:
  assumes t: "text_ok B lx" and B: "B < 2 ^ 31"
  shows "lex_spec al (reads B lx) (parse_string_literal al raw lx)"
proof -
  define q where "q = (if is_char lx 34 then 34 else 39 :: nat)"
  obtain nq :: nat and l where l: "(if is_char_and (next_char lx) q q then (3, next_char (next_char (next_char lx))) else (1, next_char lx)) = (nq, l)"
    by fastforce
  have "moved lx l"
    using l moved_next [OF moved_next [OF moved_next [OF moved_refl]]] moved_next [OF moved_refl] by (auto split: if_splits)
  then have r: "reads B lx l" by (rule moved_reads [OF _ t])
  have "lex_spec al (\<lambda>(n, lx'). reads B lx lx') (string_loop al raw q nq 0 l)"
    by (rule lex_spec_mono [OF string_loop_spec]) (use r B in \<open>auto simp: reads_def intro: same_dent_trans\<close>)
  moreover have "parse_string_literal al raw lx = rbind (string_loop al raw q nq 0 l) (\<lambda>(n_closing, lx).
      let lx = (if n_closing < nq then lx\<lparr>tok_kind := MP_TOKEN_LONELY_STRING_OPEN\<rparr> else lx)
      in Inr (lx\<lparr>lx_vstr := vstr_cut_tail_bytes n_closing (lx_vstr lx)\<rparr>))"
    unfolding parse_string_literal_def Let_def q_def [symmetric] l prod.case ..
  ultimately show ?thesis
    by (auto intro!: lex_spec_bind simp: Let_def reads_def text_ok_cut split: prod.splits)
qed

lemma string_token_spec:
  assumes t: "text_ok B lx" and B: "B < 2 ^ 31"
  shows "lex_spec al (reads B lx) (string_token al raw n lx)"
proof -
  define l where "l = (if n \<noteq> 0 then (let lx = next_char lx in if n = 2 then next_char lx else lx) else lx)"
  have "moved lx l"
    using moved_next [OF moved_next [OF moved_refl]] moved_next [OF moved_refl] by (auto simp: l_def Let_def)
  then have r: "reads B lx l" by (rule moved_reads [OF _ t])
  have s: "reads B k (snd (skip_whitespace True k))" if "reads B l k" for k
    unfolding skip_whitespace_def by (rule moved_reads [OF skip_whitespace_moved]) (use that in \<open>simp add: reads_def\<close>)
  have "lex_spec al (reads B l) (parse_string_literal al raw l)"
    using r B by (intro parse_string_literal_spec) (simp_all add: reads_def)
  then show ?thesis unfolding string_token_def Let_def l_def [unfolded Let_def, symmetric]
    by (rule lex_spec_bind) (use r s in \<open>auto intro: reads_trans\<close>)
qed

lemma string_tokens_spec:
  assumes "text_ok B lx" and "B < 2 ^ 31"
  shows "lex_spec al (reads B lx) (string_tokens al lx)"
  using assms(1)
proof (induction al lx rule: string_tokens.induct)
  case (1 al lx)
  obtain raw kind n where p: "string_prefix lx = (raw, kind, n)" using prod_cases3 by blast
  have kind: "\<not> dent_kind kind" using p by (auto simp: string_prefix_def split: if_splits)
  show ?case
  proof (cases "tok_kind lx \<noteq> MP_TOKEN_END \<and> tok_kind lx \<noteq> kind")
    case True
    then show ?thesis using reads_refl [OF 1(2)] by (subst string_tokens.simps) (simp add: p)
  next
    case False
    have t: "lex_spec al (reads B lx) (string_token al raw n (lx\<lparr>tok_kind := kind\<rparr>))"
      by (rule lex_spec_mono [OF string_token_spec]) (use 1(2) assms(2) kind in \<open>auto intro: reads_kind(2)\<close>)
    have "lex_spec al (reads B lx) (if is_string_or_bytes x \<and> \<not> is_end lx then string_tokens al x else Inr x)"
      if x: "string_token al raw n (lx\<lparr>tok_kind := kind\<rparr>) = Inr x" "reads B lx x" for x
    proof (cases "is_string_or_bytes x \<and> \<not> is_end lx")
      case True
      have "lex_spec al (reads B x) (string_tokens al x)"
        by (rule 1(1) [OF p [symmetric] refl False x(1) True]) (use x(2) in \<open>simp add: reads_def\<close>)
      then show ?thesis using True by (auto intro: lex_spec_mono reads_trans [OF x(2)])
    qed (use x(2) in \<open>simp only: if_False lex_spec_Inr\<close>)
    then have "lex_spec al (reads B lx) (rbind (string_token al raw n (lx\<lparr>tok_kind := kind\<rparr>))
        (\<lambda>x. if is_string_or_bytes x \<and> \<not> is_end lx then string_tokens al x else Inr x))"
      by (rule lex_spec_bind_eq [OF t])
    then show ?thesis unfolding string_tokens.simps [of al lx] p prod.case if_not_P [OF False] .
  qed
qed

subsection \<open>Names, numbers and operators\<close>

lemma name_tail_spec:
  assumes "text_ok B lx" and "B < 2 ^ 31"
  shows "lex_spec al (reads B lx) (name_tail al lx)"
  using assms(1)
proof (induction al lx rule: name_tail.induct)
  case (1 al lx)
  show ?case
  proof (cases "\<not> is_end lx \<and> is_tail_of_identifier lx")
    case True
    have "lex_spec al (reads B lx) (rbind (lex_add_byte al (chr0 lx) lx) (\<lambda>lx. name_tail al (next_char lx)))"
    proof (rule lex_spec_bind_eq [OF add_take [OF 1(2) assms(2)]])
      show "chr0 lx \<noteq> MP_LEXER_EOF" using True by (simp add: is_end_def)
      show "lex_spec al (reads B lx) (name_tail al (next_char x))"
        if x: "lex_add_byte al (chr0 lx) lx = Inr x" "reads B lx (next_char x)" for x
        by (rule lex_spec_reads [OF 1(1) [OF True x(1) reads_text [OF x(2)]] x(2)])
    qed
    then show ?thesis using True by (subst name_tail.simps) simp
  next
    case False
    then show ?thesis using reads_refl [OF 1(2)] by (subst name_tail.simps) (simp only: if_False lex_spec_Inr)
  qed
qed

lemma null_terminated_spec:
  assumes "text_ok B lx" and "B < 2 ^ 31"
  shows "lex_spec al (\<lambda>v. text_ok B (lx\<lparr>lx_vstr := v\<rparr>)) (vstr_null_terminated_str (m_renew al) (lx_vstr lx))"
proof -
  have t: "vstr_wf (lx_vstr lx)" "\<not> vs_fixed (lx_vstr lx)" "vs_len (lx_vstr lx) + 1 < 2 ^ 32"
    using assms by (auto simp: text_ok_def)
  show ?thesis
  proof (cases "vstr_null_terminated_str (m_renew al) (lx_vstr lx)")
    case (Inl e)
    then show ?thesis using t(2)
      by (auto simp: vstr_null_terminated_str_def vstr_extend_def lex_spec_def m_renew_def split: if_splits option.splits)
  next
    case (Inr v)
    then show ?thesis using mren.null_terminated [OF t(1,3) Inr] assms(1) t(2) by (simp add: text_ok_def)
  qed
qed

lemma keyword_not_dent: "\<not> dent_kind k \<Longrightarrow> \<not> dent_kind (keyword_kind optimise s k)"
  by (auto simp: keyword_kind_def split: option.splits)

lemma lex_name_spec:
  assumes t: "text_ok B lx" and B: "B < 2 ^ 31" and e: "\<not> is_end lx"
  shows "lex_spec al (reads B lx) (lex_name al optimise lx)"
  unfolding lex_name_def
proof (rule lex_spec_bind [OF add_take])
  let ?l = "lx\<lparr>tok_kind := MP_TOKEN_NAME\<rparr>"
  show "text_ok B ?l" "B < 2 ^ 31" "chr0 ?l \<noteq> MP_LEXER_EOF" using t B e by (simp_all add: is_end_def)
  fix x
  assume x: "reads B ?l (next_char x)"
  show "lex_spec al (reads B lx) (rbind (name_tail al (next_char x)) (\<lambda>lx.
      rbind (vstr_null_terminated_str (m_renew al) (lx_vstr lx)) (\<lambda>v.
        Inr (lx\<lparr>lx_vstr := v, tok_kind := keyword_kind optimise (c_str (vs_buf v)) (tok_kind lx)\<rparr>))))"
  proof (rule lex_spec_bind [OF name_tail_spec])
    show "text_ok B (next_char x)" "B < 2 ^ 31" using x B by (simp_all add: reads_def)
    fix y
    assume "reads B (next_char x) y"
    then have y: "reads B ?l y" using x reads_trans by blast
    then have d: "\<not> dent_kind (tok_kind y)" by (auto simp: reads_def)
    show "lex_spec al (reads B lx) (rbind (vstr_null_terminated_str (m_renew al) (lx_vstr y)) (\<lambda>v.
        Inr (y\<lparr>lx_vstr := v, tok_kind := keyword_kind optimise (c_str (vs_buf v)) (tok_kind y)\<rparr>)))"
      by (rule lex_spec_bind [OF null_terminated_spec]) (use y B d keyword_not_dent in \<open>auto simp: reads_def\<close>)
  qed
qed

lemma number_exponent_spec:
  assumes t: "text_ok B lx" and B: "B < 2 ^ 31" and e: "\<not> is_end lx"
  shows "lex_spec al (reads B lx) (number_exponent al lx)"
  unfolding number_exponent_def lex_add_char_byte
proof (rule lex_spec_bind [OF add_take])
  let ?l = "lx\<lparr>tok_kind := MP_TOKEN_FLOAT_OR_IMAG\<rparr>"
  show "text_ok B ?l" "B < 2 ^ 31" "chr0 ?l \<noteq> MP_LEXER_EOF" using t B e by (simp_all add: is_end_def)
  fix x
  assume x: "reads B ?l (next_char x)"
  then have l: "reads B lx (next_char x)" by (rule reads_kind(2)) simp
  let ?n = "next_char x"
  have "lex_spec al (reads B lx) (rbind (lex_add_byte al (chr0 ?n) ?n) (\<lambda>lx. Inr (next_char lx)))"
    if "is_char ?n 43 \<or> is_char ?n 45"
    by (rule lex_spec_bind [OF add_take [of B]])
      (use l B that in \<open>auto simp: is_char_def MP_LEXER_EOF_def MP_READER_EOF_def intro: reads_text reads_trans [OF l]\<close>)
  then show "lex_spec al (reads B lx) (let lx = ?n in
      if is_char lx 43 \<or> is_char lx 45 then rbind (lex_add_byte al (chr0 lx) lx) (\<lambda>lx. Inr (next_char lx)) else Inr lx)"
    using l by (auto simp: Let_def)
qed

lemma number_loop_spec:
  assumes "text_ok B lx" and "B < 2 ^ 31"
  shows "lex_spec al (reads B lx) (number_loop al f lx)"
  using assms(1)
proof (induction al f lx rule: number_loop.induct)
  case (1 al f lx)
  consider "is_end lx" | "\<not> is_end lx" "\<not> f \<and> is_char_or lx 101 69"
    | "\<not> is_end lx" "\<not> (\<not> f \<and> is_char_or lx 101 69)" "is_letter lx \<or> is_digit lx \<or> is_char lx 46"
    | "\<not> is_end lx" "\<not> (\<not> f \<and> is_char_or lx 101 69)" "\<not> (is_letter lx \<or> is_digit lx \<or> is_char lx 46)" by blast
  then show ?case
  proof cases
    case 1
    then show ?thesis using reads_refl [OF \<open>text_ok B lx\<close>] by (subst number_loop.simps) simp
  next
    case 2
    show ?thesis unfolding number_loop.simps [of al f lx] if_not_P [OF 2(1)] if_P [OF 2(2)]
    proof (rule lex_spec_bind_eq [OF number_exponent_spec [OF 1(4) assms(2) 2(1)]])
      show "lex_spec al (reads B lx) (number_loop al f x)" if "number_exponent al lx = Inr x" "reads B lx x" for x
        by (rule lex_spec_reads [OF 1(1) [OF 2 that(1) reads_text [OF that(2)]] that(2)])
    qed
  next
    case 3
    let ?l = "if is_char_or3 lx 46 106 74 then lx\<lparr>tok_kind := MP_TOKEN_FLOAT_OR_IMAG\<rparr> else lx"
    have e: "chr0 ?l \<noteq> MP_LEXER_EOF" "text_ok B ?l" using 3(1) 1(4) by (auto simp: is_end_def)
    show ?thesis unfolding number_loop.simps [of al f lx] if_not_P [OF 3(1)] if_not_P [OF 3(2)] if_P [OF 3(3)]
    proof (rule lex_spec_bind_eq [OF add_take [OF e(2) assms(2) e(1), of al "chr0 lx", folded lex_add_char_byte]])
      fix x
      assume x: "lex_add_char al (chr0 lx) ?l = Inr x" "reads B ?l (next_char x)"
      then have r: "reads B lx (next_char x)" by (auto split: if_splits intro: reads_kind(2))
      then show "lex_spec al (reads B lx) (number_loop al f (next_char x))"
        by (rule lex_spec_reads [OF 1(2) [OF 3 x(1) reads_text [OF r]]])
    qed
  next
    case 4
    have r: "reads B lx (next_char lx)" by (rule reads_next [OF reads_refl [OF 1(4)]])
    have "lex_spec al (reads B lx) (number_loop al f (next_char lx))" if "is_char lx 95"
      by (rule lex_spec_reads [OF 1(3) [OF 4 that reads_text [OF r]] r])
    then show ?thesis unfolding number_loop.simps [of al f lx] if_not_P [OF 4(1)] if_not_P [OF 4(2)] if_not_P [OF 4(3)]
      using reads_refl [OF 1(4)] by simp
  qed
qed

lemma lex_number_spec:
  assumes t: "text_ok B lx" and B: "B < 2 ^ 31" and e: "\<not> is_end lx"
  shows "lex_spec al (reads B lx) (lex_number al lx)"
proof -
  define k where "k = (if is_char lx 46 then MP_TOKEN_FLOAT_OR_IMAG else MP_TOKEN_INTEGER)"
  have k: "\<not> dent_kind k" by (simp add: k_def)
  let ?l = "lx\<lparr>tok_kind := k\<rparr>"
  have "lex_spec al (reads B lx) (rbind (lex_add_byte al (chr0 ?l) ?l) (\<lambda>lx. number_loop al f (next_char lx)))" for f
  proof (rule lex_spec_bind [OF add_take])
    show "text_ok B ?l" "B < 2 ^ 31" "chr0 ?l \<noteq> MP_LEXER_EOF" using t B e by (simp_all add: is_end_def)
    show "lex_spec al (reads B lx) (number_loop al f (next_char x))" if x: "reads B ?l (next_char x)" for x
      by (rule lex_spec_reads [OF number_loop_spec [OF reads_text [OF x] B] reads_kind(2) [OF x k]])
  qed
  then show ?thesis unfolding lex_number_def Let_def k_def [symmetric] lex_add_char_byte .
qed

lemma bracket_level_simps [simp]:
  "lex_left (bracket_level lx) = lex_left lx" "same_dent l (bracket_level lx) = same_dent l lx" "text_ok B (bracket_level lx) = text_ok B lx"
  "chars_ok (bracket_level lx) = chars_ok lx" "tok_kind (bracket_level lx) = tok_kind lx"
  by (simp_all add: bracket_level_def lex_left_def same_dent_def text_ok_def chars_ok_def reader_rest_def)

lemma op_table_kinds: "(s, k) \<in> set op_table \<Longrightarrow> s \<noteq> [] \<and> \<not> dent_kind k"
  by (auto simp: op_table_bytes)

lemma lex_operator_props:
  assumes t: "text_ok B lx" and e: "\<not> is_end lx" and l: "\<not> is_letter lx"
  shows "reads B lx (lex_operator lx) \<and> lex_left (lex_operator lx) < lex_left lx \<and> \<not> dent_kind (tok_kind (lex_operator lx))"
proof -
  obtain n k where o: "lex_operator lx = bracket_level (((next_char ^^ n) (next_char lx))\<lparr>tok_kind := k\<rparr>)" "\<not> dent_kind k"
  proof (cases "op_matches lx = []")
    case True
    then have "lex_operator lx = bracket_level (((next_char ^^ 0) (next_char lx))\<lparr>tok_kind := MP_TOKEN_INVALID\<rparr>)"
      using lex_operator_longest [OF l] by (simp add: bracket_level_def)
    then show ?thesis by (rule that) simp
  next
    case False
    then obtain s k where s: "(s, k) \<in> set op_table" "lex_operator lx = op_token (length s) k lx"
      using lex_operator_longest [OF l] by (auto simp: longest_taken_def op_matches_def)
    then obtain n where "length s = Suc n" using op_table_kinds by (cases s) auto
    then have "lex_operator lx = bracket_level (((next_char ^^ n) (next_char lx))\<lparr>tok_kind := k\<rparr>)"
      using s(2) by (simp add: op_token_def funpow_swap1)
    then show ?thesis by (rule that) (use s(1) op_table_kinds in blast)
  qed
  have m: "moved (next_char lx) ((next_char ^^ n) (next_char lx))" by (auto simp: moved_def)
  have "reads B lx ((next_char ^^ n) (next_char lx))" by (rule moved_reads [OF moved_next [OF m] t])
  then have "reads B lx (lex_operator lx)" using o reads_kind(1) [of B lx _ k] by (simp add: reads_def)
  moreover have "lex_left (lex_operator lx) < lex_left lx"
    using moved_props [OF m, of B] next_char_less [of lx] e o(1) by (simp add: is_end_def)
  ultimately show ?thesis using o by simp
qed

subsection \<open>Every token takes a character\<close>

lemma string_tokens_left:
  assumes "string_tokens al lx = Inr lx'" and "\<not> is_end lx"
  shows "lex_left lx' \<le> lex_left lx \<and> (tok_kind lx = MP_TOKEN_END \<longrightarrow> lex_left lx' < lex_left lx)"
  using assms
proof (induction al lx rule: string_tokens.induct)
  case (1 al lx)
  obtain raw kind n where p: "string_prefix lx = (raw, kind, n)" using prod_cases3 by blast
  show ?case
  proof (cases "tok_kind lx \<noteq> MP_TOKEN_END \<and> tok_kind lx \<noteq> kind")
    case True
    then show ?thesis using 1(2) unfolding string_tokens.simps [of al lx] p prod.case if_P [OF True] by simp
  next
    case False
    then obtain x where x: "string_token al raw n (lx\<lparr>tok_kind := kind\<rparr>) = Inr x"
      "(if is_string_or_bytes x \<and> \<not> is_end lx then string_tokens al x else Inr x) = Inr lx'"
      using 1(2) unfolding string_tokens.simps [of al lx] p prod.case if_not_P [OF False] rbind_Inr by blast
    have l: "lex_left x < lex_left lx" using string_token_left [OF x(1)] 1(3) by (simp add: is_end_def)
    show ?thesis
    proof (cases "is_string_or_bytes x")
      case True
      then have c: "is_string_or_bytes x \<and> \<not> is_end lx" using 1(3) by simp
      show ?thesis using 1(1) [OF p [symmetric] refl False x(1) c _ string_or_bytes_not_end [OF True]] x(2) c l by auto
    qed (use x(2) l in auto)
  qed
qed

lemma name_tail_left: "name_tail al lx = Inr lx' \<Longrightarrow> lex_left lx' \<le> lex_left lx"
proof (induction al lx rule: name_tail.induct)
  case (1 al lx)
  show ?case
  proof (cases "\<not> is_end lx \<and> is_tail_of_identifier lx")
    case True
    then obtain x where x: "lex_add_byte al (chr0 lx) lx = Inr x" "name_tail al (next_char x) = Inr lx'"
      using 1(2) unfolding name_tail.simps [of al lx] if_P [OF True] rbind_Inr by blast
    then show ?thesis using 1(1) [OF True x] next_char_le [of x] lex_add_left(1) [OF x(1)] by linarith
  qed (use 1(2) in \<open>auto simp: name_tail.simps [of al lx]\<close>)
qed

lemma number_loop_left: "number_loop al f lx = Inr lx' \<Longrightarrow> lex_left lx' \<le> lex_left lx"
proof (induction al f lx rule: number_loop.induct)
  case (1 al f lx)
  have n: "lex_left lx' \<le> lex_left lx" if "number_loop al f x = Inr lx'" "number_exponent al lx = Inr x" "\<not> is_end lx"
    "\<not> f \<and> is_char_or lx 101 69" for x
    using 1(1) [OF that(3,4,2,1)] number_exponent_left [OF that(2,3)] by simp
  have l: "lex_left lx' \<le> lex_left lx" if "number_loop al f (next_char x) = Inr lx'"
    "lex_add_char al (chr0 lx) (if is_char_or3 lx 46 106 74 then lx\<lparr>tok_kind := MP_TOKEN_FLOAT_OR_IMAG\<rparr> else lx) = Inr x"
    "\<not> is_end lx" "\<not> (\<not> f \<and> is_char_or lx 101 69)" "is_letter lx \<or> is_digit lx \<or> is_char lx 46" for x
    using 1(2) [OF that(3-5,2,1)] next_char_le [of x] lex_add_left(2) [OF that(2)] by (auto split: if_splits)
  have u: "lex_left lx' \<le> lex_left lx" if "number_loop al f (next_char lx) = Inr lx'" "\<not> is_end lx"
    "\<not> (\<not> f \<and> is_char_or lx 101 69)" "\<not> (is_letter lx \<or> is_digit lx \<or> is_char lx 46)" "is_char lx 95"
    using 1(3) [OF that(2-5,1)] next_char_le [of lx] by simp
  consider (stop) "is_end lx" | (exponent) "\<not> is_end lx" "\<not> f \<and> is_char_or lx 101 69"
    | (letter) "\<not> is_end lx" "\<not> (\<not> f \<and> is_char_or lx 101 69)" "is_letter lx \<or> is_digit lx \<or> is_char lx 46"
    | (other) "\<not> is_end lx" "\<not> (\<not> f \<and> is_char_or lx 101 69)" "\<not> (is_letter lx \<or> is_digit lx \<or> is_char lx 46)" by blast
  then show ?case
  proof cases
    case stop
    then show ?thesis using 1(4) by (simp add: number_loop.simps [of al f lx])
  next
    case exponent
    then show ?thesis using 1(4) n
      unfolding number_loop.simps [of al f lx] if_not_P [OF exponent(1)] if_P [OF exponent(2)] rbind_Inr by blast
  next
    case letter
    then show ?thesis using 1(4) l
      unfolding number_loop.simps [of al f lx] if_not_P [OF letter(1)] if_not_P [OF letter(2)] if_P [OF letter(3)] rbind_Inr by blast
  next
    case other
    then show ?thesis using 1(4) u
      unfolding number_loop.simps [of al f lx] if_not_P [OF other(1)] if_not_P [OF other(2)] if_not_P [OF other(3)]
      by (cases "is_char lx 95") auto
  qed
qed

lemma lex_kind_ignored [simp]:
  "lex_name al optimise (lx\<lparr>tok_kind := k\<rparr>) = lex_name al optimise lx" "lex_number al (lx\<lparr>tok_kind := k\<rparr>) = lex_number al lx"
  by (simp_all add: lex_name_def lex_number_def is_char_def is_following_base_char_def)

lemma lex_name_left:
  assumes "lex_name al optimise lx = Inr lx'" and "\<not> is_end lx"
  shows "lex_left lx' < lex_left lx"
proof -
  obtain x y where x: "lex_add_byte al (chr0 lx) (lx\<lparr>tok_kind := MP_TOKEN_NAME\<rparr>) = Inr x" "name_tail al (next_char x) = Inr y"
    and y: "lex_left lx' = lex_left y"
    using assms(1) by (auto simp: lex_name_def rbind_Inr)
  show ?thesis using name_tail_left [OF x(2)] lex_add_left(1) [OF x(1)] next_char_less [of x] assms(2) y by (simp add: is_end_def)
qed

lemma lex_number_left:
  assumes "lex_number al lx = Inr lx'" and "\<not> is_end lx"
  shows "lex_left lx' < lex_left lx"
proof -
  obtain k x f where x: "lex_add_char al (chr0 lx) (lx\<lparr>tok_kind := k\<rparr>) = Inr x" "number_loop al f (next_char x) = Inr lx'"
    using assms(1) by (auto simp: lex_number_def rbind_Inr Let_def)
  show ?thesis using number_loop_left [OF x(2)] lex_add_left(2) [OF x(1)] next_char_less [of x] assms(2) by (simp add: is_end_def)
qed

end
