(* ===== verification/Lexer_Run.thy ===== *)
theory Lexer_Run
  imports Lexer_Text "HOL-Library.Code_Target_Nat"
begin

text \<open>
  Runs of the tokeniser: from a new lexer, the next token is taken again and again. The run ends, and its
  INDENT and DEDENT tokens follow the stack of indentations.
\<close>

subsection \<open>The stack of indentations\<close>

text \<open>The buffer has the allocated size, and the sentinel 0 is at the bottom of the levels in use. At most
  the levels above it are still to be announced.\<close>

definition dent_ok :: "mp_lexer_t \<Rightarrow> bool" where
  "dent_ok lx \<longleftrightarrow> length (indent_level lx) = alloc_indent_level lx \<and> 1 \<le> num_indent_level lx \<and>
    num_indent_level lx \<le> alloc_indent_level lx \<and> indent_level lx ! 0 = 0 \<and> emit_dent lx \<le> int (num_indent_level lx) - 1"

definition levels :: "mp_lexer_t \<Rightarrow> nat list" where
  "levels lx = take (num_indent_level lx) (indent_level lx)"

lemma same_dent_ok: "same_dent lx lx' \<Longrightarrow> dent_ok lx' = dent_ok lx \<and> levels lx' = levels lx"
  by (simp add: same_dent_def dent_ok_def levels_def)

text \<open>What a line end does to the stack: nothing, a new level, or the end of some.\<close>

definition newline_dent :: "nat \<Rightarrow> mp_lexer_t \<Rightarrow> mp_lexer_t \<Rightarrow> bool" where
  "newline_dent spaces lx lx' \<longleftrightarrow>
    same_dent lx lx' \<and> spaces = last (levels lx) \<or>
    last (levels lx) < spaces \<and> levels lx' = levels lx @ [spaces mod 2 ^ 16] \<and> emit_dent lx' = emit_dent lx + 1 \<or>
    spaces < last (levels lx) \<and> (\<exists>k. 1 \<le> k \<and> k < length (levels lx) \<and> levels lx' = take k (levels lx) \<and>
      emit_dent lx' = emit_dent lx - int (length (levels lx) - k))"

lemma levels_length: "dent_ok lx \<Longrightarrow> length (levels lx) = num_indent_level lx"
  by (simp add: dent_ok_def levels_def)

lemma indent_top_last: "dent_ok lx \<Longrightarrow> indent_top lx = last (levels lx)"
  by (subst last_conv_nth) (auto simp: dent_ok_def levels_def indent_top_def)

lemma indent_push_spec:
  assumes "dent_ok lx"
  shows "lex_spec al (\<lambda>lx'. dent_ok lx' \<and> levels lx' = levels lx @ [indent mod 2 ^ 16] \<and> emit_dent lx' = emit_dent lx \<and>
    lx_vstr lx' = lx_vstr lx \<and> lex_left lx' = lex_left lx \<and> chars_ok lx' = chars_ok lx \<and> tok_kind lx' = tok_kind lx \<and>
    num_indent_level lx' = num_indent_level lx + 1 \<and> tok_column lx' = tok_column lx) (indent_push al indent lx)"
    (is "lex_spec al ?Q _")
proof -
  let ?n = "num_indent_level lx"
  have d: "length (indent_level lx) = alloc_indent_level lx" "1 \<le> ?n" "?n \<le> alloc_indent_level lx" "indent_level lx ! 0 = 0"
    "emit_dent lx \<le> int ?n - 1" using assms by (simp_all add: dent_ok_def)
  have put: "?Q (l\<lparr>indent_level := (indent_level l)[num_indent_level l := indent mod 2 ^ 16], num_indent_level := num_indent_level l + 1\<rparr>)"
    if "l = lx\<lparr>indent_level := indent_level lx @ xs, alloc_indent_level := alloc_indent_level lx + length xs\<rparr>"
      "?n < alloc_indent_level lx + length xs" for l xs
    unfolding that(1) using d that(2)
    by (auto simp: dent_ok_def levels_def nth_append take_Suc_conv_app_nth lex_left_def chars_ok_def reader_rest_def)
  show ?thesis
  proof (cases "?n \<ge> alloc_indent_level lx")
    case True
    show ?thesis
    proof (cases "al (wrap32 (2 * (alloc_indent_level lx + 8)))")
      case None
      then show ?thesis using True by (auto simp: indent_push_def lex_spec_def)
    next
      case (Some f)
      let ?xs = "indent_entries f (alloc_indent_level lx) (alloc_indent_level lx + 8)"
      let ?l = "lx\<lparr>indent_level := indent_level lx @ ?xs, alloc_indent_level := alloc_indent_level lx + length ?xs\<rparr>"
      have len: "length ?xs = 8" by (simp add: indent_entries_def)
      have "indent_push al indent lx = Inr (?l\<lparr>indent_level := (indent_level ?l)[num_indent_level ?l := indent mod 2 ^ 16],
          num_indent_level := num_indent_level ?l + 1\<rparr>)"
        using True Some len by (simp add: indent_push_def)
      moreover have "?n < alloc_indent_level lx + length ?xs" using d(3) len by simp
      ultimately show ?thesis using put [OF refl] by (simp only: lex_spec_Inr)
    qed
  next
    case False
    then show ?thesis using put [of lx "[]"] by (simp add: indent_push_def)
  qed
qed

lemma dedent_loop_props:
  assumes "1 \<le> num_indent_level lx" and "indent_level lx ! 0 = 0"
  shows "\<exists>k. 1 \<le> k \<and> k \<le> num_indent_level lx \<and> (indent_top lx > n \<longrightarrow> k < num_indent_level lx) \<and>
    dedent_loop n lx = lx\<lparr>num_indent_level := k, emit_dent := emit_dent lx - int (num_indent_level lx - k)\<rparr>"
  using assms
proof (induction n lx rule: dedent_loop.induct)
  case (1 n lx)
  show ?case
  proof (cases "n < indent_top lx \<and> num_indent_level lx \<noteq> 0")
    case True
    let ?l = "(indent_pop lx)\<lparr>emit_dent := emit_dent lx - 1\<rparr>"
    have "num_indent_level lx \<noteq> 1"
    proof
      assume "num_indent_level lx = 1"
      then show False using True 1(3) by (simp add: indent_top_def)
    qed
    then have two: "1 \<le> num_indent_level ?l" using 1(2) by (simp add: indent_pop_def)
    obtain k where k: "1 \<le> k" "k \<le> num_indent_level ?l"
      "dedent_loop n ?l = ?l\<lparr>num_indent_level := k, emit_dent := emit_dent ?l - int (num_indent_level ?l - k)\<rparr>"
      using 1(1) [OF True two] 1(3) by (auto simp: indent_pop_def)
    have "dedent_loop n lx = dedent_loop n ?l" using True by (subst dedent_loop.simps) simp
    then show ?thesis using k 1(2) by (intro exI [of _ k]) (auto simp: indent_pop_def)
  next
    case False
    then show ?thesis using 1(2) by (intro exI [of _ "num_indent_level lx"]) (auto simp: dedent_loop.simps [of n lx])
  qed
qed

lemma emit_dent_updates [simp]:
  "lex_left (lx\<lparr>emit_dent := i\<rparr>) = lex_left lx" "chars_ok (lx\<lparr>emit_dent := i\<rparr>) = chars_ok lx"
  "text_ok B (lx\<lparr>emit_dent := i\<rparr>) = text_ok B lx" "levels (lx\<lparr>emit_dent := i\<rparr>) = levels lx"
  "lex_left (lx\<lparr>num_indent_level := n\<rparr>) = lex_left lx" "chars_ok (lx\<lparr>num_indent_level := n\<rparr>) = chars_ok lx"
  "text_ok B (lx\<lparr>num_indent_level := n\<rparr>) = text_ok B lx"
  by (simp_all add: lex_left_def chars_ok_def reader_rest_def text_ok_def levels_def)

lemma lex_newline_spec:
  assumes d: "dent_ok lx" and e: "emit_dent lx = 0" and t: "text_ok B lx" and n: "n = sub32 (lx_column lx) 1"
  shows "lex_spec al (\<lambda>lx'. dent_ok lx' \<and> newline_dent n lx lx' \<and> \<not> dent_kind (tok_kind lx') \<and>
    text_ok B lx' \<and> lex_left lx' = lex_left lx \<and> chars_ok lx' = chars_ok lx \<and> tok_column lx' = tok_column lx) (lex_newline al lx)"
    (is "lex_spec al ?Q _")
proof -
  define l where "l = lx\<lparr>tok_kind := MP_TOKEN_NEWLINE\<rparr>"
  have sd: "same_dent lx l" "same_dent l lx" by (simp_all add: l_def)
  then have dl: "dent_ok l" "levels l = levels lx" using same_dent_ok [of lx l] d by auto
  have top: "indent_top l = last (levels lx)" using indent_top_last [OF dl(1)] dl(2) by simp
  have lx: "lex_newline al lx = (if n = indent_top l then Inr l
      else if n > indent_top l then rbind (indent_push al n l) (\<lambda>lx. Inr (lx\<lparr>emit_dent := emit_dent lx + 1\<rparr>))
      else let lx = dedent_loop n l in if n \<noteq> indent_top lx then Inr (lx\<lparr>tok_kind := MP_TOKEN_DEDENT_MISMATCH\<rparr>) else Inr lx)"
    by (simp add: lex_newline_def l_def n Let_def)
  have eq: "?Q l" if "n = indent_top l"
    using that d t top dl by (auto simp: newline_dent_def l_def)
  have push: "lex_spec al ?Q (rbind (indent_push al n l) (\<lambda>lx. Inr (lx\<lparr>emit_dent := emit_dent lx + 1\<rparr>)))" if "n > indent_top l"
  proof (rule lex_spec_bind [OF indent_push_spec [OF dl(1)]])
    fix x
    assume x: "dent_ok x \<and> levels x = levels l @ [n mod 2 ^ 16] \<and> emit_dent x = emit_dent l \<and> lx_vstr x = lx_vstr l \<and>
      lex_left x = lex_left l \<and> chars_ok x = chars_ok l \<and> tok_kind x = tok_kind l \<and>
      num_indent_level x = num_indent_level l + 1 \<and> tok_column x = tok_column l"
    have "newline_dent n lx (x\<lparr>emit_dent := emit_dent x + 1\<rparr>)"
      using x that top dl(2) by (simp add: newline_dent_def l_def)
    moreover have "dent_ok (x\<lparr>emit_dent := emit_dent x + 1\<rparr>)" using x e dl(1) by (simp add: dent_ok_def l_def)
    moreover have "text_ok B x" using x t by (simp add: text_ok_def l_def)
    ultimately show "lex_spec al ?Q (Inr (x\<lparr>emit_dent := emit_dent x + 1\<rparr>))" using x by (simp add: l_def)
  qed
  have pop: "?Q (l\<lparr>num_indent_level := k, emit_dent := emit_dent l - int (num_indent_level l - k), tok_kind := kind\<rparr>)"
    if "n < indent_top l" "1 \<le> k" "k < num_indent_level l" "\<not> dent_kind kind" for k kind
  proof -
    let ?m = "l\<lparr>num_indent_level := k, emit_dent := emit_dent l - int (num_indent_level l - k), tok_kind := kind\<rparr>"
    have "levels ?m = take k (levels lx)" using that(3) dl(2) [symmetric] by (simp add: levels_def min_def)
    moreover have "emit_dent ?m = emit_dent lx - int (length (levels lx) - k)" "k < length (levels lx)"
      using that(3) levels_length [OF d] by (simp_all add: l_def)
    ultimately have "newline_dent n lx ?m" using that(1,2) top by (auto simp: newline_dent_def)
    moreover have "dent_ok ?m" using that(2,3) e dl(1) by (simp add: dent_ok_def l_def)
    ultimately show ?thesis using that(4) t by (simp add: l_def)
  qed
  show ?thesis
  proof (cases "n < indent_top l")
    case True
    have low: "1 \<le> num_indent_level l" "indent_level l ! 0 = 0" using dl(1) by (simp_all add: dent_ok_def)
    obtain k where k: "1 \<le> k" "k < num_indent_level l"
      "dedent_loop n l = l\<lparr>num_indent_level := k, emit_dent := emit_dent l - int (num_indent_level l - k)\<rparr>"
      using dedent_loop_props [OF low, of n] True by blast
    have kd: "dedent_loop n l = l\<lparr>num_indent_level := k, emit_dent := emit_dent l - int (num_indent_level l - k), tok_kind := MP_TOKEN_NEWLINE\<rparr>"
      using k(3) by (simp add: l_def)
    have d2: "(dedent_loop n l)\<lparr>tok_kind := MP_TOKEN_DEDENT_MISMATCH\<rparr> = l\<lparr>num_indent_level := k,
        emit_dent := emit_dent l - int (num_indent_level l - k), tok_kind := MP_TOKEN_DEDENT_MISMATCH\<rparr>"
      by (simp add: kd)
    have "?Q (dedent_loop n l)" unfolding kd by (rule pop [OF True k(1,2)]) simp
    moreover have "?Q ((dedent_loop n l)\<lparr>tok_kind := MP_TOKEN_DEDENT_MISMATCH\<rparr>)" unfolding d2 by (rule pop [OF True k(1,2)]) simp
    moreover have "n \<noteq> indent_top l" "\<not> indent_top l < n" using True by auto
    ultimately show ?thesis unfolding lx Let_def
      by (cases "n \<noteq> indent_top (dedent_loop n l)") (simp_all only: if_True if_False lex_spec_Inr simp_thms)
  next
    case False
    then have "n = indent_top l \<or> n > indent_top l" by linarith
    then show ?thesis
    proof
      assume n: "n = indent_top l"
      show ?thesis unfolding lx if_P [OF n] lex_spec_Inr by (rule eq [OF n])
    next
      assume n: "n > indent_top l"
      then have "n \<noteq> indent_top l" by simp
      then show ?thesis unfolding lx if_P [OF n] by (simp only: if_False push [OF n])
    qed
  qed
qed

subsection \<open>One token\<close>

text \<open>Between two tokens: a bound on the text that the characters to come can make, and the stack in order.\<close>

definition tok_inv :: "nat \<Rightarrow> mp_lexer_t \<Rightarrow> bool" where
  "tok_inv B lx \<longleftrightarrow> vstr_wf (lx_vstr lx) \<and> \<not> vs_fixed (lx_vstr lx) \<and> 2 * lex_left lx \<le> B \<and> chars_ok lx \<and> dent_ok lx"

text \<open>
  The next token: an INDENT or a DEDENT while some are to be announced; a line end, which may change the
  stack; or a token of the text, which does not.
\<close>

inductive token_step :: "mp_lexer_t \<Rightarrow> mp_lexer_t \<Rightarrow> bool" where
  dedent: "emit_dent lx < 0 \<Longrightarrow> tok_kind lx' = MP_TOKEN_DEDENT \<Longrightarrow> emit_dent lx' = emit_dent lx + 1 \<Longrightarrow> levels lx' = levels lx \<Longrightarrow>
    lex_left lx' \<le> lex_left lx \<Longrightarrow> token_step lx lx'"
| indent: "emit_dent lx > 0 \<Longrightarrow> tok_kind lx' = MP_TOKEN_INDENT \<Longrightarrow> emit_dent lx' = emit_dent lx - 1 \<Longrightarrow> levels lx' = levels lx \<Longrightarrow>
    lex_left lx' \<le> lex_left lx \<Longrightarrow> token_step lx lx'"
| line_end: "emit_dent lx = 0 \<Longrightarrow> \<not> dent_kind (tok_kind lx') \<Longrightarrow> newline_dent (sub32 (tok_column lx') 1) lx lx' \<Longrightarrow>
    lex_left lx' < lex_left lx \<Longrightarrow> token_step lx lx'"
| other: "emit_dent lx = 0 \<Longrightarrow> \<not> dent_kind (tok_kind lx') \<Longrightarrow> same_dent lx lx' \<Longrightarrow> lex_left lx' \<le> lex_left lx \<Longrightarrow>
    tok_kind lx' = MP_TOKEN_END \<or> lex_left lx' < lex_left lx \<Longrightarrow> token_step lx lx'"

lemma text_tok_inv: "text_ok B lx \<Longrightarrow> chars_ok lx \<Longrightarrow> dent_ok lx \<Longrightarrow> tok_inv B lx"
  by (simp add: text_ok_def tok_inv_def)

lemma reads_step:
  assumes "lex_spec al (reads B lx) r" and "\<And>lx'. r = Inr lx' \<Longrightarrow> lex_left lx' < lex_left lx"
    and "chars_ok lx" "dent_ok lx" "emit_dent lx = 0" "\<not> dent_kind (tok_kind lx)"
  shows "lex_spec al (\<lambda>lx'. tok_inv B lx' \<and> token_step lx lx') r"
proof (cases r)
  case (Inr lx')
  then have "reads B lx lx'" "lex_left lx' < lex_left lx" using assms(1,2) by simp_all
  then show ?thesis using Inr assms(3-6) same_dent_ok [of lx lx'] text_tok_inv
    by (auto simp: reads_def intro: token_step.other)
qed (use assms(1) in \<open>simp add: lex_spec_def\<close>)

lemma newline_dent_cong:
  assumes "same_dent lx l" and "levels lx = levels l"
  shows "newline_dent n lx lx' = newline_dent n l lx'"
proof -
  have "emit_dent l = emit_dent lx" "same_dent lx lx' = same_dent l lx'" using assms(1) by (auto simp: same_dent_def)
  then show ?thesis unfolding newline_dent_def assms(2) by simp
qed

lemma token_step_trans:
  assumes "token_step l lx'" and "same_dent lx l" and "lex_left l \<le> lex_left lx"
  shows "token_step lx lx'"
proof -
  have l: "levels l = levels lx" "emit_dent l = emit_dent lx"
    using same_dent_ok [OF assms(2)] assms(2) by (simp_all add: same_dent_def)
  have tr: "same_dent lx lx'" if "same_dent l lx'" using same_dent_trans [OF assms(2) that] .
  have nl: "newline_dent n lx lx'" if "newline_dent n l lx'" for n
    using that newline_dent_cong [OF assms(2) l(1) [symmetric]] by simp
  show ?thesis using assms(1)
  proof cases
    case dedent
    then show ?thesis using l assms(3) by (intro token_step.dedent) simp_all
  next
    case indent
    then show ?thesis using l assms(3) by (intro token_step.indent) simp_all
  next
    case line_end
    then show ?thesis using l nl assms(3) by (intro token_step.line_end) simp_all
  next
    case other
    then show ?thesis using l tr assms(3) by (intro token_step.other) auto
  qed
qed

text \<open>The token behind the white space, when no INDENT or DEDENT is to be announced.\<close>

lemma text_token_spec:
  assumes t: "text_ok B lx" and B: "B < 2 ^ 31" and c: "chars_ok lx" "dent_ok lx" "emit_dent lx = 0"
  shows "lex_spec al (\<lambda>lx'. tok_inv B lx' \<and> token_step lx lx')
    (if is_end lx then Inr (lx\<lparr>tok_kind := MP_TOKEN_END\<rparr>)
     else if is_string_or_bytes lx then string_tokens al (lx\<lparr>tok_kind := MP_TOKEN_END\<rparr>)
     else if is_head_of_identifier lx then lex_name al optimise lx
     else if is_digit lx \<or> is_char lx 46 \<and> is_following_digit lx then lex_number al lx
     else Inr (lex_operator lx))"
    (is "lex_spec al ?Q _")
proof -
  let ?l = "lx\<lparr>tok_kind := MP_TOKEN_END\<rparr>"
  have l: "text_ok B ?l" "chars_ok ?l" "dent_ok ?l" "emit_dent ?l = 0" "\<not> dent_kind (tok_kind ?l)"
    using assms same_dent_ok [of lx ?l] by simp_all
  have step: "lex_spec al ?Q r" if "lex_spec al (reads B ?l) r" "\<And>lx'. r = Inr lx' \<Longrightarrow> lex_left lx' < lex_left ?l" for r
    by (rule lex_spec_mono [OF reads_step [OF that l(2-5)]]) (use token_step_trans [of ?l _ lx] c(2) in auto)
  have e: "is_end ?l = is_end lx" by (simp add: is_end_def)
  have "?Q ?l" using l text_tok_inv c by (simp add: token_step.other)
  moreover have "lex_spec al ?Q (string_tokens al ?l)" if "\<not> is_end lx"
    by (rule step [OF string_tokens_spec [OF l(1) B]]) (use string_tokens_left that e in fastforce)
  moreover have "lex_spec al ?Q (lex_name al optimise lx)" if "\<not> is_end lx"
    using step [OF lex_name_spec [OF l(1) B]] lex_name_left [of al optimise ?l] that e by simp
  moreover have "lex_spec al ?Q (lex_number al lx)" if "\<not> is_end lx"
    using step [OF lex_number_spec [OF l(1) B]] lex_number_left [of al ?l] that e by simp
  moreover have "?Q (lex_operator lx)" if "\<not> is_end lx" "\<not> is_head_of_identifier lx"
  proof -
    have o: "reads B lx (lex_operator lx)" "lex_left (lex_operator lx) < lex_left lx" "\<not> dent_kind (tok_kind (lex_operator lx))"
      using lex_operator_props [OF t that(1)] that(2) by (auto simp: is_head_of_identifier_def)
    then show ?thesis using c same_dent_ok [of lx "lex_operator lx"] text_tok_inv by (auto simp: reads_def intro: token_step.other)
  qed
  ultimately show ?thesis by (simp split: if_split)
qed

lemma to_next_spec:
  assumes "tok_inv B lx" and B: "B < 2 ^ 31"
  shows "lex_spec al (\<lambda>lx'. tok_inv B lx' \<and> token_step lx lx') (mp_lexer_to_next al optimise lx)"
    (is "lex_spec al ?Q _")
proof -
  define a where "a = lx\<lparr>lx_vstr := vstr_reset (lx_vstr lx)\<rparr>"
  obtain h b where hb: "skip_whitespace False a = (h, b)" by fastforce
  define c where "c = b\<lparr>tok_line := lx_line b, tok_column := lx_column b\<rparr>"
  have eq: "mp_lexer_to_next al optimise lx =
      (if emit_dent c < 0 then Inr (c\<lparr>tok_kind := MP_TOKEN_DEDENT, emit_dent := emit_dent c + 1\<rparr>)
        else if emit_dent c > 0 then Inr (c\<lparr>tok_kind := MP_TOKEN_INDENT, emit_dent := emit_dent c - 1\<rparr>)
        else if h \<and> nested_bracket_level c = 0 then lex_newline al c
        else if is_end c then Inr (c\<lparr>tok_kind := MP_TOKEN_END\<rparr>)
        else if is_string_or_bytes c then string_tokens al (c\<lparr>tok_kind := MP_TOKEN_END\<rparr>)
        else if is_head_of_identifier c then lex_name al optimise c
        else if is_digit c \<or> is_char c 46 \<and> is_following_digit c then lex_number al c
        else Inr (lex_operator c))"
    unfolding mp_lexer_to_next_def Let_def a_def [symmetric] hb prod.case c_def [symmetric] by (rule refl)
  have inv: "vstr_wf (lx_vstr lx)" "\<not> vs_fixed (lx_vstr lx)" "2 * lex_left lx \<le> B" "chars_ok lx" "dent_ok lx"
    using assms(1) by (simp_all add: tok_inv_def)
  have a: "text_ok B a" using inv(1-3) by (simp add: a_def text_ok_def vstr_wf_def vstr_reset_def)
  have m: "moved a b" and nl: "h \<Longrightarrow> lex_left b < lex_left a"
    using skip_whitespace_moved [of a False False] skip_newline_left [of False False a] hb by (simp_all add: skip_whitespace_def)
  have c: "text_ok B c" "chars_ok c" "same_dent lx c" "lex_left c \<le> lex_left lx" "h \<Longrightarrow> lex_left c < lex_left lx"
    using moved_props [OF m, of B] a nl inv(4) by (simp_all add: c_def a_def same_dent_def)
  have d: "dent_ok c" "levels c = levels lx" using same_dent_ok [OF c(3)] inv(5) by simp_all
  have e: "emit_dent c = emit_dent lx" using c(3) by (simp add: same_dent_def)
  have up: "?Q (c\<lparr>tok_kind := k, emit_dent := i\<rparr>)" if "token_step lx (c\<lparr>tok_kind := k, emit_dent := i\<rparr>)"
      "i \<le> 0 \<or> i \<le> emit_dent c" for k i
    using that c(1,2) d(1) by (auto simp: tok_inv_def text_ok_def dent_ok_def)
  consider "emit_dent c \<noteq> 0" | (newline) "emit_dent c = 0" "h \<and> nested_bracket_level c = 0"
    | (token) "emit_dent c = 0" "\<not> (h \<and> nested_bracket_level c = 0)" by blast
  then show ?thesis
  proof cases
    case 1
    have "?Q (c\<lparr>tok_kind := MP_TOKEN_DEDENT, emit_dent := emit_dent c + 1\<rparr>)" if "emit_dent c < 0"
      by (rule up) (use that c(4) d(2) e in \<open>auto simp: levels_def intro: token_step.dedent\<close>)
    moreover have "?Q (c\<lparr>tok_kind := MP_TOKEN_INDENT, emit_dent := emit_dent c - 1\<rparr>)" if "emit_dent c > 0"
      by (rule up) (use that c(4) d(2) e in \<open>auto simp: levels_def intro: token_step.indent\<close>)
    ultimately show ?thesis unfolding eq using 1 by (cases "emit_dent c < 0") (simp_all only: if_True if_False lex_spec_Inr, auto)
  next
    case newline
    have col: "sub32 (lx_column c) 1 = sub32 (tok_column c) 1" by (simp add: c_def)
    have h: h using newline(2) ..
    have "lex_spec al ?Q (lex_newline al c)"
    proof (rule lex_spec_mono [OF lex_newline_spec [OF d(1) newline(1) c(1) col [symmetric]]])
      fix x
      assume x: "dent_ok x \<and> newline_dent (sub32 (tok_column c) 1) c x \<and> \<not> dent_kind (tok_kind x) \<and> text_ok B x \<and>
        lex_left x = lex_left c \<and> chars_ok x = chars_ok c \<and> tok_column x = tok_column c"
      have "newline_dent (sub32 (tok_column x) 1) lx x" using x newline_dent_cong [OF c(3) d(2) [symmetric]] by simp
      moreover have "lex_left x < lex_left lx" using x c(5) [OF h] by simp
      ultimately have "token_step lx x" using x newline(1) e by (simp add: token_step.line_end)
      then show "?Q x" using x c(2) text_tok_inv by simp
    qed
    then show ?thesis unfolding eq using newline by simp
  next
    case token
    have "lex_spec al ?Q (if is_end c then Inr (c\<lparr>tok_kind := MP_TOKEN_END\<rparr>)
        else if is_string_or_bytes c then string_tokens al (c\<lparr>tok_kind := MP_TOKEN_END\<rparr>)
        else if is_head_of_identifier c then lex_name al optimise c
        else if is_digit c \<or> is_char c 46 \<and> is_following_digit c then lex_number al c
        else Inr (lex_operator c))"
      by (rule lex_spec_mono [OF text_token_spec [OF c(1) B c(2) d(1) token(1)]]) (use token_step_trans [OF _ c(3,4)] in auto)
    then show ?thesis unfolding eq if_not_P [OF token(2)] using token(1) by simp
  qed
qed

subsection \<open>Runs\<close>

text \<open>The tokens of a source as the parser takes them: the one a new lexer stands at and \<open>n\<close> more, each
  with its column.\<close>

fun lex_run :: "allocator \<Rightarrow> nat \<Rightarrow> nat \<Rightarrow> mp_lexer_t \<Rightarrow> ((mp_token_kind_t \<times> nat) list \<times> mp_lexer_t) result" where
  "lex_run al optimise 0 lx = Inr ([], lx)"
| "lex_run al optimise (Suc n) lx =
    rbind (mp_lexer_to_next al optimise lx) (\<lambda>lx. rbind (lex_run al optimise n lx)
      (\<lambda>(toks, l). Inr ((tok_kind lx, tok_column lx) # toks, l)))"

definition lex_tokens :: "allocator \<Rightarrow> nat \<Rightarrow> nat \<Rightarrow> byte list \<Rightarrow> ((mp_token_kind_t \<times> nat) list \<times> mp_lexer_t) result" where
  "lex_tokens al optimise n src =
    rbind (mp_lexer_new_from_str_len al optimise src) (\<lambda>lx. rbind (lex_run al optimise n lx)
      (\<lambda>(toks, l). Inr ((tok_kind lx, tok_column lx) # toks, l)))"

text \<open>The potential that goes down with every token: a line end may bring two INDENTs or DEDENTs for a
  character, and every level on the stack ends with a DEDENT.\<close>

definition tokens_left :: "mp_lexer_t \<Rightarrow> nat" where
  "tokens_left lx = 4 * lex_left lx + nat \<bar>emit_dent lx\<bar> + length (levels lx)"

lemma newline_dent_left:
  assumes "newline_dent n lx lx'" and "emit_dent lx = 0" and "dent_ok lx" and "dent_ok lx'" and "lex_left lx' < lex_left lx"
  shows "tokens_left lx' < tokens_left lx"
  using assms(1) unfolding newline_dent_def
proof (elim disjE conjE exE)
  assume "same_dent lx lx'"
  then show ?thesis using assms(2,5) same_dent_ok [of lx lx'] by (simp add: tokens_left_def same_dent_def)
qed (use assms in \<open>auto simp: tokens_left_def\<close>)

lemma token_step_left:
  assumes "token_step lx lx'" and "dent_ok lx" and "dent_ok lx'" and "tok_kind lx' \<noteq> MP_TOKEN_END"
  shows "tokens_left lx' < tokens_left lx"
  using assms(1)
proof cases
  case line_end
  then show ?thesis using newline_dent_left assms(2,3) by blast
next
  case other
  then show ?thesis using assms(4) same_dent_ok [of lx lx'] by (auto simp: tokens_left_def same_dent_def)
qed (auto simp: tokens_left_def)

lemma lexer_start_inv:
  assumes "vstr_wf v" and "\<not> vs_fixed v" and "length entries = 10"
  shows "tok_inv (4 * length src + 2) (lexer_start \<lparr>rm_buf = src, rm_cur = 0\<rparr> entries v)" (is "tok_inv _ ?s")
    and "tokens_left (lexer_start \<lparr>rm_buf = src, rm_cur = 0\<rparr> entries v) \<le> 8 * length src + 5"
    and "levels (lexer_start \<lparr>rm_buf = src, rm_cur = 0\<rparr> entries v) = [0]"
    and "emit_dent (lexer_start \<lparr>rm_buf = src, rm_cur = 0\<rparr> entries v) = 0"
proof -
  define l where "l = \<lparr>lx_reader = \<lparr>rm_buf = src, rm_cur = 0\<rparr>, chr0 = 0, chr1 = 0, chr2 = 0, lx_line = 1, lx_column = sub32 0 2,
    emit_dent = 0, nested_bracket_level = 0, alloc_indent_level = 10, num_indent_level = 1, indent_level = entries[0 := 0],
    tok_line = 0, tok_column = 0, tok_kind = MP_TOKEN_END, lx_vstr = v\<rparr>"
  have s: "?s = next_char (next_char (next_char l))" by (simp add: lexer_start_def l_def)
  have eof: "MP_LEXER_EOF \<noteq> 0" by (simp add: MP_LEXER_EOF_def MP_READER_EOF_def)
  have "chr0 l = 0" "chr0 (next_char l) = 0" by (simp_all add: l_def)
  moreover have "lex_left l = 2 * length src + 4" using eof by (simp add: l_def lex_left_def)
  moreover have "chr1 (next_char k) = chr2 k" if "chr2 k \<noteq> 13" for k using that by (simp add: next_char_def Let_def)
  moreover from this have "chr0 (next_char (next_char l)) = 0" by (simp add: l_def)
  ultimately have left: "lex_left ?s \<le> 2 * length src + 1"
    using next_char_less [of l] next_char_less [of "next_char l"] next_char_less [of "next_char (next_char l)"] eof s by simp
  have f: "num_indent_level ?s = 1" "alloc_indent_level ?s = 10" "indent_level ?s = entries[0 := 0]" "emit_dent ?s = 0" "lx_vstr ?s = v"
    by (simp_all add: s l_def)
  have d: "dent_ok ?s" "levels ?s = [0]" "emit_dent ?s = 0" "lx_vstr ?s = v"
    unfolding dent_ok_def levels_def f using assms(3) by (cases entries, simp_all)+
  show "tok_inv (4 * length src + 2) ?s" using d assms(1,2) left chars_ok_start by (simp add: tok_inv_def)
  show "tokens_left ?s \<le> 8 * length src + 5" using d left by (simp add: tokens_left_def)
  show "levels ?s = [0]" "emit_dent ?s = 0" by (fact d)+
qed

lemma run_ends:
  assumes "tok_inv B lx" and "B < 2 ^ 31"
  shows "\<exists>n \<le> tokens_left lx + 1. lex_spec al (\<lambda>(toks, l). tok_kind l = MP_TOKEN_END) (lex_run al optimise n lx)"
  using assms(1)
proof (induction "tokens_left lx" arbitrary: lx rule: less_induct)
  case less
  have spec: "lex_spec al (\<lambda>l. tok_inv B l \<and> token_step lx l) (mp_lexer_to_next al optimise lx)"
    by (rule to_next_spec [OF less.prems assms(2)])
  show ?case
  proof (cases "mp_lexer_to_next al optimise lx")
    case (Inl e)
    then have "lex_spec al (\<lambda>(toks, l). tok_kind l = MP_TOKEN_END) (lex_run al optimise 1 lx)" using spec by (simp add: lex_spec_def)
    then show ?thesis by (intro exI [of _ 1]) simp
  next
    case (Inr l)
    then have l: "tok_inv B l" "token_step lx l" using spec by simp_all
    have dent: "dent_ok lx" "dent_ok l" using less.prems l(1) by (simp_all add: tok_inv_def)
    show ?thesis
    proof (cases "tok_kind l = MP_TOKEN_END")
      case True
      then show ?thesis using Inr by (intro exI [of _ 1]) simp
    next
      case False
      note left = token_step_left [OF l(2) dent False]
      obtain n where n: "n \<le> tokens_left l + 1" "lex_spec al (\<lambda>(toks, l). tok_kind l = MP_TOKEN_END) (lex_run al optimise n l)"
        using less.hyps [OF left l(1)] by blast
      have "lex_spec al (\<lambda>(toks, l). tok_kind l = MP_TOKEN_END) (lex_run al optimise (Suc n) lx)"
        unfolding lex_run.simps Inr rbind.simps by (rule lex_spec_bind [OF n(2)]) auto
      then show ?thesis using n(1) left by (intro exI [of _ "Suc n"]) simp
    qed
  qed
qed

text \<open>The first token: one of a lexer whose stack holds the sentinel, made an INDENT when it is not in column 1.\<close>

definition first_token :: "byte list \<Rightarrow> mp_lexer_t \<Rightarrow> bool" where
  "first_token src lx \<longleftrightarrow> (\<exists>s l. levels s = [0] \<and> emit_dent s = 0 \<and> tokens_left s \<le> 8 * length src + 5 \<and> dent_ok s \<and>
    token_step s l \<and> tok_inv (4 * length src + 2) l \<and> lx = (if tok_column l \<noteq> 1 then l\<lparr>tok_kind := MP_TOKEN_INDENT\<rparr> else l))"

lemma vstr_init_cases:
  "vstr_init (m_renew al) 32 = Inl MemoryError \<and> (\<exists>n. al n = None) \<or>
   (\<exists>v. vstr_init (m_renew al) 32 = Inr v \<and> vstr_wf v \<and> \<not> vs_fixed v)"
  by (cases "al 32") (auto simp: vstr_init_def m_renew_def vstr_wf_def)

text \<open>The construction fails for lack of memory, or takes the first token of a lexer at the start.\<close>

lemma lexer_new_cases:
  obtains (memory) n where "al n = None" "mp_lexer_new_from_str_len al optimise src = Inl MemoryError"
  | (lexer) entries v where "length entries = 10" "vstr_wf v" "\<not> vs_fixed v"
      "mp_lexer_new_from_str_len al optimise src =
        rbind (mp_lexer_to_next al optimise (lexer_start \<lparr>rm_buf = src, rm_cur = 0\<rparr> entries v))
          (\<lambda>lx. Inr (if tok_column lx \<noteq> 1 then lx\<lparr>tok_kind := MP_TOKEN_INDENT\<rparr> else lx))"
proof -
  note new = mp_lexer_new_from_str_len_def mp_reader_new_mem_def mp_lexer_new_def
  show ?thesis
  proof (cases "al 16 = None \<or> al 84 = None \<or> al 20 = None \<or> vstr_init (m_renew al) 32 = Inl MemoryError")
    case True
    then have "mp_lexer_new_from_str_len al optimise src = Inl MemoryError" by (auto simp: new split: option.splits)
    moreover obtain n where "al n = None" using True vstr_init_cases [of al] by auto
    ultimately show ?thesis using memory by blast
  next
    case False
    then obtain r t f v where "al 16 = Some r" "al 84 = Some t" "al 20 = Some f"
      "vstr_init (m_renew al) 32 = Inr v" "vstr_wf v" "\<not> vs_fixed v"
      using vstr_init_cases [of al] by auto
    then show ?thesis using lexer [of "indent_entries f 0 10" v] by (simp add: new indent_entries_def)
  qed
qed

lemma lexer_new_spec:
  assumes "length src < 2 ^ 28"
  shows "lex_spec al (first_token src) (mp_lexer_new_from_str_len al optimise src)"
proof (cases rule: lexer_new_cases [of al optimise src])
  case (lexer entries v)
  note s = lexer_start_inv [OF lexer(2,3,1), of src]
  show ?thesis unfolding lexer(4)
  proof (rule lex_spec_bind [OF to_next_spec [OF s(1)]])
    show "lex_spec al (first_token src) (Inr (if tok_column l \<noteq> 1 then l\<lparr>tok_kind := MP_TOKEN_INDENT\<rparr> else l))"
      if "tok_inv (4 * length src + 2) l \<and> token_step (lexer_start \<lparr>rm_buf = src, rm_cur = 0\<rparr> entries v) l" for l
      unfolding lex_spec_Inr first_token_def using that s by (auto simp: tok_inv_def)
  qed (use assms in simp)
qed (auto simp: lex_spec_def)

subsection \<open>The balance of INDENT and DEDENT\<close>

definition indents :: "(mp_token_kind_t \<times> nat) list \<Rightarrow> nat" where
  "indents toks = count_list (map fst toks) MP_TOKEN_INDENT"

definition dedents :: "(mp_token_kind_t \<times> nat) list \<Rightarrow> nat" where
  "dedents toks = count_list (map fst toks) MP_TOKEN_DEDENT"

text \<open>The levels that have been announced.\<close>

definition announced :: "mp_lexer_t \<Rightarrow> int" where
  "announced lx = int (length (levels lx)) - emit_dent lx"

lemma newline_dent_announced: "newline_dent n lx lx' \<Longrightarrow> dent_ok lx \<Longrightarrow> announced lx' = announced lx"
  unfolding newline_dent_def using same_dent_ok [of lx lx'] by (auto simp: announced_def same_dent_def)

lemma token_step_announced:
  assumes "token_step lx lx'" and "dent_ok lx"
  shows "announced lx' = announced lx +
    (if tok_kind lx' = MP_TOKEN_INDENT then 1 else if tok_kind lx' = MP_TOKEN_DEDENT then -1 else 0)"
  using assms(1)
proof cases
  case line_end
  then show ?thesis using newline_dent_announced assms(2) by (auto simp: dent_kind_def)
next
  case other
  then show ?thesis using same_dent_ok [of lx lx'] by (auto simp: announced_def same_dent_def dent_kind_def)
qed (simp_all add: announced_def)

text \<open>Levels that fit into 16 bits grow strictly.\<close>

definition column_ok :: "nat \<Rightarrow> bool" where
  "column_ok c \<longleftrightarrow> 1 \<le> c \<and> c \<le> 65536"

lemma sorted_snoc: "sorted_wrt (<) (xs @ [x]) \<longleftrightarrow> sorted_wrt (<) xs \<and> (xs = [] \<or> last xs < (x :: nat))"
  by (induction xs) (auto, meson last_in_set less_trans)

lemma newline_dent_sorted:
  assumes "newline_dent (sub32 c 1) lx lx'" and "column_ok c" and "dent_ok lx" and "sorted_wrt (<) (levels lx)"
  shows "sorted_wrt (<) (levels lx')"
proof -
  have c: "sub32 c 1 mod 2 ^ 16 = sub32 c 1" using assms(2) by (auto simp: column_ok_def sub32_le intro: mod_less)
  show ?thesis using assms(1) unfolding newline_dent_def
  proof (elim disjE conjE exE)
    assume "same_dent lx lx'"
    then show ?thesis using same_dent_ok assms(4) by simp
  qed (use assms(4) c in \<open>auto simp: sorted_snoc sorted_wrt_take\<close>)
qed

lemma token_step_sorted:
  assumes "token_step lx lx'" and "column_ok (tok_column lx')" and "dent_ok lx" and "sorted_wrt (<) (levels lx)"
  shows "sorted_wrt (<) (levels lx')"
  using assms(1)
proof cases
  case line_end
  then show ?thesis using newline_dent_sorted assms(2-4) by blast
next
  case other
  then show ?thesis using same_dent_ok [of lx lx'] assms(4) by simp
qed (use assms(4) in simp_all)

lemma run_announced:
  assumes "tok_inv B lx" and "B < 2 ^ 31" and "lex_run al optimise n lx = Inr (toks, l)"
  shows "tok_inv B l \<and> announced l = announced lx + int (indents toks) - int (dedents toks) \<and>
    (sorted_wrt (<) (levels lx) \<and> list_all (column_ok \<circ> snd) toks \<longrightarrow> sorted_wrt (<) (levels l))"
  using assms(1,3)
proof (induction n arbitrary: lx toks)
  case (Suc n)
  obtain x ts where x: "mp_lexer_to_next al optimise lx = Inr x" "lex_run al optimise n x = Inr (ts, l)"
    "toks = (tok_kind x, tok_column x) # ts"
    using Suc.prems(2) by (auto simp: rbind_Inr)
  have s: "tok_inv B x" "token_step lx x" using to_next_spec [OF Suc.prems(1) assms(2), of al optimise] x(1) by simp_all
  have d: "dent_ok lx" using Suc.prems(1) by (simp add: tok_inv_def)
  show ?case using Suc.IH [OF s(1) x(2)] token_step_announced [OF s(2) d] token_step_sorted [OF s(2) _ d]
    by (auto simp: x(3) indents_def dedents_def)
qed (simp add: indents_def dedents_def)

subsection \<open>The tokens of a source\<close>

lemma first_token_props:
  assumes "first_token src lx"
  shows "tok_inv (4 * length src + 2) lx" and "tokens_left lx \<le> 8 * length src + 5"
    and "announced lx = 1" and "column_ok (tok_column lx) \<longrightarrow> sorted_wrt (<) (levels lx)"
    and "tok_kind lx = MP_TOKEN_INDENT \<longleftrightarrow> tok_column lx \<noteq> 1" and "tok_kind lx \<noteq> MP_TOKEN_DEDENT"
proof -
  obtain s l where s: "levels s = [0]" "emit_dent s = 0" "tokens_left s \<le> 8 * length src + 5" "dent_ok s"
    and l: "token_step s l" "tok_inv (4 * length src + 2) l" and lx: "lx = (if tok_column l \<noteq> 1 then l\<lparr>tok_kind := MP_TOKEN_INDENT\<rparr> else l)"
    using assms by (auto simp: first_token_def)
  have up: "levels lx = levels l" "emit_dent lx = emit_dent l" "lex_left lx = lex_left l" "tok_column lx = tok_column l"
    by (simp_all add: lx levels_def)
  show "tok_inv (4 * length src + 2) lx" using l(2) by (auto simp: lx tok_inv_def dent_ok_def)
  have k: "\<not> dent_kind (tok_kind l)" using l(1) s(2) by cases auto
  then show "tok_kind lx = MP_TOKEN_INDENT \<longleftrightarrow> tok_column lx \<noteq> 1" "tok_kind lx \<noteq> MP_TOKEN_DEDENT"
    by (auto simp: lx dent_kind_def)
  show "announced lx = 1" using token_step_announced [OF l(1) s(4)] k s(1,2) up by (auto simp: announced_def dent_kind_def)
  show "column_ok (tok_column lx) \<longrightarrow> sorted_wrt (<) (levels lx)" using token_step_sorted [OF l(1) _ s(4)] s(1) up by simp
  have "tokens_left l \<le> tokens_left s" using l(1)
  proof cases
    case line_end
    then show ?thesis using newline_dent_left [OF line_end(3) s(2,4)] l(2) by (simp add: tok_inv_def)
  next
    case other
    then show ?thesis using same_dent_ok [of s l] by (simp add: tokens_left_def same_dent_def)
  qed (use s(2) in simp_all)
  then show "tokens_left lx \<le> 8 * length src + 5" using s(3) up by (simp add: tokens_left_def)
qed

text \<open>
  C36. Tokenising ends: whatever the source (below 2 to the 28 bytes), after at most 8 tokens per byte of it
  and six more the parser has been given \<^verbatim>\<open>MP_TOKEN_END\<close>, unless an exception ended the run. The only
  exceptions are the one for the escape that is not implemented and a \<^verbatim>\<open>MemoryError\<close>, which is raised
  only when the allocator did refuse a request.
\<close>

theorem lexer_terminates:
  assumes "length src < 2 ^ 28"
  shows "\<exists>n \<le> 8 * length src + 6.
    (case lex_tokens al optimise n src of
       Inl e \<Rightarrow> e = NotImplementedError \<or> e = MemoryError \<and> (\<exists>k. al k = None)
     | Inr (toks, lx) \<Rightarrow> tok_kind lx = MP_TOKEN_END)"
proof -
  let ?Q = "\<lambda>(toks :: (mp_token_kind_t \<times> nat) list, lx). tok_kind lx = MP_TOKEN_END"
  have "\<exists>n \<le> 8 * length src + 6. lex_spec al ?Q (lex_tokens al optimise n src)"
  proof (cases "mp_lexer_new_from_str_len al optimise src")
    case (Inl e)
    then have "lex_spec al ?Q (lex_tokens al optimise 0 src)"
      using lexer_new_spec [OF assms, of al optimise] by (simp add: lex_tokens_def lex_spec_def)
    then show ?thesis by blast
  next
    case (Inr lx)
    then have f: "first_token src lx" using lexer_new_spec [OF assms, of al optimise] by simp
    have B: "4 * length src + 2 < 2 ^ 31" using assms by simp
    obtain n where n: "n \<le> tokens_left lx + 1" "lex_spec al ?Q (lex_run al optimise n lx)"
      using run_ends [OF first_token_props(1) [OF f] B] by blast
    have "lex_spec al ?Q (lex_tokens al optimise n src)"
      unfolding lex_tokens_def Inr rbind.simps by (rule lex_spec_bind [OF n(2)]) auto
    then show ?thesis using n(1) first_token_props(2) [OF f] by (intro exI [of _ n]) simp
  qed
  then show ?thesis by (auto simp: lex_spec_def split: sum.splits prod.splits)
qed

theorem lexer_terminates_witness:
  "length (lit ''x=1'') < 2 ^ 28 \<and> (\<exists>n \<le> 30.
    (case lex_tokens (\<lambda>n. if n < 4096 then Some (\<lambda>_. 0) else None) 0 n (lit ''x=1'') of
       Inl e \<Rightarrow> e = NotImplementedError \<or> e = MemoryError
     | Inr (toks, lx) \<Rightarrow> tok_kind lx = MP_TOKEN_END))"
proof -
  let ?al = "\<lambda>n::nat. if n < 4096 then Some (\<lambda>_::nat. 0 :: byte) else None"
  have small: "length (lit ''x=1'') < 2 ^ 28" "8 * length (lit ''x=1'') + 6 = 30" by (simp_all add: lit_def)
  obtain n where n: "n \<le> 30" "case lex_tokens ?al 0 n (lit ''x=1'') of
       Inl e \<Rightarrow> e = NotImplementedError \<or> e = MemoryError \<and> (\<exists>k. ?al k = None)
     | Inr (toks, lx) \<Rightarrow> tok_kind lx = MP_TOKEN_END"
    using lexer_terminates [OF small(1), of ?al 0] unfolding small(2) by blast
  show ?thesis using small(1) n by (intro conjI exI [of _ n]) (auto split: sum.splits)
qed

text \<open>
  C37. INDENT and DEDENT tokens are balanced at every moment of a run: the INDENTs less the DEDENTs are the
  levels on the stack above the sentinel, less those still to be announced, where one more INDENT stands
  for a first token that is not in column 1. So no DEDENT comes without its INDENT. The bottom of the stack is 0,
  and the stack grows strictly while the columns fit the 16 bits of an entry.
\<close>

theorem lexer_dents_balanced:
  assumes "length src < 2 ^ 28" and "lex_tokens al optimise n src = Inr (toks, lx)"
  shows "int (indents toks) - int (dedents toks) =
      int (length (levels lx)) - 1 - emit_dent lx + (if snd (hd toks) = 1 then 0 else 1) \<and>
    dedents toks \<le> indents toks \<and> levels lx \<noteq> [] \<and> hd (levels lx) = 0 \<and>
    (list_all (column_ok \<circ> snd) toks \<longrightarrow> sorted_wrt (<) (levels lx))"
proof -
  obtain x ts where x: "mp_lexer_new_from_str_len al optimise src = Inr x" "lex_run al optimise n x = Inr (ts, lx)"
    "toks = (tok_kind x, tok_column x) # ts"
    using assms(2) by (auto simp: lex_tokens_def rbind_Inr)
  have f: "first_token src x" using lexer_new_spec [OF assms(1), of al optimise] x(1) by simp
  have B: "4 * length src + 2 < 2 ^ 31" using assms(1) by simp
  note p = first_token_props [OF f]
  have r: "tok_inv (4 * length src + 2) lx" "announced lx = announced x + int (indents ts) - int (dedents ts)"
    "sorted_wrt (<) (levels x) \<and> list_all (column_ok \<circ> snd) ts \<longrightarrow> sorted_wrt (<) (levels lx)"
    using run_announced [OF p(1) B x(2)] by simp_all
  have d: "dent_ok lx" using r(1) by (simp add: tok_inv_def)
  have "levels lx \<noteq> []" "levels lx ! 0 = 0" "emit_dent lx \<le> int (length (levels lx)) - 1"
    using d by (auto simp: dent_ok_def levels_def)
  moreover from this have "hd (levels lx) = 0" by (simp add: hd_conv_nth)
  moreover have "int (indents toks) - int (dedents toks) = announced lx - 1 + (if tok_column x = 1 then 0 else 1)"
    using r(2) p(3,5,6) by (auto simp: x(3) indents_def dedents_def)
  ultimately have "int (indents toks) - int (dedents toks) =
      int (length (levels lx)) - 1 - emit_dent lx + (if snd (hd toks) = 1 then 0 else 1)" "dedents toks \<le> indents toks"
    by (auto simp: announced_def x(3) split: if_splits)
  moreover have "list_all (column_ok \<circ> snd) toks \<longrightarrow> sorted_wrt (<) (levels lx)" using r(3) p(4) by (simp add: x(3))
  ultimately show ?thesis using \<open>levels lx \<noteq> []\<close> \<open>hd (levels lx) = 0\<close> by blast
qed

theorem lexer_dents_balanced_witness:
  "\<exists>toks lx. lex_tokens (\<lambda>n. Some (\<lambda>_. 0)) 0 2 [58, 10, 32, 40] = Inr (toks, lx) \<and>
    map fst toks = [MP_TOKEN_DEL DEL_COLON, MP_TOKEN_NEWLINE, MP_TOKEN_INDENT] \<and>
    levels lx = [0, 1] \<and> sorted_wrt (<) (levels lx) \<and> dedents toks \<le> indents toks"
proof -
  have "case lex_tokens (\<lambda>n. Some (\<lambda>_. 0)) 0 2 [58, 10, 32, 40] of
      Inl e \<Rightarrow> False
    | Inr (toks, lx) \<Rightarrow> toks = [(MP_TOKEN_DEL DEL_COLON, 1), (MP_TOKEN_NEWLINE, 2), (MP_TOKEN_INDENT, 2)] \<and> levels lx = [0, 1]"
    by code_simp
  then obtain toks lx where t: "lex_tokens (\<lambda>n. Some (\<lambda>_. 0)) 0 2 [58, 10, 32, 40] = Inr (toks, lx)"
    "toks = [(MP_TOKEN_DEL DEL_COLON, 1), (MP_TOKEN_NEWLINE, 2), (MP_TOKEN_INDENT, 2)]" "levels lx = [0, 1]"
    by (auto split: sum.splits)
  have "list_all (column_ok \<circ> snd) toks" by (simp add: t(2) column_ok_def)
  then show ?thesis using lexer_dents_balanced [OF _ t(1)] t by simp
qed

end
