(* ===== verification/Lexer_Repr.thy ===== *)
theory Lexer_Repr
  imports Lexer_Run
begin

text \<open>
  The printing of strings (\<^verbatim>\<open>mp_str_print_quoted\<close> and \<^verbatim>\<open>str_print\<close> of \<^verbatim>\<open>py/objstr.c\<close>) and its
  inverse, the tokeniser: a literal that was printed is read back as the same bytes.
\<close>

subsection \<open>Printing\<close>

datatype mp_print_kind_t = PRINT_STR | PRINT_REPR | PRINT_EXC | PRINT_JSON | PRINT_RAW | PRINT_EXC_SUBCLASS

text \<open>The search for quotes: it stops behind the first double quote.\<close>

fun quote_scan :: "byte list \<Rightarrow> bool \<Rightarrow> bool \<Rightarrow> bool \<times> bool" where
  "quote_scan [] has_single_quote has_double_quote = (has_single_quote, has_double_quote)"
| "quote_scan (c # s) has_single_quote has_double_quote =
    (if has_double_quote then (has_single_quote, has_double_quote)
     else if c = 39 then quote_scan s True has_double_quote
     else if c = 34 then quote_scan s has_single_quote True
     else quote_scan s has_single_quote has_double_quote)"

text \<open>A digit of the format \<^verbatim>\<open>%02x\<close>.\<close>

definition hex_digit :: "nat \<Rightarrow> byte" where
  "hex_digit n = word_of_nat (if n < 10 then 48 + n else 87 + n)"

text \<open>One character: the backslash is 92, and \<open>n\<close>, \<open>r\<close>, \<open>t\<close>, \<open>x\<close> are 110, 114, 116, 120.\<close>

definition quoted_char :: "bool \<Rightarrow> byte \<Rightarrow> byte \<Rightarrow> byte list" where
  "quoted_char is_bytes quote_char c =
    (if c = quote_char then [92, quote_char]
     else if c = 92 then [92, 92]
     else if c \<ge> 0x20 \<and> c \<noteq> 0x7f \<and> (\<not> is_bytes \<or> c < 0x80) then [c]
     else if c = 10 then [92, 110]
     else if c = 13 then [92, 114]
     else if c = 9 then [92, 116]
     else [92, 120, hex_digit (unat c div 16), hex_digit (unat c mod 16)])"

definition mp_str_print_quoted :: "byte list \<Rightarrow> bool \<Rightarrow> byte list" where
  "mp_str_print_quoted s is_bytes =
    (let (has_single_quote, has_double_quote) = quote_scan s False False;
         quote_char = (if has_single_quote \<and> \<not> has_double_quote then 34 else 39)
     in [quote_char] @ concat (map (quoted_char is_bytes quote_char) s) @ [quote_char])"

text \<open>The JSON form is not configured, so its kind prints like a representation.\<close>

definition str_print :: "bool \<Rightarrow> mp_print_kind_t \<Rightarrow> byte list \<Rightarrow> byte list" where
  "str_print is_bytes kind s =
    (if kind = PRINT_RAW \<or> kind = PRINT_STR \<and> \<not> is_bytes then s
     else (if is_bytes then lit ''b'' else []) @ mp_str_print_quoted s is_bytes)"

subsection \<open>A lexer at a place of the source\<close>

text \<open>The text so far, the characters to come, the kind and the column of the token.\<close>

definition lx_at :: "byte list \<Rightarrow> nat list \<Rightarrow> mp_token_kind_t \<Rightarrow> nat \<Rightarrow> mp_lexer_t \<Rightarrow> bool" where
  "lx_at t cs k col lx \<longleftrightarrow> chars_ok lx \<and> stream lx = cs \<and> vstr_wf (lx_vstr lx) \<and> \<not> vs_fixed (lx_vstr lx) \<and>
    vstr_bytes (lx_vstr lx) = t \<and> tok_kind lx = k \<and> tok_column lx = col \<and> nested_bracket_level lx = 0"

lemma next_char_column [simp]: "tok_column (next_char lx) = tok_column lx"
proof -
  have "tok_column (advance_position l) = tok_column l" "tok_column (read_chr2 l) = tok_column l" for l
    by (simp_all add: advance_position_def read_chr2_def split: prod.splits)
  then show ?thesis by (simp add: next_char_def Let_def)
qed

lemma stream_updates [simp]:
  "stream (lx\<lparr>tok_kind := k\<rparr>) = stream lx" "stream (lx\<lparr>lx_vstr := v\<rparr>) = stream lx"
  "stream (lx\<lparr>tok_line := n\<rparr>) = stream lx" "stream (lx\<lparr>tok_column := n\<rparr>) = stream lx"
  by (simp_all add: stream_def reader_rest_def)

lemma at_next: "lx_at t (c # cs) k col lx \<Longrightarrow> lx_at t cs k col (next_char lx)"
  by (simp add: lx_at_def)

lemma at_chr0: "lx_at t (c # cs) k col lx \<Longrightarrow> chr0 lx = c \<and> \<not> is_end lx"
  by (auto simp: lx_at_def stream_def is_end_def split: if_splits)

lemma at_chr1: "lx_at t (c # d # cs) k col lx \<Longrightarrow> chr1 lx = d"
  by (auto simp: lx_at_def stream_def split: if_splits)

lemma at_kind: "lx_at t cs k col lx \<Longrightarrow> lx_at t cs k' col (lx\<lparr>tok_kind := k'\<rparr>)"
  by (simp add: lx_at_def)

text \<open>Only a lack of memory is raised.\<close>

definition mem_spec :: "allocator \<Rightarrow> ('a \<Rightarrow> bool) \<Rightarrow> 'a result \<Rightarrow> bool" where
  "mem_spec al P r \<longleftrightarrow> (case r of Inr x \<Rightarrow> P x | Inl e \<Rightarrow> e = MemoryError \<and> (\<exists>n. al n = None))"

lemma mem_spec_Inr [simp]: "mem_spec al P (Inr x) = P x"
  by (simp add: mem_spec_def)

lemma mem_spec_bind: "mem_spec al P r \<Longrightarrow> (\<And>x. P x \<Longrightarrow> mem_spec al Q (f x)) \<Longrightarrow> mem_spec al Q (rbind r f)"
  by (cases r) (auto simp: mem_spec_def)

lemma mem_spec_mono: "mem_spec al P r \<Longrightarrow> (\<And>x. P x \<Longrightarrow> Q x) \<Longrightarrow> mem_spec al Q r"
  by (cases r) (auto simp: mem_spec_def)

lemma at_add:
  assumes "lx_at t cs k col lx" and "length t < 2 ^ 31"
  shows "mem_spec al (lx_at (t @ [word_of_nat c]) cs k col) (lex_add_byte al c lx)"
proof -
  let ?v = "lx_vstr lx"
  have v: "vstr_wf ?v" "\<not> vs_fixed ?v" "vstr_bytes ?v = t" using assms(1) by (simp_all add: lx_at_def)
  then have "vs_len ?v = length t" by (auto simp: vstr_bytes_def vstr_wf_def)
  then have sm: "vstr_small 1 ?v" using assms(2) by (simp add: vstr_small_def)
  have "vstr_yields (m_renew al) 1 ?v (vstr_add_byte (m_renew al) (word_of_nat c) ?v) (t @ [word_of_nat c])"
    using mren.add_byte_yields [OF v(1) sm] v(3) by simp
  then show ?thesis
  proof (cases rule: vstr_yieldsE)
    case (1 e)
    then show ?thesis using v(2) by (auto simp: lex_add_byte_def mem_spec_def vstr_room_def m_renew_def split: if_splits)
  next
    case (2 v')
    then show ?thesis using assms(1) v(2) by (simp add: lex_add_byte_def lx_at_def)
  qed
qed


subsection \<open>One character\<close>

lemma hex_digit_unat: "n < 16 \<Longrightarrow> unat (hex_digit n) = (if n < 10 then 48 + n else 87 + n)"
  by (simp add: hex_digit_def unat_of_nat)

lemma hex_digit_value:
  assumes "n < 16"
  shows "unichar_isxdigit (unat (hex_digit n)) \<and> unichar_xdigit_value (unat (hex_digit n)) = n"
proof -
  have x: "unichar_isxdigit (unat (hex_digit n))" using assms by (auto simp: hex_digit_unat unichar_iff)
  then show ?thesis using xdigit_value [OF x] assms by (simp add: hex_digit_unat)
qed

lemma get_hex_quoted:
  assumes "lx_at t (120 # unat (hex_digit (unat (c :: byte) div 16)) # unat (hex_digit (unat c mod 16)) # cs) k col lx"
  shows "\<exists>l. get_hex 2 0 lx = (Some (unat c), l) \<and> lx_at t (unat (hex_digit (unat c mod 16)) # cs) k col l"
proof -
  have c: "unat c < 256" by simp
  then have d: "unat c div 16 < 16" by linarith
  then have w: "wrap32 (unat c div 16) = unat c div 16" by simp
  let ?a = "next_char lx" and ?b = "next_char (next_char lx)"
  have h: "lx_at t (unat (hex_digit (unat c mod 16)) # cs) k col ?b" by (rule at_next [OF at_next [OF assms]])
  have ch: "chr0 ?a = unat (hex_digit (unat c div 16))" "chr0 ?b = unat (hex_digit (unat c mod 16))"
    using at_chr0 [OF at_next [OF assms]] at_chr0 [OF h] by blast+
  have x: "unichar_isxdigit (chr0 ?a)" "unichar_isxdigit (chr0 ?b)" "unichar_xdigit_value (chr0 ?a) = unat c div 16"
    "unichar_xdigit_value (chr0 ?b) = unat c mod 16"
    unfolding ch using hex_digit_value [OF d] hex_digit_value [of "unat c mod 16"] by simp_all
  have "get_hex 2 0 lx = (Some (wrap32 (wrap32 (unat c div 16 * 16) + unat c mod 16)), ?b)"
    unfolding Suc_1 [symmetric] get_hex.simps Let_def One_nat_def using x w by simp
  moreover have e: "unat c div 16 * 16 + unat c mod 16 = unat c" by simp
  moreover have "wrap32 (unat c div 16 * 16) = unat c div 16 * 16" using d by (intro wrap32_less) simp
  moreover have "wrap32 (unat c) = unat c" by (rule wrap32_less) (rule order_less_trans [OF c], simp)
  ultimately show ?thesis using h by simp
qed

lemma quoted_char_cases:
  assumes "q = 39 \<or> q = 34"
  obtains (escape) e where "quoted_char b q c = [92, e]" "e = 92 \<and> c = 92 \<or> e = 39 \<and> c = 39 \<or> e = 34 \<and> c = 34 \<or>
      e = 110 \<and> c = 10 \<or> e = 114 \<and> c = 13 \<or> e = 116 \<and> c = 9"
  | (plain) "quoted_char b q c = [c]" "c \<noteq> q" "c \<noteq> 92" "c \<ge> 32"
  | (hex) "quoted_char b q c = [92, 120, hex_digit (unat c div 16), hex_digit (unat c mod 16)]"
proof -
  define p where "p \<longleftrightarrow> c \<ge> 32 \<and> c \<noteq> 127 \<and> (\<not> b \<or> c < 128)"
  have eq: "quoted_char b q c = (if c = q then [92, q] else if c = 92 then [92, 92] else if p then [c]
      else if c = 10 then [92, 110] else if c = 13 then [92, 114] else if c = 9 then [92, 116]
      else [92, 120, hex_digit (unat c div 16), hex_digit (unat c mod 16)])"
    by (simp add: quoted_char_def p_def)
  consider "c = q" | "c = 92" | "c \<noteq> q" "c \<noteq> 92" p | "c = 10" "\<not> p" | "c = 13" "\<not> p" | "c = 9" "\<not> p"
    | "c \<noteq> q" "c \<noteq> 92" "\<not> p" "c \<noteq> 10" "c \<noteq> 13" "c \<noteq> 9" by blast
  then show ?thesis
  proof cases
    case 3
    then show ?thesis by (intro plain) (simp_all add: eq p_def)
  next
    case 7
    then show ?thesis by (intro hex) (simp add: eq)
  qed (use assms escape [of 92] escape [of 39] escape [of 34] escape [of 110] escape [of 114] escape [of 116] in \<open>auto simp: quoted_char_def\<close>)
qed

text \<open>A printed character is read back as itself.\<close>

lemma string_char_quoted:
  assumes at: "lx_at t (map unat (quoted_char b q c) @ cs) k col lx" and q: "q = 39 \<or> q = 34" and len: "length t < 2 ^ 31"
  shows "mem_spec al (\<lambda>l. lx_at (t @ [c]) cs k col (next_char l)) (string_char al False lx)"
proof -
  have add: "mem_spec al (\<lambda>l. lx_at (t @ [c]) cs k col (next_char l)) (lex_add_byte al (unat c) l)" if "lx_at t (d # cs) k col l" for d l
    by (rule mem_spec_mono [OF at_add [OF that len]]) (use at_next in force)
  from q show ?thesis
  proof (cases rule: quoted_char_cases [of q b c])
    case (escape e)
    have l: "lx_at t (unat e # cs) k col (next_char lx)" "chr0 lx = 92" "chr0 (next_char lx) = unat e"
      using at at_chr0 [of t 92 "unat e # cs" k col lx] at_chr0 [of t "unat e" cs k col "next_char lx"]
        at_next [of t 92 "unat e # cs" k col lx] unfolding escape(1) by auto
    have "escape_char al (unat e) (next_char lx) = Inr (unat c, next_char lx)"
      using escape(2) by (auto simp: escape_char_def)
    then show ?thesis using add [OF l(1)] l(2,3) byte_not_eof [of c] by (simp add: string_char_def is_char_def Let_def)
  next
    case plain
    have l: "lx_at t (unat c # cs) k col lx" using at by (simp add: plain(1))
    have "unat c \<noteq> 92" using plain(3) word_unat_eq_iff [of c 92] by simp
    then show ?thesis using add [OF l] at_chr0 [OF l] by (simp add: string_char_def is_char_def)
  next
    case hex
    let ?h = "unat (hex_digit (unat c div 16)) # unat (hex_digit (unat c mod 16)) # cs"
    have l: "lx_at t (92 # 120 # ?h) k col lx" using at by (simp add: hex)
    note n = at_next [OF l]
    obtain m where m: "get_hex 2 0 (next_char lx) = (Some (unat c), m)" "lx_at t (unat (hex_digit (unat c mod 16)) # cs) k col m"
      using get_hex_quoted [OF n] by blast
    have "escape_char al 120 (next_char lx) = Inr (unat c, m)" using m(1) by (simp add: escape_char_def)
    then show ?thesis using add [OF m(2)] at_chr0 [OF l] at_chr0 [OF n] byte_not_eof [of c]
      by (simp add: string_char_def is_char_def Let_def)
  qed
qed

subsection \<open>A literal\<close>

lemma quoted_head:
  assumes "q = 39 \<or> q = 34"
  obtains d r where "map unat (quoted_char b q c) = d # r" "d \<noteq> unat q" "d \<noteq> 10"
using assms
proof (cases rule: quoted_char_cases [of q b c])
  case plain
  then have "unat c \<noteq> 10" by (auto simp: word_le_nat_alt)
  then show ?thesis using plain that word_unat_eq_iff [of c q] by simp
qed (use assms that in auto)

lemma string_loop_quoted:
  assumes "lx_at t (map unat (concat (map (quoted_char b q) s)) @ unat q # cs) k col lx" and q: "q = 39 \<or> q = 34"
    and "length t + length s < 2 ^ 31"
  shows "mem_spec al (\<lambda>(n, l). n = 1 \<and> lx_at (t @ s @ [q]) cs k col l) (string_loop al False (unat q) 1 0 lx)"
  using assms(1,3)
proof (induction s arbitrary: t lx)
  case Nil
  then have at: "lx_at t (unat q # cs) k col lx" by simp
  have q10: "unat q \<noteq> 10" using q by auto
  have "mem_spec al (\<lambda>(n, l). n = 1 \<and> lx_at (t @ [q]) cs k col l)
      (rbind (lex_add_byte al (unat q) lx) (\<lambda>l. string_loop al False (unat q) 1 (0 + 1) (next_char l)))"
  proof (rule mem_spec_bind [OF at_add [OF at]])
    show "length t < 2 ^ 31" using Nil.prems(2) by simp
    fix l
    assume "lx_at (t @ [word_of_nat (unat q)]) (unat q # cs) k col l"
    then have "lx_at (t @ [q]) cs k col (next_char l)" using at_next by force
    then show "mem_spec al (\<lambda>(n, l). n = 1 \<and> lx_at (t @ [q]) cs k col l) (string_loop al False (unat q) 1 (0 + 1) (next_char l))"
      by (subst string_loop.simps) simp
  qed
  then show ?case using at_chr0 [OF at] q10
    by (subst string_loop.simps) (simp add: is_char_def lex_add_char_byte)
next
  case (Cons c s)
  obtain d r where d: "map unat (quoted_char b q c) = d # r" "d \<noteq> unat q" "d \<noteq> 10" using quoted_head [OF q] by blast
  let ?cs = "map unat (concat (map (quoted_char b q) s)) @ unat q # cs"
  have at: "lx_at t (map unat (quoted_char b q c) @ ?cs) k col lx" using Cons.prems(1) by simp
  have ch: "chr0 lx = d" "\<not> is_end lx" using at_chr0 [of t d "r @ ?cs" k col lx] at d(1) by auto
  have "mem_spec al (\<lambda>(n, l). n = 1 \<and> lx_at (t @ (c # s) @ [q]) cs k col l)
      (rbind (string_char al False lx) (\<lambda>l. string_loop al False (unat q) 1 0 (next_char l)))"
  proof (rule mem_spec_bind [OF string_char_quoted [OF at q]])
    show "length t < 2 ^ 31" using Cons.prems(2) by simp
    show "mem_spec al (\<lambda>(n, l). n = 1 \<and> lx_at (t @ (c # s) @ [q]) cs k col l) (string_loop al False (unat q) 1 0 (next_char l))"
      if "lx_at (t @ [c]) ?cs k col (next_char l)" for l
      using Cons.IH [OF that] Cons.prems(2) by simp
  qed
  then show ?case using ch d(2,3) by (subst string_loop.simps) (simp add: is_char_def)
qed

lemma parse_quoted:
  assumes at: "lx_at [] (unat q # map unat (concat (map (quoted_char b q) s)) @ unat q # 10 # cs) k col lx"
    and q: "q = 39 \<or> q = 34" and len: "length s < 2 ^ 31"
  shows "mem_spec al (lx_at s (10 # cs) k col) (parse_string_literal al False lx)"
proof -
  let ?body = "map unat (concat (map (quoted_char b q) s)) @ unat q # 10 # cs"
  have qc: "(if is_char lx 34 then 34 else 39) = unat q" using at_chr0 [OF at] q by (auto simp: is_char_def)
  have at1: "lx_at [] ?body k col (next_char lx)" by (rule at_next [OF at])
  have single: "\<not> is_char_and (next_char lx) (unat q) (unat q)"
  proof (cases s)
    case Nil
    then show ?thesis using at_chr1 [of "[]" "unat q" 10 cs k col "next_char lx"] at1 q by (auto simp: is_char_and_def)
  next
    case (Cons c s')
    obtain d r where d: "map unat (quoted_char b q c) = d # r" "d \<noteq> unat q" "d \<noteq> 10" by (rule quoted_head [OF q, of b c])
    have "lx_at [] (d # r @ map unat (concat (map (quoted_char b q) s')) @ unat q # 10 # cs) k col (next_char lx)"
      using at1 d(1) Cons by simp
    note at_chr0 [OF this]
    then show ?thesis using d(2) by (auto simp: is_char_and_def)
  qed
  have cut: "lx_at s (10 # cs) k col (l\<lparr>lx_vstr := vstr_cut_tail_bytes 1 (lx_vstr l)\<rparr>)" if "lx_at (s @ [q]) (10 # cs) k col l" for l
  proof -
    have v: "vstr_wf (lx_vstr l)" "vstr_bytes (lx_vstr l) = s @ [q]" using that by (simp_all add: lx_at_def)
    have "length (vstr_bytes (lx_vstr l)) = vs_len (lx_vstr l)" using v(1) by (simp add: vstr_bytes_def vstr_wf_def)
    then have "vs_len (lx_vstr l) = length s + 1" using v(2) by simp
    then show ?thesis using that cut_tail_wf [OF v(1), of 1] v(2) by (simp add: lx_at_def)
  qed
  have "mem_spec al (lx_at s (10 # cs) k col) (rbind (string_loop al False (unat q) 1 0 (next_char lx))
      (\<lambda>(n_closing, lx). let lx = (if n_closing < 1 then lx\<lparr>tok_kind := MP_TOKEN_LONELY_STRING_OPEN\<rparr> else lx)
        in Inr (lx\<lparr>lx_vstr := vstr_cut_tail_bytes n_closing (lx_vstr lx)\<rparr>)))"
    by (rule mem_spec_bind [OF string_loop_quoted [OF at1 q]]) (use len cut in \<open>auto simp: Let_def\<close>)
  then show ?thesis unfolding parse_string_literal_def Let_def qc using single by simp
qed

subsection \<open>The whole source\<close>

lemma unix_newlines_id: "13 \<notin> set cs \<Longrightarrow> unix_newlines cs = cs"
  by (induction cs rule: unix_newlines.induct) auto

lemma source_chars_plain: "13 \<notin> set src \<Longrightarrow> src \<noteq> [] \<Longrightarrow> last src \<noteq> 10 \<Longrightarrow> source_chars src = map unat src @ [10]"
proof -
  assume a: "13 \<notin> set src" "src \<noteq> []" "last src \<noteq> 10"
  have "unat x \<noteq> 13" if "x \<in> set src" for x using a(1) that word_unat_eq_iff [of x 13] by auto
  then have "13 \<notin> unat ` set src" by auto
  moreover have "unat (last src) \<noteq> 10" using a(3) word_unat_eq_iff [of "last src" 10] by simp
  ultimately show ?thesis using a(2) by (simp add: source_chars_def unix_newlines_id last_map)
qed

lemma quoted_no_cr:
  assumes "q = 39 \<or> q = 34"
  shows "13 \<notin> set (quoted_char b q c)"
  using assms
proof (cases rule: quoted_char_cases [of q b c])
  case plain
  then show ?thesis by auto
next
  case hex
  have h: "hex_digit n \<noteq> 13" if "n < 16" for n using hex_digit_unat [OF that] by (auto split: if_splits)
  have "unat c < 256" by simp
  then have "unat c div 16 < 16" "unat c mod 16 < 16" by (linarith, simp)
  note this [THEN h]
  then show ?thesis unfolding hex by auto
qed auto

text \<open>The quote that was chosen, and the characters of a printed literal.\<close>

definition repr_quote :: "byte list \<Rightarrow> byte" where
  "repr_quote s = (case quote_scan s False False of (single, double) \<Rightarrow> if single \<and> \<not> double then 34 else 39)"

lemma repr_quote: "repr_quote s = 39 \<or> repr_quote s = 34"
  by (simp add: repr_quote_def split: prod.splits)

lemma print_quoted: "mp_str_print_quoted s b = repr_quote s # concat (map (quoted_char b (repr_quote s)) s) @ [repr_quote s]"
  by (simp add: mp_str_print_quoted_def repr_quote_def Let_def split: prod.splits)

lemma repr_chars:
  "source_chars (str_print b PRINT_REPR s) = (if b then [98] else []) @ unat (repr_quote s) #
    map unat (concat (map (quoted_char b (repr_quote s)) s)) @ [unat (repr_quote s), 10]"
proof -
  have q: "repr_quote s \<noteq> 13" "repr_quote s \<noteq> 10" using repr_quote [of s] by auto
  then have "13 \<notin> set (str_print b PRINT_REPR s)" using quoted_no_cr [OF repr_quote] by (auto simp: str_print_def print_quoted lit_def)
  moreover have "str_print b PRINT_REPR s \<noteq> []" "last (str_print b PRINT_REPR s) \<noteq> 10"
    using q(2) by (simp_all add: str_print_def print_quoted)
  ultimately show ?thesis by (subst source_chars_plain) (simp_all add: str_print_def print_quoted lit_def)
qed

lemma at_line_end:
  assumes "lx_at t [10] k col lx"
  shows "snd (skip_whitespace True lx) = lx" and "\<not> is_string_or_bytes lx"
proof -
  have c: "chr0 lx = 10" "\<not> is_end lx" "nested_bracket_level lx = 0"
    using at_chr0 [OF assms] assms by (simp_all add: lx_at_def)
  then show "snd (skip_whitespace True lx) = lx"
    unfolding skip_whitespace_def by (subst skip_whitespace_from.simps) (simp add: is_physical_newline_def)
  show "\<not> is_string_or_bytes lx" using c(1) by (simp add: is_string_or_bytes_def is_char_or_def is_char_or3_def is_char_and_def)
qed

lemma string_tokens_repr:
  assumes at: "lx_at [] (source_chars (str_print b PRINT_REPR s)) MP_TOKEN_END col lx" and len: "length s < 2 ^ 31"
  shows "mem_spec al (lx_at s [10] (if b then MP_TOKEN_BYTES else MP_TOKEN_STRING) col) (string_tokens al lx)"
proof -
  let ?q = "repr_quote s" and ?k = "if b then MP_TOKEN_BYTES else MP_TOKEN_STRING" and ?n = "if b then 1 else 0 :: nat"
  let ?chars = "unat ?q # map unat (concat (map (quoted_char b ?q) s)) @ [unat ?q, 10]"
  have a: "lx_at [] ((if b then [98] else []) @ ?chars) MP_TOKEN_END col lx" using at by (simp add: repr_chars)
  have c: "chr0 lx = (if b then 98 else unat ?q)" "b \<Longrightarrow> chr1 lx = unat ?q" "\<not> is_end lx" "tok_kind lx = MP_TOKEN_END"
    using at_chr0 [of "[]" "if b then 98 else unat ?q"] at_chr1 [of "[]" 98 "unat ?q"] a by (auto simp: lx_at_def split: if_splits)
  have p: "string_prefix lx = (False, ?k, ?n)"
    using c(1,2) repr_quote [of s] by (auto simp: string_prefix_def is_char_def is_char_following_def)
  let ?l = "lx\<lparr>tok_kind := ?k\<rparr>"
  have "lx_at [] ((if b then [98] else []) @ ?chars) ?k col ?l" by (rule at_kind [OF a])
  then have "lx_at [] ?chars ?k col (if b then next_char ?l else ?l)" by (cases b) (simp_all only: if_True if_False append.simps at_next)
  then have parse: "mem_spec al (lx_at s [10] ?k col) (parse_string_literal al False (if b then next_char ?l else ?l))"
    by (intro parse_quoted [OF _ repr_quote len]) simp
  have "string_token al False ?n ?l =
      rbind (parse_string_literal al False (if b then next_char ?l else ?l)) (\<lambda>lx. Inr (snd (skip_whitespace True lx)))"
    by (simp add: string_token_def)
  then have "mem_spec al (lx_at s [10] ?k col) (string_token al False ?n ?l)"
    using mem_spec_bind [OF parse] at_line_end(1) by (metis mem_spec_Inr)
  then have "mem_spec al (lx_at s [10] ?k col) (rbind (string_token al False ?n ?l)
      (\<lambda>lx'. if is_string_or_bytes lx' \<and> \<not> is_end lx then string_tokens al lx' else Inr lx'))"
    by (rule mem_spec_bind) (simp add: at_line_end)
  then show ?thesis using c(4) by (subst string_tokens.simps) (simp add: p)
qed

lemma first_repr_token:
  assumes v: "vstr_wf v" "\<not> vs_fixed v" and len: "length s < 2 ^ 31"
  shows "mem_spec al (lx_at s [10] (if b then MP_TOKEN_BYTES else MP_TOKEN_STRING) 1)
    (mp_lexer_to_next al optimise (lexer_start \<lparr>rm_buf = str_print b PRINT_REPR s, rm_cur = 0\<rparr> entries v))"
proof -
  let ?q = "repr_quote s" and ?s = "lexer_start \<lparr>rm_buf = str_print b PRINT_REPR s, rm_cur = 0\<rparr> entries v"
  define l where "l = ?s\<lparr>lx_vstr := vstr_reset (lx_vstr ?s)\<rparr>"
  define m where "m = l\<lparr>tok_line := lx_line l, tok_column := lx_column l\<rparr>"
  have o: "emit_dent l = 0" "nested_bracket_level l = 0" "lx_vstr l = vstr_reset v"
    unfolding l_def by (simp_all add: lexer_start_def)
  have f: "lx_column l = 1" "chars_ok l" "stream l = source_chars (str_print b PRINT_REPR s)"
    unfolding l_def by (simp_all add: chars_ok_start stream_start start_position)
  have a: "lx_at [] (source_chars (str_print b PRINT_REPR s)) MP_TOKEN_END 1 (m\<lparr>tok_kind := MP_TOKEN_END\<rparr>)"
    using o f reset_wf [OF v(1)] v(2) by (simp add: lx_at_def m_def)
  have c: "chr0 l = (if b then 98 else unat ?q)" "b \<Longrightarrow> chr1 l = unat ?q" "\<not> is_end l"
    using f(3) by (auto simp: repr_chars stream_def is_end_def split: if_splits)
  have q: "unat ?q = 39 \<or> unat ?q = 34" using repr_quote [of s] by auto
  have w: "skip_whitespace False l = (False, l)"
    unfolding skip_whitespace_def using c q
    by (subst skip_whitespace_from.simps) (auto simp: is_physical_newline_def is_whitespace_def is_char_def is_char_and_def unichar_iff)
  have st: "is_string_or_bytes m" "\<not> is_end m" "emit_dent m = 0"
    using c q o(1) by (auto simp: m_def is_string_or_bytes_def is_char_or_def is_char_or3_def is_char_following_or_def is_end_def)
  have "mp_lexer_to_next al optimise ?s = string_tokens al (m\<lparr>tok_kind := MP_TOKEN_END\<rparr>)"
    unfolding mp_lexer_to_next_def Let_def l_def [symmetric] w prod.case m_def [symmetric] using st by simp
  then show ?thesis using string_tokens_repr [OF a len] by simp
qed

text \<open>
  C38. Printing and tokenising strings are inverse: the representation of a string or of a bytes object
  (whatever bytes it holds: quotes, backslashes, control characters, NUL or bytes above 127) is a source
  whose first token is a string or a bytes literal with exactly the bytes of the object as its text, and only
  the line end is left behind it. Nothing but a lack of memory prevents it.
\<close>

theorem repr_roundtrip:
  assumes "length s < 2 ^ 28"
  shows "case mp_lexer_new_from_str_len al optimise (str_print is_bytes PRINT_REPR s) of
      Inl e \<Rightarrow> e = MemoryError \<and> (\<exists>n. al n = None)
    | Inr lx \<Rightarrow> tok_kind lx = (if is_bytes then MP_TOKEN_BYTES else MP_TOKEN_STRING) \<and>
        vstr_bytes (lx_vstr lx) = s \<and> stream lx = [10]"
proof -
  let ?src = "str_print is_bytes PRINT_REPR s" and ?k = "if is_bytes then MP_TOKEN_BYTES else MP_TOKEN_STRING"
  have "mem_spec al (lx_at s [10] ?k 1) (mp_lexer_new_from_str_len al optimise ?src)"
  proof (cases rule: lexer_new_cases [of al optimise ?src])
    case (lexer entries v)
    let ?s = "lexer_start \<lparr>rm_buf = ?src, rm_cur = 0\<rparr> entries v"
    have "mem_spec al (lx_at s [10] ?k 1) (mp_lexer_to_next al optimise ?s)"
      by (rule first_repr_token) (use lexer assms in simp_all)
    then show ?thesis unfolding lexer(4) by (rule mem_spec_bind) (simp add: lx_at_def)
  qed (auto simp: mem_spec_def)
  then show ?thesis by (auto simp: mem_spec_def lx_at_def split: sum.splits)
qed

theorem repr_roundtrip_witness:
  "case mp_lexer_new_from_str_len (\<lambda>n. Some (\<lambda>_. 0)) 0 (str_print True PRINT_REPR [39, 0, 34, 255, 92]) of
      Inl e \<Rightarrow> False
    | Inr lx \<Rightarrow> tok_kind lx = MP_TOKEN_BYTES \<and> vstr_bytes (lx_vstr lx) = [39, 0, 34, 255, 92]"
  using repr_roundtrip [where s = "[39, 0, 34, 255, 92]" and al = "\<lambda>n. Some (\<lambda>_. 0)" and optimise = 0 and is_bytes = True] by (auto split: sum.splits)

end
