(* ===== verification/Small_Int.thy ===== *)
theory Small_Int
  imports Vstr "HOL-Library.Signed_Division"
begin

unbundle bit_operations_syntax

text \<open>
  Small integers: their object words (\<^verbatim>\<open>py/obj.h\<close>, \<^verbatim>\<open>py/smallint.h\<close>), the checked arithmetic of
  \<^verbatim>\<open>py/smallint.c\<close>, and the branches of \<^verbatim>\<open>mp_unary_op\<close> and \<^verbatim>\<open>mp_binary_op\<close> (\<^verbatim>\<open>py/runtime.c\<close>) for small
  integers. The port has no long integers, so what does not fit raises. A \<^verbatim>\<open>mp_int_t\<close> is an integer
  of 32 bits; \<open>int32_of\<close> is written where the C code relies on the width.
\<close>

subsection \<open>Object words\<close>

definition MP_SMALL_INT_MIN :: int where
  "MP_SMALL_INT_MIN = - (2 ^ 30)"

definition MP_SMALL_INT_MAX :: int where
  "MP_SMALL_INT_MAX = NOT MP_SMALL_INT_MIN"

definition MP_SMALL_INT_FITS :: "int \<Rightarrow> bool" where
  "MP_SMALL_INT_FITS n \<longleftrightarrow> (let w = word_of_int n :: 32 word in (w XOR push_bit 1 w) AND 0x80000000 = 0)"

definition MP_OBJ_NEW_SMALL_INT :: "int \<Rightarrow> 32 word" where
  "MP_OBJ_NEW_SMALL_INT small_int = push_bit 1 (word_of_int small_int) OR 1"

definition MP_OBJ_SMALL_INT_VALUE :: "32 word \<Rightarrow> int" where
  "MP_OBJ_SMALL_INT_VALUE o' = drop_bit 1 (sint o')"

text \<open>The objects that the operators return: the word of a small integer, a boolean, a pair or a float.\<close>

datatype 'f obj_value = IntObj "32 word" | BoolObj bool | TupleObj2 "32 word" "32 word" | FloatObj 'f

definition mp_obj_new_int :: "int \<Rightarrow> 'f obj_value result" where
  "mp_obj_new_int v = (if MP_SMALL_INT_FITS v then Inr (IntObj (MP_OBJ_NEW_SMALL_INT v)) else Inl OverflowError)"

definition mp_obj_new_int_from_ll :: "int \<Rightarrow> 'f obj_value result" where
  "mp_obj_new_int_from_ll v = Inl OverflowError"

subsection \<open>Checked arithmetic\<close>

text \<open>Division and remainder of C round towards zero: \<open>sdiv\<close> and \<open>smod\<close>.\<close>

definition mp_small_int_mul_overflow :: "int \<Rightarrow> int \<Rightarrow> bool" where
  "mp_small_int_mul_overflow x y =
    (if x > 0 then
       if y > 0 then x > MP_SMALL_INT_MAX sdiv y else y < MP_SMALL_INT_MIN sdiv x
     else
       if y > 0 then x < MP_SMALL_INT_MIN sdiv y else x \<noteq> 0 \<and> y < MP_SMALL_INT_MAX sdiv x)"

definition mp_small_int_modulo :: "int \<Rightarrow> int \<Rightarrow> int" where
  "mp_small_int_modulo dividend divisor =
    (let dividend = dividend smod divisor in
     if dividend < 0 \<and> divisor > 0 \<or> dividend > 0 \<and> divisor < 0 then int32_of (dividend + divisor) else dividend)"

definition mp_small_int_floor_divide :: "int \<Rightarrow> int \<Rightarrow> int" where
  "mp_small_int_floor_divide num denom =
    (let num =
       (if num \<ge> 0 then if denom < 0 then int32_of (num + (- denom - 1)) else num
        else if denom \<ge> 0 then int32_of (num + (- denom + 1)) else num)
     in num sdiv denom)"

subsection \<open>Operators\<close>

datatype mp_unary_op_t =
    MP_UNARY_OP_POSITIVE | MP_UNARY_OP_NEGATIVE | MP_UNARY_OP_INVERT | MP_UNARY_OP_NOT | MP_UNARY_OP_BOOL
  | MP_UNARY_OP_LEN | MP_UNARY_OP_HASH | MP_UNARY_OP_ABS | MP_UNARY_OP_INT | MP_UNARY_OP_SIZEOF

text \<open>The thirteen arithmetic operations occur three times in the enumeration: in place, plain and reversed.\<close>

datatype arith_op =
    OP_OR | OP_XOR | OP_AND | OP_LSHIFT | OP_RSHIFT | OP_ADD | OP_SUBTRACT | OP_MULTIPLY | OP_MAT_MULTIPLY
  | OP_FLOOR_DIVIDE | OP_TRUE_DIVIDE | OP_MODULO | OP_POWER

datatype mp_binary_op_t =
    MP_BINARY_OP_LESS | MP_BINARY_OP_MORE | MP_BINARY_OP_EQUAL | MP_BINARY_OP_LESS_EQUAL | MP_BINARY_OP_MORE_EQUAL
  | MP_BINARY_OP_NOT_EQUAL | MP_BINARY_OP_IN | MP_BINARY_OP_IS | MP_BINARY_OP_EXCEPTION_MATCH
  | MP_BINARY_OP_INPLACE arith_op | MP_BINARY_OP arith_op | MP_BINARY_OP_DIVMOD | MP_BINARY_OP_CONTAINS
  | MP_BINARY_OP_REVERSE arith_op | MP_BINARY_OP_NOT_IN | MP_BINARY_OP_IS_NOT

text \<open>\<^verbatim>\<open>mp_unary_op\<close> on a small integer; the last branch asserts that the operator is the inversion.\<close>

definition mp_unary_op :: "mp_unary_op_t \<Rightarrow> 32 word \<Rightarrow> 'f obj_value result" where
  "mp_unary_op op arg =
    (if op = MP_UNARY_OP_NOT then Inr (BoolObj (arg = MP_OBJ_NEW_SMALL_INT 0))
     else let val = MP_OBJ_SMALL_INT_VALUE arg in
       case op of
         MP_UNARY_OP_BOOL \<Rightarrow> Inr (BoolObj (val \<noteq> 0))
       | MP_UNARY_OP_HASH \<Rightarrow> Inr (IntObj arg)
       | MP_UNARY_OP_POSITIVE \<Rightarrow> Inr (IntObj arg)
       | MP_UNARY_OP_INT \<Rightarrow> Inr (IntObj arg)
       | MP_UNARY_OP_NEGATIVE \<Rightarrow>
           if val = MP_SMALL_INT_MIN then mp_obj_new_int (- val) else Inr (IntObj (MP_OBJ_NEW_SMALL_INT (- val)))
       | MP_UNARY_OP_ABS \<Rightarrow>
           if val \<ge> 0 then Inr (IntObj arg)
           else if val = MP_SMALL_INT_MIN then mp_obj_new_int (- val)
           else Inr (IntObj (MP_OBJ_NEW_SMALL_INT (- val)))
       | _ \<Rightarrow> Inr (IntObj (MP_OBJ_NEW_SMALL_INT (NOT val))))"

text \<open>The loop of the power by squaring; \<open>None\<close> is the jump to \<^verbatim>\<open>power_overflow\<close>.\<close>

function power_loop :: "int \<Rightarrow> int \<Rightarrow> int \<Rightarrow> int option" where
  "power_loop ans lhs_val rhs_val =
    (if rhs_val > 0 then
       if odd rhs_val \<and> mp_small_int_mul_overflow ans lhs_val then None
       else
         let ans = (if odd rhs_val then ans * lhs_val else ans) in
         if rhs_val = 1 then Some ans
         else if mp_small_int_mul_overflow lhs_val lhs_val then None
         else power_loop ans (lhs_val * lhs_val) (rhs_val div 2)
     else Some ans)"
  by pat_completeness auto
termination by (relation "measure (\<lambda>(a, l, r). nat r)") auto

declare power_loop.simps [simp del]

text \<open>
  The switch over the arithmetic operations. Floating-point results come from two functions: the quotient
  \<open>fdiv\<close> of two integers as floats, and \<open>fpow\<close> for \<^verbatim>\<open>mp_obj_float_binary_op\<close> on a negative power. A float object
  has two words and a pair four, which the allocator may refuse.
\<close>

definition check_int :: "int \<Rightarrow> 'f obj_value result" where
  "check_int v = (if MP_SMALL_INT_FITS v then Inr (IntObj (MP_OBJ_NEW_SMALL_INT v)) else mp_obj_new_int_from_ll v)"

definition small_int_arith ::
  "allocator \<Rightarrow> (int \<Rightarrow> int \<Rightarrow> 'f) \<Rightarrow> (int \<Rightarrow> int \<Rightarrow> 'f obj_value result) \<Rightarrow> arith_op \<Rightarrow> int \<Rightarrow> int \<Rightarrow> 'f obj_value result" where
  "small_int_arith al fdiv fpow op lhs_val rhs_val =
    (case op of
       OP_OR \<Rightarrow> check_int (lhs_val OR rhs_val)
     | OP_XOR \<Rightarrow> check_int (lhs_val XOR rhs_val)
     | OP_AND \<Rightarrow> check_int (lhs_val AND rhs_val)
     | OP_LSHIFT \<Rightarrow>
         if rhs_val < 0 then Inl ValueError
         else if rhs_val \<ge> 32 \<or> lhs_val > drop_bit (nat rhs_val) MP_SMALL_INT_MAX
           \<or> lhs_val < drop_bit (nat rhs_val) MP_SMALL_INT_MIN then mp_obj_new_int_from_ll lhs_val
         else check_int (int32_of (push_bit (nat rhs_val) lhs_val))
     | OP_RSHIFT \<Rightarrow>
         if rhs_val < 0 then Inl ValueError
         else check_int (drop_bit (nat (if rhs_val \<ge> 32 then 31 else rhs_val)) lhs_val)
     | OP_ADD \<Rightarrow> check_int (int32_of (lhs_val + rhs_val))
     | OP_SUBTRACT \<Rightarrow> check_int (int32_of (lhs_val - rhs_val))
     | OP_MULTIPLY \<Rightarrow>
         if mp_small_int_mul_overflow lhs_val rhs_val then mp_obj_new_int_from_ll lhs_val
         else Inr (IntObj (MP_OBJ_NEW_SMALL_INT (lhs_val * rhs_val)))
     | OP_FLOOR_DIVIDE \<Rightarrow>
         if rhs_val = 0 then Inl ZeroDivisionError else check_int (mp_small_int_floor_divide lhs_val rhs_val)
     | OP_TRUE_DIVIDE \<Rightarrow> if rhs_val = 0 then Inl ZeroDivisionError
         else (case al 8 of None \<Rightarrow> Inl MemoryError | Some _ \<Rightarrow> Inr (FloatObj (fdiv lhs_val rhs_val)))
     | OP_MODULO \<Rightarrow>
         if rhs_val = 0 then Inl ZeroDivisionError else check_int (mp_small_int_modulo lhs_val rhs_val)
     | OP_POWER \<Rightarrow>
         if rhs_val < 0 then fpow lhs_val rhs_val
         else (case power_loop 1 lhs_val rhs_val of
                 None \<Rightarrow> mp_obj_new_int_from_ll lhs_val
               | Some ans \<Rightarrow> check_int ans)
     | OP_MAT_MULTIPLY \<Rightarrow> Inl TypeError)"

text \<open>\<^verbatim>\<open>mp_binary_op\<close> on two small integers.\<close>

definition mp_binary_op ::
  "allocator \<Rightarrow> (int \<Rightarrow> int \<Rightarrow> 'f) \<Rightarrow> (int \<Rightarrow> int \<Rightarrow> 'f obj_value result) \<Rightarrow> mp_binary_op_t \<Rightarrow> 32 word \<Rightarrow> 32 word \<Rightarrow> 'f obj_value result" where
  "mp_binary_op al fdiv fpow op lhs rhs =
    (let lhs_val = MP_OBJ_SMALL_INT_VALUE lhs; rhs_val = MP_OBJ_SMALL_INT_VALUE rhs in
     case op of
       MP_BINARY_OP_IS \<Rightarrow> Inr (BoolObj (lhs = rhs))
     | MP_BINARY_OP_EQUAL \<Rightarrow> Inr (BoolObj (lhs = rhs))
     | MP_BINARY_OP_NOT_EQUAL \<Rightarrow> Inr (BoolObj (lhs \<noteq> rhs))
     | MP_BINARY_OP_INPLACE a \<Rightarrow> small_int_arith al fdiv fpow a lhs_val rhs_val
     | MP_BINARY_OP a \<Rightarrow> small_int_arith al fdiv fpow a lhs_val rhs_val
     | MP_BINARY_OP_DIVMOD \<Rightarrow>
         if rhs_val = 0 then Inl ZeroDivisionError
         else (case al 16 of None \<Rightarrow> Inl MemoryError
           | Some _ \<Rightarrow> Inr (TupleObj2 (MP_OBJ_NEW_SMALL_INT (mp_small_int_floor_divide lhs_val rhs_val))
               (MP_OBJ_NEW_SMALL_INT (mp_small_int_modulo lhs_val rhs_val))))
     | MP_BINARY_OP_LESS \<Rightarrow> Inr (BoolObj (lhs_val < rhs_val))
     | MP_BINARY_OP_MORE \<Rightarrow> Inr (BoolObj (lhs_val > rhs_val))
     | MP_BINARY_OP_LESS_EQUAL \<Rightarrow> Inr (BoolObj (lhs_val \<le> rhs_val))
     | MP_BINARY_OP_MORE_EQUAL \<Rightarrow> Inr (BoolObj (lhs_val \<ge> rhs_val))
     | _ \<Rightarrow> Inl TypeError)"

subsection \<open>The words of small integers\<close>

definition small :: "int \<Rightarrow> bool" where
  "small v \<longleftrightarrow> - (2 ^ 30) \<le> v \<and> v < 2 ^ 30"

lemma small_bounds: "MP_SMALL_INT_MIN = - 1073741824" "MP_SMALL_INT_MAX = 1073741823"
  by (simp_all add: MP_SMALL_INT_MIN_def MP_SMALL_INT_MAX_def not_int_def)

lemma new_small_int_word: "MP_OBJ_NEW_SMALL_INT v = word_of_int (2 * v + 1)"
proof -
  have "push_bit 1 (word_of_int v :: 32 word) = word_of_int (2 * v)" by (simp add: push_bit_eq_mult)
  moreover have "(word_of_int (2 * v) :: 32 word) OR 1 = word_of_int ((2 * v) OR 1)"
    using of_int_or_eq [of "2 * v" 1, where 'a = "32 word"] by simp
  moreover have "(2 * v) OR 1 = 2 * v + 1" by (simp add: or_one_eq)
  ultimately show ?thesis by (simp only: MP_OBJ_NEW_SMALL_INT_def)
qed

lemma sint_word_of_int: "- (2 ^ 31) \<le> x \<Longrightarrow> x < 2 ^ 31 \<Longrightarrow> sint (word_of_int x :: 32 word) = x"
  by (simp add: signed_of_int signed_take_bit_int_eq_self)

lemma small_int_value_new: "small v \<Longrightarrow> MP_OBJ_SMALL_INT_VALUE (MP_OBJ_NEW_SMALL_INT v) = v"
  unfolding MP_OBJ_SMALL_INT_VALUE_def new_small_int_word
  by (subst sint_word_of_int) (simp_all add: small_def drop_bit_eq_div)

lemma new_small_int_inj: "small v \<Longrightarrow> small w \<Longrightarrow> MP_OBJ_NEW_SMALL_INT v = MP_OBJ_NEW_SMALL_INT w \<longleftrightarrow> v = w"
  using small_int_value_new by metis

lemma small_int_fits:
  assumes "- (2 ^ 31) \<le> n" and "n < 2 ^ 31"
  shows "MP_SMALL_INT_FITS n \<longleftrightarrow> small n"
proof -
  let ?w = "word_of_int n :: 32 word"
  have "MP_SMALL_INT_FITS n \<longleftrightarrow> \<not> bit (?w XOR push_bit 1 ?w) 31"
    unfolding MP_SMALL_INT_FITS_def Let_def using and_exp_eq_0_iff_not_bit [of "?w XOR push_bit 1 ?w" 31] by simp
  also have "\<dots> \<longleftrightarrow> (bit ?w 31 = bit ?w 30)" unfolding bit_xor_iff by (subst bit_push_bit_iff) simp
  also have "\<dots> \<longleftrightarrow> (bit n 31 = bit n 30)" by (simp add: bit_simps)
  also have "\<dots> \<longleftrightarrow> (odd (n div 2 ^ 31) = odd (n div 2 ^ 30))" by (simp add: bit_iff_odd)
  also have "\<dots> \<longleftrightarrow> small n"
  proof -
    consider "- (2 ^ 31) \<le> n" "n < - (2 ^ 30)" | "- (2 ^ 30) \<le> n" "n < 0" | "0 \<le> n" "n < 2 ^ 30" | "2 ^ 30 \<le> n" "n < 2 ^ 31"
      using assms by linarith
    then show ?thesis
    proof cases
      case 1
      have "n div 2147483648 = - 1" "n div 1073741824 = - 2"
        using 1 int_div_pos_eq [of n 2147483648 "- 1" "n + 2147483648"] int_div_pos_eq [of n 1073741824 "- 2" "n + 2147483648"] by simp_all
      then show ?thesis using 1 by (simp add: small_def)
    next
      case 2
      have "n div 2147483648 = - 1" "n div 1073741824 = - 1"
        using 2 int_div_pos_eq [of n 2147483648 "- 1" "n + 2147483648"] int_div_pos_eq [of n 1073741824 "- 1" "n + 1073741824"] by simp_all
      then show ?thesis using 2 by (simp add: small_def)
    next
      case 3
      then show ?thesis by (simp add: small_def)
    next
      case 4
      have "n div 2147483648 = 0" "n div 1073741824 = 1"
        using 4 int_div_pos_eq [of n 1073741824 1 "n - 1073741824"] by simp_all
      then show ?thesis using 4 by (simp add: small_def)
    qed
  qed
  finally show ?thesis .
qed

subsection \<open>Arithmetic\<close>

lemma int32_of_small:
  assumes "- (2 ^ 31) \<le> x" and "x < 2 ^ 31"
  shows "int32_of x = x"
proof (cases "x < 0")
  case True
  have "x mod 4294967296 = x + 4294967296" 
    using True assms int_mod_pos_eq [of x 4294967296 "- 1" "x + 4294967296"] by simp
  then show ?thesis using True assms by (simp add: int32_of_def Let_def)
qed (use assms in \<open>simp add: int32_of_def Let_def\<close>)

lemma sdiv_pos: "0 \<le> (a :: int) \<Longrightarrow> 0 < b \<Longrightarrow> a sdiv b = a div b"
  by (cases "a = 0") (simp_all add: signed_divide_int_def)

lemma sdiv_neg: "(a :: int) < 0 \<Longrightarrow> 0 < b \<Longrightarrow> a sdiv b = - ((- a) div b)" "0 \<le> a \<Longrightarrow> b < 0 \<Longrightarrow> a sdiv b = - (a div (- b))"
  "a < 0 \<Longrightarrow> b < 0 \<Longrightarrow> a sdiv b = (- a) div (- b)"
  by (auto simp: signed_divide_int_def sgn_if)

lemma le_div:
  assumes "0 < (y :: int)"
  shows "a \<le> b div y \<longleftrightarrow> a * y \<le> b"
proof
  assume "a \<le> b div y"
  then have "a * y \<le> b div y * y" using assms by (simp add: mult_right_mono)
  then show "a * y \<le> b" using assms by (metis add_increasing2 div_mult_mod_eq order_trans pos_mod_sign add.commute le_add_same_cancel1)
next
  assume "a * y \<le> b"
  then show "a \<le> b div y" using zdiv_mono1 [of "a * y" b y] assms by simp
qed

text \<open>The check of a product.\<close>

lemma mul_overflow_iff:
  assumes "small x" and "small y"
  shows "mp_small_int_mul_overflow x y \<longleftrightarrow> \<not> small (x * y)"
proof -
  consider "x = 0 \<or> y = 0" | "x > 0" "y > 0" | "x > 0" "y < 0" | "x < 0" "y > 0" | "x < 0" "y < 0" by linarith
  then show ?thesis
  proof cases
    case 1
    have "\<not> (1073741824 :: int) div z < 0" "\<not> (1073741823 :: int) div z < 0" if "0 < z" for z
      using that by (simp_all add: not_less pos_imp_zdiv_nonneg_iff)
    then show ?thesis using 1 by (auto simp: mp_small_int_mul_overflow_def small_bounds small_def sdiv_neg sdiv_pos)
  next
    case 2
    then show ?thesis using le_div [OF 2(2), of x 1073741823]
      by (simp add: mp_small_int_mul_overflow_def small_bounds small_def sdiv_pos not_le) (use mult_pos_pos [OF 2] in linarith)
  next
    case 3
    then show ?thesis using le_div [OF 3(1), of "- y" 1073741824] mult_pos_neg [OF 3]
      by (simp add: mp_small_int_mul_overflow_def small_bounds small_def sdiv_neg sdiv_pos mult.commute) linarith
  next
    case 4
    then show ?thesis using le_div [OF 4(2), of "- x" 1073741824] mult_neg_pos [OF 4]
      by (simp add: mp_small_int_mul_overflow_def small_bounds small_def sdiv_neg sdiv_pos) linarith
  next
    case 5
    then have "0 < - x" by simp
    then show ?thesis using le_div [of "- x" "- y" 1073741823] mult_neg_neg [OF 5] 5
      by (simp add: mp_small_int_mul_overflow_def small_bounds small_def sdiv_neg mult.commute) linarith
  qed
qed

text \<open>Python's remainder and quotient round downwards.\<close>

lemma small_modulo:
  assumes "small a" and "small b" and "b \<noteq> 0"
  shows "mp_small_int_modulo a b = a mod b"
proof -
  define r where "r = sgn a * (\<bar>a\<bar> mod \<bar>b\<bar>)"
  have "\<bar>r\<bar> < \<bar>b\<bar>" using assms(3) by (simp add: r_def abs_mult sgn_if)
  moreover have "\<bar>b\<bar> \<le> 2 ^ 30" using assms(2) by (auto simp: small_def)
  ultimately have w: "int32_of (r + b) = r + b" by (intro int32_of_small) auto
  have "a mod b = (if r < 0 \<and> b > 0 \<or> r > 0 \<and> b < 0 then r + b else r)"
  proof -
    consider "a \<ge> 0" "b > 0" | "a \<ge> 0" "b < 0" | "a < 0" "b > 0" | "a < 0" "b < 0" using assms(3) by linarith
    then show ?thesis
    proof cases
      case 1
      then have r: "a mod b = r" "0 \<le> r" by (auto simp: r_def sgn_if)
      then show ?thesis using 1 unfolding r(1) by auto
    next
      case 2
      define m where "m = a mod (- b)"
      have "r = m" "0 \<le> m" using 2 by (auto simp: r_def sgn_if m_def)
      moreover have "a mod b = (if m = 0 then 0 else m + b)" using zmod_zminus2_eq_if [of a "- b"] by (simp add: m_def)
      ultimately show ?thesis using 2 by auto
    next
      case 3
      define m where "m = (- a) mod b"
      have "r = - m" "0 \<le> m" using 3 by (auto simp: r_def sgn_if m_def)
      moreover have "a mod b = (if m = 0 then 0 else b - m)" using zmod_zminus1_eq_if [of "- a" b] by (simp add: m_def)
      ultimately show ?thesis using 3 by auto
    next
      case 4
      have r: "a mod b = r" "r \<le> 0" using neg_mod_sign [OF 4(2), of a] 4 by (auto simp: r_def sgn_if mod_minus_minus)
      then show ?thesis using 4 unfolding r(1) by auto
    qed
  qed
  then show ?thesis unfolding mp_small_int_modulo_def Let_def signed_modulo_int_def r_def [symmetric] using w by simp
qed

lemma ceil_div:
  assumes "0 < (c :: int)"
  shows "(a + c - 1) div c = a div c + (if a mod c = 0 then 0 else 1)"
proof -
  have m: "0 \<le> a mod c" "a mod c < c" using assms by simp_all
  have "a + c - 1 = (a div c) * c + (a mod c + c - 1)" by simp
  then have "(a + c - 1) div c = a div c + (a mod c + c - 1) div c" using assms by (metis div_mult_self3 less_irrefl)
  moreover have e: "a mod c + c - 1 = a mod c - 1 + c" by simp
  have "(a mod c + c - 1) div c = (if a mod c = 0 then 0 else 1)"
    unfolding e using m div_pos_pos_trivial [of "c - 1" c] div_pos_pos_trivial [of "a mod c - 1" c] div_add_self2 [of c "a mod c - 1"] by auto
  ultimately show ?thesis by simp
qed

lemma small_floor_divide:
  assumes "small a" and "small b" and "b \<noteq> 0"
  shows "mp_small_int_floor_divide a b = a div b"
proof -
  have w: "int32_of (a + (- b - 1)) = a + (- b - 1)" if "a \<ge> 0" "b < 0" using that assms by (intro int32_of_small) (auto simp: small_def)
  have w': "int32_of (a + (- b + 1)) = a + (- b + 1)" if "a < 0" "b > 0" using that assms by (intro int32_of_small) (auto simp: small_def)
  consider "a \<ge> 0" "b > 0" | "a \<ge> 0" "b < 0" | "a < 0" "b > 0" | "a < 0" "b < 0" using assms(3) by linarith
  then show ?thesis
  proof cases
    case 1
    then show ?thesis by (simp add: mp_small_int_floor_divide_def sdiv_pos)
  next
    case 2
    then have "mp_small_int_floor_divide a b = - ((a + (- b) - 1) div (- b))"
      using w by (simp add: mp_small_int_floor_divide_def sdiv_neg) (simp add: algebra_simps)
    also have "\<dots> = a div b" using ceil_div [of "- b" a] 2 zdiv_zminus2_eq_if [of "- b" a] by simp
    finally show ?thesis .
  next
    case 3
    then have "mp_small_int_floor_divide a b = - ((- a + b - 1) div b)"
      using w' by (simp add: mp_small_int_floor_divide_def sdiv_neg) (simp add: algebra_simps)
    also have "\<dots> = a div b" using ceil_div [of b "- a"] 3 zdiv_zminus1_eq_if [of b "- a"] by simp
    finally show ?thesis .
  next
    case 4
    then show ?thesis by (simp add: mp_small_int_floor_divide_def sdiv_neg)
  qed
qed

subsection \<open>The power\<close>

lemma not_small_mult:
  assumes "\<not> small x" and "1 \<le> s"
  shows "\<not> small (x * s)"
proof (cases "x < 0")
  case True
  then have "x * s \<le> x * 1" using assms(2) by (intro mult_left_mono_neg) simp_all
  then show ?thesis using assms(1) True unfolding small_def by linarith
next
  case False
  then have "x * 1 \<le> x * s" using assms(2) by (intro mult_left_mono) simp_all
  then show ?thesis using assms(1) False unfolding small_def by linarith
qed

lemma not_small_square:
  assumes "\<not> small (l * l)" and "a \<noteq> 0" and "a \<noteq> - 1" and "1 \<le> q"
  shows "\<not> small (a * (l * l) ^ q)"
proof -
  have l: "2 ^ 30 \<le> l * l" using assms(1) zero_le_square [of l] by (auto simp: small_def)
  obtain p where q: "q = Suc p" using assms(4) by (cases q) auto
  have "1 \<le> (l * l) ^ p" using l by (intro one_le_power) simp
  then have "l * l * 1 \<le> l * l * (l * l) ^ p" using l by (intro mult_left_mono) simp_all
  then have s: "2 ^ 30 \<le> (l * l) ^ q" using l q by simp
  consider "1 \<le> a" | "a \<le> - 2" using assms(2,3) by linarith
  then show ?thesis
  proof cases
    case 1
    then have "1 * (l * l) ^ q \<le> a * (l * l) ^ q" using s by (intro mult_right_mono) simp_all
    then show ?thesis using s unfolding small_def by linarith
  next
    case 2
    then have "a * (l * l) ^ q \<le> - 2 * (l * l) ^ q" using s by (intro mult_right_mono) simp_all
    then show ?thesis using s unfolding small_def by linarith
  qed
qed

lemma power_step_sign:
  assumes "1 < \<bar>l * (l :: int)\<bar>" and "l \<noteq> 0 \<longrightarrow> a \<noteq> 0" and "1 < \<bar>l\<bar> \<longrightarrow> a \<noteq> - 1"
  shows "a * l \<noteq> - 1 \<and> a \<noteq> - 1"
proof -
  have l: "1 < \<bar>l\<bar>"
  proof (rule ccontr)
    assume "\<not> 1 < \<bar>l\<bar>"
    then have "l = - 1 \<or> l = 0 \<or> l = 1" by arith
    then show False using assms(1) by auto
  qed
  moreover have "a * l \<noteq> - 1"
  proof
    assume "a * l = - 1"
    then have "\<bar>l\<bar> dvd 1" by (metis abs_dvd_iff dvd_minus_iff dvd_triv_right)
    then show False using l by simp
  qed
  ultimately show ?thesis using assms(3) by blast
qed

text \<open>The power by squaring finds the power, or that it does not fit.\<close>

lemma power_loop_exact:
  assumes "small a" and "small l" and "0 \<le> r" and "l \<noteq> 0 \<longrightarrow> a \<noteq> 0" and "1 < \<bar>l\<bar> \<longrightarrow> a \<noteq> - 1"
  shows "power_loop a l r = (if small (a * l ^ nat r) then Some (a * l ^ nat r) else None)"
  using assms
proof (induction a l r rule: power_loop.induct)
  case (1 a l r)
  define a' where "a' = (if odd r then a * l else a)"
  have "nat r = (if odd r then 1 else 0) + 2 * nat (r div 2)" if "0 \<le> r" using that by (auto elim!: oddE evenE simp: nat_mult_distrib nat_add_distrib)
  then have t: "a * l ^ nat r = a' * (l * l) ^ nat (r div 2)"
    using 1(4) by (cases "odd r") (simp_all add: a'_def power_add power_mult power2_eq_square)
  have sq: "1 \<le> (l * l) ^ k" if "l \<noteq> 0" for k
    using that zero_le_square [of l] by (intro one_le_power) (metis le_less mult_eq_0_iff zless_imp_add1_zle add.left_neutral)
  show ?case
  proof (cases "r > 0")
    case True
    show ?thesis
    proof (cases "odd r \<and> mp_small_int_mul_overflow a l")
      case over: True
      then have n: "\<not> small a'" using mul_overflow_iff [OF 1(2,3)] by (simp add: a'_def)
      then have "l \<noteq> 0" using over by (auto simp: a'_def small_def)
      then show ?thesis using not_small_mult [OF n sq] over True unfolding t by (simp add: power_loop.simps [of a l r])
    next
      case fits: False
      then have a': "small a'" using mul_overflow_iff [OF 1(2,3)] 1(2) by (auto simp: a'_def)
      have one: "a * l ^ nat r = a'" if "r = 1" using that by (simp add: a'_def)
      have inv: "l * l \<noteq> 0 \<longrightarrow> a' \<noteq> 0" "1 < \<bar>l * l\<bar> \<longrightarrow> a' \<noteq> - 1"
        using 1(5,6) power_step_sign [of l a] by (auto simp: a'_def)
      have step: "power_loop a l r = (if r = 1 then Some a' else if mp_small_int_mul_overflow l l then None
          else power_loop a' (l * l) (r div 2))"
        unfolding power_loop.simps [of a l r] if_P [OF True] if_not_P [OF fits] by (simp add: a'_def Let_def)
      show ?thesis
      proof (cases "r = 1")
        case False
        then have q: "1 \<le> nat (r div 2)" "0 \<le> r div 2" using True by auto
        show ?thesis
        proof (cases "mp_small_int_mul_overflow l l")
          case big: True
          then have n: "\<not> small (l * l)" using mul_overflow_iff [OF 1(3,3)] by simp
          then have "2 ^ 30 \<le> l * l" using zero_le_square [of l] unfolding small_def by linarith
          then have "1 < l * l" by (rule less_le_trans [rotated]) simp
          moreover from this have "1 < \<bar>l * l\<bar>" by (rule less_le_trans) (rule abs_ge_self)
          ultimately have l: "l * l \<noteq> 0" "1 < \<bar>l * l\<bar>" by linarith+
          show ?thesis using not_small_square [OF n _ _ q(1), of a'] inv l step False big unfolding t by simp
        next
          case fit: False
          then have "small (l * l)" using mul_overflow_iff [OF 1(3,3)] by simp
          note IH = 1(1) [OF True fits a'_def False fit a' this q(2) inv]
          show ?thesis unfolding t step using IH False fit by simp
        qed
      qed (use one a' step in simp)
    qed
  qed (use 1(2,4) in \<open>simp add: power_loop.simps\<close>)
qed

subsection \<open>Integer operations of the language\<close>

text \<open>What the operators mean: integers without bounds, of which those of 31 bits have an object.\<close>

datatype 'f py_value = PyInt int | PyBool bool | PyPair int int | PyFloat 'f

fun decode :: "'f obj_value \<Rightarrow> 'f py_value" where
  "decode (IntObj w) = PyInt (MP_OBJ_SMALL_INT_VALUE w)"
| "decode (BoolObj b) = PyBool b"
| "decode (TupleObj2 v w) = PyPair (MP_OBJ_SMALL_INT_VALUE v) (MP_OBJ_SMALL_INT_VALUE w)"
| "decode (FloatObj f) = PyFloat f"

definition decode_result :: "'f obj_value result \<Rightarrow> 'f py_value result" where
  "decode_result r = map_sum id decode r"

definition py_int :: "int \<Rightarrow> 'f py_value result" where
  "py_int v = (if small v then Inr (PyInt v) else Inl OverflowError)"

lemma decode_result_simps [simp]: "decode_result (Inl e) = Inl e" "decode_result (Inr x) = Inr (decode x)"
  by (simp_all add: decode_result_def)

lemma decode_check: "- (2 ^ 31) \<le> v \<Longrightarrow> v < 2 ^ 31 \<Longrightarrow> decode_result (check_int v) = py_int v"
  by (simp add: check_int_def py_int_def small_int_fits small_int_value_new mp_obj_new_int_from_ll_def)

lemma decode_new_int: "- (2 ^ 31) \<le> v \<Longrightarrow> v < 2 ^ 31 \<Longrightarrow> decode_result (mp_obj_new_int v) = py_int v"
  by (simp add: mp_obj_new_int_def py_int_def small_int_fits small_int_value_new)

lemma small_bits: "small a \<Longrightarrow> small b \<Longrightarrow> small (a OR b) \<and> small (a AND b) \<and> small (a XOR b)"
proof -
  have "small v \<longleftrightarrow> signed_take_bit 30 v = v" for v by (simp add: small_def signed_take_bit_int_eq_self_iff)
  then have s: "small v \<longleftrightarrow> (\<forall>n. bit v (min 30 n) = bit v n)" for v by (simp add: bit_eq_iff bit_signed_take_bit_iff)
  show "small a \<Longrightarrow> small b \<Longrightarrow> ?thesis" unfolding s by (simp add: bit_or_iff bit_and_iff bit_xor_iff)
qed

lemma small_range: "small v \<Longrightarrow> - (2 ^ 31) \<le> v" "small v \<Longrightarrow> v < 2 ^ 31"
  by (simp_all add: small_def)

definition py_arith ::
  "allocator \<Rightarrow> (int \<Rightarrow> int \<Rightarrow> 'f) \<Rightarrow> (int \<Rightarrow> int \<Rightarrow> 'f obj_value result) \<Rightarrow> arith_op \<Rightarrow> int \<Rightarrow> int \<Rightarrow> 'f py_value result" where
  "py_arith al fdiv fpow op a b =
    (case op of
       OP_OR \<Rightarrow> Inr (PyInt (a OR b))
     | OP_XOR \<Rightarrow> Inr (PyInt (a XOR b))
     | OP_AND \<Rightarrow> Inr (PyInt (a AND b))
     | OP_LSHIFT \<Rightarrow> if b < 0 then Inl ValueError else if b \<ge> 32 then Inl OverflowError else py_int (a * 2 ^ nat b)
     | OP_RSHIFT \<Rightarrow> if b < 0 then Inl ValueError else Inr (PyInt (a div 2 ^ nat b))
     | OP_ADD \<Rightarrow> py_int (a + b)
     | OP_SUBTRACT \<Rightarrow> py_int (a - b)
     | OP_MULTIPLY \<Rightarrow> py_int (a * b)
     | OP_FLOOR_DIVIDE \<Rightarrow> if b = 0 then Inl ZeroDivisionError else py_int (a div b)
     | OP_TRUE_DIVIDE \<Rightarrow>
         if b = 0 then Inl ZeroDivisionError else if al 8 = None then Inl MemoryError else Inr (PyFloat (fdiv a b))
     | OP_MODULO \<Rightarrow> if b = 0 then Inl ZeroDivisionError else Inr (PyInt (a mod b))
     | OP_POWER \<Rightarrow> if b < 0 then decode_result (fpow a b) else py_int (a ^ nat b)
     | OP_MAT_MULTIPLY \<Rightarrow> Inl TypeError)"

lemma decode_small: "small v \<Longrightarrow> decode_result (check_int v) = Inr (PyInt v)"
  using decode_check [of v] small_range [of v] by (simp add: py_int_def)

lemma lshift_bounds:
  assumes "0 < (y :: int)" and "y \<le> 2 ^ 30 \<or> y = 2 ^ 31"
  shows "a > MP_SMALL_INT_MAX div y \<or> a < MP_SMALL_INT_MIN div y \<Longrightarrow> \<not> small (a * y)"
    and "\<not> (a > MP_SMALL_INT_MAX div y \<or> a < MP_SMALL_INT_MIN div y) \<Longrightarrow> - (2 ^ 31) \<le> a * y \<and> a * y < 2 ^ 31"
proof -
  have up: "a \<le> MP_SMALL_INT_MAX div y \<longleftrightarrow> a * y \<le> 1073741823" using le_div [OF assms(1)] by (simp add: small_bounds)
  have low: "a + 1 \<le> MP_SMALL_INT_MIN div y \<longleftrightarrow> a * y + y \<le> - 1073741824"
    using le_div [OF assms(1), of "a + 1" "- 1073741824"] by (simp add: small_bounds algebra_simps)
  show "\<not> small (a * y)" if "a > MP_SMALL_INT_MAX div y \<or> a < MP_SMALL_INT_MIN div y"
    using that up low assms(1) by (auto simp: small_def)
  have "- (2 ^ 31) \<le> a * y" if "MP_SMALL_INT_MIN div y \<le> a"
  proof -
    have m: "MP_SMALL_INT_MIN div y * y \<le> a * y" using that assms(1) by (intro mult_right_mono) simp_all
    have "MP_SMALL_INT_MIN div y * y = - 1073741824 - MP_SMALL_INT_MIN mod y" by (simp add: minus_mod_eq_div_mult [symmetric] small_bounds)
    moreover have "MP_SMALL_INT_MIN mod y < y" using assms(1) by simp
    moreover have "MP_SMALL_INT_MIN mod y = 1073741824" if "y = 2 ^ 31" using that by (simp add: small_bounds)
    ultimately show ?thesis using m assms(2) by auto
  qed
  then show "\<not> (a > MP_SMALL_INT_MAX div y \<or> a < MP_SMALL_INT_MIN div y) \<Longrightarrow> - (2 ^ 31) \<le> a * y \<and> a * y < 2 ^ 31"
    using up by auto
qed

lemma small_lshift:
  assumes "small a" and "0 \<le> b"
  shows "decode_result (small_int_arith al fdiv fpow OP_LSHIFT a b) = py_arith al fdiv fpow OP_LSHIFT a b"
proof (cases "b \<ge> 32")
  case False
  define y :: int where "y = 2 ^ nat b"
  have "nat b \<le> 30 \<or> nat b = 31" using False assms(2) by linarith
  then have y: "0 < y" "y \<le> 2 ^ 30 \<or> y = 2 ^ 31" using power_increasing [of "nat b" 30 "2 :: int"] by (auto simp: y_def)
  note def = small_int_arith_def py_arith_def drop_bit_eq_div push_bit_eq_mult mp_obj_new_int_from_ll_def py_int_def
  show ?thesis
  proof (cases "a > MP_SMALL_INT_MAX div y \<or> a < MP_SMALL_INT_MIN div y")
    case True
    then show ?thesis using False assms(2) lshift_bounds(1) [OF y True] by (simp add: def y_def)
  next
    case fit: False
    have r: "- (2 ^ 31) \<le> a * y" "a * y < 2 ^ 31" using lshift_bounds(2) [OF y fit] by simp_all
    show ?thesis using fit False assms(2) int32_of_small [OF r] decode_check [OF r] by (simp add: def y_def)
  qed
qed (use assms(2) in \<open>simp add: small_int_arith_def py_arith_def mp_obj_new_int_from_ll_def\<close>)

lemma small_div:
  assumes "small a" and "0 < (y :: int)"
  shows "small (a div y)"
proof -
  have y: "1 * 2 ^ 30 \<le> y * 2 ^ 30" using assms(2) by (intro mult_right_mono) simp_all
  have "- (2 ^ 30) \<le> a div y" "\<not> 2 ^ 30 \<le> a div y"
    unfolding le_div [OF assms(2)] using assms(1) y by (simp_all add: small_def)
  then show ?thesis by (simp add: small_def)
qed

lemma small_shifted_out:
  assumes "small a" and "30 \<le> n"
  shows "a div 2 ^ n = (if a < 0 then - 1 else 0)"
proof -
  have n: "(2 :: int) ^ 30 \<le> 2 ^ n" using assms(2) by (intro power_increasing) simp_all
  show ?thesis
  proof (cases "a < 0")
    case True
    then show ?thesis using assms(1) n int_div_pos_eq [of a "2 ^ n" "- 1" "a + 2 ^ n"] by (simp add: small_def)
  next
    case False
    then show ?thesis using assms(1) n by (simp add: small_def div_pos_pos_trivial)
  qed
qed

lemma small_rshift:
  assumes "small a" and "0 \<le> b"
  shows "decode_result (small_int_arith al fdiv fpow OP_RSHIFT a b) = py_arith al fdiv fpow OP_RSHIFT a b"
proof -
  have "decode_result (check_int (a div 2 ^ n)) = Inr (PyInt (a div 2 ^ n))" for n
    using small_div [OF assms(1)] by (intro decode_small) simp
  moreover have "a div 2 ^ 31 = a div 2 ^ nat b" if "b \<ge> 32"
    using small_shifted_out [OF assms(1), of 31] small_shifted_out [OF assms(1), of "nat b"] that by simp
  ultimately show ?thesis using assms(2) by (simp add: small_int_arith_def py_arith_def drop_bit_eq_div)
qed

lemma small_remainder:
  assumes "small a" and "small b" and "b \<noteq> 0"
  shows "small (a mod b)"
proof (cases "b > 0")
  case True
  then show ?thesis using assms(2) pos_mod_sign [of b a] pos_mod_bound [of b a] unfolding small_def by linarith
next
  case False
  then show ?thesis using assms(2,3) neg_mod_sign [of b a] neg_mod_bound [of b a] unfolding small_def by linarith
qed

lemma small_quotient:
  assumes "small a" and "small b" and "b \<noteq> 0" and "\<not> (a = MP_SMALL_INT_MIN \<and> b = - 1)"
  shows "small (a div b)"
proof (cases "b > 0")
  case True
  then show ?thesis by (rule small_div [OF assms(1)])
next
  case False
  have q: "a div b = (- a) div (- b)" by simp
  show ?thesis
  proof (cases "a = MP_SMALL_INT_MIN")
    case True
    then have b: "0 < - b" "2 \<le> - b" using False assms(3,4) by linarith+
    define m where "m = 1073741824 div (- b)"
    have "0 \<le> m" "\<not> 1073741824 \<le> m" unfolding m_def using b by (simp_all add: le_div pos_imp_zdiv_nonneg_iff)
    moreover have "a div b = m" unfolding m_def True small_bounds using div_minus_right [of 1073741824 b] by simp
    ultimately show ?thesis by (simp add: small_def)
  next
    case a: False
    have "small (- a)" using a assms(1) by (simp add: small_def small_bounds)
    then show ?thesis unfolding q using False assms(3) by (intro small_div) simp_all
  qed
qed

lemma quotient_range:
  assumes "small a" and "small b" and "b \<noteq> 0"
  shows "- (2 ^ 31) \<le> a div b \<and> a div b < 2 ^ 31"
proof (cases "a = MP_SMALL_INT_MIN \<and> b = - 1")
  case False
  show ?thesis using small_range [OF small_quotient [OF assms False]] by simp
qed (simp add: small_bounds)

lemma small_arith:
  assumes "small a" and "small b"
  shows "decode_result (small_int_arith al fdiv fpow op a b) = py_arith al fdiv fpow op a b"
proof (cases op)
  case OP_LSHIFT
  then show ?thesis using small_lshift [OF assms(1), of b al fdiv fpow]
    by (cases "b < 0") (simp add: small_int_arith_def py_arith_def, simp)
next
  case OP_RSHIFT
  then show ?thesis using small_rshift [OF assms(1), of b al fdiv fpow]
    by (cases "b < 0") (simp add: small_int_arith_def py_arith_def, simp)
next
  case OP_ADD
  have r: "- (2 ^ 31) \<le> a + b" "a + b < 2 ^ 31" using assms by (simp_all add: small_def)
  show ?thesis using OP_ADD decode_check [OF r] int32_of_small [OF r] by (simp add: small_int_arith_def py_arith_def)
next
  case OP_SUBTRACT
  have r: "- (2 ^ 31) \<le> a - b" "a - b < 2 ^ 31" using assms by (simp_all add: small_def)
  show ?thesis using OP_SUBTRACT decode_check [OF r] int32_of_small [OF r] by (simp add: small_int_arith_def py_arith_def)
next
  case OP_MULTIPLY
  then show ?thesis using mul_overflow_iff [OF assms] small_int_value_new
    by (simp add: small_int_arith_def py_arith_def py_int_def mp_obj_new_int_from_ll_def)
next
  case OP_FLOOR_DIVIDE
  then show ?thesis using small_floor_divide [OF assms] quotient_range [OF assms]
    by (cases "b = 0") (simp_all add: small_int_arith_def py_arith_def decode_check)
next
  case OP_MODULO
  then show ?thesis using small_modulo [OF assms] small_remainder [OF assms]
    by (simp add: small_int_arith_def py_arith_def decode_small)
next
  case OP_POWER
  have "power_loop 1 a b = (if small (a ^ nat b) then Some (a ^ nat b) else None)" if "0 \<le> b"
    using power_loop_exact [OF _ assms(1) that, of 1] by (simp add: small_def)
  then show ?thesis using OP_POWER
    by (auto simp: small_int_arith_def py_arith_def py_int_def mp_obj_new_int_from_ll_def decode_small)
next
  case OP_TRUE_DIVIDE
  then show ?thesis by (cases "al 8") (simp_all add: small_int_arith_def py_arith_def)
qed (use small_bits [OF assms] in \<open>simp_all add: small_int_arith_def py_arith_def decode_small\<close>)

text \<open>The operators of the language on two integers, with the quotient of the least integer by -1 wrapped in a pair.\<close>

definition py_binary ::
  "allocator \<Rightarrow> (int \<Rightarrow> int \<Rightarrow> 'f) \<Rightarrow> (int \<Rightarrow> int \<Rightarrow> 'f obj_value result) \<Rightarrow> mp_binary_op_t \<Rightarrow> int \<Rightarrow> int \<Rightarrow> 'f py_value result" where
  "py_binary al fdiv fpow op a b =
    (case op of
       MP_BINARY_OP_LESS \<Rightarrow> Inr (PyBool (a < b))
     | MP_BINARY_OP_MORE \<Rightarrow> Inr (PyBool (a > b))
     | MP_BINARY_OP_LESS_EQUAL \<Rightarrow> Inr (PyBool (a \<le> b))
     | MP_BINARY_OP_MORE_EQUAL \<Rightarrow> Inr (PyBool (a \<ge> b))
     | MP_BINARY_OP_EQUAL \<Rightarrow> Inr (PyBool (a = b))
     | MP_BINARY_OP_NOT_EQUAL \<Rightarrow> Inr (PyBool (a \<noteq> b))
     | MP_BINARY_OP_IS \<Rightarrow> Inr (PyBool (a = b))
     | MP_BINARY_OP_INPLACE o' \<Rightarrow> py_arith al fdiv fpow o' a b
     | MP_BINARY_OP o' \<Rightarrow> py_arith al fdiv fpow o' a b
     | MP_BINARY_OP_DIVMOD \<Rightarrow>
         if b = 0 then Inl ZeroDivisionError
         else if al 16 = None then Inl MemoryError
         else Inr (PyPair (if a = MP_SMALL_INT_MIN \<and> b = - 1 then MP_SMALL_INT_MIN else a div b) (a mod b))
     | _ \<Rightarrow> Inl TypeError)"

definition py_unary :: "mp_unary_op_t \<Rightarrow> int \<Rightarrow> 'f py_value result" where
  "py_unary op a =
    (case op of
       MP_UNARY_OP_NOT \<Rightarrow> Inr (PyBool (a = 0))
     | MP_UNARY_OP_BOOL \<Rightarrow> Inr (PyBool (a \<noteq> 0))
     | MP_UNARY_OP_NEGATIVE \<Rightarrow> py_int (- a)
     | MP_UNARY_OP_ABS \<Rightarrow> py_int \<bar>a\<bar>
     | MP_UNARY_OP_INVERT \<Rightarrow> Inr (PyInt (- a - 1))
     | _ \<Rightarrow> Inr (PyInt a))"

lemma divmod_pair:
  assumes "small a" and "small b" and "b \<noteq> 0"
  shows "MP_OBJ_SMALL_INT_VALUE (MP_OBJ_NEW_SMALL_INT (a div b)) =
    (if a = MP_SMALL_INT_MIN \<and> b = - 1 then MP_SMALL_INT_MIN else a div b)"
proof (cases "a = MP_SMALL_INT_MIN \<and> b = - 1")
  case True
  then show ?thesis by (simp add: small_bounds new_small_int_word MP_OBJ_SMALL_INT_VALUE_def drop_bit_eq_div)
next
  case False
  then show ?thesis using small_int_value_new [OF small_quotient [OF assms]] by auto
qed

lemma binary_op_refines:
  assumes "small a" and "small b"
  shows "decode_result (mp_binary_op al fdiv fpow op (MP_OBJ_NEW_SMALL_INT a) (MP_OBJ_NEW_SMALL_INT b)) = py_binary al fdiv fpow op a b"
proof (cases op)
  case MP_BINARY_OP_DIVMOD
  then show ?thesis using divmod_pair [OF assms] small_int_value_new [OF small_remainder [OF assms]] small_floor_divide [OF assms]
      small_modulo [OF assms] by (cases "al 16") (simp_all add: mp_binary_op_def py_binary_def small_int_value_new assms)
qed (simp_all add: mp_binary_op_def py_binary_def small_int_value_new new_small_int_inj small_arith assms)

lemma unary_op_refines:
  assumes "small a" and "op \<noteq> MP_UNARY_OP_LEN" and "op \<noteq> MP_UNARY_OP_SIZEOF"
  shows "decode_result (mp_unary_op op (MP_OBJ_NEW_SMALL_INT a)) = py_unary op a"
proof -
  have z: "small 0" by (simp add: small_def)
  have n: "decode_result (mp_obj_new_int (- a)) = py_int (- a)" using assms(1) by (intro decode_new_int) (simp_all add: small_def)
  have m: "small (- a)" if "a \<noteq> MP_SMALL_INT_MIN" using that assms(1) by (simp add: small_def small_bounds)
  have i: "small (NOT a)" "NOT a = - a - 1" using assms(1) by (simp_all add: small_def not_int_def)
  show ?thesis
    using assms(2,3) n m i z by (cases op) (auto simp: mp_unary_op_def py_unary_def small_int_value_new new_small_int_inj assms(1) py_int_def)
qed

text \<open>
  C39. Arithmetic on small integers is that of unbounded integers: for every operator and any two integers that
  have an object, the result word decodes to the mathematical result when that fits into 31 bits and is an
  \<^verbatim>\<open>OverflowError\<close> otherwise (products and powers included, which are checked before they are computed), with the
  exceptions for a zero divisor and a negative shift, and quotient and remainder rounded downwards. There are two
  deviations: a left shift by 32 or more raises even for 0, and the pair of \<^verbatim>\<open>divmod\<close> holds a
  quotient that was not checked, which is wrong for the least integer and -1.
\<close>

theorem small_int_ops_exact:
  assumes "small a" and "small b" and "uop \<noteq> MP_UNARY_OP_LEN" and "uop \<noteq> MP_UNARY_OP_SIZEOF"
  shows "decode_result (mp_binary_op al fdiv fpow op (MP_OBJ_NEW_SMALL_INT a) (MP_OBJ_NEW_SMALL_INT b)) = py_binary al fdiv fpow op a b \<and>
    decode_result (mp_unary_op uop (MP_OBJ_NEW_SMALL_INT a)) = py_unary uop a"
  using binary_op_refines [OF assms(1,2)] unary_op_refines [OF assms(1,3,4)] by blast

theorem small_int_ops_exact_witness:
  "decode_result (mp_binary_op (\<lambda>n. Some (\<lambda>_. 0)) (\<lambda>a b. ()) (\<lambda>a b. Inl TypeError) (MP_BINARY_OP OP_POWER)
      (MP_OBJ_NEW_SMALL_INT (- 1024)) (MP_OBJ_NEW_SMALL_INT 3)) = Inr (PyInt (- 1073741824)) \<and>
    decode_result (mp_unary_op MP_UNARY_OP_NEGATIVE (MP_OBJ_NEW_SMALL_INT (- 1024)) :: unit obj_value result) = Inr (PyInt 1024)"
  using small_int_ops_exact [of "- 1024" 3 MP_UNARY_OP_NEGATIVE "\<lambda>n. Some (\<lambda>_. 0)" "\<lambda>a b. ()" "\<lambda>a b. Inl TypeError" "MP_BINARY_OP OP_POWER"]
  by (simp add: small_def py_binary_def py_arith_def py_unary_def py_int_def)

end
