(* ===== verification/Int_Text.thy ===== *)
theory Int_Text
  imports Small_Int Unichar
begin

text \<open>
  Integers as text: the parsing of \<^verbatim>\<open>py/parsenumbase.c\<close> and \<^verbatim>\<open>py/parsenum.c\<close>, which the parser and \<^verbatim>\<open>int\<close>
  call, and the formatting of \<^verbatim>\<open>py/objint.c\<close>.
\<close>

subsection \<open>Parsing\<close>

text \<open>
  The length of the prefix and the base; the string is what is left of the source. The digit 0 is 48, and
  \<open>x\<close>, \<open>o\<close>, \<open>b\<close> are 120, 111, 98.
\<close>

definition mp_parse_num_base :: "byte list \<Rightarrow> nat \<Rightarrow> nat \<times> nat" where
  "mp_parse_num_base str base =
    (let no_prefix = (0, if base = 0 then 10 else base) in
     if length str \<le> 1 then no_prefix
     else let c = unat (str ! 1) OR 32 in
       if (base = 0 \<or> base = 16) \<and> str ! 0 = 48 then
         if c = 120 then (2, 16)
         else if base = 0 \<and> c = 111 then (2, 8)
         else if base = 0 \<and> c = 98 then (2, 2)
         else no_prefix
       else if base = 8 \<and> str ! 0 = 48 then if c \<noteq> 111 then (0, base) else (2, base)
       else if base = 2 \<and> str ! 0 = 48 then if c \<noteq> 98 then (0, base) else (2, base)
       else no_prefix)"

text \<open>The value of a digit, or \<open>None\<close> for another character than a digit or a letter.\<close>

definition digit_value :: "byte \<Rightarrow> nat option" where
  "digit_value c =
    (let dig = unat c in
     if 48 \<le> dig \<and> dig \<le> 57 then Some (dig - 48)
     else let dig = dig OR 0x20 in if 97 \<le> dig \<and> dig \<le> 122 then Some (dig - 87) else None)"

text \<open>The loop over the digits: the value and the rest of the string, or \<open>None\<close> for the jump to
  \<^verbatim>\<open>overflow\<close>. Underscores (95) are skipped.\<close>

fun parse_digits :: "nat \<Rightarrow> int \<Rightarrow> byte list \<Rightarrow> (int \<times> byte list) option" where
  "parse_digits base int_val [] = Some (int_val, [])"
| "parse_digits base int_val (c # s) =
    (if c = 95 then parse_digits base int_val s
     else case digit_value c of
       None \<Rightarrow> Some (int_val, c # s)
     | Some dig \<Rightarrow>
         if dig \<ge> base then Some (int_val, c # s)
         else if mp_small_int_mul_overflow int_val (int base) then None
         else let int_val = int_val * int base + int dig in
           if \<not> MP_SMALL_INT_FITS int_val then None else parse_digits base int_val s)"

definition is_space :: "byte \<Rightarrow> bool" where
  "is_space c = unichar_isspace (unat c)"

text \<open>With a lexer the error is a \<^verbatim>\<open>SyntaxError\<close> (\<^verbatim>\<open>raise_exc\<close>); a long integer cannot be made.\<close>

definition mp_parse_num_integer :: "byte list \<Rightarrow> int \<Rightarrow> bool \<Rightarrow> 32 word result" where
  "mp_parse_num_integer str base lexer =
    (if base \<noteq> 0 \<and> base < 2 \<or> base > 36 then Inl ValueError
     else
       let str = dropWhile is_space str;
           (neg, str) = (case str of [] \<Rightarrow> (False, []) | c # s \<Rightarrow>
              if c = 43 then (False, s) else if c = 45 then (True, s) else (False, c # s));
           (skip, base) = mp_parse_num_base str (nat base);
           start = drop skip str;
           value_error = Inl (if lexer then SyntaxError else ValueError)
       in case parse_digits base 0 start of
            None \<Rightarrow> Inl OverflowError
          | Some (int_val, str) \<Rightarrow>
              let int_val = (if neg then - int_val else int_val) in
              if length str = length start then value_error
              else if dropWhile is_space str \<noteq> [] then value_error
              else Inr (MP_OBJ_NEW_SMALL_INT int_val))"

subsection \<open>Formatting\<close>

definition log_base2_floor :: "nat list" where
  "log_base2_floor = [0, 1, 1, 2, 2, 2, 2, 3, 3, 3, 3, 3, 3, 3, 3, 4]"

definition mp_int_format_size :: "nat \<Rightarrow> nat \<Rightarrow> byte list option \<Rightarrow> byte \<Rightarrow> nat" where
  "mp_int_format_size num_bits base prefix comma =
    (let num_digits = num_bits div log_base2_floor ! (base - 1) + 1;
         num_commas = (if comma \<noteq> 0 then num_digits div 3 else 0);
         prefix_len = (case prefix of None \<Rightarrow> 0 | Some p \<Rightarrow> length p)
     in num_digits + num_commas + prefix_len + 2)"

text \<open>
  The loop that writes the digits from the end of the buffer: \<open>b\<close> is the place of the last character that
  was written and \<open>out\<close> the characters from there on.
\<close>

function format_loop :: "nat \<Rightarrow> byte \<Rightarrow> byte \<Rightarrow> nat \<Rightarrow> nat \<Rightarrow> nat \<Rightarrow> byte list \<Rightarrow> nat \<times> byte list" where
  "format_loop base base_char comma b last_comma num out =
    (let c = num mod base; num = num div base;
         c = (if c \<ge> 10 then c + unat base_char - 10 else c + 48);
         b = b - 1; out = word_of_nat c # out;
         (b, last_comma, out) =
           (if comma \<noteq> 0 \<and> num \<noteq> 0 \<and> b > 0 \<and> last_comma - b = 3 then (b - 1, b - 1, comma # out)
            else (b, last_comma, out))
     in if b > 0 \<and> num \<noteq> 0 then format_loop base base_char comma b last_comma num out else (b, out))"
  by pat_completeness auto
termination by (relation "measure (\<lambda>(_, _, _, b, _, _, _). b)") (auto split: if_splits)

declare format_loop.simps [simp del]

text \<open>The string (without its terminator) and its length. A buffer that is too small is replaced.\<close>

definition mp_obj_int_formatted ::
  "allocator \<Rightarrow> nat \<Rightarrow> 32 word \<Rightarrow> nat \<Rightarrow> byte list option \<Rightarrow> byte \<Rightarrow> byte \<Rightarrow> (byte list \<times> nat) result" where
  "mp_obj_int_formatted al buf_size self_in base prefix base_char comma =
    (let num = MP_OBJ_SMALL_INT_VALUE self_in;
         sign = num < 0;
         num = nat \<bar>num\<bar>;
         needed_size = mp_int_format_size 32 base prefix comma
     in if needed_size > buf_size \<and> al needed_size = None then Inl MemoryError
        else
          let b = needed_size - 1; out = [0];
              (b, out) = (if num = 0 then (b - 1, 48 # out) else format_loop base base_char comma b b num out);
              (b, out) = (case prefix of None \<Rightarrow> (b, out) | Some p \<Rightarrow>
                if b > length p then (b - length p, p @ out) else (b, out));
              (b, out) = (if sign \<and> b > 0 then (b - 1, 45 # out) else (b, out))
          in Inr (butlast out, needed_size - b - 1))"

text \<open>The buffer on the stack has 16 bytes.\<close>

definition mp_obj_int_print :: "allocator \<Rightarrow> 32 word \<Rightarrow> byte list result" where
  "mp_obj_int_print al self_in =
    rbind (mp_obj_int_formatted al 16 self_in 10 None 0 0) (\<lambda>(str, fmt_size). Inr (c_str str))"

subsection \<open>Digits\<close>

function dlist :: "nat \<Rightarrow> nat \<Rightarrow> nat list" where
  "dlist base n = (if n < base \<or> base < 2 then [n] else dlist base (n div base) @ [n mod base])"
  by pat_completeness auto
termination by (relation "measure snd") auto

declare dlist.simps [simp del]

definition digit_char :: "byte \<Rightarrow> nat \<Rightarrow> byte" where
  "digit_char base_char d = word_of_nat (if d \<ge> 10 then d + unat base_char - 10 else d + 48)"

lemma dlist_value:
  assumes "2 \<le> base"
  shows "foldl (\<lambda>a d. a * base + d) 0 (dlist base n) = n"
proof (induction base n rule: dlist.induct)
  case (1 base n)
  then show ?case by (cases "n < base \<or> base < 2") (simp_all add: dlist.simps [of base n])
qed

lemma dlist_digits: "2 \<le> base \<Longrightarrow> list_all (\<lambda>d. d < base) (dlist base n)"
proof (induction base n rule: dlist.induct)
  case (1 base n)
  then show ?case by (cases "n < base") (simp_all add: dlist.simps [of base n])
qed

lemma dlist_head: "2 \<le> base \<Longrightarrow> n \<noteq> 0 \<Longrightarrow> \<exists>d ds. dlist base n = d # ds \<and> d \<noteq> 0"
proof (induction base n rule: dlist.induct)
  case (1 base n)
  show ?case
  proof (cases "n < base")
    case False
    then have "n div base \<noteq> 0" using 1(2) by (simp add: div_eq_0_iff)
    then show ?thesis using 1(1) False 1(2) by (auto simp: dlist.simps [of base n])
  qed (use 1(3) in \<open>simp add: dlist.simps [of base n]\<close>)
qed

lemma dlist_length: "2 \<le> base \<Longrightarrow> n < base ^ Suc m \<Longrightarrow> length (dlist base n) \<le> Suc m"
proof (induction m arbitrary: n)
  case 0
  then show ?case by (simp add: dlist.simps [of base n])
next
  case (Suc m)
  show ?case
  proof (cases "n < base")
    case False
    have "n div base < base ^ Suc m" using Suc.prems by (simp add: less_mult_imp_div_less mult.commute)
    then show ?thesis using Suc.IH [OF Suc.prems(1)] False Suc.prems(1) by (simp add: dlist.simps [of base n])
  qed (simp add: dlist.simps [of base n])
qed

lemma dlist_pos: "0 < length (dlist base n)"
  by (simp add: dlist.simps [of base n])

lemma format_loop_digits:
  assumes "2 \<le> base" and "length (dlist base n) \<le> b"
  shows "format_loop base base_char 0 b last_comma n out = (b - length (dlist base n), map (digit_char base_char) (dlist base n) @ out)"
  using assms
proof (induction base n arbitrary: b out rule: dlist.induct)
  case (1 base n)
  have step: "format_loop base base_char 0 b last_comma n out =
      (if b - 1 > 0 \<and> n div base \<noteq> 0 then format_loop base base_char 0 (b - 1) last_comma (n div base) (digit_char base_char (n mod base) # out)
       else (b - 1, digit_char base_char (n mod base) # out))"
    by (subst format_loop.simps) (simp add: Let_def digit_char_def)
  show ?case
  proof (cases "n < base")
    case True
    then show ?thesis unfolding step by (simp add: dlist.simps [of base n])
  next
    case False
    then have d: "dlist base n = dlist base (n div base) @ [n mod base]" using 1(2) by (simp add: dlist.simps [of base n])
    have q: "n div base \<noteq> 0" using False 1(2) by (simp add: div_eq_0_iff)
    have b: "length (dlist base (n div base)) \<le> b - 1" "b - 1 > 0"
      using 1(3) d dlist_pos [of base "n div base"] by (simp_all del: length_greater_0_conv)
    show ?thesis unfolding step using 1(1) [OF _ 1(2) b(1)] False 1(2) q b(2) d by simp
  qed
qed

text \<open>A digit is read back, and the value is that of the digits unless it does not fit.\<close>

lemma digit_value_char:
  assumes "d < 16" and "base_char = 97 \<or> base_char = 65"
  shows "digit_value (digit_char base_char d) = Some d \<and> digit_char base_char d \<noteq> 95 \<and> \<not> is_space (digit_char base_char d) \<and>
    digit_char base_char d \<noteq> 43 \<and> digit_char base_char d \<noteq> 45 \<and> (d \<noteq> 0 \<longrightarrow> digit_char base_char d \<noteq> 48)"
proof -
  have "d \<in> {0, 1, 2, 3, 4, 5, 6, 7, 8, 9, 10, 11, 12, 13, 14, 15}" using assms(1) unfolding insert_iff empty_iff by arith
  then show ?thesis using assms(2)
    by (elim insertE) (auto simp: digit_char_def digit_value_def Let_def is_space_def unichar_iff)
qed

lemma foldl_mono: "(v :: int) \<ge> 0 \<Longrightarrow> 1 \<le> base \<Longrightarrow> v \<le> foldl (\<lambda>a d. a * int base + int d) v ds"
proof (induction ds arbitrary: v)
  case (Cons d ds)
  have "v * 1 \<le> v * int base" using Cons.prems by (intro mult_left_mono) simp_all
  then have "v \<le> v * int base + int d" by simp
  moreover have "0 \<le> v * int base + int d" using Cons.prems by simp
  ultimately show ?case using order_trans [OF _ Cons.IH [of "v * int base + int d"]] Cons.prems(2) by simp
qed simp

lemma parse_digits_shown:
  assumes "2 \<le> base" and "base \<le> 16" and "base_char = 97 \<or> base_char = 65"
    and "list_all (\<lambda>d. d < base) ds" and "small v" and "0 \<le> v"
  shows "parse_digits base v (map (digit_char base_char) ds) =
    (let r = foldl (\<lambda>a d. a * int base + int d) v ds in if small r then Some (r, []) else None)"
  using assms(4-6)
proof (induction ds arbitrary: v)
  case (Cons d ds)
  let ?v = "v * int base + int d" and ?r = "foldl (\<lambda>a d. a * int base + int d) (v * int base + int d) ds"
  have d: "d < base" "d < 16" using Cons.prems(1) assms(2) by simp_all
  have v: "0 \<le> ?v" "0 \<le> v * int base" using Cons.prems(3) by simp_all
  have r: "?v \<le> ?r" by (rule foldl_mono) (use v(1) assms(1) in simp_all)
  have b: "small (int base)" using assms(1,2) by (simp add: small_def)
  note c = digit_value_char [OF d(2) assms(3)] and o = mul_overflow_iff [OF Cons.prems(2) b]
  show ?case
  proof (cases "small (v * int base)")
    case False
    then have "\<not> small ?r" using r v(2) by (simp add: small_def)
    then show ?thesis using c o False d(1) by (simp add: Let_def)
  next
    case True
    have f: "MP_SMALL_INT_FITS ?v \<longleftrightarrow> small ?v" using True v(1) d(2) by (intro small_int_fits) (simp_all add: small_def)
    show ?thesis
    proof (cases "small ?v")
      case False
      then have "\<not> small ?r" using r v(1) by (simp add: small_def)
      then show ?thesis using c o True d(1) f False by (simp add: Let_def)
    next
      case s: True
      show ?thesis using Cons.IH [OF _ s v(1)] Cons.prems(1) c o True d(1) f s by (simp add: Let_def)
    qed
  qed
qed simp

subsection \<open>The buffer\<close>

lemma log_base2_floor_bound:
  assumes "2 \<le> base" and "base \<le> 16"
  shows "0 < log_base2_floor ! (base - 1) \<and> 2 ^ (log_base2_floor ! (base - 1)) \<le> base"
proof -
  have "base \<in> {2, 3, 4, 5, 6, 7, 8, 9, 10, 11, 12, 13, 14, 15, 16}" using assms unfolding insert_iff empty_iff by arith
  then show ?thesis by (elim insertE) (simp_all add: log_base2_floor_def)
qed

text \<open>The digits of a 32-bit number fit into the size that is computed for them.\<close>

lemma format_size_enough:
  assumes "2 \<le> base" and "base \<le> 16" and "n < 2 ^ 32"
  shows "length (dlist base n) \<le> 32 div log_base2_floor ! (base - 1) + 1"
proof -
  let ?k = "log_base2_floor ! (base - 1)"
  let ?m = "32 div ?k"
  note k = log_base2_floor_bound [OF assms(1,2)]
  have "32 < ?k * (?m + 1)" using k dividend_less_times_div [of ?k 32] by (simp add: algebra_simps)
  then have "(2 :: nat) ^ 32 \<le> 2 ^ (?k * (?m + 1))" by (intro power_increasing) simp_all
  also have "\<dots> = (2 ^ ?k) ^ (?m + 1)" by (rule power_mult)
  also have "\<dots> \<le> base ^ (?m + 1)" using k by (intro power_mono) simp_all
  finally have "n < base ^ Suc ?m" using assms(3) by simp
  then show ?thesis using dlist_length [OF assms(1), of n ?m] by simp
qed

text \<open>The text of a number: sign, prefix and digits.\<close>

definition int_text :: "nat \<Rightarrow> byte list option \<Rightarrow> byte \<Rightarrow> int \<Rightarrow> byte list" where
  "int_text base prefix base_char v =
    (if v < 0 then [45] else []) @ (case prefix of None \<Rightarrow> [] | Some p \<Rightarrow> p) @
    map (digit_char base_char) (dlist base (nat \<bar>v\<bar>))"

lemma int_formatted_text:
  assumes "small v" and "2 \<le> base" and "base \<le> 16"
  shows "mp_obj_int_formatted al buf_size (MP_OBJ_NEW_SMALL_INT v) base prefix base_char 0 =
    (let needed_size = mp_int_format_size 32 base prefix 0; str = int_text base prefix base_char v in
     if needed_size > buf_size \<and> al needed_size = None then Inl MemoryError else Inr (str, length str))
    \<and> length (int_text base prefix base_char v) < mp_int_format_size 32 base prefix 0"
proof -
  let ?n = "nat \<bar>v\<bar>" and ?ds = "dlist base (nat \<bar>v\<bar>)" and ?k = "32 div log_base2_floor ! (base - 1) + 1"
  define pl where "pl = (case prefix of None \<Rightarrow> 0 | Some p \<Rightarrow> length p)"
  define w where "w = map (digit_char base_char) ?ds"
  have n: "?n < 2 ^ 32" using assms(1) by (auto simp: small_def)
  have len: "length ?ds \<le> ?k" by (rule format_size_enough [OF assms(2,3) n])
  have size: "mp_int_format_size 32 base prefix 0 = ?k + pl + 2" by (simp add: mp_int_format_size_def pl_def)
  let ?b = "?k + pl + 1"
  have digits: "(if ?n = 0 then (?b - 1, 48 # [0]) else format_loop base base_char 0 ?b ?b ?n [0]) = (?b - length ?ds, w @ [0])"
  proof (cases "?n = 0")
    case True
    then have "?ds = [0]" using assms(2) by (simp add: dlist.simps)
    then show ?thesis using True by (simp add: w_def digit_char_def)
  next
    case False
    then show ?thesis using format_loop_digits [OF assms(2), of ?n ?b] len by (simp add: w_def)
  qed
  define pre where "pre = (case prefix of None \<Rightarrow> [] | Some p \<Rightarrow> p)"
  have pre: "length pre = pl" by (simp add: pre_def pl_def split: option.split)
  have prefixed: "(case prefix of None \<Rightarrow> (?b - length ?ds, w @ [0]) | Some p \<Rightarrow>
      if ?b - length ?ds > length p then (?b - length ?ds - length p, p @ w @ [0]) else (?b - length ?ds, w @ [0])) =
      (?k + 1 - length ?ds, pre @ w @ [0])"
  proof (cases prefix)
    case (Some p)
    then have "length p < ?b - length ?ds" "?b - length ?ds - length p = ?k + 1 - length ?ds" using len by (simp_all add: pl_def)
    then show ?thesis using Some by (simp add: pre_def)
  qed (simp add: pre_def pl_def)
  have shown: "int_text base prefix base_char v = (if v < 0 then [45] else []) @ pre @ w"
    by (simp add: int_text_def pre_def w_def)
  have lw: "length w = length ?ds" by (simp add: w_def)
  have val: "MP_OBJ_SMALL_INT_VALUE (MP_OBJ_NEW_SMALL_INT v) = v" by (rule small_int_value_new [OF assms(1)])
  have b: "?k + pl + 2 - 1 = ?b" by simp
  have "mp_obj_int_formatted al buf_size (MP_OBJ_NEW_SMALL_INT v) base prefix base_char 0 =
     (if ?k + pl + 2 > buf_size \<and> al (?k + pl + 2) = None then Inl MemoryError
      else let (b, out) = (if v < 0 \<and> ?k + 1 - length ?ds > 0 then (?k + 1 - length ?ds - 1, 45 # pre @ w @ [0])
        else (?k + 1 - length ?ds, pre @ w @ [0])) in Inr (butlast out, ?k + pl + 2 - b - 1))"
    unfolding mp_obj_int_formatted_def val size Let_def b digits prod.case prefixed by (rule refl)
  also have "\<dots> = (let str = int_text base prefix base_char v in
      if ?k + pl + 2 > buf_size \<and> al (?k + pl + 2) = None then Inl MemoryError else Inr (str, length str))"
    using len pre lw by (auto simp: shown butlast_append Let_def)
  finally have eq: "mp_obj_int_formatted al buf_size (MP_OBJ_NEW_SMALL_INT v) base prefix base_char 0 =
      (let str = int_text base prefix base_char v in
      if ?k + pl + 2 > buf_size \<and> al (?k + pl + 2) = None then Inl MemoryError else Inr (str, length str))" .
  have "length (int_text base prefix base_char v) \<le> 1 + (pl + length ?ds)" unfolding shown by (simp add: pre lw)
  then have "length (int_text base prefix base_char v) < ?k + pl + 2" using len by linarith
  then show ?thesis unfolding eq size Let_def by blast
qed

text \<open>Reading the text.\<close>

definition radix_prefix :: "nat \<Rightarrow> byte list option" where
  "radix_prefix base = (if base = 2 then Some (lit ''0b'') else if base = 8 then Some (lit ''0o'')
    else if base = 16 then Some (lit ''0x'') else None)"

lemma parse_base_shown:
  assumes "2 \<le> base" and "base \<le> 16" and "base_char = 97 \<or> base_char = 65"
    and "prefix = None \<and> pbase = base \<or> (base = 2 \<or> base = 8 \<or> base = 10 \<or> base = 16) \<and> prefix = radix_prefix base \<and> pbase = 0"
  shows "mp_parse_num_base ((case prefix of None \<Rightarrow> [] | Some p \<Rightarrow> p) @ map (digit_char base_char) (dlist base n)) pbase =
    (length (case prefix of None \<Rightarrow> [] | Some p \<Rightarrow> p), base)"
proof (cases prefix)
  case None
  then have p: "pbase = base \<or> pbase = 0 \<and> base = 10" using assms(4) by (auto simp: radix_prefix_def split: if_splits)
  show ?thesis
  proof (cases "n = 0")
    case True
    then have "dlist base n = [0]" using assms(1) by (simp add: dlist.simps)
    then show ?thesis using None p assms(1) by (auto simp: mp_parse_num_base_def)
  next
    case False
    obtain d ds where d: "dlist base n = d # ds" "d \<noteq> 0" using dlist_head [OF assms(1) False] by blast
    have "d < 16" using dlist_digits [OF assms(1), of n] d(1) assms(2) by simp
    then have "digit_char base_char d \<noteq> 48" using digit_value_char [OF _ assms(3)] d(2) by blast
    then show ?thesis using None p assms(1) d(1) by (auto simp: mp_parse_num_base_def Let_def)
  qed
next
  case (Some q)
  then have p: "pbase = 0" "radix_prefix base = Some q" using assms(4) by auto
  then show ?thesis using Some by (auto simp: radix_prefix_def lit_def mp_parse_num_base_def Let_def split: if_splits)
qed

lemma int_text_head:
  assumes "2 \<le> base" and "base \<le> 16" and "base_char = 97 \<or> base_char = 65"
    and "prefix = None \<and> pbase = base \<or> (base = 2 \<or> base = 8 \<or> base = 10 \<or> base = 16) \<and> prefix = radix_prefix base \<and> pbase = 0"
  obtains c s where "(case prefix of None \<Rightarrow> [] | Some p \<Rightarrow> p) @ map (digit_char base_char) (dlist base n) = c # s"
    "\<not> is_space c" "c \<noteq> 43" "c \<noteq> 45"
proof (cases prefix)
  case None
  obtain d ds where d: "dlist base n = d # ds" using dlist_pos [of base n] by (cases "dlist base n") auto
  have "d < 16" using dlist_digits [OF assms(1), of n] d assms(2) by simp
  then show ?thesis using that digit_value_char [OF _ assms(3)] None d by simp
next
  case (Some q)
  then have "\<exists>r. q = 48 # r" using assms(4) by (auto simp: radix_prefix_def lit_def split: if_splits)
  then show ?thesis using that Some by (auto simp: is_space_def unichar_iff)
qed

lemma dlist_value_int:
  assumes "2 \<le> base"
  shows "foldl (\<lambda>a d. a * int base + int d) 0 (dlist base n) = int n"
proof -
  have "foldl (\<lambda>a d. a * int base + int d) (int a) ds = int (foldl (\<lambda>a d. a * base + d) a ds)" for a ds
    by (induction ds arbitrary: a) (simp_all flip: of_nat_mult of_nat_add)
  from this [of 0] show ?thesis using dlist_value [OF assms] by simp
qed

lemma parse_int_text:
  assumes v: "small v" and b: "2 \<le> base" "base \<le> 16" and bc: "base_char = 97 \<or> base_char = 65"
    and p: "prefix = None \<and> pbase = base \<or> (base = 2 \<or> base = 8 \<or> base = 10 \<or> base = 16) \<and> prefix = radix_prefix base \<and> pbase = 0"
  shows "mp_parse_num_integer (int_text base prefix base_char v) (int pbase) lexer =
    (if v = MP_SMALL_INT_MIN then Inl OverflowError else Inr (MP_OBJ_NEW_SMALL_INT v))"
proof -
  let ?ds = "dlist base (nat \<bar>v\<bar>)"
  define pre where "pre = (case prefix of None \<Rightarrow> [] | Some p \<Rightarrow> p)"
  define w where "w = map (digit_char base_char) ?ds"
  have shown: "int_text base prefix base_char v = (if v < 0 then [45] else []) @ pre @ w" by (simp add: int_text_def pre_def w_def)
  obtain c s where c: "pre @ w = c # s" "\<not> is_space c" "c \<noteq> 43" "c \<noteq> 45"
    by (rule int_text_head [OF b bc p, folded pre_def, of "nat \<bar>v\<bar>", folded w_def])
  have "\<not> is_space 45" by (simp add: is_space_def unichar_iff)
  then have sp: "dropWhile is_space (int_text base prefix base_char v) = int_text base prefix base_char v" using c(1,2) by (simp add: shown)
  have sign: "(case int_text base prefix base_char v of [] \<Rightarrow> (False, []) | c # s \<Rightarrow>
      if c = 43 then (False, s) else if c = 45 then (True, s) else (False, c # s)) = (v < 0, pre @ w)"
    using c by (simp add: shown)
  have base: "mp_parse_num_base (pre @ w) (nat (int pbase)) = (length pre, base)"
    using parse_base_shown [OF b bc p, folded pre_def, of "nat \<bar>v\<bar>"] by (simp add: w_def)
  have range: "\<not> (int pbase \<noteq> 0 \<and> int pbase < 2 \<or> int pbase > 36)" using p b by auto
  have "foldl (\<lambda>a d. a * int base + int d) 0 ?ds = \<bar>v\<bar>" using dlist_value_int [OF b(1), of "nat \<bar>v\<bar>"] by simp
  then have digits: "parse_digits base 0 w = (if small \<bar>v\<bar> then Some (\<bar>v\<bar>, []) else None)"
    using parse_digits_shown [OF b bc dlist_digits [OF b(1)], of 0 "nat \<bar>v\<bar>"] by (simp add: w_def small_def Let_def)
  have min: "small \<bar>v\<bar> \<longleftrightarrow> v \<noteq> MP_SMALL_INT_MIN" using v by (auto simp: small_def small_bounds)
  have "w \<noteq> []" using dlist_pos [of base "nat \<bar>v\<bar>"] by (auto simp: w_def)
  then show ?thesis
    unfolding mp_parse_num_integer_def if_not_P [OF range] Let_def sp sign prod.case base using digits min by auto
qed

text \<open>An underscore alone counts as a number, because it moves the position behind the start of the digits.\<close>

lemma parse_lonely_underscore: "mp_parse_num_integer [95] 10 False = Inr (MP_OBJ_NEW_SMALL_INT 0)"
  by (simp add: mp_parse_num_integer_def is_space_def unichar_iff mp_parse_num_base_def Let_def)

text \<open>
  C40. Integers survive their text: in any base up to 16, with the digits alone and that base, or with the prefix of
  bases 2, 8 and 16 and the base left to the prefix, formatting an integer object and parsing the result gives
  the object back. The text fits into the size that is computed for it, so the loop that writes
  backwards through the buffer never reaches its start, and only a buffer that is too small asks for memory. The least
  integer is the exception: its digits overflow before the sign is looked at.
\<close>

theorem int_text_roundtrip:
  assumes "small v" and "2 \<le> base" and "base \<le> 16" and "base_char = 97 \<or> base_char = 65"
    and "prefix = None \<and> pbase = base \<or> (base = 2 \<or> base = 8 \<or> base = 10 \<or> base = 16) \<and> prefix = radix_prefix base \<and> pbase = 0"
  shows "case mp_obj_int_formatted al buf_size (MP_OBJ_NEW_SMALL_INT v) base prefix base_char 0 of
      Inl e \<Rightarrow> e = MemoryError \<and> mp_int_format_size 32 base prefix 0 > buf_size \<and> al (mp_int_format_size 32 base prefix 0) = None
    | Inr (str, fmt_size) \<Rightarrow> length str = fmt_size \<and> fmt_size < mp_int_format_size 32 base prefix 0 \<and>
        mp_parse_num_integer str (int pbase) lexer =
          (if v = MP_SMALL_INT_MIN then Inl OverflowError else Inr (MP_OBJ_NEW_SMALL_INT v))"
  using int_formatted_text [OF assms(1-3), of al buf_size prefix base_char] parse_int_text [OF assms, of lexer]
  by (auto simp: Let_def)

theorem int_text_roundtrip_witness:
  "case mp_obj_int_formatted (\<lambda>n. None) 64 (MP_OBJ_NEW_SMALL_INT (- 255)) 16 (Some (lit ''0x'')) 97 0 of
      Inl e \<Rightarrow> False
    | Inr (str, fmt_size) \<Rightarrow> length str = fmt_size \<and> mp_parse_num_integer str 0 False = Inr (MP_OBJ_NEW_SMALL_INT (- 255))"
  using int_text_roundtrip [where v = "- 255" and base = 16 and base_char = 97 and prefix = "Some (lit ''0x'')" and pbase = 0
      and al = "\<lambda>n. None" and buf_size = 64 and lexer = False]
  by (auto simp: small_def small_bounds radix_prefix_def mp_int_format_size_def log_base2_floor_def lit_def split: sum.splits)

end
