(* ===== verification/List_Sort.thy ===== *)
theory List_Sort
  imports Small_Int "HOL-Library.Multiset"
begin

text \<open>
  The sorting of lists, \<^verbatim>\<open>mp_quicksort\<close> of \<^verbatim>\<open>py/objlist.c\<close>: an unstable quicksort in place that takes the last item as
  the pivot, recurs on the smaller part and iterates on the other. Calling the key function and comparing may
  raise, which leaves the items as they are at that moment.
\<close>

subsection \<open>The algorithm\<close>

text \<open>Indices are integers, because a part may end before the first item.\<close>

definition swap_items :: "'v list \<Rightarrow> int \<Rightarrow> int \<Rightarrow> 'v list" where
  "swap_items xs i j = xs[nat i := xs ! nat j, nat j := xs ! nat i]"

text \<open>The loops that look for an item on the wrong side, as long as the comparison \<open>c\<close> says that it is on the right one.\<close>

function scan_up :: "('v \<Rightarrow> bool result) \<Rightarrow> 'v list \<Rightarrow> int \<Rightarrow> int \<Rightarrow> int result" where
  "scan_up c xs h t =
    (if h + 1 < t then rbind (c (xs ! nat (h + 1))) (\<lambda>b. if b then scan_up c xs (h + 1) t else Inr (h + 1))
     else Inr (h + 1))"
  by pat_completeness auto
termination by (relation "measure (\<lambda>(c, xs, h, t). nat (t - h))") auto

function scan_down :: "('v \<Rightarrow> bool result) \<Rightarrow> 'v list \<Rightarrow> int \<Rightarrow> int \<Rightarrow> int result" where
  "scan_down c xs h t =
    (if h < t - 1 then rbind (c (xs ! nat (t - 1))) (\<lambda>b. if b then scan_down c xs h (t - 1) else Inr (t - 1))
     else Inr (t - 1))"
  by pat_completeness auto
termination by (relation "measure (\<lambda>(c, xs, h, t). nat (t - h))") auto

declare scan_up.simps [simp del] scan_down.simps [simp del]

lemma scan_up_bounds: "scan_up c xs h t = Inr h' \<Longrightarrow> h < h' \<and> (h < t \<longrightarrow> h' \<le> t)"
proof (induction c xs h t rule: scan_up.induct)
  case (1 c xs h t)
  show ?case
  proof (cases "h + 1 < t")
    case True
    then obtain b where b: "c (xs ! nat (h + 1)) = Inr b" "(if b then scan_up c xs (h + 1) t else Inr (h + 1)) = Inr h'"
      using 1(2) by (auto simp: scan_up.simps [of c xs h t] rbind_Inr)
    then show ?thesis using 1(1) [OF True b(1)] True by (cases b) auto
  qed (use 1(2) in \<open>simp add: scan_up.simps [of c xs h t]\<close>)
qed

lemma scan_down_bounds: "scan_down c xs h t = Inr t' \<Longrightarrow> t' < t \<and> (h < t \<longrightarrow> h \<le> t') \<and> (t \<le> h \<longrightarrow> t' = t - 1)"
proof (induction c xs h t rule: scan_down.induct)
  case (1 c xs h t)
  show ?case
  proof (cases "h < t - 1")
    case True
    then obtain b where b: "c (xs ! nat (t - 1)) = Inr b" "(if b then scan_down c xs h (t - 1) else Inr (t - 1)) = Inr t'"
      using 1(2) by (auto simp: scan_down.simps [of c xs h t] rbind_Inr)
    then show ?thesis using 1(1) [OF True b(1)] True by (cases b) auto
  qed (use 1(2) in \<open>auto simp: scan_down.simps [of c xs h t]\<close>)
qed

function partition_loop ::
  "('v \<Rightarrow> bool result) \<Rightarrow> ('v \<Rightarrow> bool result) \<Rightarrow> 'v list \<Rightarrow> int \<Rightarrow> int \<Rightarrow> 'v list \<times> (int \<times> int) result" where
  "partition_loop up down xs h t =
    (case scan_up up xs h t of
       Inl e \<Rightarrow> (xs, Inl e)
     | Inr h \<Rightarrow>
         (case scan_down down xs h t of
            Inl e \<Rightarrow> (xs, Inl e)
          | Inr t \<Rightarrow> if h \<ge> t then (xs, Inr (h, t)) else partition_loop up down (swap_items xs h t) h t))"
  by pat_completeness auto
termination
  by (relation "measure (\<lambda>(up, down, xs, h, t). nat (t - h))") (auto dest!: scan_up_bounds scan_down_bounds)

declare partition_loop.simps [simp del]

lemma partition_bounds:
  "partition_loop up down xs h t = (xs', Inr (h', t')) \<Longrightarrow> h < t \<Longrightarrow> h < h' \<and> h' \<le> t \<and> t' < t \<and> h' - 1 \<le> t' \<and> t' \<le> h'"
proof (induction up down xs h t rule: partition_loop.induct)
  case (1 up down xs h t)
  obtain a b where a: "scan_up up xs h t = Inr a" "scan_down down xs a t = Inr b"
    "(if a \<ge> b then (xs, Inr (a, b)) else partition_loop up down (swap_items xs a b) a b) = (xs', Inr (h', t'))"
    using 1(2) unfolding partition_loop.simps [of up down xs h t] by (auto split: sum.splits)
  note ab = scan_up_bounds [OF a(1)] scan_down_bounds [OF a(2)]
  show ?case
  proof (cases "a \<ge> b")
    case True
    then show ?thesis using a(3) ab 1(3) by auto
  next
    case False
    then show ?thesis using 1(1) [OF a(1,2)] a(3) ab 1(3) by auto
  qed
qed

text \<open>
  \<open>key\<close> is the call of the key function (or the item itself), \<open>lt\<close> the operator \<^verbatim>\<open>MP_BINARY_OP_LESS\<close>, and \<open>r\<close>
  the object \<^verbatim>\<open>binop_less_result\<close> that keeps an item on its side.
\<close>

function mp_quicksort ::
  "('v \<Rightarrow> 'k result) \<Rightarrow> ('k \<Rightarrow> 'k \<Rightarrow> 'o result) \<Rightarrow> 'o \<Rightarrow> 'v list \<Rightarrow> int \<Rightarrow> int \<Rightarrow> 'v list \<times> unit result" where
  "mp_quicksort key lt r xs head tail =
    (if head < tail then
       (case key (xs ! nat tail) of
          Inl e \<Rightarrow> (xs, Inl e)
        | Inr v \<Rightarrow>
            (case partition_loop
               (\<lambda>x. rbind (key x) (\<lambda>k. rbind (lt k v) (\<lambda>b. Inr (b = r))))
               (\<lambda>x. rbind (key x) (\<lambda>k. rbind (lt v k) (\<lambda>b. Inr (b = r)))) xs (head - 1) tail of
               (xs, Inl e) \<Rightarrow> (xs, Inl e)
             | (xs, Inr (h, t)) \<Rightarrow>
                 (let xs = swap_items xs h tail in
                  if t - head < tail - h - 1 then
                    (case mp_quicksort key lt r xs head t of
                       (xs, Inl e) \<Rightarrow> (xs, Inl e)
                     | (xs, Inr _) \<Rightarrow> mp_quicksort key lt r xs (h + 1) tail)
                  else
                    (case mp_quicksort key lt r xs (h + 1) tail of
                       (xs, Inl e) \<Rightarrow> (xs, Inl e)
                     | (xs, Inr _) \<Rightarrow> mp_quicksort key lt r xs head t))))
     else (xs, Inr ()))"
  by pat_completeness auto
termination
  by (relation "measure (\<lambda>(key, lt, r, xs, head, tail). nat (tail - head))") (auto dest!: partition_bounds [OF sym])

declare mp_quicksort.simps [simp del]

text \<open>\<^verbatim>\<open>mp_obj_list_sort\<close> on the items.\<close>

definition mp_obj_list_sort ::
  "('v \<Rightarrow> 'k result) \<Rightarrow> ('k \<Rightarrow> 'k \<Rightarrow> 'f obj_value result) \<Rightarrow> bool \<Rightarrow> 'v list \<Rightarrow> 'v list \<times> unit result" where
  "mp_obj_list_sort key lt reverse items =
    (if length items > 1 then
       mp_quicksort key lt (if reverse then BoolObj False else BoolObj True) items 0 (int (length items) - 1)
     else (items, Inr ()))"

subsection \<open>The items are permuted\<close>

text \<open>Only the items from \<open>a\<close> to \<open>b\<close> change places.\<close>

definition perm_in :: "int \<Rightarrow> int \<Rightarrow> 'v list \<Rightarrow> 'v list \<Rightarrow> bool" where
  "perm_in a b xs xs' \<longleftrightarrow> length xs' = length xs \<and> mset xs' = mset xs \<and>
    (\<forall>i. int i < a \<or> b < int i \<longrightarrow> xs' ! i = xs ! i) \<and>
    (\<forall>P. (\<forall>i. a \<le> int i \<and> int i \<le> b \<longrightarrow> P (xs ! i)) \<longrightarrow> (\<forall>i. a \<le> int i \<and> int i \<le> b \<longrightarrow> P (xs' ! i)))"

lemma perm_in_refl [simp]: "perm_in a b xs xs"
  by (simp add: perm_in_def)

lemma perm_in_trans:
  assumes "perm_in a b xs ys" and "perm_in a b ys zs"
  shows "perm_in a b xs zs"
  using assms unfolding perm_in_def by simp blast

lemma perm_in_length: "perm_in a b xs ys \<Longrightarrow> length ys = length xs"
  by (simp add: perm_in_def)

lemma perm_in_set: "perm_in a b xs ys \<Longrightarrow> set ys = set xs"
  unfolding perm_in_def by (metis mset_eq_setD)

lemma perm_in_all:
  "perm_in a b xs ys \<Longrightarrow> (\<And>i. a \<le> int i \<Longrightarrow> int i \<le> b \<Longrightarrow> P (xs ! i)) \<Longrightarrow> a \<le> int i \<Longrightarrow> int i \<le> b \<Longrightarrow> P (ys ! i)"
  unfolding perm_in_def by blast

lemma perm_in_outside: "perm_in a b xs ys \<Longrightarrow> int i < a \<or> b < int i \<Longrightarrow> ys ! i = xs ! i"
  unfolding perm_in_def by blast

lemma perm_in_mono:
  assumes "perm_in a b xs ys" and "a' \<le> a" and "b \<le> b'"
  shows "perm_in a' b' xs ys"
proof -
  have "P (ys ! i)" if P: "\<forall>i. a' \<le> int i \<and> int i \<le> b' \<longrightarrow> P (xs ! i)" and i: "a' \<le> int i" "int i \<le> b'" for P i
  proof (cases "a \<le> int i \<and> int i \<le> b")
    case True
    then show ?thesis using perm_in_all [OF assms(1), of P i] P assms(2,3) by auto
  next
    case False
    then have "ys ! i = xs ! i" using perm_in_outside [OF assms(1)] by auto
    then show ?thesis using P i by simp
  qed
  moreover have "ys ! i = xs ! i" if "int i < a' \<or> b' < int i" for i
    using perm_in_outside [OF assms(1), of i] that assms(2,3) by linarith
  ultimately show ?thesis using assms(1) unfolding perm_in_def by blast
qed

lemma perm_in_keeps:
  assumes "perm_in a b xs ys" and "c \<le> a \<and> b \<le> d \<or> d < a \<or> b < c"
    and "\<And>i. c \<le> int i \<Longrightarrow> int i \<le> d \<Longrightarrow> P (xs ! i)" and "c \<le> int i" and "int i \<le> d"
  shows "P (ys ! i)"
proof (cases "c \<le> a \<and> b \<le> d")
  case True
  then have "perm_in c d xs ys" using perm_in_mono [OF assms(1)] by blast
  then show ?thesis using perm_in_all assms(3-5) by blast
next
  case False
  then have "ys ! i = xs ! i" using perm_in_outside [OF assms(1)] assms(2,4,5) by auto
  then show ?thesis using assms(3-5) by simp
qed

lemma perm_in_swap:
  assumes "0 \<le> a" and "b < int (length xs)" and "a \<le> i" "i \<le> b" and "a \<le> j" "j \<le> b"
  shows "perm_in a b xs (swap_items xs i j)"
proof -
  have ij: "nat i < length xs" "nat j < length xs" "int (nat i) = i" "int (nat j) = j" using assms by auto
  have n: "swap_items xs i j ! k = (if k = nat j then xs ! nat i else if k = nat i then xs ! nat j else xs ! k)" for k
    using ij by (auto simp: swap_items_def nth_list_update)
  have "mset (swap_items xs i j) = mset xs" unfolding swap_items_def by (rule mset_swap [OF ij(2,1)])
  moreover have "swap_items xs i j ! k = xs ! k" if "int k < a \<or> b < int k" for k
  proof -
    have "int k \<noteq> i" "int k \<noteq> j" using that assms by auto
    then have "k \<noteq> nat i" "k \<noteq> nat j" using ij(3,4) by metis+
    then show ?thesis by (simp add: n)
  qed
  moreover have "P (swap_items xs i j ! k)" if "\<forall>k. a \<le> int k \<and> int k \<le> b \<longrightarrow> P (xs ! k)" "a \<le> int k \<and> int k \<le> b" for P k
    using that assms ij by (auto simp: n)
  ultimately show ?thesis unfolding perm_in_def by (auto simp: swap_items_def)
qed

lemma partition_perm:
  "partition_loop up down xs h t = (xs', res) \<Longrightarrow> 0 \<le> h + 1 \<Longrightarrow> t \<le> int (length xs) \<Longrightarrow> h < t \<Longrightarrow> perm_in (h + 1) (t - 1) xs xs'"
proof (induction up down xs h t rule: partition_loop.induct)
  case (1 up down xs h t)
  show ?case
  proof (cases "scan_up up xs h t")
    case (Inl e)
    then show ?thesis using 1(2) by (simp add: partition_loop.simps [of up down xs h t])
  next
    case a: (Inr a)
    show ?thesis
    proof (cases "scan_down down xs a t")
      case (Inl e)
      then show ?thesis using 1(2) a by (simp add: partition_loop.simps [of up down xs h t])
    next
      case b: (Inr b)
      note ab = scan_up_bounds [OF a] scan_down_bounds [OF b]
      have eq: "partition_loop up down xs h t = (if a \<ge> b then (xs, Inr (a, b)) else partition_loop up down (swap_items xs a b) a b)"
        using a b by (simp add: partition_loop.simps [of up down xs h t])
      show ?thesis
      proof (cases "a \<ge> b")
        case False
        have s: "perm_in (h + 1) (t - 1) xs (swap_items xs a b)" by (rule perm_in_swap) (use 1(3-5) ab False in auto)
        have "perm_in (a + 1) (b - 1) (swap_items xs a b) xs'"
          by (rule 1(1) [OF a b False]) (use 1(2-5) eq ab False perm_in_length [OF s] in auto)
        then have "perm_in (h + 1) (t - 1) (swap_items xs a b) xs'" by (rule perm_in_mono) (use ab in auto)
        then show ?thesis by (rule perm_in_trans [OF s])
      qed (use 1(2) eq in simp)
    qed
  qed
qed

subsection \<open>A round of the loop\<close>

abbreviation (input) keeps_up :: "('v \<Rightarrow> 'k result) \<Rightarrow> ('k \<Rightarrow> 'k \<Rightarrow> 'o result) \<Rightarrow> 'o \<Rightarrow> 'k \<Rightarrow> 'v \<Rightarrow> bool result" where
  "keeps_up key lt r v x \<equiv> rbind (key x) (\<lambda>k. rbind (lt k v) (\<lambda>b. Inr (b = r)))"

abbreviation (input) keeps_down :: "('v \<Rightarrow> 'k result) \<Rightarrow> ('k \<Rightarrow> 'k \<Rightarrow> 'o result) \<Rightarrow> 'o \<Rightarrow> 'k \<Rightarrow> 'v \<Rightarrow> bool result" where
  "keeps_down key lt r v x \<equiv> rbind (key x) (\<lambda>k. rbind (lt v k) (\<lambda>b. Inr (b = r)))"

lemma quicksort_cases:
  assumes "mp_quicksort key lt r xs head tail = (xs', res)" and "head < tail"
  obtains (key) e where "key (xs ! nat tail) = Inl e" "xs' = xs" "res = Inl e"
  | (part) v e where "key (xs ! nat tail) = Inr v" "res = Inl e"
      "partition_loop (keeps_up key lt r v) (keeps_down key lt r v) xs (head - 1) tail = (xs', Inl e)"
  | (parts) v ys h t a b c d where "key (xs ! nat tail) = Inr v"
      "partition_loop (keeps_up key lt r v) (keeps_down key lt r v) xs (head - 1) tail = (ys, Inr (h, t))"
      "a = head \<and> b = t \<and> c = h + 1 \<and> d = tail \<or> a = h + 1 \<and> b = tail \<and> c = head \<and> d = t"
      "(\<exists>e. mp_quicksort key lt r (swap_items ys h tail) a b = (xs', Inl e) \<and> res = Inl e) \<or>
       (\<exists>ws. mp_quicksort key lt r (swap_items ys h tail) a b = (ws, Inr ()) \<and> mp_quicksort key lt r ws c d = (xs', res))"
proof (cases "key (xs ! nat tail)")
  case (Inl e)
  then show ?thesis by (intro key) (use assms in \<open>auto simp: mp_quicksort.simps [of key lt r xs head tail]\<close>)
next
  case v: (Inr v)
  obtain ys pres where p: "partition_loop (keeps_up key lt r v) (keeps_down key lt r v) xs (head - 1) tail = (ys, pres)" by fastforce
  show ?thesis
  proof (cases pres)
    case (Inl e)
    then show ?thesis by (intro part [OF v]) (use assms v p in \<open>auto simp: mp_quicksort.simps [of key lt r xs head tail]\<close>)
  next
    case ht: (Inr q)
    obtain h t where q: "q = (h, t)" by fastforce
    let ?qs = "mp_quicksort key lt r" and ?zs = "swap_items ys h tail"
    have "(if t - head < tail - h - 1
        then (case ?qs ?zs head t of (xs, Inl e) \<Rightarrow> (xs, Inl e) | (xs, Inr _) \<Rightarrow> ?qs xs (h + 1) tail)
        else (case ?qs ?zs (h + 1) tail of (xs, Inl e) \<Rightarrow> (xs, Inl e) | (xs, Inr _) \<Rightarrow> ?qs xs head t)) = (xs', res)"
      using assms v p ht q by (simp add: mp_quicksort.simps [of key lt r xs head tail] Let_def)
    then consider "(xs', res) = (case ?qs ?zs head t of (xs, Inl e) \<Rightarrow> (xs, Inl e) | (xs, Inr _) \<Rightarrow> ?qs xs (h + 1) tail)"
      | "(xs', res) = (case ?qs ?zs (h + 1) tail of (xs, Inl e) \<Rightarrow> (xs, Inl e) | (xs, Inr _) \<Rightarrow> ?qs xs head t)"
      by (auto split: if_splits)
    then show ?thesis
    proof cases
      case 1
      then show ?thesis by (intro parts [OF v p [unfolded ht q], of head t "h + 1" tail]) (auto split: prod.splits sum.splits)
    next
      case 2
      then show ?thesis by (intro parts [OF v p [unfolded ht q], of "h + 1" tail head t]) (auto split: prod.splits sum.splits)
    qed
  qed
qed

text \<open>Whatever key and comparison do, and also when they raise, the items are only permuted.\<close>

lemma quicksort_perm:
  "mp_quicksort key lt r xs head tail = (xs', res) \<Longrightarrow> 0 \<le> head \<Longrightarrow> tail < int (length xs) \<Longrightarrow> perm_in head tail xs xs'"
proof (induction "nat (tail - head)" arbitrary: xs head tail xs' res rule: less_induct)
  case less
  show ?case
  proof (cases "head < tail")
    case True
    from less.prems(1) True show ?thesis
    proof (cases rule: quicksort_cases)
      case (part v e)
      show ?thesis by (rule perm_in_mono [OF partition_perm [OF part(3)]]) (use less.prems True in auto)
    next
      case (parts v ys h t a b c d)
      have y: "perm_in head tail xs ys"
        by (rule perm_in_mono [OF partition_perm [OF parts(2)]]) (use less.prems True in auto)
      have bd: "head \<le> h" "h \<le> tail" "t < tail" "t \<le> h" using partition_bounds [OF parts(2)] True by auto
      have z: "perm_in head tail xs (swap_items ys h tail)"
        by (rule perm_in_trans [OF y perm_in_swap]) (use less.prems True bd perm_in_length [OF y] in auto)
      have sub: "perm_in head tail us ws" if "mp_quicksort key lt r us a' b' = (ws, res')" "length us = length xs"
        "a' = head \<and> b' = t \<or> a' = h + 1 \<and> b' = tail" for us ws a' b' res'
        by (rule perm_in_mono [OF less.hyps [OF _ that(1)]]) (use that less.prems True bd in auto)
      show ?thesis using parts(4)
      proof (elim disjE exE conjE)
        fix e
        assume "mp_quicksort key lt r (swap_items ys h tail) a b = (xs', Inl e)"
        from sub [OF this] show ?thesis using parts(3) perm_in_length [OF z] perm_in_trans [OF z] by blast
      next
        fix ws
        assume w: "mp_quicksort key lt r (swap_items ys h tail) a b = (ws, Inr ())" "mp_quicksort key lt r ws c d = (xs', res)"
        have "perm_in head tail xs ws" using sub [OF w(1)] parts(3) perm_in_length [OF z] perm_in_trans [OF z] by blast
        then show ?thesis using sub [OF w(2)] parts(3) perm_in_length perm_in_trans by blast
      qed
    qed simp
  qed (use less.prems(1) in \<open>simp add: mp_quicksort.simps [of key lt r xs head tail]\<close>)
qed

subsection \<open>The parts of a round\<close>

text \<open>
  Where both comparisons answer on every item, a scan stops at the first item that does not belong to its side.
\<close>

lemma int_nth_mem: "0 \<le> i \<Longrightarrow> i < int (length xs) \<Longrightarrow> xs ! nat i \<in> set xs"
  by (simp add: nat_less_iff)

lemma scan_up_stops:
  assumes "\<And>x. x \<in> set xs \<Longrightarrow> c x = Inr (C x)" and "t \<le> int (length xs)"
  shows "0 \<le> h + 1 \<Longrightarrow> h < t \<Longrightarrow>
    \<exists>h'. scan_up c xs h t = Inr h' \<and> (\<forall>i. h < int i \<and> int i < h' \<longrightarrow> C (xs ! i)) \<and> (h' < t \<longrightarrow> \<not> C (xs ! nat h'))"
  using assms
proof (induction c xs h t rule: scan_up.induct)
  case (1 c xs h t)
  show ?case
  proof (cases "h + 1 < t \<and> C (xs ! nat (h + 1))")
    case True
    have c: "c (xs ! nat (h + 1)) = Inr True" using 1(4) [OF int_nth_mem] 1(2,5) True by simp
    from 1(1) [OF _ c] obtain h' where h': "scan_up c xs (h + 1) t = Inr h'"
      "\<forall>i. h + 1 < int i \<and> int i < h' \<longrightarrow> C (xs ! i)" "h' < t \<longrightarrow> \<not> C (xs ! nat h')"
      using 1(2-5) True by auto
    have "C (xs ! i)" if "h < int i" "int i < h'" for i
    proof (cases "int i = h + 1")
      case eq: True
      then have "nat (h + 1) = i" by simp
      then show ?thesis using True by simp
    qed (use h'(2) that in auto)
    then show ?thesis using c h' True by (simp add: scan_up.simps [of c xs h t])
  next
    case False
    then have "scan_up c xs h t = Inr (h + 1)" using 1(4) [OF int_nth_mem [of "h + 1"]] 1(2,5) by (auto simp: scan_up.simps [of c xs h t])
    then show ?thesis using False by auto
  qed
qed

lemma scan_down_stops:
  assumes "\<And>x. x \<in> set xs \<Longrightarrow> c x = Inr (C x)" and "t \<le> int (length xs)"
  shows "0 \<le> h \<Longrightarrow> h \<le> t \<Longrightarrow>
    \<exists>t'. scan_down c xs h t = Inr t' \<and> (\<forall>i. t' < int i \<and> int i < t \<longrightarrow> C (xs ! i)) \<and> (h < t' \<longrightarrow> \<not> C (xs ! nat t'))"
  using assms
proof (induction c xs h t rule: scan_down.induct)
  case (1 c xs h t)
  show ?case
  proof (cases "h < t - 1 \<and> C (xs ! nat (t - 1))")
    case True
    have c: "c (xs ! nat (t - 1)) = Inr True" using 1(4) [OF int_nth_mem] 1(2,5) True by simp
    from 1(1) [OF _ c] obtain t' where t': "scan_down c xs h (t - 1) = Inr t'"
      "\<forall>i. t' < int i \<and> int i < t - 1 \<longrightarrow> C (xs ! i)" "h < t' \<longrightarrow> \<not> C (xs ! nat t')"
      using 1(2-5) True by auto
    have "C (xs ! i)" if "t' < int i" "int i < t" for i
    proof (cases "int i = t - 1")
      case eq: True
      then have "nat (t - 1) = i" by simp
      then show ?thesis using True by simp
    qed (use t'(2) that in auto)
    then show ?thesis using c t' True by (simp add: scan_down.simps [of c xs h t])
  next
    case False
    then have "scan_down c xs h t = Inr (t - 1)" using 1(4) [OF int_nth_mem [of "t - 1"]] 1(2,5) by (auto simp: scan_down.simps [of c xs h t])
    then show ?thesis using False by auto
  qed
qed

text \<open>
  The partition: below \<open>h'\<close> every item satisfies \<open>L\<close>, from there on \<open>R\<close>, when these are what the
  scans skip and what they leave to the other side.
\<close>

lemma partition_splits:
  assumes "\<And>x. x \<in> set xs \<Longrightarrow> up x = Inr (U x) \<and> down x = Inr (D x)"
    and "\<And>x. x \<in> set xs \<Longrightarrow> (U x \<longrightarrow> L x) \<and> (\<not> D x \<longrightarrow> L x) \<and> (D x \<longrightarrow> R x) \<and> (\<not> U x \<longrightarrow> R x)"
  shows "0 \<le> h + 1 \<Longrightarrow> h < t \<Longrightarrow> t \<le> int (length xs) \<Longrightarrow>
    \<exists>xs' h' t'. partition_loop up down xs h t = (xs', Inr (h', t')) \<and>
      (\<forall>i. h < int i \<and> int i < h' \<longrightarrow> L (xs' ! i)) \<and> (\<forall>i. h' \<le> int i \<and> int i < t \<longrightarrow> R (xs' ! i))"
  using assms
proof (induction up down xs h t rule: partition_loop.induct)
  case (1 up down xs h t)
  obtain a where a: "scan_up up xs h t = Inr a" "\<forall>i. h < int i \<and> int i < a \<longrightarrow> U (xs ! i)" "a < t \<longrightarrow> \<not> U (xs ! nat a)"
    using scan_up_stops [of xs up U t h] 1(2-5) by auto
  have ab: "h < a" "a \<le> t" using scan_up_bounds [OF a(1)] 1(3) by auto
  obtain b where b: "scan_down down xs a t = Inr b" "\<forall>i. b < int i \<and> int i < t \<longrightarrow> D (xs ! i)" "a < b \<longrightarrow> \<not> D (xs ! nat b)"
    using scan_down_stops [of xs down D t a] 1(2-5) ab by auto
  note bb = scan_down_bounds [OF b(1)]
  have L: "L (xs ! i)" if "h < int i" "int i < a" for i
    using a(2) that 1(6) [OF nth_mem [of i xs]] ab 1(4) by auto
  have R: "R (xs ! i)" if "b < int i" "int i < t" for i
    using b(2) that 1(6) [OF nth_mem [of i xs]] 1(4) by auto
  have eq: "partition_loop up down xs h t = (if a \<ge> b then (xs, Inr (a, b)) else partition_loop up down (swap_items xs a b) a b)"
    using a(1) b(1) by (simp add: partition_loop.simps [of up down xs h t])
  show ?case
  proof (cases "a \<ge> b")
    case True
    have "R (xs ! i)" if "a \<le> int i" "int i < t" for i
    proof (cases "int i = a")
      case ia: True
      then have "nat a = i" by simp
      then show ?thesis using a(3) that ia 1(6) [OF nth_mem [of i xs]] 1(4) by auto
    qed (use R True that in auto)
    then show ?thesis using True L eq by auto
  next
    case False
    let ?ys = "swap_items xs a b"
    have s: "perm_in (h + 1) (t - 1) xs ?ys" by (rule perm_in_swap) (use 1(2-4) ab bb False in auto)
    have set: "set ?ys = set xs" using perm_in_set [OF s] .
    have nth: "L (?ys ! nat a)" "R (?ys ! nat b)" "\<And>i. i \<noteq> nat a \<Longrightarrow> i \<noteq> nat b \<Longrightarrow> ?ys ! i = xs ! i"
      using a(3) b(3) 1(6) [OF int_nth_mem [of a]] 1(6) [OF int_nth_mem [of b]] ab bb False 1(2-4)
      by (auto simp: swap_items_def nth_list_update nat_less_iff)
    have "\<exists>xs' h' t'. partition_loop up down ?ys a b = (xs', Inr (h', t')) \<and>
      (\<forall>i. a < int i \<and> int i < h' \<longrightarrow> L (xs' ! i)) \<and> (\<forall>i. h' \<le> int i \<and> int i < b \<longrightarrow> R (xs' ! i))"
      by (rule 1(1) [OF a(1) b(1) False]) (use 1(2-6) ab bb False perm_in_length [OF s] set in auto)
    then obtain zs c d where z: "partition_loop up down ?ys a b = (zs, Inr (c, d))"
      "\<forall>i. a < int i \<and> int i < c \<longrightarrow> L (zs ! i)" "\<forall>i. c \<le> int i \<and> int i < b \<longrightarrow> R (zs ! i)" by blast
    have p: "perm_in (a + 1) (b - 1) ?ys zs"
      by (rule partition_perm [OF z(1)]) (use 1(2-4) ab bb False perm_in_length [OF s] in auto)
    have out: "zs ! i = ?ys ! i" if "int i \<le> a \<or> b \<le> int i" for i using perm_in_outside [OF p, of i] that by auto
    have cd: "a < c" "c \<le> b" using partition_bounds [OF z(1)] False by auto
    have "L (zs ! i)" if "h < int i" "int i < c" for i
      using z(2) out [of i] nth L [of i] that ab bb False 1(2) by (cases "int i < a"; cases "int i = a") (auto simp: nat_eq_iff)
    moreover have "R (zs ! i)" if "c \<le> int i" "int i < t" for i
      using z(3) out [of i] nth R [of i] that ab bb False cd 1(2) by (cases "int i < b"; cases "int i = b") (auto simp: nat_eq_iff)
    ultimately show ?thesis using z(1) eq False by auto
  qed
qed

subsection \<open>The items are sorted\<close>

text \<open>
  \<open>a\<close> may stand before \<open>b\<close> in the order that \<open>rv\<close> asks for. What the sort needs of the operator: it answers on the
  keys of the items, and what it answers is a strict weak order.
\<close>

definition may_precede :: "('k \<Rightarrow> 'k \<Rightarrow> bool) \<Rightarrow> bool \<Rightarrow> 'k \<Rightarrow> 'k \<Rightarrow> bool" where
  "may_precede lss rv a b \<longleftrightarrow> (if rv then \<not> lss a b else \<not> lss b a)"

definition sorted_in :: "('v \<Rightarrow> 'v \<Rightarrow> bool) \<Rightarrow> int \<Rightarrow> int \<Rightarrow> 'v list \<Rightarrow> bool" where
  "sorted_in P a b xs \<longleftrightarrow> (\<forall>i j. a \<le> int i \<and> i < j \<and> int j \<le> b \<longrightarrow> P (xs ! i) (xs ! j))"

lemma sorted_in_outside: "sorted_in P a b xs \<Longrightarrow> perm_in c d xs ys \<Longrightarrow> b < c \<or> d < a \<Longrightarrow> sorted_in P a b ys"
  unfolding sorted_in_def using perm_in_outside by (smt (verit) nat_int zless_nat_conj of_nat_less_iff)

locale less_op =
  fixes lt :: "'k \<Rightarrow> 'k \<Rightarrow> 'f obj_value result"
    and lss :: "'k \<Rightarrow> 'k \<Rightarrow> bool"
    and K :: "'k set"
  assumes answers: "a \<in> K \<Longrightarrow> b \<in> K \<Longrightarrow> lt a b = Inr (BoolObj (lss a b))"
    and asym: "a \<in> K \<Longrightarrow> b \<in> K \<Longrightarrow> lss a b \<Longrightarrow> \<not> lss b a"
    and negtrans: "a \<in> K \<Longrightarrow> b \<in> K \<Longrightarrow> c \<in> K \<Longrightarrow> lss a c \<Longrightarrow> lss a b \<or> lss b c"
begin

lemma precede_refl: "a \<in> K \<Longrightarrow> may_precede lss rv a a"
  using asym unfolding may_precede_def by auto

lemma precede_trans:
  "a \<in> K \<Longrightarrow> b \<in> K \<Longrightarrow> c \<in> K \<Longrightarrow> may_precede lss rv a b \<Longrightarrow> may_precede lss rv b c \<Longrightarrow> may_precede lss rv a c"
  using negtrans unfolding may_precede_def by meson

text \<open>What one round leaves: the items up to \<open>h\<close> may precede the pivot, which stands there and may precede those behind.\<close>

lemma partition_pivot:
  assumes key: "\<And>x. x \<in> set xs \<Longrightarrow> key x = Inr (k x)" and K: "k ` set xs \<subseteq> K"
    and ht: "0 \<le> head" "head < tail" "tail < int (length xs)"
    and r_def: "r = BoolObj (\<not> rv)" and v_def: "v = k (xs ! nat tail)"
  obtains ys h t where "partition_loop (keeps_up key lt r v) (keeps_down key lt r v) xs (head - 1) tail = (ys, Inr (h, t))"
    and "perm_in head tail xs (swap_items ys h tail)" and "k (swap_items ys h tail ! nat h) = v"
    and "\<forall>i. head \<le> int i \<and> int i \<le> h \<longrightarrow> may_precede lss rv (k (swap_items ys h tail ! i)) v"
    and "\<forall>i. h < int i \<and> int i \<le> tail \<longrightarrow> may_precede lss rv v (k (swap_items ys h tail ! i))"
proof -
  have v: "v \<in> K" using int_nth_mem [of tail xs] ht K unfolding v_def by auto
  have kx: "k x \<in> K" if "x \<in> set xs" for x using K that by auto
  have "\<exists>ys h t. partition_loop (keeps_up key lt r v) (keeps_down key lt r v) xs (head - 1) tail = (ys, Inr (h, t)) \<and>
    (\<forall>i. head - 1 < int i \<and> int i < h \<longrightarrow> may_precede lss rv (k (ys ! i)) v) \<and>
    (\<forall>i. h \<le> int i \<and> int i < tail \<longrightarrow> may_precede lss rv v (k (ys ! i)))"
    by (rule partition_splits [where U = "\<lambda>x. lss (k x) v = (\<not> rv)" and D = "\<lambda>x. lss v (k x) = (\<not> rv)"])
      (use ht key kx v answers asym in \<open>auto simp: r_def may_precede_def\<close>)
  then obtain ys h t where y: "partition_loop (keeps_up key lt r v) (keeps_down key lt r v) xs (head - 1) tail = (ys, Inr (h, t))"
    and L: "\<forall>i. head - 1 < int i \<and> int i < h \<longrightarrow> may_precede lss rv (k (ys ! i)) v"
    and R: "\<forall>i. h \<le> int i \<and> int i < tail \<longrightarrow> may_precede lss rv v (k (ys ! i))" by blast
  have yp: "perm_in head (tail - 1) xs ys" using partition_perm [OF y] ht by simp
  have bd: "head \<le> h" "h \<le> tail" using partition_bounds [OF y] ht by auto
  have len: "length ys = length xs" and yt: "ys ! nat tail = xs ! nat tail"
    using perm_in_length [OF yp] perm_in_outside [OF yp, of "nat tail"] ht by auto
  let ?zs = "swap_items ys h tail"
  have n: "?zs ! i = (if int i = tail then ys ! nat h else if int i = h then ys ! nat tail else ys ! i)" for i
    using ht bd len by (auto simp: swap_items_def nth_list_update nat_eq_iff)
  show thesis
  proof (rule that [OF y])
    show "perm_in head tail xs ?zs"
      by (rule perm_in_trans [OF perm_in_mono [OF yp] perm_in_swap]) (use ht bd len in auto)
    show kh: "k (?zs ! nat h) = v" using n [of "nat h"] bd ht by (auto simp: yt v_def)
    have "may_precede lss rv (k (?zs ! i)) v" if "head \<le> int i" "int i \<le> h" for i
    proof (cases "int i = h")
      case True
      then have "nat h = i" by simp
      then show ?thesis using kh precede_refl [OF v] by simp
    qed (use L n [of i] that bd in auto)
    then show "\<forall>i. head \<le> int i \<and> int i \<le> h \<longrightarrow> may_precede lss rv (k (?zs ! i)) v" by blast
    have "may_precede lss rv v (k (?zs ! i))" if "h < int i" "int i \<le> tail" for i
      using R [rule_format, of "if int i = tail then nat h else i"] n [of i] that bd ht by (auto split: if_splits)
    then show "\<forall>i. h < int i \<and> int i \<le> tail \<longrightarrow> may_precede lss rv v (k (?zs ! i))" by blast
  qed
qed

text \<open>Sorting both parts of such a list sorts it: \<open>t\<close> is \<open>h\<close> or the position before it.\<close>

lemma sorted_parts:
  assumes K: "k ` set xs \<subseteq> K" and xs: "0 \<le> head" "tail < int (length xs)" and h: "head \<le> h" "h \<le> tail" "t = h \<or> t = h - 1"
    and v: "v \<in> K" and p: "t = h - 1 \<longrightarrow> k (xs ! nat h) = v"
    and L: "\<And>i. head \<le> int i \<Longrightarrow> int i \<le> h \<Longrightarrow> may_precede lss rv (k (xs ! i)) v"
    and R: "\<And>i. h < int i \<Longrightarrow> int i \<le> tail \<Longrightarrow> may_precede lss rv v (k (xs ! i))"
    and s: "sorted_in (\<lambda>x y. may_precede lss rv (k x) (k y)) head t xs" "sorted_in (\<lambda>x y. may_precede lss rv (k x) (k y)) (h + 1) tail xs"
  shows "sorted_in (\<lambda>x y. may_precede lss rv (k x) (k y)) head tail xs"
proof -
  have "may_precede lss rv (k (xs ! i)) (k (xs ! j))" if ij: "head \<le> int i" "i < j" "int j \<le> tail" for i j
  proof -
    have m: "k (xs ! i) \<in> K" "k (xs ! j) \<in> K" using K xs ij by auto
    consider "int j \<le> t" | "int i \<le> h" "h < int j" | "h < int i" | "int j = h" "t = h - 1" using h(3) by linarith
    then show ?thesis
    proof cases
      case 2
      then show ?thesis using precede_trans [OF m(1) v m(2)] L [of i] R [of j] ij by simp
    next
      case 4
      then have "nat h = j" by simp
      then show ?thesis using p 4 L [of i] ij by simp
    qed (use s ij in \<open>auto simp: sorted_in_def\<close>)
  qed
  then show ?thesis unfolding sorted_in_def by blast
qed

lemma sorted_after_calls:
  assumes K: "k ` set zs \<subseteq> K" and zs: "0 \<le> head" "tail < int (length zs)" and h: "head \<le> h" "h \<le> tail" "t = h \<or> t = h - 1"
    and v: "v \<in> K" "k (zs ! nat h) = v"
    and L: "\<And>i. head \<le> int i \<Longrightarrow> int i \<le> h \<Longrightarrow> may_precede lss rv (k (zs ! i)) v"
    and R: "\<And>i. h < int i \<Longrightarrow> int i \<le> tail \<Longrightarrow> may_precede lss rv v (k (zs ! i))"
    and ab: "a = head \<and> b = t \<and> c = h + 1 \<and> d = tail \<or> a = h + 1 \<and> b = tail \<and> c = head \<and> d = t"
    and p: "perm_in a b zs ws" "perm_in c d ws us"
    and s: "sorted_in (\<lambda>x y. may_precede lss rv (k x) (k y)) a b ws" "sorted_in (\<lambda>x y. may_precede lss rv (k x) (k y)) c d us"
  shows "sorted_in (\<lambda>x y. may_precede lss rv (k x) (k y)) head tail us"
proof (rule sorted_parts [OF _ zs(1) _ h v(1)])
  let ?P = "\<lambda>x y. may_precede lss rv (k x) (k y)"
  have "sorted_in ?P a b us" by (rule sorted_in_outside [OF s(1) p(2)]) (use ab h in auto)
  then show "sorted_in ?P head t us" "sorted_in ?P (h + 1) tail us" using s(2) ab by auto
  show "k ` set us \<subseteq> K" using K perm_in_set [OF p(1)] perm_in_set [OF p(2)] by simp
  show "tail < int (length us)" using zs(2) perm_in_length [OF p(1)] perm_in_length [OF p(2)] by simp
  show "t = h - 1 \<longrightarrow> k (us ! nat h) = v"
    using perm_in_outside [OF p(1), of "nat h"] perm_in_outside [OF p(2), of "nat h"] v(2) zs h ab by auto
  have lw: "may_precede lss rv (k (ws ! i)) v" if "head \<le> int i" "int i \<le> h" for i
    by (rule perm_in_keeps [OF p(1), where P = "\<lambda>x. may_precede lss rv (k x) v", OF _ L that]) (use ab h in auto)
  show "may_precede lss rv (k (us ! i)) v" if "head \<le> int i" "int i \<le> h" for i
    by (rule perm_in_keeps [OF p(2), where P = "\<lambda>x. may_precede lss rv (k x) v", OF _ lw that]) (use ab h in auto)
  have rw: "may_precede lss rv v (k (ws ! i))" if "h + 1 \<le> int i" "int i \<le> tail" for i
    by (rule perm_in_keeps [OF p(1), where P = "\<lambda>x. may_precede lss rv v (k x)" and c = "h + 1" and d = tail]) (use R ab h that in auto)
  show "may_precede lss rv v (k (us ! i))" if "h < int i" "int i \<le> tail" for i
    by (rule perm_in_keeps [OF p(2), where P = "\<lambda>x. may_precede lss rv v (k x)" and c = "h + 1" and d = tail, OF _ rw]) (use ab h that in auto)
qed

lemma quicksort_sorted:
  assumes "mp_quicksort key lt (BoolObj (\<not> rv)) xs head tail = (xs', res)"
    and "\<And>x. x \<in> set xs \<Longrightarrow> key x = Inr (k x)" and "k ` set xs \<subseteq> K" and "0 \<le> head" and "tail < int (length xs)"
  shows "res = Inr () \<and> sorted_in (\<lambda>x y. may_precede lss rv (k x) (k y)) head tail xs'"
  using assms
proof (induction "nat (tail - head)" arbitrary: xs head tail xs' res rule: less_induct)
  case less
  show ?case
  proof (cases "head < tail")
    case False
    then show ?thesis using less.prems(1) by (auto simp: mp_quicksort.simps [of key lt _ xs head tail] sorted_in_def)
  next
    case True
    let ?v = "k (xs ! nat tail)" and ?P = "\<lambda>x y. may_precede lss rv (k x) (k y)" and ?qs = "mp_quicksort key lt (BoolObj (\<not> rv))"
    have v: "key (xs ! nat tail) = Inr ?v" "?v \<in> K" using less.prems(2-5) True int_nth_mem [of tail xs] by auto
    obtain ys h t where y: "partition_loop (keeps_up key lt (BoolObj (\<not> rv)) ?v) (keeps_down key lt (BoolObj (\<not> rv)) ?v) xs (head - 1) tail = (ys, Inr (h, t))"
      and z: "perm_in head tail xs (swap_items ys h tail)" "k (swap_items ys h tail ! nat h) = ?v"
      and L: "\<forall>i. head \<le> int i \<and> int i \<le> h \<longrightarrow> may_precede lss rv (k (swap_items ys h tail ! i)) ?v"
      and R: "\<forall>i. h < int i \<and> int i \<le> tail \<longrightarrow> may_precede lss rv ?v (k (swap_items ys h tail ! i))"
      by (rule partition_pivot [where rv = rv, OF less.prems(2-4) True less.prems(5) refl refl])
    have bd: "head \<le> h" "h \<le> tail" "t < tail" "t = h \<or> t = h - 1" using partition_bounds [OF y] True by auto
    have sub: "res' = Inr () \<and> sorted_in ?P a' b' us' \<and> perm_in a' b' us us'"
      if "?qs us a' b' = (us', res')" "set us = set xs" "length us = length xs" "a' = head \<and> b' = t \<or> a' = h + 1 \<and> b' = tail"
      for us us' a' b' res'
      using less.hyps [OF _ that(1)] quicksort_perm [OF that(1)] that(2-4) less.prems True bd by auto
    from less.prems(1) True obtain a b c d where ab: "a = head \<and> b = t \<and> c = h + 1 \<and> d = tail \<or> a = h + 1 \<and> b = tail \<and> c = head \<and> d = t"
      and calls: "(\<exists>e. ?qs (swap_items ys h tail) a b = (xs', Inl e) \<and> res = Inl e) \<or>
       (\<exists>ws. ?qs (swap_items ys h tail) a b = (ws, Inr ()) \<and> ?qs ws c d = (xs', res))"
      by (cases rule: quicksort_cases) (use v(1) y in auto)
    have "sorted_in ?P head tail xs' \<and> res = Inr ()" if w: "?qs (swap_items ys h tail) a b = (ws, Inr ())" "?qs ws c d = (xs', res)" for ws
    proof -
      have s1: "sorted_in ?P a b ws" "perm_in a b (swap_items ys h tail) ws"
        using sub [OF w(1)] perm_in_set [OF z(1)] perm_in_length [OF z(1)] ab by auto
      have s2: "res = Inr ()" "sorted_in ?P c d xs'" "perm_in c d ws xs'"
        using sub [OF w(2)] perm_in_set [OF z(1)] perm_in_length [OF z(1)] perm_in_set [OF s1(2)] perm_in_length [OF s1(2)] ab by auto
      have "sorted_in ?P head tail xs'"
        by (rule sorted_after_calls [OF _ less.prems(4) _ bd(1,2,4) v(2) z(2) L [rule_format] R [rule_format] ab s1(2) s2(3) s1(1) s2(2)])
          (use less.prems(3,5) perm_in_set [OF z(1)] perm_in_length [OF z(1)] in auto)
      then show ?thesis using s2(1) by simp
    qed
    then show ?thesis using calls sub [of "swap_items ys h tail" a b] perm_in_set [OF z(1)] perm_in_length [OF z(1)] ab by blast
  qed
qed

lemma list_sort_sorted:
  assumes "\<And>x. x \<in> set xs \<Longrightarrow> key x = Inr (k x)" and "k ` set xs \<subseteq> K"
  shows "\<exists>xs'. mp_obj_list_sort key lt rv xs = (xs', Inr ()) \<and> sorted_wrt (\<lambda>x y. may_precede lss rv (k x) (k y)) xs'"
proof (cases "length xs > 1")
  case True
  obtain xs' res where q: "mp_quicksort key lt (BoolObj (\<not> rv)) xs 0 (int (length xs) - 1) = (xs', res)" by fastforce
  have "res = Inr ()" "sorted_in (\<lambda>x y. may_precede lss rv (k x) (k y)) 0 (int (length xs) - 1) xs'"
    using quicksort_sorted [OF q assms] by auto
  moreover have "length xs' = length xs" using perm_in_length [OF quicksort_perm [OF q]] by simp
  moreover have "(if rv then BoolObj False else BoolObj True) = BoolObj (\<not> rv)" by simp
  ultimately show ?thesis using True q by (auto simp: mp_obj_list_sort_def sorted_in_def sorted_wrt_iff_nth_less)
next
  case False
  then have "xs = [] \<or> (\<exists>x. xs = [x])" by (cases xs) auto
  then show ?thesis by (auto simp: mp_obj_list_sort_def)
qed

end

text \<open>The operator on small integers, the one a list of integers is sorted with.\<close>

interpretation ints: less_op "mp_binary_op al fdiv fpow MP_BINARY_OP_LESS"
    "\<lambda>a b. MP_OBJ_SMALL_INT_VALUE a < MP_OBJ_SMALL_INT_VALUE b" UNIV for al fdiv fpow
  by unfold_locales (auto simp: mp_binary_op_def)

lemma list_sort_perm: "mset (fst (mp_obj_list_sort key lt rv xs)) = mset xs"
proof -
  obtain xs' res where q: "mp_quicksort key lt (if rv then BoolObj False else BoolObj True) xs 0 (int (length xs) - 1) = (xs', res)"
    by fastforce
  have "perm_in 0 (int (length xs) - 1) xs xs'" by (rule quicksort_perm [OF q]) auto
  then show ?thesis using q by (auto simp: mp_obj_list_sort_def perm_in_def)
qed

lemma list_sort_length [simp]: "length (fst (mp_obj_list_sort key lt rv xs)) = length xs"
  using mset_eq_length [OF list_sort_perm] .

text \<open>
  C19. Sorting a list, with a key function and in reverse or not. Whatever the key function and the operator do, also
  when they raise in the middle, the list keeps its items and their number of occurrences. Where they answer on the
  items and the answers are a strict weak order (none of two keys is less than the other both ways, and a key that is
  less than another is less than any third or the third less than the other), the sort returns and
  no item stands behind one that the order puts after it.
\<close>

theorem list_sort_correct:
  fixes items :: "'v list" and lt :: "'k \<Rightarrow> 'k \<Rightarrow> 'f obj_value result"
  assumes "\<And>x. x \<in> set items \<Longrightarrow> key x = Inr (k x)"
    and "\<And>a b. a \<in> k ` set items \<Longrightarrow> b \<in> k ` set items \<Longrightarrow> lt a b = Inr (BoolObj (lss a b))"
    and "\<And>a b. a \<in> k ` set items \<Longrightarrow> b \<in> k ` set items \<Longrightarrow> lss a b \<Longrightarrow> \<not> lss b a"
    and "\<And>a b c. a \<in> k ` set items \<Longrightarrow> b \<in> k ` set items \<Longrightarrow> c \<in> k ` set items \<Longrightarrow> lss a c \<Longrightarrow> lss a b \<or> lss b c"
  shows "(\<exists>items'. mp_obj_list_sort key lt reverse items = (items', Inr ()) \<and> mset items' = mset items \<and>
      sorted_wrt (\<lambda>x y. if reverse then \<not> lss (k x) (k y) else \<not> lss (k y) (k x)) items') \<and>
    mset (fst (mp_obj_list_sort (key' :: 'v \<Rightarrow> 'k result) (lt' :: 'k \<Rightarrow> 'k \<Rightarrow> 'f obj_value result) reverse items)) = mset items"
proof -
  have "less_op lt lss (k ` set items)" by unfold_locales (use assms(2-4) in auto)
  from less_op.list_sort_sorted [OF this assms(1) subset_refl, where rv = reverse]
  obtain items' where "mp_obj_list_sort key lt reverse items = (items', Inr ())"
    "sorted_wrt (\<lambda>x y. may_precede lss reverse (k x) (k y)) items'" by blast
  then show ?thesis using list_sort_perm [of key lt reverse items] unfolding may_precede_def by (simp add: list_sort_perm)
qed

theorem list_sort_correct_witness:
  "(\<exists>items'. mp_obj_list_sort Inr (mp_binary_op (\<lambda>n. None) (\<lambda>a b. ()) (\<lambda>a b. Inl TypeError) MP_BINARY_OP_LESS) True
        (map MP_OBJ_NEW_SMALL_INT [3, -1, 7, 3]) = (items', Inr ()) \<and>
      mset items' = mset (map MP_OBJ_NEW_SMALL_INT [3, -1, 7, 3]) \<and>
      sorted_wrt (\<lambda>x y. \<not> MP_OBJ_SMALL_INT_VALUE x < MP_OBJ_SMALL_INT_VALUE y) items') \<and>
    mset (fst (mp_obj_list_sort (\<lambda>x. Inl ValueError :: 32 word result) (\<lambda>a b. Inr (BoolObj True :: unit obj_value)) True
      (map MP_OBJ_NEW_SMALL_INT [3, -1, 7, 3]))) = mset (map MP_OBJ_NEW_SMALL_INT [3, -1, 7, 3])"
  using list_sort_correct [of "map MP_OBJ_NEW_SMALL_INT [3, -1, 7, 3]" Inr "\<lambda>x. x"
      "mp_binary_op (\<lambda>n. None) (\<lambda>a b. ()) (\<lambda>a b. Inl TypeError) MP_BINARY_OP_LESS"
      "\<lambda>a b. MP_OBJ_SMALL_INT_VALUE a < MP_OBJ_SMALL_INT_VALUE b" True "\<lambda>x. Inl ValueError" "\<lambda>a b. Inr (BoolObj True)",
      OF refl ints.answers [OF UNIV_I UNIV_I] ints.asym [OF UNIV_I UNIV_I] ints.negtrans [OF UNIV_I UNIV_I UNIV_I]]
  by simp

end
