(* ===== verification/Mp_List.thy ===== *)
theory Mp_List
  imports Obj List_Sort
begin

text \<open>
  Lists: the type \<^verbatim>\<open>list\<close> of \<^verbatim>\<open>py/objlist.c\<close>, the index and slice arithmetic it calls (\<^verbatim>\<open>mp_get_index\<close> of
  \<^verbatim>\<open>py/obj.c\<close>, \<^verbatim>\<open>mp_obj_slice_indices\<close> of \<^verbatim>\<open>py/objslice.c\<close>) and the sequence functions of \<^verbatim>\<open>py/sequence.c\<close>.
\<close>

subsection \<open>The state\<close>

text \<open>
  A list owns an array of \<^verbatim>\<open>alloc\<close> slots, of which the first \<^verbatim>\<open>len\<close> hold items. A slot is one word: \<open>None\<close> is
  \<^verbatim>\<open>MP_OBJ_NULL\<close>. The allocator \<open>al\<close> delivers a number of bytes with the words it leaves in them, or \<open>None\<close>.
\<close>

record 'v mp_obj_list =
  l_alloc :: nat
  l_len :: nat
  l_items :: "'v option list"

type_synonym 'v slots_alloc = "nat \<Rightarrow> (nat \<Rightarrow> 'v option) option"

text \<open>
  \<^verbatim>\<open>m_renew\<close> and \<^verbatim>\<open>m_new\<close> on slots. The size in bytes wraps at 32 bits; of no bytes \<^verbatim>\<open>m_malloc\<close> and \<^verbatim>\<open>m_realloc\<close>
  return a null pointer and do not raise.
\<close>

definition renew_slots :: "'v slots_alloc \<Rightarrow> 'v option list \<Rightarrow> nat \<Rightarrow> 'v option list result" where
  "renew_slots al items n =
    (let bytes = wrap32 (4 * n) in
     if bytes = 0 then Inr []
     else case al bytes of
       None \<Rightarrow> Inl MemoryError
     | Some f \<Rightarrow> Inr (map (\<lambda>i. if i < length items then items ! i else f i) [0..<bytes div 4]))"

definition new_slots :: "'v slots_alloc \<Rightarrow> nat \<Rightarrow> 'v option list result" where
  "new_slots al n = renew_slots al [] n"

text \<open>\<^verbatim>\<open>mp_seq_clear\<close> writes null to the slots from \<open>a\<close> up to \<open>b\<close>.\<close>

definition mp_seq_clear :: "'v option list \<Rightarrow> nat \<Rightarrow> nat \<Rightarrow> 'v option list" where
  "mp_seq_clear items a b = overwrite items a (replicate (b - a) None)"

subsection \<open>New lists\<close>

definition LIST_MIN_ALLOC :: nat where
  "LIST_MIN_ALLOC = 4"

definition mp_obj_list_init :: "'v slots_alloc \<Rightarrow> nat \<Rightarrow> 'v mp_obj_list result" where
  "mp_obj_list_init al n =
    (let alloc = (if n < LIST_MIN_ALLOC then LIST_MIN_ALLOC else n) in
     rbind (new_slots al alloc) (\<lambda>items. Inr \<lparr>l_alloc = alloc, l_len = n, l_items = mp_seq_clear items n alloc\<rparr>))"

text \<open>The object itself has four words.\<close>

definition list_new :: "'v slots_alloc \<Rightarrow> nat \<Rightarrow> 'v mp_obj_list result" where
  "list_new al n = (case al 16 of None \<Rightarrow> Inl MemoryError | Some _ \<Rightarrow> mp_obj_list_init al n)"

definition mp_obj_new_list :: "'v slots_alloc \<Rightarrow> 'v option list \<Rightarrow> 'v mp_obj_list result" where
  "mp_obj_new_list al items =
    rbind (list_new al (length items)) (\<lambda>l. Inr (l\<lparr>l_items := overwrite (l_items l) 0 items\<rparr>))"

subsection \<open>Indices and slices\<close>

fun mp_obj_get_int_maybe :: "mp_obj \<Rightarrow> int option" where
  "mp_obj_get_int_maybe (Bool b) = Some (of_bool b)"
| "mp_obj_get_int_maybe (SmallInt v) = Some v"
| "mp_obj_get_int_maybe _ = None"

text \<open>Strings, bytes and tuples do not have the operator \<^verbatim>\<open>MP_UNARY_OP_INT\<close> that \<^verbatim>\<open>mp_obj_get_int\<close> asks for.\<close>

definition mp_obj_get_int :: "mp_obj \<Rightarrow> int result" where
  "mp_obj_get_int arg = (case mp_obj_get_int_maybe arg of Some v \<Rightarrow> Inr v | None \<Rightarrow> Inl TypeError)"

definition mp_get_index :: "nat \<Rightarrow> mp_obj \<Rightarrow> bool \<Rightarrow> nat result" where
  "mp_get_index len index is_slice =
    (case mp_obj_get_int_maybe index of
       None \<Rightarrow> Inl TypeError
     | Some i \<Rightarrow>
         let i = (if i < 0 then int32_of (i + int len) else i) in
         if is_slice then Inr (if i < 0 then 0 else if nat i > len then len else nat i)
         else if i < 0 \<or> nat i \<ge> len then Inl IndexError else Inr (nat i))"

text \<open>A slice object; \<open>None\<close> is \<^verbatim>\<open>mp_const_none\<close>.\<close>

record mp_obj_slice =
  sl_start :: "mp_obj option"
  sl_stop :: "mp_obj option"
  sl_step :: "mp_obj option"

record mp_bound_slice_t =
  bs_start :: int
  bs_stop :: int
  bs_step :: int

text \<open>One end of a slice: the default \<open>d\<close>, or the value counted from the end if negative, brought between \<open>lo\<close> and \<open>hi\<close>.\<close>

definition slice_end :: "int \<Rightarrow> int \<Rightarrow> int \<Rightarrow> int \<Rightarrow> mp_obj option \<Rightarrow> int result" where
  "slice_end len lo hi d x =
    (case x of
       None \<Rightarrow> Inr d
     | Some x \<Rightarrow> rbind (mp_obj_get_int x) (\<lambda>v.
         let v = (if v < 0 then int32_of (v + len) else v) in Inr (min hi (max v lo))))"

definition mp_obj_slice_indices :: "mp_obj_slice \<Rightarrow> int \<Rightarrow> mp_bound_slice_t result" where
  "mp_obj_slice_indices self len =
    rbind (case sl_step self of
             None \<Rightarrow> Inr 1
           | Some x \<Rightarrow> rbind (mp_obj_get_int x) (\<lambda>step. if step = 0 then Inl ValueError else Inr step)) (\<lambda>step.
    if step > 0 then
      rbind (slice_end len 0 len 0 (sl_start self)) (\<lambda>start.
      rbind (slice_end len 0 len len (sl_stop self)) (\<lambda>stop.
      Inr \<lparr>bs_start = start, bs_stop = stop, bs_step = step\<rparr>))
    else
      rbind (slice_end len (- 1) (len - 1) (len - 1) (sl_start self)) (\<lambda>start.
      rbind (slice_end len (- 1) (len - 1) (- 1) (sl_stop self)) (\<lambda>stop.
      Inr \<lparr>bs_start = start, bs_stop = stop, bs_step = step\<rparr>)))"

definition mp_seq_get_fast_slice_indexes :: "nat \<Rightarrow> mp_obj_slice \<Rightarrow> (mp_bound_slice_t \<times> bool) result" where
  "mp_seq_get_fast_slice_indexes len sl =
    rbind (mp_obj_slice_indices sl (int len)) (\<lambda>b.
      let b = (if bs_step b < 0 then b\<lparr>bs_stop := bs_stop b + 1\<rparr> else b);
          b = (if bs_step b > 0 \<and> bs_start b > bs_stop b then b\<lparr>bs_stop := bs_start b\<rparr>
               else if bs_step b < 0 \<and> bs_start b < bs_stop b then b\<lparr>bs_stop := bs_start b + 1\<rparr>
               else b)
      in Inr (b, bs_step b = 1))"

subsection \<open>Growing and shrinking\<close>

text \<open>An operation that changes a list returns its result or exception and the list it leaves.\<close>

definition mp_obj_list_append :: "'v slots_alloc \<Rightarrow> 'v mp_obj_list \<Rightarrow> 'v \<Rightarrow> unit result \<times> 'v mp_obj_list" where
  "mp_obj_list_append al self arg =
    (let put = (\<lambda>self. (Inr (), self\<lparr>l_items := (l_items self)[l_len self := Some arg], l_len := l_len self + 1\<rparr>)) in
     if l_len self \<ge> l_alloc self then
       (case renew_slots al (l_items self) (wrap32 (l_alloc self * 2)) of
          Inl e \<Rightarrow> (Inl e, self)
        | Inr items \<Rightarrow>
            (let alloc = wrap32 (l_alloc self * 2) in
             put (self\<lparr>l_alloc := alloc, l_items := mp_seq_clear items (l_len self + 1) alloc\<rparr>)))
     else put self)"

text \<open>The items an iterator delivers, up to its end or the exception it raises.\<close>

fun list_extend_from_iter :: "'v slots_alloc \<Rightarrow> 'v mp_obj_list \<Rightarrow> 'v result list \<Rightarrow> unit result \<times> 'v mp_obj_list" where
  "list_extend_from_iter al self [] = (Inr (), self)"
| "list_extend_from_iter al self (Inl e # its) = (Inl e, self)"
| "list_extend_from_iter al self (Inr x # its) =
    (case mp_obj_list_append al self x of
       (Inl e, self) \<Rightarrow> (Inl e, self)
     | (Inr _, self) \<Rightarrow> list_extend_from_iter al self its)"

text \<open>
  The argument of \<^verbatim>\<open>list.extend\<close>: the list itself, another list, or another iterable. Where it is the list itself the
  items are read after the array was renewed.
\<close>

datatype 'v extend_arg = SelfList | OtherList "'v mp_obj_list" | Iterable "'v result list"

definition list_extend_with ::
  "'v slots_alloc \<Rightarrow> 'v mp_obj_list \<Rightarrow> nat \<Rightarrow> ('v mp_obj_list \<Rightarrow> 'v option list) \<Rightarrow> unit result \<times> 'v mp_obj_list" where
  "list_extend_with al self arg_len arg_items =
    (let put = (\<lambda>self. (Inr (), self\<lparr>l_items := overwrite (l_items self) (l_len self) (take arg_len (arg_items self)),
                                    l_len := l_len self + arg_len\<rparr>)) in
     if wrap32 (l_len self + arg_len) > l_alloc self then
       (let n = wrap32 (l_len self + arg_len + 4) in
        case renew_slots al (l_items self) n of
          Inl e \<Rightarrow> (Inl e, self)
        | Inr items \<Rightarrow> put (self\<lparr>l_alloc := n, l_items := mp_seq_clear items (l_len self + arg_len) n\<rparr>))
     else put self)"

fun list_extend :: "'v slots_alloc \<Rightarrow> 'v mp_obj_list \<Rightarrow> 'v extend_arg \<Rightarrow> unit result \<times> 'v mp_obj_list" where
  "list_extend al self SelfList = list_extend_with al self (l_len self) l_items"
| "list_extend al self (OtherList arg) = list_extend_with al self (l_len arg) (\<lambda>_. l_items arg)"
| "list_extend al self (Iterable its) = list_extend_from_iter al self its"

definition list_pop :: "'v slots_alloc \<Rightarrow> 'v mp_obj_list \<Rightarrow> mp_obj option \<Rightarrow> 'v option result \<times> 'v mp_obj_list" where
  "list_pop al self index =
    (if l_len self = 0 then (Inl IndexError, self)
     else case mp_get_index (l_len self) (case index of None \<Rightarrow> SmallInt (- 1) | Some i \<Rightarrow> i) False of
       Inl e \<Rightarrow> (Inl e, self)
     | Inr i \<Rightarrow>
         let ret = l_items self ! i;
             len = l_len self - 1;
             items = overwrite (l_items self) i (subbuf (i + 1) (len - i) (l_items self));
             self = self\<lparr>l_len := len, l_items := items[len := None]\<rparr>
         in if l_alloc self > LIST_MIN_ALLOC \<and> l_alloc self > 2 * l_len self then
              (case renew_slots al (l_items self) (l_alloc self div 2) of
                 Inl e \<Rightarrow> (Inl e, self)
               | Inr items \<Rightarrow> (Inr ret, self\<lparr>l_items := items, l_alloc := l_alloc self div 2\<rparr>))
            else (Inr ret, self))"

definition list_clear :: "'v slots_alloc \<Rightarrow> 'v mp_obj_list \<Rightarrow> unit result \<times> 'v mp_obj_list" where
  "list_clear al self =
    (let self = self\<lparr>l_len := 0\<rparr> in
     case renew_slots al (l_items self) LIST_MIN_ALLOC of
       Inl e \<Rightarrow> (Inl e, self)
     | Inr items \<Rightarrow> (Inr (), self\<lparr>l_alloc := LIST_MIN_ALLOC, l_items := mp_seq_clear items 0 LIST_MIN_ALLOC\<rparr>))"

definition list_copy :: "'v slots_alloc \<Rightarrow> 'v mp_obj_list \<Rightarrow> 'v mp_obj_list result" where
  "list_copy al self = mp_obj_new_list al (take (l_len self) (l_items self))"

subsection \<open>Searching\<close>

definition mp_seq_count_obj :: "mp_obj option list \<Rightarrow> nat \<Rightarrow> mp_obj \<Rightarrow> nat" where
  "mp_seq_count_obj items len v = fold (\<lambda>i count. if mp_obj_equal (the (items ! i)) v then count + 1 else count) [0..<len] 0"

function index_loop :: "mp_obj option list \<Rightarrow> mp_obj \<Rightarrow> nat \<Rightarrow> nat \<Rightarrow> nat result" where
  "index_loop items v i stop =
    (if i < stop then if mp_obj_equal (the (items ! i)) v then Inr i else index_loop items v (i + 1) stop
     else Inl ValueError)"
  by pat_completeness auto
termination by (relation "measure (\<lambda>(items, v, i, stop). stop - i)") auto

declare index_loop.simps [simp del]

text \<open>The optional arguments \<open>start\<close> and \<open>stop\<close>; without the first there is no second.\<close>

definition mp_seq_index_obj :: "mp_obj option list \<Rightarrow> nat \<Rightarrow> mp_obj \<Rightarrow> (mp_obj \<times> mp_obj option) option \<Rightarrow> nat result" where
  "mp_seq_index_obj items len v args =
    (case args of
       None \<Rightarrow> index_loop items v 0 len
     | Some (a, b) \<Rightarrow>
         rbind (mp_get_index len a True) (\<lambda>start.
         rbind (case b of None \<Rightarrow> Inr len | Some b \<Rightarrow> mp_get_index len b True) (\<lambda>stop.
         index_loop items v start stop)))"

definition list_count :: "mp_obj mp_obj_list \<Rightarrow> mp_obj \<Rightarrow> nat" where
  "list_count self v = mp_seq_count_obj (l_items self) (l_len self) v"

definition list_index :: "mp_obj mp_obj_list \<Rightarrow> mp_obj \<Rightarrow> (mp_obj \<times> mp_obj option) option \<Rightarrow> nat result" where
  "list_index self v args = mp_seq_index_obj (l_items self) (l_len self) v args"

definition mp_obj_list_remove :: "mp_obj slots_alloc \<Rightarrow> mp_obj mp_obj_list \<Rightarrow> mp_obj \<Rightarrow> unit result \<times> mp_obj mp_obj_list" where
  "mp_obj_list_remove al self v =
    (case list_index self v None of
       Inl e \<Rightarrow> (Inl e, self)
     | Inr i \<Rightarrow> (let (r, self) = list_pop al self (Some (SmallInt (int i))) in (rbind r (\<lambda>_. Inr ()), self)))"

subsection \<open>Moving items\<close>

text \<open>The loop of \<^verbatim>\<open>list.insert\<close>, from \<open>i\<close> down to \<open>index\<close>.\<close>

fun insert_shift :: "'v option list \<Rightarrow> nat \<Rightarrow> nat \<Rightarrow> 'v option list" where
  "insert_shift items 0 index = items"
| "insert_shift items (Suc i) index = (if Suc i > index then insert_shift (items[Suc i := items ! i]) i index else items)"

text \<open>
  The index is taken from the object word without a check of its type. \<open>none\<close> is the object \<^verbatim>\<open>mp_const_none\<close> that is
  appended first.
\<close>

definition list_insert :: "'v slots_alloc \<Rightarrow> 'v \<Rightarrow> 'v mp_obj_list \<Rightarrow> 32 word \<Rightarrow> 'v \<Rightarrow> unit result \<times> 'v mp_obj_list" where
  "list_insert al none self idx obj =
    (let index = MP_OBJ_SMALL_INT_VALUE idx;
         index = (if index < 0 then int32_of (index + int (l_len self)) else index);
         index = (if index < 0 then 0 else index);
         index = (if nat index > l_len self then l_len self else nat index)
     in case mp_obj_list_append al self none of
       (Inl e, self) \<Rightarrow> (Inl e, self)
     | (Inr _, self) \<Rightarrow> (Inr (), self\<lparr>l_items := (insert_shift (l_items self) (l_len self - 1) index)[index := Some obj]\<rparr>))"

function reverse_loop :: "'v option list \<Rightarrow> nat \<Rightarrow> nat \<Rightarrow> 'v option list" where
  "reverse_loop items len i =
    (if i < len div 2 then reverse_loop (items[i := items ! (len - i - 1), len - i - 1 := items ! i]) len (i + 1) else items)"
  by pat_completeness auto
termination by (relation "measure (\<lambda>(items, len, i). len - i)") auto

declare reverse_loop.simps [simp del]

definition list_reverse :: "'v mp_obj_list \<Rightarrow> 'v mp_obj_list" where
  "list_reverse self = self\<lparr>l_items := reverse_loop (l_items self) (l_len self) 0\<rparr>"

text \<open>\<^verbatim>\<open>list.sort\<close> moves the items in place.\<close>

definition list_sort ::
  "('v \<Rightarrow> 'k result) \<Rightarrow> ('k \<Rightarrow> 'k \<Rightarrow> 'f obj_value result) \<Rightarrow> bool \<Rightarrow> 'v mp_obj_list \<Rightarrow> unit result \<times> 'v mp_obj_list" where
  "list_sort key lt reverse self =
    (let (xs, res) = mp_obj_list_sort (\<lambda>x. key (the x)) lt reverse (take (l_len self) (l_items self))
     in (res, self\<lparr>l_items := overwrite (l_items self) 0 xs\<rparr>))"

subsection \<open>Subscripts\<close>

text \<open>\<^verbatim>\<open>mp_seq_replace_slice_no_grow\<close> and \<^verbatim>\<open>mp_seq_replace_slice_grow_inplace\<close>: two \<^verbatim>\<open>memmove\<close> each, in opposite order.\<close>

definition mp_seq_replace_slice_no_grow :: "'v list \<Rightarrow> nat \<Rightarrow> nat \<Rightarrow> nat \<Rightarrow> 'v list \<Rightarrow> 'v list" where
  "mp_seq_replace_slice_no_grow dest dest_len from till slc =
    (let dest = overwrite dest from slc in overwrite dest (from + length slc) (subbuf till (dest_len - till) dest))"

definition mp_seq_replace_slice_grow_inplace :: "'v list \<Rightarrow> nat \<Rightarrow> nat \<Rightarrow> nat \<Rightarrow> 'v list \<Rightarrow> nat \<Rightarrow> 'v list" where
  "mp_seq_replace_slice_grow_inplace dest dest_len from till slc len_adj =
    overwrite (overwrite dest (from + length slc) (subbuf till (dest_len + len_adj - (from + length slc)) dest)) from slc"

text \<open>The loops of \<^verbatim>\<open>mp_seq_extract_slice\<close>; \<open>None\<close> is a loop that never ends.\<close>

partial_function (option) extract_loop ::
  "'v slots_alloc \<Rightarrow> 'v option list \<Rightarrow> int \<Rightarrow> int \<Rightarrow> int \<Rightarrow> 'v mp_obj_list \<Rightarrow> 'v mp_obj_list result option" where
  "extract_loop al items start stop step res =
    (if (if step < 0 then start \<ge> stop else start < stop) then
       (case mp_obj_list_append al res (the (items ! nat start)) of
          (Inl e, _) \<Rightarrow> Some (Inl e)
        | (Inr _, res) \<Rightarrow> extract_loop al items (int32_of (start + step)) stop step res)
     else Some (Inr res))"

definition mp_seq_extract_slice :: "'v slots_alloc \<Rightarrow> 'v option list \<Rightarrow> mp_bound_slice_t \<Rightarrow> 'v mp_obj_list result option" where
  "mp_seq_extract_slice al items b =
    (case mp_obj_new_list al [] of
       Inl e \<Rightarrow> Some (Inl e)
     | Inr res \<Rightarrow> extract_loop al items (bs_start b) (bs_stop b) (bs_step b) res)"

datatype subscript = Index mp_obj | Slice mp_obj_slice

definition list_subscr_delete :: "'v slots_alloc \<Rightarrow> 'v mp_obj_list \<Rightarrow> subscript \<Rightarrow> unit result \<times> 'v mp_obj_list" where
  "list_subscr_delete al self index =
    (case index of
       Slice sl \<Rightarrow>
         (case mp_seq_get_fast_slice_indexes (l_len self) sl of
            Inl e \<Rightarrow> (Inl e, self)
          | Inr (b, fast) \<Rightarrow>
              if \<not> fast then (Inl NotImplementedError, self)
              else
                let len = nat (int (l_len self) + (bs_start b - bs_stop b));
                    items = mp_seq_replace_slice_no_grow (l_items self) (l_len self) (nat (bs_start b)) (nat (bs_stop b)) []
                in (Inr (), self\<lparr>l_items := mp_seq_clear items len (l_len self), l_len := len\<rparr>))
     | Index i \<Rightarrow> (let (r, self) = list_pop al self (Some i) in (rbind r (\<lambda>_. Inr ()), self)))"

datatype 'v loaded = Item "'v option" | NewList "'v mp_obj_list"

definition list_subscr_load :: "'v slots_alloc \<Rightarrow> 'v mp_obj_list \<Rightarrow> subscript \<Rightarrow> 'v loaded result option" where
  "list_subscr_load al self index =
    (case index of
       Slice sl \<Rightarrow>
         (case mp_seq_get_fast_slice_indexes (l_len self) sl of
            Inl e \<Rightarrow> Some (Inl e)
          | Inr (b, fast) \<Rightarrow>
              if \<not> fast then map_option (\<lambda>r. rbind r (\<lambda>l. Inr (NewList l))) (mp_seq_extract_slice al (l_items self) b)
              else Some (rbind (list_new al (nat (bs_stop b - bs_start b))) (\<lambda>res.
                Inr (NewList (res\<lparr>l_items := overwrite (l_items res) 0 (subbuf (nat (bs_start b)) (l_len res) (l_items self))\<rparr>)))))
     | Index i \<Rightarrow> Some (rbind (mp_get_index (l_len self) i False) (\<lambda>i. Inr (Item (l_items self ! i)))))"

definition mp_obj_list_store :: "'v mp_obj_list \<Rightarrow> mp_obj \<Rightarrow> 'v \<Rightarrow> unit result \<times> 'v mp_obj_list" where
  "mp_obj_list_store self index v =
    (case mp_get_index (l_len self) index False of
       Inl e \<Rightarrow> (Inl e, self)
     | Inr i \<Rightarrow> (Inr (), self\<lparr>l_items := (l_items self)[i := Some v]\<rparr>))"

text \<open>
  Storing to a slice: \<open>vs\<close> are the items that \<^verbatim>\<open>mp_obj_get_array\<close> finds in the value, a tuple or another list
  (\<open>None\<close> where it is neither and raises).
\<close>

definition list_store_slice ::
  "'v slots_alloc \<Rightarrow> 'v mp_obj_list \<Rightarrow> mp_obj_slice \<Rightarrow> 'v option list option \<Rightarrow> unit result \<times> 'v mp_obj_list" where
  "list_store_slice al self sl vs =
    (case vs of
       None \<Rightarrow> (Inl TypeError, self)
     | Some vs \<Rightarrow>
         case mp_seq_get_fast_slice_indexes (l_len self) sl of
           Inl e \<Rightarrow> (Inl e, self)
         | Inr (b, fast) \<Rightarrow>
             if \<not> fast then (Inl NotImplementedError, self)
             else
               let start = nat (bs_start b); stop = nat (bs_stop b);
                   len_adj = int (length vs) - (bs_stop b - bs_start b);
                   len = nat (int (l_len self) + len_adj)
               in if len_adj > 0 then
                    let grow = (\<lambda>self. (Inr (), self\<lparr>l_items :=
                          mp_seq_replace_slice_grow_inplace (l_items self) (l_len self) start stop vs (nat len_adj), l_len := len\<rparr>))
                    in if len > l_alloc self then
                         (case renew_slots al (l_items self) len of
                            Inl e \<Rightarrow> (Inl e, self)
                          | Inr items \<Rightarrow> grow (self\<lparr>l_items := items, l_alloc := len\<rparr>))
                       else grow self
                  else
                    (Inr (), self\<lparr>l_items := mp_seq_clear (mp_seq_replace_slice_no_grow (l_items self) (l_len self) start stop vs)
                        len (l_len self), l_len := len\<rparr>))"

subsection \<open>Operators\<close>

definition list_add :: "'v slots_alloc \<Rightarrow> 'v mp_obj_list \<Rightarrow> 'v mp_obj_list \<Rightarrow> 'v mp_obj_list result" where
  "list_add al self p =
    rbind (list_new al (wrap32 (l_len self + l_len p))) (\<lambda>s.
      Inr (s\<lparr>l_items := overwrite (overwrite (l_items s) 0 (take (l_len self) (l_items self))) (l_len self)
        (take (l_len p) (l_items p))\<rparr>))"

fun mp_seq_multiply :: "'v list \<Rightarrow> nat \<Rightarrow> nat \<Rightarrow> 'v list \<Rightarrow> 'v list" where
  "mp_seq_multiply items at 0 dest = dest"
| "mp_seq_multiply items at (Suc n) dest = mp_seq_multiply items (at + length items) n (overwrite dest at items)"

text \<open>The number of items wraps at 32 bits, the copying does not.\<close>

definition list_multiply :: "'v slots_alloc \<Rightarrow> 'v mp_obj_list \<Rightarrow> int \<Rightarrow> 'v mp_obj_list result" where
  "list_multiply al self n =
    (let n = (if n < 0 then 0 else n) in
     rbind (list_new al (wrap32 (l_len self * nat n))) (\<lambda>s.
       Inr (s\<lparr>l_items := mp_seq_multiply (take (l_len self) (l_items self)) 0 (nat n) (l_items s)\<rparr>)))"

text \<open>\<^verbatim>\<open>mp_seq_cmp_objs\<close>: \<open>eq\<close> is \<^verbatim>\<open>mp_obj_equal\<close> and \<open>bop\<close> is \<^verbatim>\<open>mp_binary_op\<close>, both of which may raise.\<close>

definition seq_cmp_tie :: "mp_binary_op_t \<Rightarrow> nat \<Rightarrow> nat \<Rightarrow> bool" where
  "seq_cmp_tie op len1 len2 = (if len1 \<noteq> len2 then \<not> len1 < len2 else op \<noteq> MP_BINARY_OP_MORE)"

function seq_cmp_loop ::
  "('v \<Rightarrow> 'v \<Rightarrow> bool result) \<Rightarrow> (mp_binary_op_t \<Rightarrow> 'v \<Rightarrow> 'v \<Rightarrow> 'f obj_value result) \<Rightarrow> mp_binary_op_t \<Rightarrow> 'v list \<Rightarrow> 'v list \<Rightarrow> nat \<Rightarrow> bool result"
where
  "seq_cmp_loop eq bop op items1 items2 i =
    (if i < min (length items1) (length items2) then
       rbind (eq (items1 ! i) (items2 ! i)) (\<lambda>same.
         if same then seq_cmp_loop eq bop op items1 items2 (i + 1)
         else if op = MP_BINARY_OP_EQUAL then Inr False
         else rbind (bop op (items1 ! i) (items2 ! i)) (\<lambda>r. Inr (r = BoolObj True)))
     else Inr (seq_cmp_tie op (length items1) (length items2)))"
  by pat_completeness auto
termination by (relation "measure (\<lambda>(eq, bop, op, xs, ys, i). length xs - i)") auto

declare seq_cmp_loop.simps [simp del]

definition mp_seq_cmp_objs ::
  "('v \<Rightarrow> 'v \<Rightarrow> bool result) \<Rightarrow> (mp_binary_op_t \<Rightarrow> 'v \<Rightarrow> 'v \<Rightarrow> 'f obj_value result) \<Rightarrow> mp_binary_op_t \<Rightarrow> 'v list \<Rightarrow> 'v list \<Rightarrow> bool result" where
  "mp_seq_cmp_objs eq bop op items1 items2 =
    (if op = MP_BINARY_OP_EQUAL \<and> length items1 \<noteq> length items2 then Inr False
     else if op = MP_BINARY_OP_LESS then seq_cmp_loop eq bop MP_BINARY_OP_MORE items2 items1 0
     else if op = MP_BINARY_OP_LESS_EQUAL then seq_cmp_loop eq bop MP_BINARY_OP_MORE_EQUAL items2 items1 0
     else seq_cmp_loop eq bop op items1 items2 0)"

text \<open>
  The right operand of a list operator: the list itself, another list, an integer, another iterable, or something else.
  In place addition extends the left list and accepts what \<^verbatim>\<open>list.extend\<close> accepts.
\<close>

datatype 'v operand = SelfOperand | ListOperand "'v mp_obj_list" | IntOperand int | IterOperand "'v result list" | OtherOperand

fun operand_list :: "'v mp_obj_list \<Rightarrow> 'v operand \<Rightarrow> 'v mp_obj_list option" where
  "operand_list lhs SelfOperand = Some lhs"
| "operand_list lhs (ListOperand p) = Some p"
| "operand_list lhs _ = None"

fun operand_iter :: "'v operand \<Rightarrow> 'v extend_arg" where
  "operand_iter SelfOperand = SelfList"
| "operand_iter (ListOperand p) = OtherList p"
| "operand_iter (IterOperand its) = Iterable its"
| "operand_iter _ = Iterable [Inl TypeError]"

datatype 'v op_value = LhsValue | ListValue "'v mp_obj_list" | BoolValue bool | Unsupported

definition list_items :: "'v mp_obj_list \<Rightarrow> 'v list" where
  "list_items l = map the (take (l_len l) (l_items l))"

definition list_binary_op ::
  "'v slots_alloc \<Rightarrow> ('v \<Rightarrow> 'v \<Rightarrow> bool result) \<Rightarrow> (mp_binary_op_t \<Rightarrow> 'v \<Rightarrow> 'v \<Rightarrow> 'f obj_value result) \<Rightarrow>
    mp_binary_op_t \<Rightarrow> 'v mp_obj_list \<Rightarrow> 'v operand \<Rightarrow> 'v op_value result \<times> 'v mp_obj_list" where
  "list_binary_op al eq bop op lhs rhs =
    (case op of
       MP_BINARY_OP OP_ADD \<Rightarrow>
         (case operand_list lhs rhs of
            None \<Rightarrow> (Inr Unsupported, lhs)
          | Some p \<Rightarrow> (rbind (list_add al lhs p) (\<lambda>s. Inr (ListValue s)), lhs))
     | MP_BINARY_OP_INPLACE OP_ADD \<Rightarrow>
         (let (r, lhs) = list_extend al lhs (operand_iter rhs) in (rbind r (\<lambda>_. Inr LhsValue), lhs))
     | MP_BINARY_OP OP_MULTIPLY \<Rightarrow>
         (case rhs of
            IntOperand n \<Rightarrow> (rbind (list_multiply al lhs n) (\<lambda>s. Inr (ListValue s)), lhs)
          | _ \<Rightarrow> (Inr Unsupported, lhs))
     | _ \<Rightarrow>
         if op \<in> {MP_BINARY_OP_EQUAL, MP_BINARY_OP_LESS, MP_BINARY_OP_LESS_EQUAL, MP_BINARY_OP_MORE, MP_BINARY_OP_MORE_EQUAL} then
           (case operand_list lhs rhs of
              None \<Rightarrow> (if op = MP_BINARY_OP_EQUAL then Inr (BoolValue False) else Inr Unsupported, lhs)
            | Some p \<Rightarrow> (rbind (mp_seq_cmp_objs eq bop op (list_items lhs) (list_items p)) (\<lambda>b. Inr (BoolValue b)), lhs))
         else (Inr Unsupported, lhs))"

text \<open>The iterator of a list: a position in it, and the item it delivers or the end of the iteration.\<close>

definition list_it_iternext :: "'v mp_obj_list \<Rightarrow> nat \<Rightarrow> 'v option option \<times> nat" where
  "list_it_iternext l cur = (if cur < l_len l then (Some (l_items l ! cur), cur + 1) else (None, cur))"

subsection \<open>The rest of the type\<close>

text \<open>The constructor, without an argument or with an iterable.\<close>

definition list_make_new :: "'v slots_alloc \<Rightarrow> 'v result list option \<Rightarrow> 'v mp_obj_list result" where
  "list_make_new al arg =
    rbind (mp_obj_new_list al []) (\<lambda>l.
      case arg of
        None \<Rightarrow> Inr l
      | Some its \<Rightarrow> (let (r, l) = list_extend_from_iter al l its in rbind r (\<lambda>_. Inr l)))"

definition list_unary_op :: "mp_unary_op_t \<Rightarrow> 'v mp_obj_list \<Rightarrow> 'f obj_value option" where
  "list_unary_op op self =
    (case op of
       MP_UNARY_OP_BOOL \<Rightarrow> Some (BoolObj (l_len self \<noteq> 0))
     | MP_UNARY_OP_LEN \<Rightarrow> Some (IntObj (MP_OBJ_NEW_SMALL_INT (int (l_len self))))
     | _ \<Rightarrow> None)"

text \<open>For C code that fills or cuts a list itself and is trusted with its length.\<close>

definition mp_obj_list_set_len :: "'v mp_obj_list \<Rightarrow> nat \<Rightarrow> 'v mp_obj_list" where
  "mp_obj_list_set_len self len = self\<lparr>l_len := len\<rparr>"

end
