(* ===== verification/List_Correct.thy ===== *)
theory List_Correct
  imports Mp_List
begin

text \<open>
  The lists of \<open>Mp_List\<close> implement the lists of Python: each operation on the array of slots has the effect of the
  abstract operation on the sequence of items, and keeps the slots behind the last item null, so that the collector
  finds no stale object there.
\<close>

subsection \<open>What a list represents\<close>

text \<open>The heap is smaller than the address space: a request of a gigabyte fails.\<close>

definition heap_small :: "'v slots_alloc \<Rightarrow> bool" where
  "heap_small al \<longleftrightarrow> (\<forall>n. n \<ge> 2 ^ 30 \<longrightarrow> al n = None)"

definition list_rep :: "'v mp_obj_list \<Rightarrow> 'v list \<Rightarrow> bool" where
  "list_rep l vs \<longleftrightarrow> l_len l = length vs \<and> length vs \<le> l_alloc l \<and> 0 < l_alloc l \<and> l_alloc l < 2 ^ 28 \<and>
    l_items l = map Some vs @ replicate (l_alloc l - length vs) None"

lemma list_repD:
  assumes "list_rep l vs"
  shows "l_len l = length vs" "length vs \<le> l_alloc l" "0 < l_alloc l" "l_alloc l < 268435456"
    "l_items l = map Some vs @ replicate (l_alloc l - length vs) None" "length (l_items l) = l_alloc l"
  using assms by (auto simp: list_rep_def)

lemma renew_slots_grows:
  assumes "heap_small al" and "renew_slots al items n = Inr items'" and "0 < n" and "n < 2 ^ 30"
  shows "n < 2 ^ 28" and "\<exists>js. length js = n - length items \<and> items' = take n items @ js"
proof -
  have w: "wrap32 (4 * n) = 4 * n" using assms(4) by simp
  then obtain f where f: "al (4 * n) = Some f" "items' = map (\<lambda>i. if i < length items then items ! i else f i) [0..<n]"
    using assms(2,3) by (auto simp: renew_slots_def Let_def split: option.splits)
  show "n < 2 ^ 28"
  proof (rule ccontr)
    assume "\<not> n < 2 ^ 28"
    then have "al (4 * n) = None" using assms(1) by (simp add: heap_small_def)
    then show False using f(1) by simp
  qed
  have "take (length items) items' = take n items" unfolding f(2) by (rule nth_equalityI) auto
  then have "items' = take n items @ drop (length items) items'" by (metis append_take_drop_id)
  moreover have "length (drop (length items) items') = n - length items" unfolding f(2) by simp
  ultimately show "\<exists>js. length js = n - length items \<and> items' = take n items @ js" by blast
qed

lemma renew_slots_error: "renew_slots al items n = Inl e \<Longrightarrow> e = MemoryError"
  by (auto simp: renew_slots_def Let_def split: if_splits option.splits)

lemma seq_clear_tail: "length ys = b - a \<Longrightarrow> length xs = a \<Longrightarrow> a \<le> b \<Longrightarrow> mp_seq_clear (xs @ ys) a b = xs @ replicate (b - a) None"
  by (simp add: mp_seq_clear_def overwrite_def)

subsection \<open>New lists\<close>

lemma list_new_slots:
  assumes "heap_small al" and "list_new al n = Inr l" and "n < 2 ^ 30"
  obtains js where "length js = n" and "l_items l = js @ replicate (l_alloc l - n) None" and "l_len l = n"
    and "n \<le> l_alloc l" and "0 < l_alloc l" and "l_alloc l < 2 ^ 28"
proof -
  define m where "m = (if n < LIST_MIN_ALLOC then LIST_MIN_ALLOC else n)"
  obtain items where i: "renew_slots al [] m = Inr items" "l = \<lparr>l_alloc = m, l_len = n, l_items = mp_seq_clear items n m\<rparr>"
    using assms(2) by (auto simp: list_new_def mp_obj_list_init_def new_slots_def m_def rbind_Inr Let_def split: option.splits)
  have m: "0 < m" "m < 2 ^ 30" "n \<le> m" using assms(3) by (auto simp: m_def LIST_MIN_ALLOC_def)
  note g = renew_slots_grows [OF assms(1) i(1) m(1,2)]
  have len: "length items = m" using g(2) by auto
  have "mp_seq_clear items n m = take n items @ replicate (m - n) None"
    using seq_clear_tail [of "drop n items" m n "take n items"] len m by simp
  then show thesis using that [of "take n items"] i(2) len m g(1) by simp
qed

lemma list_new_error: "list_new al n = Inl e \<Longrightarrow> e = MemoryError"
  by (auto simp: list_new_def mp_obj_list_init_def new_slots_def rbind_Inl Let_def dest: renew_slots_error split: option.splits)

text \<open>Filling a new list.\<close>

lemma list_new_filled:
  assumes "heap_small al" and "list_new al (length vs) = Inr l" and "length vs < 2 ^ 30"
  shows "list_rep (l\<lparr>l_items := overwrite (l_items l) 0 (map Some vs)\<rparr>) vs"
proof -
  obtain js where "length js = length vs" "l_items l = js @ replicate (l_alloc l - length vs) None" "l_len l = length vs"
    "length vs \<le> l_alloc l" "0 < l_alloc l" "l_alloc l < 2 ^ 28" by (rule list_new_slots [OF assms])
  then show ?thesis by (simp add: list_rep_def overwrite_def)
qed

lemma new_list_rep:
  assumes "heap_small al" and "length vs < 2 ^ 30" and "mp_obj_new_list al (map Some vs) = r"
  shows "r = Inl MemoryError \<or> (\<exists>l. r = Inr l \<and> list_rep l vs)"
proof (cases "list_new al (length vs)")
  case (Inl e)
  then show ?thesis using assms(3) list_new_error [OF Inl] by (auto simp: mp_obj_new_list_def)
next
  case (Inr l)
  then show ?thesis using assms(3) list_new_filled [OF assms(1) Inr assms(2)] by (auto simp: mp_obj_new_list_def)
qed

subsection \<open>Growing and shrinking\<close>

lemma append_rep:
  assumes "heap_small al" and "list_rep l vs" and "mp_obj_list_append al l x = (r, l')"
  shows "r = Inl MemoryError \<and> l' = l \<or> r = Inr () \<and> list_rep l' (vs @ [x])"
proof (cases "l_len l \<ge> l_alloc l")
  case True
  note d = list_repD [OF assms(2)]
  let ?n = "l_alloc l * 2"
  have n: "0 < ?n" "?n < 2 ^ 30" "wrap32 ?n = ?n" using d(3,4) by auto
  have eq: "length vs = l_alloc l" "l_items l = map Some vs" using True d by auto
  show ?thesis
  proof (cases "renew_slots al (l_items l) ?n")
    case (Inl e)
    then show ?thesis using assms(3) True n(3) renew_slots_error [OF Inl] by (simp add: mp_obj_list_append_def)
  next
    case (Inr items)
    note g = renew_slots_grows [OF assms(1) Inr n(1,2)]
    then obtain js where js: "length js = l_alloc l" "items = map Some vs @ js" using eq by auto
    have "mp_seq_clear items (length vs + 1) ?n = map Some vs @ take 1 js @ replicate (?n - (length vs + 1)) None"
      using seq_clear_tail [of "drop 1 js" ?n "length vs + 1" "map Some vs @ take 1 js"] js d(3) eq(1) by simp
    moreover obtain j where "take 1 js = [j]" using js d(3) by (cases js) auto
    ultimately have "(mp_seq_clear items (length vs + 1) ?n)[length vs := Some x] =
        map Some vs @ [Some x] @ replicate (?n - (length vs + 1)) None" by (simp add: list_update_append)
    then show ?thesis using assms(3) True Inr n(3) g(1) d eq by (auto simp: mp_obj_list_append_def list_rep_def)
  qed
next
  case False
  note d = list_repD [OF assms(2)]
  have "l_alloc l - length vs = Suc (l_alloc l - length vs - 1)" using False d(1) by simp
  then have "(l_items l)[length vs := Some x] = map Some vs @ Some x # replicate (l_alloc l - length vs - 1) None"
    unfolding d(5) by (simp add: list_update_append)
  then show ?thesis using assms(3) False d by (auto simp: mp_obj_list_append_def list_rep_def)
qed

text \<open>What an iterator delivers before it ends or raises.\<close>

fun iter_items :: "'v result list \<Rightarrow> 'v list \<times> unit result" where
  "iter_items [] = ([], Inr ())"
| "iter_items (Inl e # its) = ([], Inl e)"
| "iter_items (Inr x # its) = (x # fst (iter_items its), snd (iter_items its))"

lemma extend_iter_rep:
  "heap_small al \<Longrightarrow> list_rep l vs \<Longrightarrow> list_extend_from_iter al l its = (r, l') \<Longrightarrow>
    \<exists>n \<le> length (fst (iter_items its)). list_rep l' (vs @ take n (fst (iter_items its))) \<and>
      (r = Inl MemoryError \<or> n = length (fst (iter_items its)) \<and> r = snd (iter_items its))"
proof (induction al l its arbitrary: vs rule: list_extend_from_iter.induct)
  case (3 al l x its)
  obtain r1 l1 where a: "mp_obj_list_append al l x = (r1, l1)" by fastforce
  from append_rep [OF 3(2,3) a] consider "r1 = Inl MemoryError" "l1 = l" | "r1 = Inr ()" "list_rep l1 (vs @ [x])" by blast
  then show ?case
  proof cases
    case 1
    then show ?thesis using 3(3,4) a by (intro exI [of _ 0]) simp
  next
    case 2
    then have "list_extend_from_iter al l1 its = (r, l')" using 3(4) a by simp
    from 3(1) [OF a [symmetric] 2(1) 3(2) 2(2) this] obtain n where "n \<le> length (fst (iter_items its))"
      "list_rep l' ((vs @ [x]) @ take n (fst (iter_items its)))"
      "r = Inl MemoryError \<or> n = length (fst (iter_items its)) \<and> r = snd (iter_items its)" by blast
    then show ?thesis by (intro exI [of _ "Suc n"]) auto
  qed
qed auto

lemma extend_with_rep:
  assumes "heap_small al" and "list_rep l vs" and "list_extend_with al l (length ws) arg = (r, l')" and "length ws < 2 ^ 28"
    and arg: "\<And>m. take (length vs) (l_items m) = map Some vs \<Longrightarrow> take (length ws) (arg m) = map Some ws"
  shows "r = Inl MemoryError \<and> l' = l \<or> r = Inr () \<and> list_rep l' (vs @ ws)"
proof -
  note d = list_repD [OF assms(2)]
  let ?n = "length vs + length ws + 4"
  have w: "wrap32 (length vs + length ws) = length vs + length ws" "wrap32 ?n = ?n" using d(2,4) assms(4) by auto
  show ?thesis
  proof (cases "length vs + length ws > l_alloc l")
    case True
    have n: "0 < ?n" "?n < 2 ^ 30" using d(2,4) assms(4) by auto
    show ?thesis
    proof (cases "renew_slots al (l_items l) ?n")
      case (Inl e)
      then show ?thesis using assms(3) True w d(1) renew_slots_error [OF Inl] by (simp add: list_extend_with_def Let_def)
    next
      case (Inr items)
      note g = renew_slots_grows [OF assms(1) Inr n]
      then obtain js where js: "length js = ?n - l_alloc l" "items = l_items l @ js" using True d(6) by auto
      define zs where "zs = replicate (l_alloc l - length vs) None @ js"
      have zs: "items = map Some vs @ zs" "length zs = length ws + 4" using js True d by (auto simp: zs_def)
      have c: "mp_seq_clear items (length vs + length ws) ?n = map Some vs @ take (length ws) zs @ replicate 4 None"
        using seq_clear_tail [of "drop (length ws) zs" ?n "length vs + length ws" "map Some vs @ take (length ws) zs"] zs by simp
      define m where "m = l\<lparr>l_alloc := ?n, l_items := mp_seq_clear items (length vs + length ws) ?n\<rparr>"
      have a: "take (length ws) (arg m) = map Some ws" by (rule arg) (simp add: m_def c)
      have "r = Inr ()" "l' = m\<lparr>l_items := overwrite (l_items m) (length vs) (map Some ws), l_len := length vs + length ws\<rparr>"
        using assms(3) True Inr w d(1) a by (auto simp: list_extend_with_def Let_def m_def)
      moreover have "overwrite (l_items m) (length vs) (map Some ws) = map Some (vs @ ws) @ replicate 4 None"
        using zs(2) by (simp add: m_def c overwrite_def)
      ultimately show ?thesis using g(1) by (simp add: list_rep_def m_def)
    qed
  next
    case False
    have a: "take (length ws) (arg l) = map Some ws" by (rule arg) (simp add: d(5))
    have "r = Inr ()" "l' = l\<lparr>l_items := overwrite (l_items l) (length vs) (map Some ws), l_len := length vs + length ws\<rparr>"
      using assms(3) False w d(1) a by (auto simp: list_extend_with_def Let_def)
    moreover have "overwrite (l_items l) (length vs) (map Some ws) = map Some (vs @ ws) @ replicate (l_alloc l - length vs - length ws) None"
      unfolding d(5) by (simp add: overwrite_def)
    ultimately show ?thesis using False d(3,4) by (simp add: list_rep_def)
  qed
qed

text \<open>Indices: of the integers and booleans, counted from the end where negative.\<close>

definition py_index :: "nat \<Rightarrow> mp_obj \<Rightarrow> nat result" where
  "py_index n x =
    (case mp_obj_get_int_maybe x of
       None \<Rightarrow> Inl TypeError
     | Some i \<Rightarrow> let i = (if i < 0 then i + int n else i) in if 0 \<le> i \<and> i < int n then Inr (nat i) else Inl IndexError)"

definition py_bound :: "nat \<Rightarrow> mp_obj \<Rightarrow> nat result" where
  "py_bound n x =
    (case mp_obj_get_int_maybe x of
       None \<Rightarrow> Inl TypeError
     | Some i \<Rightarrow> let i = (if i < 0 then i + int n else i) in Inr (nat (min (int n) (max 0 i))))"

text \<open>A small integer fits in an object word.\<close>

fun obj_fits :: "mp_obj \<Rightarrow> bool" where
  "obj_fits (SmallInt v) = small v"
| "obj_fits _ = True"

lemma get_int_small: "obj_fits x \<Longrightarrow> mp_obj_get_int_maybe x = Some i \<Longrightarrow> small i"
  by (cases x) (auto simp: small_def of_bool_def split: if_splits)

lemma small_plus_len: "small i \<Longrightarrow> i < 0 \<Longrightarrow> n < 268435456 \<Longrightarrow> int32_of (i + int n) = i + int n"
  by (rule int32_of_id) (auto simp: small_def)

lemma get_index_py:
  assumes "obj_fits x" and "n < 268435456"
  shows "mp_get_index n x False = py_index n x" and "mp_get_index n x True = py_bound n x"
  using assms get_int_small [OF assms(1)] small_plus_len [of _ n]
  by (auto simp: mp_get_index_def py_index_def py_bound_def Let_def min_def max_def nat_less_iff split: option.splits)

lemma remove_slot:
  assumes "items = map Some vs @ replicate k None" and "i < length vs"
  shows "(overwrite items i (subbuf (i + 1) (length vs - 1 - i) items))[length vs - 1 := None] =
    map Some (take i vs @ drop (i + 1) vs) @ replicate (k + 1) None"
proof -
  have s: "subbuf (i + 1) (length vs - 1 - i) items = map Some (drop (i + 1) vs)"
    using assms by (simp add: subbuf_def drop_map)
  have "drop (length vs - 1) items = Some (vs ! (length vs - 1)) # replicate k None"
    using assms by (simp add: drop_map Cons_nth_drop_Suc [symmetric])
  then have "overwrite items i (map Some (drop (i + 1) vs)) =
      map Some (take i vs @ drop (i + 1) vs) @ Some (vs ! (length vs - 1)) # replicate k None"
    using assms by (simp add: overwrite_def take_map)
  then show ?thesis unfolding s using assms(2) by (simp add: list_update_append)
qed

lemma shrink_rep:
  assumes "heap_small al" and "list_rep l vs" and "renew_slots al (l_items l) n = Inr items" and "length vs \<le> n" and "0 < n" and "n \<le> l_alloc l"
  shows "list_rep (l\<lparr>l_items := items, l_alloc := n\<rparr>) vs"
proof -
  note d = list_repD [OF assms(2)]
  have "n < 2 ^ 30" using assms(6) d(4) by simp
  from renew_slots_grows [OF assms(1,3,5) this] obtain js where "n < 2 ^ 28" "length js = n - l_alloc l" "items = take n (l_items l) @ js"
    using d(6) by auto
  then show ?thesis using assms(4-6) d by (auto simp: list_rep_def min_def)
qed

lemma pop_rep:
  assumes "heap_small al" and "list_rep l vs" and "list_pop al l index = (r, l')" and "\<And>x. index = Some x \<Longrightarrow> obj_fits x"
  shows "case (if vs = [] then Inl IndexError else py_index (length vs) (case index of None \<Rightarrow> SmallInt (- 1) | Some i \<Rightarrow> i)) of
      Inl e \<Rightarrow> r = Inl e \<and> l' = l
    | Inr i \<Rightarrow> i < length vs \<and> (r = Inl MemoryError \<or> r = Inr (Some (vs ! i))) \<and> list_rep l' (take i vs @ drop (i + 1) vs)"
proof (cases "vs = []")
  case True
  then show ?thesis using assms(3) list_repD [OF assms(2)] by (simp add: list_pop_def)
next
  case False
  note d = list_repD [OF assms(2)]
  define x where "x = (case index of None \<Rightarrow> SmallInt (- 1) | Some i \<Rightarrow> i)"
  have "obj_fits x" using assms(4) by (auto simp: x_def small_def split: option.splits)
  then have gi: "mp_get_index (length vs) x False = py_index (length vs) x" using get_index_py(1) d(2,4) by simp
  show ?thesis
  proof (cases "py_index (length vs) x")
    case (Inl e)
    then show ?thesis using assms(3) False d(1) gi by (simp add: list_pop_def x_def [symmetric])
  next
    case (Inr i)
    have i: "i < length vs" using Inr by (auto simp: py_index_def Let_def split: option.splits if_splits)
    let ?ws = "take i vs @ drop (i + 1) vs"
    define m where "m = l\<lparr>l_len := length vs - 1,
      l_items := (overwrite (l_items l) i (subbuf (i + 1) (length vs - 1 - i) (l_items l)))[length vs - 1 := None]\<rparr>"
    have lw: "length ?ws = length vs - 1" using i by simp
    have m: "list_rep m ?ws"
    proof -
      have "l_items m = map Some ?ws @ replicate (l_alloc l - length vs + 1) None" unfolding m_def using remove_slot [OF d(5) i] by simp
      moreover have "l_alloc l - length vs + 1 = l_alloc m - length ?ws" using i d(2) lw by (simp add: m_def)
      ultimately have "l_items m = map Some ?ws @ replicate (l_alloc m - length ?ws) None" by metis
      then show ?thesis unfolding list_rep_def using d(2-4) lw by (simp add: m_def)
    qed
    have it: "l_items l ! i = Some (vs ! i)" using i d(5) by (simp add: nth_append)
    have eq: "list_pop al l index = (if l_alloc m > LIST_MIN_ALLOC \<and> l_alloc m > 2 * l_len m then
        (case renew_slots al (l_items m) (l_alloc m div 2) of Inl e \<Rightarrow> (Inl e, m)
          | Inr items \<Rightarrow> (Inr (Some (vs ! i)), m\<lparr>l_items := items, l_alloc := l_alloc m div 2\<rparr>))
        else (Inr (Some (vs ! i)), m))"
      using False d(1) gi Inr it by (simp add: list_pop_def x_def [symmetric] m_def Let_def cong: sum.case_cong)
    have s: "list_rep (m\<lparr>l_items := items, l_alloc := l_alloc m div 2\<rparr>) ?ws"
      if "renew_slots al (l_items m) (l_alloc m div 2) = Inr items" "l_alloc m > 4" "l_alloc m > 2 * l_len m" for items
      by (rule shrink_rep [OF assms(1) m that(1)]) (use that(2,3) lw in \<open>auto simp: m_def\<close>)
    have "(r = Inl MemoryError \<or> r = Inr (Some (vs ! i))) \<and> list_rep l' ?ws"
      using assms(3) m s renew_slots_error [of al "l_items m" "l_alloc m div 2"] unfolding eq
      by (auto simp: LIST_MIN_ALLOC_def split: if_splits sum.splits)
    then show ?thesis using False Inr i by (simp add: x_def)
  qed
qed

text \<open>\<^verbatim>\<open>list.clear\<close> sets the length before it asks for the smaller array; should that fail the slots keep their objects.\<close>

lemma clear_rep:
  assumes "heap_small al" and "list_rep l vs" and "list_clear al l = (r, l')"
  shows "r = Inl MemoryError \<and> l' = l\<lparr>l_len := 0\<rparr> \<or> r = Inr () \<and> list_rep l' []"
proof (cases "renew_slots al (l_items l) LIST_MIN_ALLOC")
  case (Inl e)
  then show ?thesis using assms(3) renew_slots_error [OF Inl] by (simp add: list_clear_def)
next
  case (Inr items)
  have "length items = 4" using renew_slots_grows(2) [OF assms(1) Inr] by (auto simp: LIST_MIN_ALLOC_def)
  then have "mp_seq_clear items 0 4 = replicate 4 None" using seq_clear_tail [of items 4 0 "[]"] by simp
  then show ?thesis using assms(3) Inr by (auto simp: list_clear_def list_rep_def LIST_MIN_ALLOC_def)
qed

lemma rep_take: "list_rep l vs \<Longrightarrow> take (l_len l) (l_items l) = map Some vs"
  by (simp add: list_rep_def)

lemma rep_nth: "list_rep l vs \<Longrightarrow> i < length vs \<Longrightarrow> l_items l ! i = Some (vs ! i)"
  by (simp add: list_rep_def nth_append)

lemma copy_rep:
  assumes "heap_small al" and "list_rep l vs"
  shows "list_copy al l = Inl MemoryError \<or> (\<exists>s. list_copy al l = Inr s \<and> list_rep s vs)"
  unfolding list_copy_def rep_take [OF assms(2)]
  by (rule new_list_rep [OF assms(1) _ refl]) (use list_repD(2,4) [OF assms(2)] in simp)

subsection \<open>Searching\<close>

lemma count_rep:
  assumes "list_rep l vs"
  shows "list_count l v = length (filter (\<lambda>x. mp_obj_equal x v) vs)"
proof -
  have "fold (\<lambda>i c. if mp_obj_equal (the (l_items l ! i)) v then c + 1 else c) [0..<n] 0 = length (filter (\<lambda>x. mp_obj_equal x v) (take n vs))"
    if "n \<le> length vs" for n
    using that by (induction n) (auto simp: rep_nth [OF assms] take_Suc_conv_app_nth)
  from this [of "length vs"] show ?thesis using list_repD(1) [OF assms] by (simp add: list_count_def mp_seq_count_obj_def)
qed

text \<open>The first position from \<open>a\<close> up to \<open>b\<close> whose item is equal to the value.\<close>

definition py_find :: "mp_obj list \<Rightarrow> mp_obj \<Rightarrow> nat \<Rightarrow> nat \<Rightarrow> nat result" where
  "py_find vs v a b = (case find (\<lambda>i. mp_obj_equal (vs ! i) v) [a..<b] of None \<Rightarrow> Inl ValueError | Some i \<Rightarrow> Inr i)"

lemma index_loop_find:
  assumes "list_rep l vs"
  shows "b \<le> length vs \<Longrightarrow> index_loop (l_items l) v a b = py_find vs v a b"
proof (induction "l_items l" v a b rule: index_loop.induct)
  case (1 v a b)
  then show ?case
    by (cases "a < b") (auto simp: index_loop.simps [of "l_items l" v a b] py_find_def rep_nth [OF assms] upt_conv_Cons)
qed

definition py_list_index :: "mp_obj list \<Rightarrow> mp_obj \<Rightarrow> (mp_obj \<times> mp_obj option) option \<Rightarrow> nat result" where
  "py_list_index vs v args =
    (case args of
       None \<Rightarrow> py_find vs v 0 (length vs)
     | Some (a, b) \<Rightarrow>
         rbind (py_bound (length vs) a) (\<lambda>start.
         rbind (case b of None \<Rightarrow> Inr (length vs) | Some b \<Rightarrow> py_bound (length vs) b) (\<lambda>stop.
         py_find vs v start stop)))"

fun args_fit :: "(mp_obj \<times> mp_obj option) option \<Rightarrow> bool" where
  "args_fit None = True"
| "args_fit (Some (a, b)) = (obj_fits a \<and> (case b of None \<Rightarrow> True | Some b \<Rightarrow> obj_fits b))"

lemma py_bound_le: "py_bound n x = Inr m \<Longrightarrow> m \<le> n"
  by (auto simp: py_bound_def Let_def split: option.splits)

lemma index_rep:
  assumes "list_rep l vs" and "args_fit args"
  shows "list_index l v args = py_list_index vs v args"
proof -
  note d = list_repD [OF assms(1)]
  have n: "length vs < 268435456" using d(2,4) by simp
  show ?thesis
    using assms(2) d(1) index_loop_find [OF assms(1)]
    by (auto simp: list_index_def mp_seq_index_obj_def py_list_index_def get_index_py [OF _ n] rbind_Inr
        intro!: rbind_cong dest: py_bound_le split: option.splits)
qed

lemma remove_rep:
  assumes "heap_small al" and "list_rep l vs" and "mp_obj_list_remove al l v = (r, l')"
  shows "case py_find vs v 0 (length vs) of
      Inl e \<Rightarrow> r = Inl e \<and> l' = l
    | Inr i \<Rightarrow> i < length vs \<and> (r = Inl MemoryError \<or> r = Inr ()) \<and> list_rep l' (take i vs @ drop (i + 1) vs)"
proof -
  note d = list_repD [OF assms(2)]
  have f: "list_index l v None = py_find vs v 0 (length vs)" using index_rep [OF assms(2)] by (simp add: py_list_index_def)
  show ?thesis
  proof (cases "py_find vs v 0 (length vs)")
    case (Inl e)
    then show ?thesis using assms(3) f by (simp add: mp_obj_list_remove_def)
  next
    case (Inr i)
    then have i: "i < length vs" by (auto simp: py_find_def find_Some_iff split: option.splits)
    obtain r1 l1 where p: "list_pop al l (Some (SmallInt (int i))) = (r1, l1)" by fastforce
    have "py_index (length vs) (SmallInt (int i)) = Inr i" using i by (simp add: py_index_def)
    moreover have "obj_fits (SmallInt (int i))" using i d(2,4) by (simp add: small_def)
    moreover have "vs \<noteq> []" using i by auto
    ultimately have "(r1 = Inl MemoryError \<or> r1 = Inr (Some (vs ! i))) \<and> list_rep l1 (take i vs @ drop (i + 1) vs)"
      using pop_rep [OF assms(1,2) p] by simp
    then show ?thesis using assms(3) Inr f p i by (auto simp: mp_obj_list_remove_def)
  qed
qed

subsection \<open>Moving items\<close>

lemma insert_shift_nth:
  "i < length items \<Longrightarrow> length (insert_shift items i index) = length items \<and>
    (k < length items \<longrightarrow> insert_shift items i index ! k = (if index < k \<and> k \<le> i then items ! (k - 1) else items ! k))"
  by (induction items i index rule: insert_shift.induct) (auto simp: nth_list_update le_Suc_eq)

definition py_insert :: "int \<Rightarrow> 'v \<Rightarrow> 'v list \<Rightarrow> 'v list" where
  "py_insert i x vs =
    (let j = nat (min (int (length vs)) (max 0 (if i < 0 then i + int (length vs) else i))) in take j vs @ x # drop j vs)"

lemma insert_slots:
  assumes "j \<le> length vs"
  shows "(insert_shift (map Some (vs @ [z]) @ rest) (length vs) j)[j := Some x] = map Some (take j vs @ x # drop j vs) @ rest"
proof (rule nth_equalityI)
  let ?items = "map Some (vs @ [z]) @ rest"
  note s = insert_shift_nth [of "length vs" ?items j]
  show len: "length ((insert_shift ?items (length vs) j)[j := Some x]) = length (map Some (take j vs @ x # drop j vs) @ rest)"
    using s assms by simp
  fix k assume "k < length ((insert_shift ?items (length vs) j)[j := Some x])"
  then have k: "k < length ?items" using s by simp
  consider "k < j" | "k = j" | "j < k" "k \<le> length vs" | "length vs < k" by linarith
  then show "(insert_shift ?items (length vs) j)[j := Some x] ! k = (map Some (take j vs @ x # drop j vs) @ rest) ! k"
    by cases (use s [of k] k assms in \<open>auto simp: nth_append nth_list_update nth_Cons' min_def\<close>)
qed

lemma insert_rep:
  assumes "heap_small al" and "list_rep l vs" and "list_insert al z l (MP_OBJ_NEW_SMALL_INT i) x = (r, l')" and "small i"
  shows "r = Inl MemoryError \<and> l' = l \<or> r = Inr () \<and> list_rep l' (py_insert i x vs)"
proof -
  note d = list_repD [OF assms(2)]
  define j where "j = nat (min (int (length vs)) (max 0 (if i < 0 then i + int (length vs) else i)))"
  have j: "j \<le> length vs" unfolding j_def by linarith
  have n: "length vs < 268435456" using d(2,4) by simp
  obtain r1 l1 where a: "mp_obj_list_append al l z = (r1, l1)" by fastforce
  have eq: "list_insert al z l (MP_OBJ_NEW_SMALL_INT i) x = (case (r1, l1) of (Inl e, self) \<Rightarrow> (Inl e, self)
    | (Inr _, self) \<Rightarrow> (Inr (), self\<lparr>l_items := (insert_shift (l_items self) (l_len self - 1) j)[j := Some x]\<rparr>))"
  proof -
    let ?i = "if i < 0 then int32_of (i + int (length vs)) else i"
    have "(if nat (if ?i < 0 then 0 else ?i) > length vs then length vs else nat (if ?i < 0 then 0 else ?i)) = j"
      using small_plus_len [OF assms(4) _ n] by (auto simp: j_def)
    then show ?thesis unfolding list_insert_def Let_def small_int_value_new [OF assms(4)] d(1) a by (simp only:)
  qed
  from append_rep [OF assms(1,2) a] consider "r1 = Inl MemoryError" "l1 = l" | "r1 = Inr ()" "list_rep l1 (vs @ [z])" by blast
  then show ?thesis
  proof cases
    case 1
    then show ?thesis using assms(3) unfolding eq by simp
  next
    case 2
    note e = list_repD [OF 2(2)]
    have "r = Inr ()" "l' = l1\<lparr>l_items := (insert_shift (l_items l1) (length vs) j)[j := Some x]\<rparr>"
      using assms(3) 2(1) e(1) unfolding eq by auto
    then show ?thesis using insert_slots [OF j, of z _ x] e j unfolding e(5) list_rep_def py_insert_def Let_def j_def [symmetric] by simp
  qed
qed

lemma reverse_loop_nth:
  "i \<le> len div 2 \<Longrightarrow> len \<le> length items \<Longrightarrow> length (reverse_loop items len i) = length items \<and>
    (k < length items \<longrightarrow> reverse_loop items len i ! k = (if i \<le> k \<and> k < len - i then items ! (len - 1 - k) else items ! k))"
proof (induction items len i rule: reverse_loop.induct)
  case (1 items len i)
  show ?case
  proof (cases "i < len div 2")
    case True
    let ?ys = "items[i := items ! (len - i - 1), len - i - 1 := items ! i]"
    have eq: "reverse_loop items len i = reverse_loop ?ys len (i + 1)" using True by (simp add: reverse_loop.simps [of items len i])
    have y: "?ys ! m = (if m = len - i - 1 then items ! i else if m = i then items ! (len - i - 1) else items ! m)" if "m < length items" for m
      using that by (simp add: nth_list_update)
    have ih: "length (reverse_loop ?ys len (i + 1)) = length items"
      "k < length items \<Longrightarrow> reverse_loop ?ys len (i + 1) ! k = (if i + 1 \<le> k \<and> k < len - (i + 1) then ?ys ! (len - 1 - k) else ?ys ! k)"
      using 1(1) [OF True] True 1(3) by simp_all
    consider "k < i" | "k = i" | "i < k" "k < len - (i + 1)" | "k = len - i - 1" | "len - i \<le> k" by linarith
    then have "k < length items \<Longrightarrow> reverse_loop ?ys len (i + 1) ! k = (if i \<le> k \<and> k < len - i then items ! (len - 1 - k) else items ! k)"
      unfolding ih(2) by cases (use True 1(3) in \<open>auto simp: y\<close>)
    then show ?thesis unfolding eq using ih(1) by simp
  next
    case False
    then have "i = len div 2" using 1(2) by simp
    then have "len - 1 - k = k" if "i \<le> k" "k < len - i" using that by linarith
    then show ?thesis using False by (auto simp: reverse_loop.simps [of items len i])
  qed
qed

lemma reverse_rep:
  assumes "list_rep l vs"
  shows "list_rep (list_reverse l) (rev vs)"
proof -
  note d = list_repD [OF assms]
  have "reverse_loop (l_items l) (length vs) 0 = map Some (rev vs) @ replicate (l_alloc l - length vs) None"
  proof (rule nth_equalityI)
    show "length (reverse_loop (l_items l) (length vs) 0) = length (map Some (rev vs) @ replicate (l_alloc l - length vs) None)"
      using reverse_loop_nth [of 0 "length vs" "l_items l"] d(2,6) by simp
    fix k assume "k < length (reverse_loop (l_items l) (length vs) 0)"
    then show "reverse_loop (l_items l) (length vs) 0 ! k = (map Some (rev vs) @ replicate (l_alloc l - length vs) None) ! k"
      using reverse_loop_nth [of 0 "length vs" "l_items l" k] d(2,6) unfolding d(5) by (auto simp: nth_append rev_nth)
  qed
  then show ?thesis using d by (simp add: list_rep_def list_reverse_def)
qed

lemma sort_rep:
  assumes "list_rep l vs" and "list_sort key lt rv l = (r, l')"
  shows "\<exists>ws. list_rep l' ws \<and> mset ws = mset vs"
proof -
  note d = list_repD [OF assms(1)]
  let ?xs = "fst (mp_obj_list_sort (\<lambda>x. key (the x)) lt rv (map Some vs))"
  have m: "mset ?xs = mset (map Some vs)" by (rule list_sort_perm)
  then have "set ?xs = Some ` set vs" by (metis mset_eq_setD list.set_map)
  then have xs: "?xs = map Some (map the ?xs)" unfolding map_map by (intro map_idI [symmetric]) auto
  have "mset (map the ?xs) = mset vs" using arg_cong [OF m, of "image_mset the"] by (simp add: multiset.map_comp o_def)
  moreover have "l_items l' = overwrite (l_items l) 0 ?xs" "l_len l' = l_len l" "l_alloc l' = l_alloc l"
    using assms(2) rep_take [OF assms(1)] by (auto simp: list_sort_def split: prod.splits)
  moreover have "overwrite (l_items l) 0 ?xs = map Some (map the ?xs) @ replicate (l_alloc l - length vs) None"
    using xs by (simp add: overwrite_def d(5))
  ultimately show ?thesis using d by (intro exI [of _ "map the ?xs"]) (simp add: list_rep_def)
qed

subsection \<open>Slices\<close>

text \<open>
  The bounds of a slice of a sequence of \<open>n\<close> items as Python defines them: first index, the index it ends before,
  and the step; \<open>py_range\<close> lists the indices.
\<close>

definition py_end :: "int \<Rightarrow> int \<Rightarrow> int \<Rightarrow> int \<Rightarrow> mp_obj option \<Rightarrow> int result" where
  "py_end n lo hi d x =
    (case x of
       None \<Rightarrow> Inr d
     | Some x \<Rightarrow> rbind (mp_obj_get_int x) (\<lambda>v. Inr (min hi (max (if v < 0 then v + n else v) lo))))"

definition py_slice :: "nat \<Rightarrow> mp_obj_slice \<Rightarrow> (int \<times> int \<times> int) result" where
  "py_slice n sl =
    rbind (case sl_step sl of
             None \<Rightarrow> Inr 1
           | Some x \<Rightarrow> rbind (mp_obj_get_int x) (\<lambda>k. if k = 0 then Inl ValueError else Inr k)) (\<lambda>k.
    let lo = (if k > 0 then 0 else - 1); hi = (if k > 0 then int n else int n - 1) in
    rbind (py_end (int n) lo hi (if k > 0 then lo else hi) (sl_start sl)) (\<lambda>i.
    rbind (py_end (int n) lo hi (if k > 0 then hi else lo) (sl_stop sl)) (\<lambda>j. Inr (i, j, k))))"

function py_range :: "int \<Rightarrow> int \<Rightarrow> int \<Rightarrow> int list" where
  "py_range i j k = (if 0 < k \<and> i < j \<or> k < 0 \<and> j < i then i # py_range (i + k) j k else [])"
  by pat_completeness auto
termination by (relation "measure (\<lambda>(i, j, k). nat (if 0 < k then j - i else i - j))") auto

declare py_range.simps [simp del]

fun opt_fits :: "mp_obj option \<Rightarrow> bool" where
  "opt_fits None = True"
| "opt_fits (Some x) = obj_fits x"

definition slice_fits :: "mp_obj_slice \<Rightarrow> bool" where
  "slice_fits sl \<longleftrightarrow> opt_fits (sl_start sl) \<and> opt_fits (sl_stop sl) \<and> opt_fits (sl_step sl)"

lemma slice_end_py:
  assumes "opt_fits x" and "n < 268435456"
  shows "slice_end (int n) lo hi d x = py_end (int n) lo hi d x"
proof (cases x)
  case (Some y)
  then show ?thesis using assms get_int_small [of y] small_plus_len [of _ n]
    by (auto simp: slice_end_def py_end_def mp_obj_get_int_def Let_def split: option.splits)
qed (simp add: slice_end_def py_end_def)

lemma slice_indices_py:
  assumes "slice_fits sl" and "n < 268435456"
  shows "mp_obj_slice_indices sl (int n) =
    rbind (py_slice n sl) (\<lambda>(i, j, k). Inr \<lparr>bs_start = i, bs_stop = j, bs_step = k\<rparr>)"
proof -
  have f: "opt_fits (sl_start sl)" "opt_fits (sl_stop sl)" using assms(1) by (auto simp: slice_fits_def)
  have assoc: "rbind (rbind a b) c = rbind a (\<lambda>x. rbind (b x) c)" for a b c by (cases a) auto
  show ?thesis
    unfolding mp_obj_slice_indices_def py_slice_def slice_end_py [OF f(1) assms(2)] slice_end_py [OF f(2) assms(2)] assoc Let_def
    by (intro arg_cong2 [where f = rbind] refl ext) auto
qed

lemma py_end_bounds: "py_end n lo hi d x = Inr i \<Longrightarrow> lo \<le> d \<Longrightarrow> d \<le> hi \<Longrightarrow> lo \<le> i \<and> i \<le> hi"
  by (auto simp: py_end_def rbind_Inr split: option.splits)

lemma py_slice_bounds:
  assumes "py_slice n sl = Inr (i, j, k)"
  shows "k \<noteq> 0" and "0 < k \<Longrightarrow> 0 \<le> i \<and> i \<le> int n \<and> 0 \<le> j \<and> j \<le> int n"
    and "k < 0 \<Longrightarrow> - 1 \<le> i \<and> i < int n \<and> - 1 \<le> j \<and> j < int n"
  using assms by (auto simp: py_slice_def rbind_Inr Let_def dest!: py_end_bounds split: option.splits if_splits)

lemma py_slice_step: "py_slice n sl = Inr (i, j, k) \<Longrightarrow> slice_fits sl \<Longrightarrow> small k"
  using get_int_small
  by (auto simp: py_slice_def slice_fits_def rbind_Inr Let_def mp_obj_get_int_def small_def split: option.splits if_splits)

text \<open>The end that the code works with: behind an empty slice, and one further where the step is negative.\<close>

definition slice_stop :: "int \<Rightarrow> int \<Rightarrow> int \<Rightarrow> int" where
  "slice_stop i j k = (if 0 < k then max i j else min (i + 1) (j + 1))"

lemma fast_slice_py:
  assumes "slice_fits sl" and "n < 268435456"
  shows "mp_seq_get_fast_slice_indexes n sl =
    rbind (py_slice n sl) (\<lambda>(i, j, k). Inr (\<lparr>bs_start = i, bs_stop = slice_stop i j k, bs_step = k\<rparr>, k = 1))"
proof (cases "py_slice n sl")
  case (Inr b)
  obtain i j k where b: "b = (i, j, k)" by (cases b) auto
  then show ?thesis using py_slice_bounds(1) [of n sl i j k] Inr
    by (auto simp: mp_seq_get_fast_slice_indexes_def slice_indices_py [OF assms] slice_stop_def Let_def max_def min_def)
qed (simp add: mp_seq_get_fast_slice_indexes_def slice_indices_py [OF assms])

lemma slice_cond:
  assumes "k \<noteq> 0" and "0 < k \<Longrightarrow> i0 \<le> i" and "k < 0 \<Longrightarrow> i \<le> i0"
  shows "(if k < 0 then i \<ge> slice_stop i0 j k else i < slice_stop i0 j k) \<longleftrightarrow> 0 < k \<and> i < j \<or> k < 0 \<and> j < i"
  using assms by (auto simp: slice_stop_def)

text \<open>The loop ends, within the sequence, and no index wraps.\<close>

lemma extract_loop_range:
  assumes al: "heap_small al" and l: "list_rep l vs" and k: "small k" "k \<noteq> 0"
  shows "list_rep res ws \<Longrightarrow> (0 < k \<Longrightarrow> i0 \<le> i \<and> 0 \<le> i \<and> j \<le> int (length vs)) \<Longrightarrow>
    (k < 0 \<Longrightarrow> i \<le> i0 \<and> - 1 \<le> j \<and> i < int (length vs)) \<Longrightarrow>
    extract_loop al (l_items l) i (slice_stop i0 j k) k res = Some (Inl MemoryError) \<or>
    (\<exists>s. extract_loop al (l_items l) i (slice_stop i0 j k) k res = Some (Inr s) \<and> list_rep s (ws @ map (\<lambda>x. vs ! nat x) (py_range i j k)))"
  using k
proof (induction i j k arbitrary: res ws rule: py_range.induct)
  case (1 i j k)
  have c: "(if k < 0 then i \<ge> slice_stop i0 j k else i < slice_stop i0 j k) \<longleftrightarrow> 0 < k \<and> i < j \<or> k < 0 \<and> j < i"
    by (rule slice_cond) (use 1(3-6) in auto)
  show ?case
  proof (cases "0 < k \<and> i < j \<or> k < 0 \<and> j < i")
    case True
    note d = list_repD [OF l]
    have i: "0 \<le> i" "i < int (length vs)" using True 1(3,4) by auto
    have it: "the (l_items l ! nat i) = vs ! nat i" using rep_nth [OF l, of "nat i"] i by simp
    have w: "int32_of (i + k) = i + k" by (rule int32_of_id) (use i d(2,4) 1(5) in \<open>auto simp: small_def\<close>)
    obtain r s where a: "mp_obj_list_append al res (vs ! nat i) = (r, s)" by fastforce
    have e: "extract_loop al (l_items l) i (slice_stop i0 j k) k res =
      (case (r, s) of (Inl e, _) \<Rightarrow> Some (Inl e) | (Inr _, res) \<Rightarrow> extract_loop al (l_items l) (i + k) (slice_stop i0 j k) k res)"
      unfolding extract_loop.simps [of al "l_items l" i "slice_stop i0 j k" k res] if_P [OF c [THEN iffD2, OF True]] it a w ..
    from append_rep [OF al 1(2) a] consider "r = Inl MemoryError" | "r = Inr ()" "list_rep s (ws @ [vs ! nat i])" by blast
    then show ?thesis
    proof cases
      case 2
      have "py_range i j k = i # py_range (i + k) j k" using True by (simp add: py_range.simps [of i j k])
      moreover have "extract_loop al (l_items l) (i + k) (slice_stop i0 j k) k s = Some (Inl MemoryError) \<or>
        (\<exists>t. extract_loop al (l_items l) (i + k) (slice_stop i0 j k) k s = Some (Inr t) \<and>
          list_rep t ((ws @ [vs ! nat i]) @ map (\<lambda>x. vs ! nat x) (py_range (i + k) j k)))"
        by (rule 1(1) [OF True 2(2) _ _ 1(5,6)]) (use True 1(3,4) i d(2,4) 1(5) in \<open>auto simp: small_def\<close>)
      ultimately show ?thesis using 2(1) by (auto simp: e)
    qed (simp add: e)
  next
    case False
    then have "py_range i j k = []" by (simp add: py_range.simps [of i j k])
    then show ?thesis using 1(2) unfolding extract_loop.simps [of al "l_items l" i "slice_stop i0 j k" k res] c if_not_P [OF False] by simp
  qed
qed

lemma extract_slice_rep:
  assumes al: "heap_small al" and l: "list_rep l vs" and sl: "slice_fits sl" "py_slice (length vs) sl = Inr (i, j, k)"
  shows "let r = mp_seq_extract_slice al (l_items l) \<lparr>bs_start = i, bs_stop = slice_stop i j k, bs_step = k\<rparr> in
    r = Some (Inl MemoryError) \<or> (\<exists>s. r = Some (Inr s) \<and> list_rep s (map (\<lambda>x. vs ! nat x) (py_range i j k)))"
proof -
  note b = py_slice_bounds [OF sl(2)]
  have n: "length vs < 2 ^ 28" using list_repD(2,4) [OF l] by simp
  from new_list_rep [OF al, of "[]"] consider "mp_obj_new_list al [] = Inl MemoryError"
    | res where "mp_obj_new_list al [] = Inr res" "list_rep res []" by auto
  then show ?thesis
  proof cases
    case 2
    have "extract_loop al (l_items l) i (slice_stop i j k) k res = Some (Inl MemoryError) \<or>
      (\<exists>s. extract_loop al (l_items l) i (slice_stop i j k) k res = Some (Inr s) \<and> list_rep s ([] @ map (\<lambda>x. vs ! nat x) (py_range i j k)))"
      by (rule extract_loop_range [OF al l py_slice_step [OF sl(2,1)] b(1) 2(2)]) (use b n in auto)
    then show ?thesis using 2(1) by (simp add: mp_seq_extract_slice_def)
  qed (simp add: mp_seq_extract_slice_def)
qed

lemma py_range_step1:
  assumes "0 \<le> i" and "j \<le> int (length vs)"
  shows "map (\<lambda>x. vs ! nat x) (py_range i j 1) = take (nat (j - i)) (drop (nat i) vs)"
  using assms
proof (induction i j "1 :: int" rule: py_range.induct)
  case (1 i j)
  show ?case
  proof (cases "i < j")
    case True
    have "drop (nat i) vs = vs ! nat i # drop (Suc (nat i)) vs" using True 1(2,3) by (intro Cons_nth_drop_Suc [symmetric]) simp
    moreover have "Suc (nat i) = nat (i + 1)" "nat (j - i) = Suc (nat (j - (i + 1)))" using True 1(2) by auto
    ultimately show ?thesis using 1 True by (simp add: py_range.simps [of i j 1])
  qed (simp add: py_range.simps [of i j 1])
qed

lemma load_rep:
  assumes al: "heap_small al" and l: "list_rep l vs" and sl: "slice_fits sl"
  shows "case py_slice (length vs) sl of
      Inl e \<Rightarrow> list_subscr_load al l (Slice sl) = Some (Inl e)
    | Inr (i, j, k) \<Rightarrow> list_subscr_load al l (Slice sl) = Some (Inl MemoryError) \<or>
        (\<exists>s. list_subscr_load al l (Slice sl) = Some (Inr (NewList s)) \<and> list_rep s (map (\<lambda>x. vs ! nat x) (py_range i j k)))"
proof -
  note d = list_repD [OF l]
  have n: "length vs < 268435456" using d(2,4) by simp
  note f = fast_slice_py [OF sl n]
  show ?thesis
  proof (cases "py_slice (length vs) sl")
    case (Inl e)
    then show ?thesis by (simp add: list_subscr_load_def d(1) f)
  next
    case (Inr b)
    obtain i j k where b: "b = (i, j, k)" by (cases b) auto
    note p = Inr [unfolded b]
    show ?thesis
    proof (cases "k = 1")
      case False
      then show ?thesis using extract_slice_rep [OF al l sl p] p by (auto simp: list_subscr_load_def d(1) f Let_def)
    next
      case True
      have ij: "0 \<le> i" "i \<le> int (length vs)" "j \<le> int (length vs)" using py_slice_bounds(2) [OF p] True by auto
      let ?ws = "map (\<lambda>x. vs ! nat x) (py_range i j k)"
      have ws: "?ws = take (nat (j - i)) (drop (nat i) vs)" using py_range_step1 [OF ij(1,3)] True by simp
      have len: "length ?ws = nat (slice_stop i j k - i)" unfolding ws using ij True by (auto simp: slice_stop_def min_def)
      have eq: "list_subscr_load al l (Slice sl) = Some (rbind (list_new al (length ?ws)) (\<lambda>res.
          Inr (NewList (res\<lparr>l_items := overwrite (l_items res) 0 (subbuf (nat i) (l_len res) (l_items l))\<rparr>))))"
        unfolding len using p True by (simp add: list_subscr_load_def d(1) f)
      show ?thesis
      proof (cases "list_new al (length ?ws)")
        case (Inl e)
        then show ?thesis using list_new_error [OF Inl] p by (simp only: eq) simp
      next
        case r: (Inr res)
        have lw: "length ?ws < 2 ^ 30" unfolding ws using n by simp
        obtain js where "l_len res = length ?ws" by (rule list_new_slots [OF al r lw])
        moreover have "subbuf (nat i) (length ?ws) (l_items l) = map Some ?ws"
          unfolding ws subbuf_def d(5) using ij by (simp add: drop_map take_map min_def)
        ultimately show ?thesis using list_new_filled [OF al r lw] p eq r by simp
      qed
    qed
  qed
qed

text \<open>Deleting and storing, which the code has for step one only.\<close>

definition py_splice :: "int \<Rightarrow> int \<Rightarrow> 'v list \<Rightarrow> 'v list \<Rightarrow> 'v list" where
  "py_splice i j ws vs = take (nat i) vs @ ws @ drop (nat (max i j)) vs"

lemma replace_no_grow:
  assumes "i \<le> j" and "j \<le> length vs" and "length ws \<le> j - i"
  shows "mp_seq_clear (mp_seq_replace_slice_no_grow (map Some vs @ replicate k None) (length vs) i j (map Some ws))
      (length vs + length ws - (j - i)) (length vs) =
    map Some (take i vs @ ws @ drop j vs) @ replicate (k + (j - i - length ws)) None"
proof -
  define items X p m where "items = map Some vs @ replicate k None" and "X = map Some (take i vs @ ws)"
    and "p = i + length ws" and "m = p + (length vs - j)"
  have p: "length X = p" "p \<le> j" "m \<le> length vs" using assms by (auto simp: X_def p_def m_def)
  have ti: "take i items = map Some (take i vs)" using assms by (simp add: items_def take_map)
  have o1: "overwrite items i (map Some ws) = X @ drop p items" by (simp add: overwrite_def ti X_def p_def)
  have "subbuf j (length vs - j) (X @ drop p items) = take (length vs - j) (drop j items)" using p by (simp add: subbuf_def)
  also have "\<dots> = map Some (drop j vs)" using assms(2) by (simp add: items_def drop_map)
  finally have o2: "mp_seq_replace_slice_no_grow items (length vs) i j (map Some ws) = X @ map Some (drop j vs) @ drop m items"
    unfolding mp_seq_replace_slice_no_grow_def Let_def o1 using p(1) by (simp add: overwrite_def p_def [symmetric] m_def add.commute)
  have "drop m items = drop m (map Some vs) @ replicate k None" using p(3) by (simp add: items_def)
  moreover have "length (X @ map Some (drop j vs)) = m" using p(1) by (simp add: m_def)
  moreover have "length vs + length ws - (j - i) = m" "length vs - m + k = k + (j - i - length ws)"
    using assms by (auto simp: m_def p_def)
  ultimately show ?thesis using p(3) unfolding items_def [symmetric] o2
    by (simp add: mp_seq_clear_def overwrite_def replicate_add [symmetric]) (simp add: X_def)
qed

lemma replace_grow:
  assumes "i \<le> j" and "j \<le> length vs" and "length ws = j - i + a" and "a \<le> length zs"
  shows "mp_seq_replace_slice_grow_inplace (map Some vs @ zs) (length vs) i j (map Some ws) a =
    map Some (take i vs @ ws @ drop j vs) @ drop a zs"
proof -
  define items where "items = map Some vs @ zs"
  have n: "length vs + a - (i + length ws) = length vs - j" "i + length ws + (length vs - j) = length vs + a" using assms by auto
  have "subbuf j (length vs - j) items = map Some (drop j vs)" using assms(2) by (simp add: subbuf_def items_def drop_map)
  then have "overwrite items (i + length ws) (map Some (drop j vs)) = take (i + length ws) items @ map Some (drop j vs) @ drop a zs"
    by (simp add: overwrite_def n(2)) (simp add: items_def)
  moreover have "length (take (i + length ws) items) = i + length ws" "take i (take (i + length ws) items) = map Some (take i vs)"
    using assms by (auto simp: items_def take_map min_def)
  ultimately show ?thesis
    unfolding mp_seq_replace_slice_grow_inplace_def items_def [symmetric] length_map n(1) \<open>subbuf j (length vs - j) items = _\<close>
    by (simp add: overwrite_def [of "take (i + length ws) items @ _"])
qed

text \<open>Storing to the slice from \<open>a\<close> to \<open>c\<close>, with the sizes as natural numbers.\<close>

definition splice_slots :: "'v slots_alloc \<Rightarrow> 'v mp_obj_list \<Rightarrow> nat \<Rightarrow> nat \<Rightarrow> 'v option list \<Rightarrow> unit result \<times> 'v mp_obj_list" where
  "splice_slots al l a c vs =
    (let len = l_len l + length vs - (c - a);
         grow = (\<lambda>l. (Inr (), l\<lparr>l_items := mp_seq_replace_slice_grow_inplace (l_items l) (l_len l) a c vs (length vs - (c - a)), l_len := len\<rparr>))
     in if length vs > c - a then
          if len > l_alloc l then
            (case renew_slots al (l_items l) len of
               Inl e \<Rightarrow> (Inl e, l)
             | Inr items \<Rightarrow> grow (l\<lparr>l_items := items, l_alloc := len\<rparr>))
          else grow l
        else (Inr (), l\<lparr>l_items := mp_seq_clear (mp_seq_replace_slice_no_grow (l_items l) (l_len l) a c vs) len (l_len l), l_len := len\<rparr>))"

lemma store_slice_splice:
  assumes "mp_seq_get_fast_slice_indexes (l_len l) sl = Inr (\<lparr>bs_start = int a, bs_stop = int c, bs_step = 1\<rparr>, True)"
    and "a \<le> c" and "c \<le> l_len l"
  shows "list_store_slice al l sl (Some vs) = splice_slots al l a c vs"
proof -
  have e: "int (length vs) - (int c - int a) > 0 \<longleftrightarrow> length vs > c - a" "nat (int (length vs) - (int c - int a)) = length vs - (c - a)"
    "nat (int (l_len l) + (int (length vs) - (int c - int a))) = l_len l + length vs - (c - a)" using assms(2,3) by auto
  show ?thesis unfolding list_store_slice_def splice_slots_def assms(1) Let_def
    by (simp only: option.case sum.case prod.case mp_bound_slice_t.simps not_True_eq_False if_False nat_int e)
qed

lemma splice_slots_rep:
  assumes al: "heap_small al" and l: "list_rep l vs" and ac: "a \<le> c" "c \<le> length vs" and ws: "length ws < 2 ^ 28"
    and eq: "splice_slots al l a c (map Some ws) = (r, l')"
  shows "r = Inl MemoryError \<and> l' = l \<or> r = Inr () \<and> list_rep l' (take a vs @ ws @ drop c vs)"
proof -
  note d = list_repD [OF l]
  define us n where "us = take a vs @ ws @ drop c vs" and "n = length vs + length ws - (c - a)"
  have us: "length us = n" unfolding us_def n_def using ac by simp
  consider "length ws \<le> c - a" | "length ws > c - a" "n \<le> l_alloc l" | "length ws > c - a" "n > l_alloc l" by linarith
  then have "r = Inl MemoryError \<and> l' = l \<or> r = Inr () \<and> list_rep l' us"
  proof cases
    case 1
    have "l_alloc l - length vs + (c - a - length ws) = l_alloc l - n" "n \<le> l_alloc l" using 1 ac d(2) by (auto simp: n_def)
    then show ?thesis using 1 eq d(2-4) us ac replace_no_grow [OF ac 1, of "l_alloc l - length vs"]
      by (auto simp: splice_slots_def d(1) d(5) Let_def list_rep_def us_def [symmetric] n_def [symmetric])
  next
    case 2
    let ?g = "length ws - (c - a)"
    have "length ws = c - a + ?g" "?g \<le> l_alloc l - length vs" using 2 ac by (auto simp: n_def)
    from replace_grow [OF ac this(1), of "replicate (l_alloc l - length vs) None"] this(2)
    have "mp_seq_replace_slice_grow_inplace (l_items l) (length vs) a c (map Some ws) ?g = map Some us @ replicate (l_alloc l - n) None"
      unfolding d(5) using 2 ac by (simp add: us_def n_def)
    then show ?thesis using 2 eq d(3,4) us by (auto simp: splice_slots_def d(1) Let_def list_rep_def n_def [symmetric])
  next
    case 3
    let ?g = "length ws - (c - a)"
    have n: "0 < n" "n < 2 ^ 30" using 3 d(2,4) ws by (auto simp: n_def)
    show ?thesis
    proof (cases "renew_slots al (l_items l) n")
      case (Inl e)
      then show ?thesis using 3 eq renew_slots_error [OF Inl] by (simp add: splice_slots_def d(1) Let_def n_def [symmetric])
    next
      case (Inr items)
      note g = renew_slots_grows [OF al Inr n]
      then obtain js where js: "length js = n - l_alloc l" "items = l_items l @ js" using 3 d(6) by auto
      define zs where "zs = replicate (l_alloc l - length vs) None @ js"
      have zs: "items = map Some vs @ zs" "length zs = ?g" using js 3 ac d(2,5) by (auto simp: zs_def n_def)
      have "length ws = c - a + ?g" using 3 by simp
      from replace_grow [OF ac this, of zs] zs
      have "mp_seq_replace_slice_grow_inplace items (length vs) a c (map Some ws) ?g = map Some us" by (simp add: us_def)
      then show ?thesis using 3 eq Inr g(1) n(1) us by (auto simp: splice_slots_def d(1) Let_def list_rep_def n_def [symmetric])
    qed
  qed
  then show ?thesis unfolding us_def .
qed

lemma store_slice_rep:
  assumes al: "heap_small al" and l: "list_rep l vs" and sl: "slice_fits sl" and ws: "length ws < 2 ^ 28"
    and eq: "list_store_slice al l sl (Some (map Some ws)) = (r, l')"
  shows "case py_slice (length vs) sl of
      Inl e \<Rightarrow> r = Inl e \<and> l' = l
    | Inr (i, j, k) \<Rightarrow>
        if k \<noteq> 1 then r = Inl NotImplementedError \<and> l' = l
        else r = Inl MemoryError \<and> l' = l \<or> r = Inr () \<and> list_rep l' (py_splice i j ws vs)"
proof -
  note d = list_repD [OF l]
  have n: "length vs < 268435456" using d(2,4) by simp
  note f = fast_slice_py [OF sl n]
  show ?thesis
  proof (cases "py_slice (length vs) sl")
    case (Inl e)
    then show ?thesis using eq by (simp add: list_store_slice_def d(1) f)
  next
    case (Inr b)
    obtain i j k where b: "b = (i, j, k)" by (cases b) auto
    note p = Inr [unfolded b]
    show ?thesis
    proof (cases "k = 1")
      case False
      then show ?thesis using eq p by (simp add: list_store_slice_def d(1) f)
    next
      case True
      have ij: "0 \<le> i" "i \<le> int (length vs)" "j \<le> int (length vs)" using py_slice_bounds(2) [OF p] True by auto
      define a c where "a = nat i" and "c = nat (max i j)"
      have ac: "a \<le> c" "c \<le> length vs" "i = int a" "slice_stop i j k = int c" using ij True by (auto simp: a_def c_def slice_stop_def)
      have "list_store_slice al l sl (Some (map Some ws)) = splice_slots al l a c (map Some ws)"
        by (rule store_slice_splice) (use f p True ac d(1) in auto)
      then show ?thesis using splice_slots_rep [OF al l ac(1,2) ws, of r l'] eq p True by (auto simp: py_splice_def a_def c_def)
    qed
  qed
qed

lemma delete_slice_rep:
  assumes al: "heap_small al" and l: "list_rep l vs" and sl: "slice_fits sl" and eq: "list_subscr_delete al l (Slice sl) = (r, l')"
  shows "case py_slice (length vs) sl of
      Inl e \<Rightarrow> r = Inl e \<and> l' = l
    | Inr (i, j, k) \<Rightarrow>
        if k \<noteq> 1 then r = Inl NotImplementedError \<and> l' = l
        else r = Inr () \<and> list_rep l' (py_splice i j [] vs)"
proof -
  note d = list_repD [OF l]
  have n: "length vs < 268435456" using d(2,4) by simp
  note f = fast_slice_py [OF sl n]
  show ?thesis
  proof (cases "py_slice (length vs) sl")
    case (Inr b)
    obtain i j k where b: "b = (i, j, k)" by (cases b) auto
    note p = Inr [unfolded b]
    show ?thesis
    proof (cases "k = 1")
      case False
      then show ?thesis using eq p by (simp add: list_subscr_delete_def d(1) f)
    next
      case True
      have ij: "0 \<le> i" "i \<le> int (length vs)" "j \<le> int (length vs)" using py_slice_bounds(2) [OF p] True by auto
      define a c where "a = nat i" and "c = nat (max i j)"
      have ac: "a \<le> c" "c \<le> length vs" "i = int a" "slice_stop i j k = int c" using ij True by (auto simp: a_def c_def slice_stop_def)
      have m: "nat (int (length vs) + (int a - int c)) = length vs - (c - a)" using ac(1) by auto
      have fa: "mp_seq_get_fast_slice_indexes (length vs) sl = Inr (\<lparr>bs_start = int a, bs_stop = int c, bs_step = 1\<rparr>, True)"
        using f p True ac(3,4) by simp
      have "list_subscr_delete al l (Slice sl) = splice_slots al l a c (map Some [])"
        unfolding list_subscr_delete_def d(1) splice_slots_def Let_def using fa m by simp
      then show ?thesis using splice_slots_rep [OF al l ac(1,2), of "[]" r l'] eq p True
        by (auto simp: py_splice_def a_def c_def splice_slots_def Let_def)
    qed
  qed (use eq in \<open>simp add: list_subscr_delete_def d(1) f\<close>)
qed

lemma store_rep:
  assumes "list_rep l vs" and "obj_fits x" and "mp_obj_list_store l x v = (r, l')"
  shows "case py_index (length vs) x of Inl e \<Rightarrow> r = Inl e \<and> l' = l | Inr i \<Rightarrow> r = Inr () \<and> list_rep l' (vs[i := v])"
proof -
  note d = list_repD [OF assms(1)]
  have n: "length vs < 268435456" using d(2,4) by simp
  have i: "i < length vs" if "py_index (length vs) x = Inr i" for i
    using that by (auto simp: py_index_def Let_def split: option.splits if_splits)
  show ?thesis using assms(3) d i
    by (auto simp: mp_obj_list_store_def get_index_py [OF assms(2) n] list_rep_def map_update list_update_append split: sum.splits)
qed

lemma load_index_rep:
  assumes "list_rep l vs" and "obj_fits x"
  shows "list_subscr_load al l (Index x) = Some (rbind (py_index (length vs) x) (\<lambda>i. Inr (Item (Some (vs ! i)))))"
proof -
  note d = list_repD [OF assms(1)]
  have n: "length vs < 268435456" using d(2,4) by simp
  have i: "i < length vs" if "py_index (length vs) x = Inr i" for i
    using that by (auto simp: py_index_def Let_def split: option.splits if_splits)
  then show ?thesis using rep_nth [OF assms(1)]
    by (auto simp: list_subscr_load_def d(1) get_index_py [OF assms(2) n] intro!: rbind_cong)
qed

subsection \<open>Operators\<close>

lemma add_rep:
  assumes al: "heap_small al" and "list_rep l vs" and "list_rep p ws"
  shows "list_add al l p = Inl MemoryError \<or> (\<exists>s. list_add al l p = Inr s \<and> list_rep s (vs @ ws))"
proof -
  note d = list_repD [OF assms(2)] and e = list_repD [OF assms(3)]
  have n: "length (vs @ ws) < 2 ^ 30" "wrap32 (length vs + length ws) = length (vs @ ws)" using d(2,4) e(2,4) by auto
  show ?thesis
  proof (cases "list_new al (length (vs @ ws))")
    case (Inl e)
    then show ?thesis using list_new_error [OF Inl] n(2) d(1) list_repD(1) [OF assms(3)] by (simp add: list_add_def)
  next
    case (Inr s)
    have "overwrite (overwrite xs 0 (map Some vs)) (length vs) (map Some ws) = overwrite xs 0 (map Some (vs @ ws))" for xs :: "'a option list"
      by (simp add: overwrite_def add.commute)
    then show ?thesis using list_new_filled [OF al Inr n(1)] Inr n(2) rep_take [OF assms(2)] rep_take [OF assms(3)] d(1) e(1)
      by (simp add: list_add_def)
  qed
qed

lemma multiply_slots:
  "length js = n * length xs \<Longrightarrow> mp_seq_multiply xs (length pre) n (pre @ js @ rest) = pre @ concat (replicate n xs) @ rest"
proof (induction n arbitrary: pre js)
  case (Suc n)
  have "overwrite (pre @ js @ rest) (length pre) xs = (pre @ xs) @ drop (length xs) js @ rest"
    using Suc(2) by (simp add: overwrite_def)
  then show ?case using Suc(1) [of "drop (length xs) js" "pre @ xs"] Suc(2) by simp
qed simp

text \<open>Multiplication is right as long as the number of items does not reach \<open>2 ^ 30\<close>.\<close>

lemma multiply_rep:
  assumes al: "heap_small al" and "list_rep l vs" and n: "length vs * nat n < 2 ^ 30"
  shows "list_multiply al l n = Inl MemoryError \<or> (\<exists>s. list_multiply al l n = Inr s \<and> list_rep s (concat (replicate (nat n) vs)))"
proof -
  note d = list_repD [OF assms(2)]
  define m where "m = nat (if n < 0 then 0 else n)"
  have m: "m = nat n" by (simp add: m_def)
  have w: "wrap32 (length vs * m) = length vs * m" using n by (simp add: m)
  have len: "length (concat (replicate m vs)) = length vs * m" by (induction m) auto
  show ?thesis
  proof (cases "list_new al (length vs * m)")
    case (Inl e)
    then show ?thesis using list_new_error [OF Inl] w d(1) by (simp add: list_multiply_def Let_def m_def [symmetric])
  next
    case (Inr s)
    have n': "length vs * m < 2 ^ 30" using n by (simp add: m)
    obtain js where js: "length js = length vs * m" "l_items s = js @ replicate (l_alloc s - length vs * m) None" "l_len s = length vs * m"
      "length vs * m \<le> l_alloc s" "0 < l_alloc s" "l_alloc s < 2 ^ 28" by (rule list_new_slots [OF al Inr n'])
    have "mp_seq_multiply (map Some vs) 0 m (l_items s) = concat (replicate m (map Some vs)) @ replicate (l_alloc s - length vs * m) None"
      using multiply_slots [of js m "map Some vs" "[]"] js(1,2) by (simp add: mult.commute)
    then have "list_rep (s\<lparr>l_items := mp_seq_multiply (map Some vs) 0 m (l_items s)\<rparr>) (concat (replicate m vs))"
      using js len by (simp add: list_rep_def map_concat)
    then show ?thesis using Inr w d(1) rep_take [OF assms(2)] by (simp add: list_multiply_def Let_def m_def [symmetric] m [symmetric])
  qed
qed

text \<open>
  Comparison is lexicographic, where equality and the operators on the items are those of a linear order of values.
\<close>

lemma seq_cmp_loop_lex:
  fixes v :: "'v \<Rightarrow> 'k::linorder"
  assumes eq: "\<And>a b. eq a b = Inr (v a = v b)"
    and ops: "\<And>a b. bop MP_BINARY_OP_MORE a b = Inr (BoolObj (v a > v b))" "\<And>a b. bop MP_BINARY_OP_MORE_EQUAL a b = Inr (BoolObj (v a \<ge> v b))"
    and op: "op = MP_BINARY_OP_EQUAL \<and> length xs = length ys \<or> op = MP_BINARY_OP_MORE \<or> op = MP_BINARY_OP_MORE_EQUAL"
  shows "i \<le> length xs \<Longrightarrow> i \<le> length ys \<Longrightarrow> seq_cmp_loop eq bop op xs ys i =
    (let xs = map v (drop i xs); ys = map v (drop i ys) in
     Inr (if op = MP_BINARY_OP_EQUAL then xs = ys else ord_class.lexordp ys xs \<or> op = MP_BINARY_OP_MORE_EQUAL \<and> xs = ys))"
  using eq ops op
proof (induction eq bop op xs ys i rule: seq_cmp_loop.induct)
  case (1 eq bop op xs ys i)
  show ?case
  proof (cases "i < min (length xs) (length ys)")
    case True
    have d: "drop i xs = xs ! i # drop (Suc i) xs" "drop i ys = ys ! i # drop (Suc i) ys"
      using True by (auto intro: Cons_nth_drop_Suc [symmetric])
    show ?thesis
    proof (cases "v (xs ! i) = v (ys ! i)")
      case same: True
      have e: "eq (xs ! i) (ys ! i) = Inr True" using 1(4) same by simp
      have "seq_cmp_loop eq bop op xs ys i = seq_cmp_loop eq bop op xs ys (i + 1)"
        using True by (simp add: seq_cmp_loop.simps [of eq bop op xs ys i] e)
      also have "\<dots> = (let xs = map v (drop (i + 1) xs); ys = map v (drop (i + 1) ys) in
          Inr (if op = MP_BINARY_OP_EQUAL then xs = ys else ord_class.lexordp ys xs \<or> op = MP_BINARY_OP_MORE_EQUAL \<and> xs = ys))"
        by (rule 1(1) [OF True e]) (use True 1(4-7) in auto)
      finally show ?thesis using same by (simp add: d Let_def)
    next
      case False
      then have "eq (xs ! i) (ys ! i) = Inr False" using 1(4) by simp
      then have "seq_cmp_loop eq bop op xs ys i = (if op = MP_BINARY_OP_EQUAL then Inr False
          else rbind (bop op (xs ! i) (ys ! i)) (\<lambda>r. Inr (r = BoolObj True)))"
        using True by (simp add: seq_cmp_loop.simps [of eq bop op xs ys i])
      then show ?thesis using False 1(5-7) by (auto simp: d Let_def)
    qed
  next
    case False
    then have e: "seq_cmp_loop eq bop op xs ys i = Inr (seq_cmp_tie op (length xs) (length ys))"
      by (simp only: seq_cmp_loop.simps [of eq bop op xs ys i] if_False)
    from False consider "i = length xs" "i < length ys" | "i < length xs" "i = length ys" | "i = length xs" "i = length ys" using 1(2,3) by linarith
    then show ?thesis unfolding e using 1(7) by cases (auto simp: seq_cmp_tie_def Let_def)
  qed
qed

lemma seq_cmp_objs_lex:
  fixes v :: "'v \<Rightarrow> 'k::linorder"
  assumes "\<And>a b. eq a b = Inr (v a = v b)"
    and "\<And>a b. bop MP_BINARY_OP_MORE a b = Inr (BoolObj (v a > v b))" "\<And>a b. bop MP_BINARY_OP_MORE_EQUAL a b = Inr (BoolObj (v a \<ge> v b))"
  shows "mp_seq_cmp_objs eq bop MP_BINARY_OP_EQUAL xs ys = Inr (map v xs = map v ys)"
    and "mp_seq_cmp_objs eq bop MP_BINARY_OP_LESS xs ys = Inr (ord_class.lexordp (map v xs) (map v ys))"
    and "mp_seq_cmp_objs eq bop MP_BINARY_OP_LESS_EQUAL xs ys = Inr (ord_class.lexordp_eq (map v xs) (map v ys))"
    and "mp_seq_cmp_objs eq bop MP_BINARY_OP_MORE xs ys = Inr (ord_class.lexordp (map v ys) (map v xs))"
    and "mp_seq_cmp_objs eq bop MP_BINARY_OP_MORE_EQUAL xs ys = Inr (ord_class.lexordp_eq (map v ys) (map v xs))"
  using assms map_eq_imp_length_eq [of v xs v ys]
  by (auto simp: mp_seq_cmp_objs_def seq_cmp_loop_lex [where v = v, OF assms] lexordp_eq_conv_lexord Let_def)

text \<open>The constructor, the truth value and length, and iteration over the list.\<close>

lemma make_new_rep:
  assumes "heap_small al"
  shows "list_make_new al None = Inl MemoryError \<or> (\<exists>l. list_make_new al None = Inr l \<and> list_rep l [])"
    and "list_make_new al (Some its) = Inl MemoryError \<or>
      (case snd (iter_items its) of
         Inl e \<Rightarrow> list_make_new al (Some its) = Inl e
       | Inr _ \<Rightarrow> \<exists>l. list_make_new al (Some its) = Inr l \<and> list_rep l (fst (iter_items its)))"
proof -
  consider "mp_obj_new_list al [] = Inl MemoryError" | l where "mp_obj_new_list al [] = Inr l" "list_rep l []"
    using new_list_rep [OF assms, of "[]"] by auto
  note new = this
  from new show "list_make_new al None = Inl MemoryError \<or> (\<exists>l. list_make_new al None = Inr l \<and> list_rep l [])"
    by cases (simp_all add: list_make_new_def)
  from new show "list_make_new al (Some its) = Inl MemoryError \<or>
      (case snd (iter_items its) of
         Inl e \<Rightarrow> list_make_new al (Some its) = Inl e
       | Inr _ \<Rightarrow> \<exists>l. list_make_new al (Some its) = Inr l \<and> list_rep l (fst (iter_items its)))"
  proof cases
    case (2 l)
    obtain r l' where e: "list_extend_from_iter al l its = (r, l')" by fastforce
    from extend_iter_rep [OF assms 2(2) e] 2(1) e show ?thesis
      by (cases "snd (iter_items its)") (auto simp: list_make_new_def)
  qed (simp add: list_make_new_def)
qed

lemma iternext_rep:
  "list_rep l vs \<Longrightarrow> list_it_iternext l cur = (if cur < length vs then (Some (Some (vs ! cur)), cur + 1) else (None, cur))"
  by (simp add: list_it_iternext_def rep_nth list_repD(1))

end
