(* ===== verification/List_Refine.thy ===== *)
theory List_Refine
  imports List_Correct
begin

text \<open>
  The lists of \<open>Mp_List\<close> as an abstract data type: one operation of the code against the operation of Python on the
  sequence of items that the list represents.
\<close>

subsection \<open>Lists as an abstract data type\<close>


















subsection \<open>The simulation\<close>




















end
