(* ===== verification/Dict.thy ===== *)
theory Dict
  imports Obj Small_Int
begin

text \<open>
  Dictionaries: the type \<^verbatim>\<open>dict\<close> of \<^verbatim>\<open>py/objdict.c\<close> on the hash tables of \<open>Hash_Map\<close>. A dictionary object is its map;
  the objects of this port that are dictionaries are never ordered. An operation returns its result or exception and the map
  it leaves; \<open>None\<close> stands for no result (the search without end that \<open>Dict_Correct\<close> excludes, or a null pointer taken
  for a slot). The depth 2 of the lookups is the one that is enough for a table to grow.
\<close>

type_synonym ('v, 'r) dict_out = "('r result \<times> (mp_obj, 'v) mp_map) option"

abbreviation dict_lookup :: "mp_obj obj_ops \<Rightarrow> mp_obj \<Rightarrow> lookup_kind \<Rightarrow> (mp_obj, 'v) mp_map \<Rightarrow> (mp_obj, 'v) map_result" where
  "dict_lookup ops \<equiv> mp_map_lookup 2 ops"

text \<open>\<^verbatim>\<open>mp_map_lookup(&map, key, MP_MAP_LOOKUP_ADD_IF_NOT_FOUND)->value = value\<close>.\<close>

definition dict_put :: "mp_obj obj_ops \<Rightarrow> mp_obj \<Rightarrow> 'v \<Rightarrow> (mp_obj, 'v) mp_map \<Rightarrow> ('v, unit) dict_out" where
  "dict_put ops key v m =
    (case dict_lookup ops key ADD_IF_NOT_FOUND m of
       None \<Rightarrow> None
     | Some (Inl e, m) \<Rightarrow> Some (Inl e, m)
     | Some (Inr None, m) \<Rightarrow> None
     | Some (Inr (Some p), m) \<Rightarrow> Some (Inr (), map_set_value p (Some v) m))"

subsection \<open>Iteration\<close>

definition mp_map_slot_is_filled :: "(mp_obj, 'v) mp_map \<Rightarrow> nat \<Rightarrow> bool" where
  "mp_map_slot_is_filled m pos \<longleftrightarrow> m_keys m ! pos \<noteq> Null \<and> m_keys m ! pos \<noteq> Sentinel"

text \<open>The slot found, and the position where the next call goes on.\<close>

function dict_iter_next :: "(mp_obj, 'v) mp_map \<Rightarrow> nat \<Rightarrow> (nat \<times> nat) option" where
  "dict_iter_next m cur =
    (if cur < m_alloc m then if mp_map_slot_is_filled m cur then Some (cur, cur + 1) else dict_iter_next m (cur + 1)
     else None)"
  by pat_completeness auto
termination by (relation "measure (\<lambda>(m, cur). m_alloc m - cur)") auto

declare dict_iter_next.simps [simp del]

lemma dict_iter_next_Some:
  "dict_iter_next m cur = Some (p, c) \<Longrightarrow> cur \<le> p \<and> c = p + 1 \<and> p < m_alloc m \<and> mp_map_slot_is_filled m p \<and>
    (\<forall>i. cur \<le> i \<and> i < p \<longrightarrow> \<not> mp_map_slot_is_filled m i)"
proof (induction m cur rule: dict_iter_next.induct)
  case (1 m cur)
  show ?case
  proof (cases "cur < m_alloc m \<and> \<not> mp_map_slot_is_filled m cur")
    case True
    then have "dict_iter_next m (cur + 1) = Some (p, c)" using 1(2) by (simp add: dict_iter_next.simps [of m cur])
    then have "cur + 1 \<le> p \<and> c = p + 1 \<and> p < m_alloc m \<and> mp_map_slot_is_filled m p \<and>
        (\<forall>i. cur + 1 \<le> i \<and> i < p \<longrightarrow> \<not> mp_map_slot_is_filled m i)" using 1(1) True by simp
    moreover have "cur = i \<or> cur + 1 \<le> i" if "cur \<le> i" for i using that by auto
    ultimately show ?thesis using True by (metis add_leD1)
  qed (use 1(2) in \<open>auto simp: dict_iter_next.simps [of m cur] split: if_splits\<close>)
qed

lemma dict_iter_next_None:
  "dict_iter_next m cur = None \<Longrightarrow> cur \<le> i \<Longrightarrow> i < m_alloc m \<Longrightarrow> \<not> mp_map_slot_is_filled m i"
proof (induction m cur rule: dict_iter_next.induct)
  case (1 m cur)
  then have "cur < m_alloc m" "\<not> mp_map_slot_is_filled m cur" "dict_iter_next m (cur + 1) = None"
    by (auto simp: dict_iter_next.simps [of m cur] split: if_splits)
  then show ?case using 1 by (cases "i = cur") auto
qed

fun slot_obj :: "'k slot_key \<Rightarrow> 'k option" where
  "slot_obj (Key k) = Some k"
| "slot_obj _ = None"

text \<open>What a view delivers: an item, its key or its value. A pair is a new tuple of four words, like a table of two slots.\<close>

datatype mp_dict_view_kind_t = MP_DICT_VIEW_ITEMS | MP_DICT_VIEW_KEYS | MP_DICT_VIEW_VALUES

datatype 'v view_item = ViewPair "mp_obj option" "'v option" | ViewKey "mp_obj option" | ViewValue "'v option"

definition dict_view_it_iternext ::
  "mp_obj obj_ops \<Rightarrow> mp_dict_view_kind_t \<Rightarrow> (mp_obj, 'v) mp_map \<Rightarrow> nat \<Rightarrow> 'v view_item option result \<times> nat" where
  "dict_view_it_iternext ops kind m cur =
    (case dict_iter_next m cur of
       None \<Rightarrow> (Inr None, cur)
     | Some (p, cur) \<Rightarrow>
         (case kind of
            MP_DICT_VIEW_ITEMS \<Rightarrow>
              (if can_new ops 2 then Inr (Some (ViewPair (slot_obj (m_keys m ! p)) (m_values m ! p))) else Inl MemoryError, cur)
          | MP_DICT_VIEW_KEYS \<Rightarrow> (Inr (Some (ViewKey (slot_obj (m_keys m ! p)))), cur)
          | MP_DICT_VIEW_VALUES \<Rightarrow> (Inr (Some (ViewValue (m_values m ! p))), cur)))"

subsection \<open>Loading, storing and deleting\<close>

definition mp_obj_dict_get :: "mp_obj obj_ops \<Rightarrow> (mp_obj, 'v) mp_map \<Rightarrow> mp_obj \<Rightarrow> ('v, 'v option) dict_out" where
  "mp_obj_dict_get ops m index =
    (case dict_lookup ops index LOOKUP m of
       None \<Rightarrow> None
     | Some (Inl e, m) \<Rightarrow> Some (Inl e, m)
     | Some (Inr None, m) \<Rightarrow> Some (Inl KeyError, m)
     | Some (Inr (Some p), m) \<Rightarrow> Some (Inr (m_values m ! p), m))"

definition mp_obj_dict_store :: "mp_obj obj_ops \<Rightarrow> (mp_obj, 'v) mp_map \<Rightarrow> mp_obj \<Rightarrow> 'v \<Rightarrow> ('v, unit) dict_out" where
  "mp_obj_dict_store ops m key v = (if is_fixed m then Some (Inl TypeError, m) else dict_put ops key v m)"

text \<open>\<open>none\<close> is the object \<^verbatim>\<open>mp_const_none\<close> and \<open>d\<close> the optional third argument.\<close>

definition dict_get_helper ::
  "mp_obj obj_ops \<Rightarrow> 'v \<Rightarrow> (mp_obj, 'v) mp_map \<Rightarrow> mp_obj \<Rightarrow> 'v option \<Rightarrow> lookup_kind \<Rightarrow> ('v, 'v) dict_out" where
  "dict_get_helper ops none m key d kind =
    (if kind \<noteq> LOOKUP \<and> is_fixed m then Some (Inl TypeError, m)
     else case dict_lookup ops key kind m of
       None \<Rightarrow> None
     | Some (Inl e, m) \<Rightarrow> Some (Inl e, m)
     | Some (Inr elem, m) \<Rightarrow>
         case (case elem of None \<Rightarrow> None | Some p \<Rightarrow> m_values m ! p) of
           None \<Rightarrow>
             if d = None \<and> kind = REMOVE_IF_FOUND then Some (Inl KeyError, m)
             else
               let v = (case d of None \<Rightarrow> none | Some v \<Rightarrow> v) in
               if kind = ADD_IF_NOT_FOUND then
                 (case elem of None \<Rightarrow> None | Some p \<Rightarrow> Some (Inr v, map_set_value p (Some v) m))
               else Some (Inr v, m)
         | Some v \<Rightarrow>
             Some (Inr v, if kind = REMOVE_IF_FOUND then map_set_value (the elem) None m else m))"

definition dict_get :: "mp_obj obj_ops \<Rightarrow> 'v \<Rightarrow> (mp_obj, 'v) mp_map \<Rightarrow> mp_obj \<Rightarrow> 'v option \<Rightarrow> ('v, 'v) dict_out" where
  "dict_get ops none m key d = dict_get_helper ops none m key d LOOKUP"

definition dict_pop :: "mp_obj obj_ops \<Rightarrow> 'v \<Rightarrow> (mp_obj, 'v) mp_map \<Rightarrow> mp_obj \<Rightarrow> 'v option \<Rightarrow> ('v, 'v) dict_out" where
  "dict_pop ops none m key d = dict_get_helper ops none m key d REMOVE_IF_FOUND"

definition dict_setdefault :: "mp_obj obj_ops \<Rightarrow> 'v \<Rightarrow> (mp_obj, 'v) mp_map \<Rightarrow> mp_obj \<Rightarrow> 'v option \<Rightarrow> ('v, 'v) dict_out" where
  "dict_setdefault ops none m key d = dict_get_helper ops none m key d ADD_IF_NOT_FOUND"

definition out_unit :: "('v, 'r) dict_out \<Rightarrow> ('v, unit) dict_out" where
  "out_unit out = map_option (\<lambda>(r, m). (rbind r (\<lambda>_. Inr ()), m)) out"

definition mp_obj_dict_delete :: "mp_obj obj_ops \<Rightarrow> 'v \<Rightarrow> (mp_obj, 'v) mp_map \<Rightarrow> mp_obj \<Rightarrow> ('v, unit) dict_out" where
  "mp_obj_dict_delete ops none m key = out_unit (dict_get_helper ops none m key None REMOVE_IF_FOUND)"

text \<open>\<^verbatim>\<open>dict_subscr\<close>: the value is null to delete, the sentinel to load, or what to store.\<close>

datatype 'v subscr_value = SubscrDelete | SubscrLoad | SubscrStore 'v

definition dict_subscr ::
  "mp_obj obj_ops \<Rightarrow> 'v \<Rightarrow> (mp_obj, 'v) mp_map \<Rightarrow> mp_obj \<Rightarrow> 'v subscr_value \<Rightarrow> ('v, 'v option) dict_out" where
  "dict_subscr ops none m index v =
    (case v of
       SubscrDelete \<Rightarrow> map_option (\<lambda>(r, m). (rbind r (\<lambda>_. Inr (Some none)), m)) (mp_obj_dict_delete ops none m index)
     | SubscrLoad \<Rightarrow> mp_obj_dict_get ops m index
     | SubscrStore v \<Rightarrow> map_option (\<lambda>(r, m). (rbind r (\<lambda>_. Inr (Some none)), m)) (mp_obj_dict_store ops m index v))"

subsection \<open>Whole dictionaries\<close>

text \<open>The object of a dictionary has four words.\<close>

definition mp_obj_new_dict :: "mp_obj obj_ops \<Rightarrow> nat \<Rightarrow> (mp_obj, 'v) mp_map result" where
  "mp_obj_new_dict ops n = (if can_new ops 2 then mp_map_init ops n else Inl MemoryError)"

definition dict_clear :: "(mp_obj, 'v) mp_map \<Rightarrow> unit result \<times> (mp_obj, 'v) mp_map" where
  "dict_clear m = (if is_fixed m then (Inl TypeError, m) else (Inr (), mp_map_clear m))"

definition mp_obj_dict_copy :: "mp_obj obj_ops \<Rightarrow> (mp_obj, 'v) mp_map \<Rightarrow> (mp_obj, 'v) mp_map result" where
  "mp_obj_dict_copy ops m =
    rbind (mp_obj_new_dict ops (m_alloc m)) (\<lambda>other.
      Inr (other\<lparr>m_used := m_used m, all_keys_are_qstrs := all_keys_are_qstrs m, is_fixed := False, is_ordered := is_ordered m,
        m_keys := overwrite (m_keys other) 0 (take (m_alloc m) (m_keys m)),
        m_values := overwrite (m_values other) 0 (take (m_alloc m) (m_values m))\<rparr>))"

definition dict_popitem :: "mp_obj obj_ops \<Rightarrow> (mp_obj, 'v) mp_map \<Rightarrow> ('v, mp_obj option \<times> 'v option) dict_out" where
  "dict_popitem ops m =
    (if is_fixed m then Some (Inl TypeError, m)
     else if m_used m = 0 then Some (Inl KeyError, m)
     else case dict_iter_next m 0 of
       None \<Rightarrow> None
     | Some (p, _) \<Rightarrow>
         let item = (slot_obj (m_keys m ! p), m_values m ! p);
             m = m\<lparr>m_used := m_used m - 1, m_keys := (m_keys m)[p := Sentinel], m_values := (m_values m)[p := None]\<rparr>
         in Some (if can_new ops 2 then Inr item else Inl MemoryError, m))"

text \<open>
  A positional argument of \<^verbatim>\<open>dict.update\<close>: the dictionary itself, another one, or an iterable of pairs, in which
  \<open>Inr None\<close> is an element that is not a pair and \<open>Inl\<close> an exception of the iterators.
\<close>

datatype ('v, 'd) update_arg = SelfDict | OtherDict 'd | Pairs "(mp_obj \<times> 'v) option result list"

text \<open>The loop over another dictionary, from the position \<open>cur\<close> on.\<close>

function update_from :: "mp_obj obj_ops \<Rightarrow> (mp_obj, 'v) mp_map \<Rightarrow> nat \<Rightarrow> (mp_obj, 'v) mp_map \<Rightarrow> ('v, unit) dict_out" where
  "update_from ops other cur m =
    (case dict_iter_next other cur of
       None \<Rightarrow> Some (Inr (), m)
     | Some (p, cur) \<Rightarrow>
         (case dict_lookup ops (the (slot_obj (m_keys other ! p))) ADD_IF_NOT_FOUND m of
            None \<Rightarrow> None
          | Some (Inl e, m) \<Rightarrow> Some (Inl e, m)
          | Some (Inr None, m) \<Rightarrow> None
          | Some (Inr (Some q), m) \<Rightarrow> update_from ops other cur (map_set_value q (m_values other ! p) m)))"
  by pat_completeness auto
termination
  by (relation "measure (\<lambda>(ops, other, cur, m). m_alloc other - cur)") (auto dest!: dict_iter_next_Some)

declare update_from.simps [simp del]

fun update_pairs :: "mp_obj obj_ops \<Rightarrow> (mp_obj \<times> 'v) option result list \<Rightarrow> (mp_obj, 'v) mp_map \<Rightarrow> ('v, unit) dict_out" where
  "update_pairs ops [] m = Some (Inr (), m)"
| "update_pairs ops (Inl e # its) m = Some (Inl e, m)"
| "update_pairs ops (Inr None # its) m = Some (Inl ValueError, m)"
| "update_pairs ops (Inr (Some (k, v)) # its) m =
    (case dict_put ops k v m of
       None \<Rightarrow> None
     | Some (Inl e, m) \<Rightarrow> Some (Inl e, m)
     | Some (Inr _, m) \<Rightarrow> update_pairs ops its m)"

text \<open>The table of keyword arguments; \<open>args\<close> are the positional arguments after the dictionary.\<close>

definition kw_items :: "(mp_obj, 'v) mp_map \<Rightarrow> (mp_obj \<times> 'v) list" where
  "kw_items kw = map (\<lambda>i. (the (slot_obj (m_keys kw ! i)), the (m_values kw ! i))) (filter (mp_map_slot_is_filled kw) [0..<m_alloc kw])"

definition dict_update ::
  "mp_obj obj_ops \<Rightarrow> (mp_obj, 'v) mp_map \<Rightarrow> ('v, (mp_obj, 'v) mp_map) update_arg list \<Rightarrow> (mp_obj, 'v) mp_map \<Rightarrow> ('v, unit) dict_out" where
  "dict_update ops m args kwargs =
    (if is_fixed m \<or> 1 < length args then Some (Inl TypeError, m)
     else
       let first = (case args of
           OtherDict other # _ \<Rightarrow> update_from ops other 0 m
         | Pairs its # _ \<Rightarrow> update_pairs ops its m
         | _ \<Rightarrow> Some (Inr (), m))
       in case first of
         None \<Rightarrow> None
       | Some (Inl e, m) \<Rightarrow> Some (Inl e, m)
       | Some (Inr _, m) \<Rightarrow> update_pairs ops (map (\<lambda>kv. Inr (Some kv)) (kw_items kwargs)) m)"

definition mp_obj_dict_make_new ::
  "mp_obj obj_ops \<Rightarrow> ('v, (mp_obj, 'v) mp_map) update_arg list \<Rightarrow> (mp_obj \<times> 'v) list \<Rightarrow> (mp_obj, 'v) mp_map result option" where
  "mp_obj_dict_make_new ops args kw =
    (case mp_obj_new_dict ops 0 of
       Inl e \<Rightarrow> Some (Inl e)
     | Inr m \<Rightarrow>
         if args \<noteq> [] \<or> kw \<noteq> [] then
           map_option (\<lambda>(r, m). rbind r (\<lambda>_. Inr m)) (dict_update ops m args (mp_map_init_fixed_table kw))
         else Some (Inr m))"

subsection \<open>Operators\<close>

definition dict_unary_op :: "mp_unary_op_t \<Rightarrow> (mp_obj, 'v) mp_map \<Rightarrow> 'f obj_value option" where
  "dict_unary_op op m =
    (case op of
       MP_UNARY_OP_BOOL \<Rightarrow> Some (BoolObj (m_used m \<noteq> 0))
     | MP_UNARY_OP_LEN \<Rightarrow> Some (IntObj (MP_OBJ_NEW_SMALL_INT (int (m_used m))))
     | _ \<Rightarrow> None)"

definition mp_obj_dict_len :: "(mp_obj, 'v) mp_map \<Rightarrow> nat" where
  "mp_obj_dict_len m = m_used m"

definition dict_contains :: "mp_obj obj_ops \<Rightarrow> (mp_obj, 'v) mp_map \<Rightarrow> mp_obj \<Rightarrow> bool option" where
  "dict_contains ops m x =
    (case dict_lookup ops x LOOKUP m of Some (Inr elem, _) \<Rightarrow> Some (elem \<noteq> None) | _ \<Rightarrow> None)"

text \<open>The comparison of two dictionaries, with the equality \<open>veq\<close> of values.\<close>

function equal_loop :: "mp_obj obj_ops \<Rightarrow> ('v option \<Rightarrow> 'v option \<Rightarrow> bool) \<Rightarrow> (mp_obj, 'v) mp_map \<Rightarrow> (mp_obj, 'v) mp_map \<Rightarrow> nat \<Rightarrow> bool option" where
  "equal_loop ops veq m rhs cur =
    (case dict_iter_next m cur of
       None \<Rightarrow> Some True
     | Some (q, cur) \<Rightarrow>
         (case dict_lookup ops (the (slot_obj (m_keys m ! q))) LOOKUP rhs of
            Some (Inr None, _) \<Rightarrow> Some False
          | Some (Inr (Some p), _) \<Rightarrow>
              if veq (m_values m ! q) (m_values rhs ! p) then equal_loop ops veq m rhs cur else Some False
          | _ \<Rightarrow> None))"
  by pat_completeness auto
termination
  by (relation "measure (\<lambda>(ops, veq, m, rhs, cur). m_alloc m - cur)") (auto dest!: dict_iter_next_Some)

declare equal_loop.simps [simp del]

definition dict_equal :: "mp_obj obj_ops \<Rightarrow> ('v option \<Rightarrow> 'v option \<Rightarrow> bool) \<Rightarrow> (mp_obj, 'v) mp_map \<Rightarrow> (mp_obj, 'v) mp_map \<Rightarrow> bool option" where
  "dict_equal ops veq m rhs = (if m_used m \<noteq> m_used rhs then Some False else equal_loop ops veq m rhs 0)"

end
