(* ===== verification/Dict_Correct.thy ===== *)
theory Dict_Correct
  imports Dict
begin

text \<open>
  The dictionaries of \<open>Dict\<close> implement finite maps from the values of keys: an operation of \<^verbatim>\<open>py/objdict.c\<close> on the hash table
  has the effect and the result of the operation on the map that the table represents.
\<close>

subsection \<open>What a dictionary represents\<close>

text \<open>Keys are identified by \<open>canon\<close>, the value that equality compares.\<close>

definition dict_rep :: "mp_obj obj_ops \<Rightarrow> (mp_obj, 'v) mp_map \<Rightarrow> (key_value \<rightharpoonup> 'v) \<Rightarrow> bool" where
  "dict_rep ops m D \<longleftrightarrow> map_inv ops m \<and> \<not> is_fixed m \<and> (\<forall>x v. map_entry ops m x v \<longleftrightarrow> v = D (canon x) \<and> v \<noteq> None)"

lemma canon_surj: "\<exists>x. canon x = c"
proof (induction c)
  case (CNum n)
  show ?case by (rule exI [of _ "SmallInt n"]) simp
next
  case (CStr d)
  show ?case by (rule exI [of _ "QstrObj d"]) simp
next
  case (CBytes d)
  show ?case by (rule exI [of _ "BytesObj 0 d False"]) simp
next
  case (CTuple cs)
  then obtain f where f: "canon (f c) = c" if "c \<in> set cs" for c by metis
  show ?case by (rule exI [of _ "TupleObj 0 (map f cs)"]) (simp add: f map_idI)
qed

text \<open>No operation on a map sets or clears the flag of a fixed table.\<close>

lemma search_fixed:
  assumes "\<And>m r m'. rehash m = Some (r, m') \<Longrightarrow> is_fixed m' = is_fixed m"
  shows "map_search ops rehash n cop h x kind m = Some (r, m') \<Longrightarrow> is_fixed m' = is_fixed m"
proof (induction n arbitrary: m)
  case (Suc n)
  then show ?case using assms
    by (auto simp: map_put_key_def Let_def split: probe_result.splits if_splits option.splits prod.splits sum.splits)
qed simp

lemma lookup_with_fixed:
  assumes "\<And>m r m'. rehash m = Some (r, m') \<Longrightarrow> is_fixed m' = is_fixed m"
    and "map_lookup_with ops rehash n x kind m = Some (r, m')"
  shows "is_fixed m' = is_fixed m"
  using assms(2) assms(1) search_fixed [OF assms(1), of rehash]
  by (auto simp: map_lookup_with_def Let_def split: if_splits option.splits prod.splits sum.splits)

lemma rehash_loop_fixed:
  assumes "\<And>k m r m'. look k m = Some (r, m') \<Longrightarrow> is_fixed m' = is_fixed m"
  shows "rehash_loop look old m = Some (r, m') \<Longrightarrow> is_fixed m' = is_fixed m"
proof (induction old arbitrary: m)
  case (Cons kv old)
  obtain s v where kv: "kv = (s, v)" by (cases kv)
  show ?case
  proof (cases s)
    case (Key k)
    have "is_fixed m' = is_fixed m2" if "rehash_loop look old (map_set_value p v m2) = Some (r, m')" for p m2
      using Cons.IH [OF that] by (simp add: map_set_value_def)
    then show ?thesis using Cons assms [of k m] by (auto simp: kv Key split: option.splits prod.splits sum.splits)
  qed (use Cons kv in auto)
qed simp

lemma rehash_fixed:
  fixes m :: "('k, 'v) mp_map"
  shows "mp_map_rehash d ops m = Some (r, m') \<Longrightarrow> is_fixed m' = is_fixed m"
proof (induction d arbitrary: m r m')
  case (Suc d)
  have "is_fixed m'' = is_fixed m'" if "map_lookup_with ops (mp_map_rehash d ops) d k ADD_IF_NOT_FOUND m' = Some (r, m'')" for k r and m' m'' :: "('k, 'v) mp_map"
    by (rule lookup_with_fixed [OF _ that]) (rule Suc.IH)
  note loop = rehash_loop_fixed [of "\<lambda>k. map_lookup_with ops (mp_map_rehash d ops) d k ADD_IF_NOT_FOUND", OF this]
  then show ?case using Suc.prems by (auto simp: map_new_table_def Let_def split: sum.splits if_splits dest!: loop)
qed simp

lemma lookup_fixed: "mp_map_lookup d ops x kind m = Some (r, m') \<Longrightarrow> is_fixed m' = is_fixed m"
  unfolding mp_map_lookup_def by (rule lookup_with_fixed [OF rehash_fixed])

subsection \<open>Lookups on the representation\<close>

lemma rep_inv: "dict_rep ops m D \<Longrightarrow> map_inv ops m" "dict_rep ops m D \<Longrightarrow> \<not> is_fixed m"
  by (simp_all add: dict_rep_def)

lemma rep_entry: "dict_rep ops m D \<Longrightarrow> map_entry ops m x v \<longleftrightarrow> v = D (canon x) \<and> v \<noteq> None"
  by (simp add: dict_rep_def)

text \<open>The slot of a key that the dictionary has, and the lookup of one that it does not have.\<close>

lemma rep_slot:
  assumes "dict_rep (mp_ops e al) m D" and "D (canon x) = Some v"
  obtains p k where "p < m_alloc m" "m_keys m ! p = Key k" "mp_obj_equal k x" "m_values m ! p = Some v"
proof -
  have "map_entry (mp_ops e al) m x (Some v)" using assms by (simp add: rep_entry)
  then show thesis using that by (auto simp: map_entry_def)
qed

lemma lookup_present:
  assumes "dict_rep (mp_ops e al) m D" and "D (canon x) = Some v"
  obtains p k where "p < m_alloc m" "m_keys m ! p = Key k" "mp_obj_equal k x" "m_values m ! p = Some v"
    "\<And>kind. dict_lookup (mp_ops e al) x kind m = Some (Inr (Some p), if kind = REMOVE_IF_FOUND
      then m\<lparr>m_used := m_used m - 1, m_keys := delete_slot (m_keys m) p\<rparr> else m)"
proof -
  obtain p k where p: "p < m_alloc m" "m_keys m ! p = Key k" "mp_obj_equal k x" "m_values m ! p = Some v"
    by (rule rep_slot [OF assms])
  have "obj_equal (mp_ops e al) k x" using p(3) by simp
  from objs.lookup_found [OF rep_inv(1) [OF assms(1)] p(1,2) this]
  show thesis by (intro that [OF p]) (simp add: mp_map_lookup_def numeral_2_eq_2)
qed

lemma lookup_absent:
  assumes "dict_rep (mp_ops e al) m D" and "D (canon x) = None" and "kind \<noteq> ADD_IF_NOT_FOUND"
  shows "dict_lookup (mp_ops e al) x kind m = Some (Inr None, m)"
proof -
  have len: "length (m_keys m) = m_alloc m" using rep_inv(1) [OF assms(1)] by (simp add: map_inv_def)
  have "\<nexists>v. map_entry (mp_ops e al) m x v" using assms(2) by (simp add: rep_entry [OF assms(1)])
  then have "\<not> obj_equal (mp_ops e al) k x" if "k \<in> keys_of (m_keys m)" for k
    using objs.missing_iff [OF len] that by blast
  from objs.lookup_missing [OF rep_inv(1) [OF assms(1)] this assms(3)]
  show ?thesis by (simp add: mp_map_lookup_def numeral_2_eq_2)
qed

lemma lookup_add_rep:
  assumes "dict_rep (mp_ops e al) m D"
  shows "dict_lookup (mp_ops e al) x ADD_IF_NOT_FOUND m = Some (Inl MemoryError, m) \<or>
    (\<exists>p m'. dict_lookup (mp_ops e al) x ADD_IF_NOT_FOUND m = Some (Inr (Some p), m') \<and> p < m_alloc m' \<and>
      length (m_values m') = m_alloc m' \<and> m_values m' ! p = D (canon x) \<and>
      (\<forall>v. dict_rep (mp_ops e al) (map_set_value p (Some v) m') (D(canon x \<mapsto> v))))"
proof -
  let ?ops = "mp_ops e al"
  note inv = rep_inv(1) [OF assms]
  from objs.lookup_add_or_oom [OF inv order_refl, of x] show ?thesis
  proof
    assume "\<exists>p m' k. dict_lookup ?ops x ADD_IF_NOT_FOUND m = Some (Inr (Some p), m') \<and> map_inv ?ops m' \<and>
      p < m_alloc m' \<and> m_keys m' ! p = Key k \<and> obj_equal ?ops k x \<and>
      (\<forall>y v. map_entry ?ops m' y v \<longleftrightarrow>
         (if obj_equal ?ops x y \<and> (\<nexists>w. map_entry ?ops m x w) then v = None else map_entry ?ops m y v))"
    then obtain p m' k where a: "dict_lookup ?ops x ADD_IF_NOT_FOUND m = Some (Inr (Some p), m')" "map_inv ?ops m'"
      "p < m_alloc m'" "m_keys m' ! p = Key k" "obj_equal ?ops k x"
      "\<And>y v. map_entry ?ops m' y v \<longleftrightarrow> (if obj_equal ?ops x y \<and> (\<nexists>w. map_entry ?ops m x w) then v = None else map_entry ?ops m y v)"
      by blast
    have f: "\<not> is_fixed m'" using lookup_fixed [OF a(1)] rep_inv(2) [OF assms] by simp
    have "map_entry ?ops m' x (m_values m' ! p)" using a(3-5) by (auto simp: map_entry_def)
    then have "m_values m' ! p = D (canon x)" using a(6) by (auto simp: rep_entry [OF assms] equal_canon split: if_splits)
    moreover have "dict_rep ?ops (map_set_value p (Some v) m') (D(canon x \<mapsto> v))" for v
      unfolding dict_rep_def objs.set_value_entry [OF a(2-5)]
      using objs.set_value_inv [OF a(2)] f a(6) by (auto simp: rep_entry [OF assms] equal_canon map_set_value_def)
    moreover have "length (m_values m') = m_alloc m'" using a(2) by (simp add: map_inv_def)
    ultimately show ?thesis using a(1,3) by blast
  qed simp
qed

lemma put_rep:
  assumes "dict_rep (mp_ops e al) m D"
  shows "dict_put (mp_ops e al) x v m = Some (Inl MemoryError, m) \<or>
    (\<exists>m'. dict_put (mp_ops e al) x v m = Some (Inr (), m') \<and> dict_rep (mp_ops e al) m' (D(canon x \<mapsto> v)))"
  using lookup_add_rep [OF assms, of x] by (auto simp: dict_put_def)

text \<open>Taking a key out, and clearing the value in the slot that was its own.\<close>

lemma clear_value_entry:
  assumes "\<And>k. m_keys m ! p \<noteq> Key k"
  shows "map_entry ops (map_set_value p w m) y v \<longleftrightarrow> map_entry ops m y v"
proof -
  have "(m_values m)[p := w] ! q = m_values m ! q" if "m_keys m ! q = Key k" for q k using assms that by (cases "q = p") auto
  then show ?thesis unfolding map_entry_def map_set_value_def by (simp cong: conj_cong)
qed

lemma removed_rep:
  assumes "dict_rep (mp_ops e al) m D" and p: "p < m_alloc m" "m_keys m ! p = Key k" "mp_obj_equal k x"
  shows "dict_rep (mp_ops e al) (map_set_value p None (m\<lparr>m_used := m_used m - 1, m_keys := delete_slot (m_keys m) p\<rparr>)) (D(canon x := None))"
proof -
  let ?m = "m\<lparr>m_used := m_used m - 1, m_keys := delete_slot (m_keys m) p\<rparr>"
  have eq: "obj_equal (mp_ops e al) k x" using p(3) by simp
  note r = objs.remove_inv [OF rep_inv(1) [OF assms(1)] p(1,2) eq]
  have "length (m_keys m) = m_alloc m" using rep_inv(1) [OF assms(1)] by (simp add: map_inv_def)
  then have nk: "m_keys ?m ! p \<noteq> Key l" for l using p(1) by (simp add: delete_slot_def)
  show ?thesis unfolding dict_rep_def clear_value_entry [OF nk] r(2)
    using objs.set_value_inv [OF r(1)] rep_inv(2) [OF assms(1)]
    by (auto simp: rep_entry [OF assms(1)] equal_canon map_set_value_def)
qed

subsection \<open>The operations on one key\<close>

lemma get_rep:
  assumes "dict_rep (mp_ops e al) m D"
  shows "mp_obj_dict_get (mp_ops e al) m x = Some (case D (canon x) of None \<Rightarrow> Inl KeyError | Some v \<Rightarrow> Inr (Some v), m)"
proof (cases "D (canon x)")
  case None
  then show ?thesis using lookup_absent [OF assms None] by (simp add: mp_obj_dict_get_def)
next
  case (Some v)
  show ?thesis by (rule lookup_present [OF assms Some]) (simp add: mp_obj_dict_get_def Some)
qed

lemma contains_rep:
  assumes "dict_rep (mp_ops e al) m D"
  shows "dict_contains (mp_ops e al) m x = Some (D (canon x) \<noteq> None)"
proof (cases "D (canon x)")
  case None
  then show ?thesis using lookup_absent [OF assms None] by (simp add: dict_contains_def)
next
  case (Some v)
  show ?thesis by (rule lookup_present [OF assms Some]) (simp add: dict_contains_def Some)
qed

lemma dict_store_rep:
  assumes "dict_rep (mp_ops e al) m D"
  shows "mp_obj_dict_store (mp_ops e al) m x v = Some (Inl MemoryError, m) \<or>
    (\<exists>m'. mp_obj_dict_store (mp_ops e al) m x v = Some (Inr (), m') \<and> dict_rep (mp_ops e al) m' (D(canon x \<mapsto> v)))"
  using put_rep [OF assms, of x v] rep_inv(2) [OF assms] by (simp add: mp_obj_dict_store_def)

abbreviation (input) or_none :: "'v \<Rightarrow> 'v option \<Rightarrow> 'v" where
  "or_none z d \<equiv> (case d of None \<Rightarrow> z | Some v \<Rightarrow> v)"

lemma dict_get_rep:
  assumes "dict_rep (mp_ops e al) m D"
  shows "dict_get (mp_ops e al) z m x d = Some (Inr (case D (canon x) of None \<Rightarrow> or_none z d | Some v \<Rightarrow> v), m)"
proof (cases "D (canon x)")
  case None
  then show ?thesis using lookup_absent [OF assms None] by (simp add: dict_get_def dict_get_helper_def)
next
  case (Some v)
  show ?thesis by (rule lookup_present [OF assms Some]) (simp add: dict_get_def dict_get_helper_def Some)
qed

lemma dict_pop_rep:
  assumes "dict_rep (mp_ops e al) m D"
  shows "case D (canon x) of
      None \<Rightarrow> dict_pop (mp_ops e al) z m x d = Some (case d of None \<Rightarrow> Inl KeyError | Some v \<Rightarrow> Inr v, m)
    | Some v \<Rightarrow> \<exists>m'. dict_pop (mp_ops e al) z m x d = Some (Inr v, m') \<and> dict_rep (mp_ops e al) m' (D(canon x := None))"
proof (cases "D (canon x)")
  case None
  then show ?thesis using lookup_absent [OF assms None, of REMOVE_IF_FOUND] rep_inv(2) [OF assms]
    by (cases d) (simp_all add: dict_pop_def dict_get_helper_def)
next
  case (Some v)
  obtain p k where p: "p < m_alloc m" "m_keys m ! p = Key k" "mp_obj_equal k x" "m_values m ! p = Some v"
    "dict_lookup (mp_ops e al) x REMOVE_IF_FOUND m = Some (Inr (Some p), m\<lparr>m_used := m_used m - 1, m_keys := delete_slot (m_keys m) p\<rparr>)"
    by (rule lookup_present [OF assms Some]) auto
  have "dict_pop (mp_ops e al) z m x d =
      Some (Inr v, map_set_value p None (m\<lparr>m_used := m_used m - 1, m_keys := delete_slot (m_keys m) p\<rparr>))"
    using p(4,5) rep_inv(2) [OF assms] by (simp add: dict_pop_def dict_get_helper_def)
  then show ?thesis using removed_rep [OF assms p(1-3)] Some by simp
qed

lemma delete_rep:
  assumes "dict_rep (mp_ops e al) m D"
  shows "if D (canon x) = None then mp_obj_dict_delete (mp_ops e al) z m x = Some (Inl KeyError, m)
    else \<exists>m'. mp_obj_dict_delete (mp_ops e al) z m x = Some (Inr (), m') \<and> dict_rep (mp_ops e al) m' (D(canon x := None))"
  using dict_pop_rep [OF assms, where x = x and z = z and d = None]
  by (auto simp: mp_obj_dict_delete_def out_unit_def dict_pop_def split: option.splits)

lemma setdefault_rep:
  assumes "dict_rep (mp_ops e al) m D"
  shows "dict_setdefault (mp_ops e al) z m x d = Some (Inl MemoryError, m) \<or>
    (\<exists>m'. dict_setdefault (mp_ops e al) z m x d = Some (Inr (case D (canon x) of None \<Rightarrow> or_none z d | Some v \<Rightarrow> v), m') \<and>
      dict_rep (mp_ops e al) m' (case D (canon x) of None \<Rightarrow> D(canon x \<mapsto> or_none z d) | Some v \<Rightarrow> D))"
proof (cases "D (canon x)")
  case None
  then show ?thesis using lookup_add_rep [OF assms, of x] rep_inv(2) [OF assms]
    by (auto simp: dict_setdefault_def dict_get_helper_def Let_def)
next
  case (Some v)
  show ?thesis by (rule lookup_present [OF assms Some])
      (use assms rep_inv(2) [OF assms] in \<open>simp add: dict_setdefault_def dict_get_helper_def Some\<close>)
qed

subsection \<open>Whole dictionaries\<close>

lemma empty_rep:
  assumes "map_inv (mp_ops e al) m" and "\<not> is_fixed m" and "\<And>p k. p < m_alloc m \<Longrightarrow> m_keys m ! p \<noteq> Key k"
  shows "dict_rep (mp_ops e al) m Map.empty"
  using assms by (auto simp: dict_rep_def map_entry_def)

lemma new_dict_rep:
  "(mp_obj_new_dict (mp_ops e al) n :: (mp_obj, 'v) mp_map result) = Inl MemoryError \<or>
   (\<exists>m :: (mp_obj, 'v) mp_map. mp_obj_new_dict (mp_ops e al) n = Inr m \<and> dict_rep (mp_ops e al) m Map.empty)"
proof -
  let ?m = "\<lparr>m_alloc = n, m_used = 0, all_keys_are_qstrs = True, is_fixed = False, is_ordered = False,
    m_keys = replicate n Null, m_values = replicate n None\<rparr>"
  have "dict_rep (mp_ops e al) ?m Map.empty"
    by (rule empty_rep) (auto simp: map_inv_def count_keys_def keys_of_def)
  then show ?thesis by (auto simp: mp_obj_new_dict_def mp_map_init_def)
qed

lemma dict_clear_rep:
  assumes "dict_rep (mp_ops e al) m D"
  shows "\<exists>m'. dict_clear m = (Inr (), m') \<and> dict_rep (mp_ops e al) m' Map.empty"
proof -
  have "dict_rep (mp_ops e al) (mp_map_clear m) Map.empty"
    by (rule empty_rep) (use rep_inv(1) [OF assms] in \<open>auto simp: map_inv_def mp_map_clear_def count_keys_def keys_of_def table_inv_def\<close>)
  then show ?thesis using rep_inv(2) [OF assms] by (simp add: dict_clear_def)
qed

lemma dict_copy_rep:
  assumes "dict_rep (mp_ops e al) m D"
  shows "mp_obj_dict_copy (mp_ops e al) m = Inl MemoryError \<or>
    (\<exists>m'. mp_obj_dict_copy (mp_ops e al) m = Inr m' \<and> dict_rep (mp_ops e al) m' D)"
proof -
  have len: "length (m_keys m) = m_alloc m" "length (m_values m) = m_alloc m" using rep_inv(1) [OF assms] by (simp_all add: map_inv_def)
  have "dict_rep (mp_ops e al) (m\<lparr>is_fixed := False\<rparr>) D"
    using assms by (auto simp: dict_rep_def map_inv_def map_entry_def)
  then show ?thesis using len
    by (cases m) (auto simp: mp_obj_dict_copy_def mp_obj_new_dict_def mp_map_init_def overwrite_def)
qed

text \<open>The filled slots are in bijection with the keys.\<close>

definition slot_key_at :: "(mp_obj, 'v) mp_map \<Rightarrow> nat \<Rightarrow> key_value" where
  "slot_key_at m p = canon (the (slot_obj (m_keys m ! p)))"

lemma filled_key: "mp_map_slot_is_filled m p \<longleftrightarrow> (\<exists>k. m_keys m ! p = Key k)"
  by (cases "m_keys m ! p") (auto simp: mp_map_slot_is_filled_def)

lemma filled_slots:
  assumes "dict_rep (mp_ops e al) m D"
  shows "bij_betw (slot_key_at m) {p. p < m_alloc m \<and> mp_map_slot_is_filled m p} (dom D)"
    and "p < m_alloc m \<Longrightarrow> mp_map_slot_is_filled m p \<Longrightarrow> D (slot_key_at m p) = m_values m ! p"
proof -
  let ?P = "{p. p < m_alloc m \<and> mp_map_slot_is_filled m p}"
  have ti: "table_inv (mp_ops e al) (m_keys m)" "length (m_keys m) = m_alloc m" using rep_inv(1) [OF assms] by (simp_all add: map_inv_def)
  have v: "D (slot_key_at m p) = m_values m ! p \<and> m_values m ! p \<noteq> None" if "p \<in> ?P" for p
  proof -
    have "mp_map_slot_is_filled m p" using that by simp
    then obtain k where k: "m_keys m ! p = Key k" unfolding filled_key ..
    then have "map_entry (mp_ops e al) m k (m_values m ! p)" using that by (auto simp: map_entry_def equal_canon)
    then have "m_values m ! p = D (canon k) \<and> m_values m ! p \<noteq> None" unfolding rep_entry [OF assms] .
    then show ?thesis unfolding slot_key_at_def k by (metis option.sel slot_obj.simps(1))
  qed
  show "p < m_alloc m \<Longrightarrow> mp_map_slot_is_filled m p \<Longrightarrow> D (slot_key_at m p) = m_values m ! p" using v by simp
  have "inj_on (slot_key_at m) ?P"
    by (rule inj_onI) (use ti in \<open>auto simp: filled_key slot_key_at_def table_inv_def equal_canon\<close>)
  moreover have "c \<in> slot_key_at m ` ?P" if c: "c \<in> dom D" for c
  proof -
    obtain x w where x: "canon x = c" "D (canon x) = Some w" using c canon_surj [of c] by auto
    obtain q k where "q < m_alloc m" "m_keys m ! q = Key k" "mp_obj_equal k x" by (rule rep_slot [OF assms x(2)])
    then show ?thesis using x(1) by (intro image_eqI [of _ _ q]) (simp_all add: filled_key slot_key_at_def equal_canon)
  qed
  moreover have "slot_key_at m p \<in> dom D" if "p \<in> ?P" for p using v [OF that] by auto
  ultimately show "bij_betw (slot_key_at m) ?P (dom D)" unfolding bij_betw_def by blast
qed

lemma used_rep:
  assumes "dict_rep (mp_ops e al) m D"
  shows "m_used m = card (dom D)" and "finite (dom D)"
proof -
  let ?P = "{p. p < m_alloc m \<and> mp_map_slot_is_filled m p}"
  have "m_used m = card ?P" using rep_inv(1) [OF assms]
    by (simp add: map_inv_def count_keys_def length_filter_conv_card mp_map_slot_is_filled_def)
  then show "m_used m = card (dom D)" using bij_betw_same_card [OF filled_slots(1) [OF assms]] by simp
  show "finite (dom D)" using bij_betw_finite [OF filled_slots(1) [OF assms]] by simp
qed

lemma table_inv_sentinel:
  assumes "table_inv ops tab"
  shows "table_inv ops (tab[p := Sentinel])"
proof -
  have e: "tab[p := Sentinel] ! q = Key k \<longleftrightarrow> q \<noteq> p \<and> tab ! q = Key k" if "q < length tab" for q k
    using that by (cases "q = p") auto
  have "\<exists>j < length tab. q = (obj_hash ops k + j) mod length tab \<and> clear_path (tab[p := Sentinel]) (obj_hash ops k) j"
    if "q < length tab" "tab ! q = Key k" for q k
    using assms that clear_path_update [of Sentinel tab _ _ p] unfolding table_inv_def by blast
  moreover have "q = r" if "q < length tab" "r < length tab" "tab ! q = Key k" "tab ! r = Key l" "obj_equal ops k l" for q r k l
    using assms that unfolding table_inv_def by blast
  ultimately show ?thesis unfolding table_inv_def by (simp add: e)
qed

text \<open>A slot marked as deleted, as \<^verbatim>\<open>popitem\<close> does it.\<close>

definition mark_deleted :: "nat \<Rightarrow> (mp_obj, 'v) mp_map \<Rightarrow> (mp_obj, 'v) mp_map" where
  "mark_deleted p m = m\<lparr>m_used := m_used m - 1, m_keys := (m_keys m)[p := Sentinel], m_values := (m_values m)[p := None]\<rparr>"

lemma mark_deleted_entry:
  assumes inv: "map_inv (mp_ops e al) m" and p: "p < m_alloc m" "m_keys m ! p = Key k"
  shows "map_entry (mp_ops e al) (mark_deleted p m) y v \<longleftrightarrow> canon y \<noteq> canon k \<and> map_entry (mp_ops e al) m y v"
proof -
  have len: "length (m_keys m) = m_alloc m" and ti: "table_inv (mp_ops e al) (m_keys m)" using inv by (simp_all add: map_inv_def)
  have only: "q = p" if "q < m_alloc m" "m_keys m ! q = Key l" "canon l = canon k" for q l
    using ti that p len unfolding table_inv_def by (auto simp: equal_canon)
  have keys: "m_keys (mark_deleted p m) ! q = Key l \<longleftrightarrow> q \<noteq> p \<and> m_keys m ! q = Key l" if "q < m_alloc m" for q l
    using that len by (cases "q = p") (auto simp: mark_deleted_def)
  have vals: "m_values (mark_deleted p m) ! q = m_values m ! q" if "q \<noteq> p" for q using that by (simp add: mark_deleted_def)
  have alloc: "m_alloc (mark_deleted p m) = m_alloc m" by (simp add: mark_deleted_def)
  have ent: "map_entry (mp_ops e al) n y v \<longleftrightarrow> (\<exists>q l. q < m_alloc n \<and> m_keys n ! q = Key l \<and> canon l = canon y \<and> m_values n ! q = v)"
    for n :: "(mp_obj, 'a) mp_map" by (simp add: map_entry_def equal_canon)
  show ?thesis
  proof
    assume "map_entry (mp_ops e al) (mark_deleted p m) y v"
    then obtain q l where "q < m_alloc m" "m_keys (mark_deleted p m) ! q = Key l" "canon l = canon y" "m_values (mark_deleted p m) ! q = v"
      unfolding ent alloc by auto
    then show "canon y \<noteq> canon k \<and> map_entry (mp_ops e al) m y v" using keys [of q l] vals [of q] only [of q l] unfolding ent by metis
  next
    assume "canon y \<noteq> canon k \<and> map_entry (mp_ops e al) m y v"
    then obtain q l where q: "q < m_alloc m" "m_keys m ! q = Key l" "canon l = canon y" "m_values m ! q = v" "canon y \<noteq> canon k"
      unfolding ent by auto
    then have "q \<noteq> p" using p(2) by auto
    then have "m_keys (mark_deleted p m) ! q = Key l" "m_values (mark_deleted p m) ! q = v" using q keys [of q l] vals [of q] by auto
    then show "map_entry (mp_ops e al) (mark_deleted p m) y v" unfolding ent alloc using q(1,3) by auto
  qed
qed

lemma mark_deleted_rep:
  assumes "dict_rep (mp_ops e al) m D" and p: "p < m_alloc m" "m_keys m ! p = Key k"
  shows "dict_rep (mp_ops e al) (mark_deleted p m) (D(canon k := None))"
proof -
  note inv = rep_inv(1) [OF assms(1)]
  have len: "length (m_keys m) = m_alloc m" and ti: "table_inv (mp_ops e al) (m_keys m)" using inv by (simp_all add: map_inv_def)
  have "map_inv (mp_ops e al) (mark_deleted p m)"
    using inv table_inv_sentinel [OF ti, of p] count_keys_update [of p "m_keys m" Sentinel] p len
    by (auto simp: map_inv_def mark_deleted_def keys_of_def dest: set_update_subset_insert [THEN subsetD])
  moreover have "\<not> is_fixed (mark_deleted p m)" using rep_inv(2) [OF assms(1)] by (simp add: mark_deleted_def)
  ultimately show ?thesis unfolding dict_rep_def mark_deleted_entry [OF inv p] by (auto simp: rep_entry [OF assms(1)])
qed

lemma popitem_rep:
  assumes "dict_rep (mp_ops e al) m D"
  shows "if D = Map.empty then dict_popitem (mp_ops e al) m = Some (Inl KeyError, m)
    else \<exists>k v r m'. dict_popitem (mp_ops e al) m = Some (r, m') \<and> (r = Inl MemoryError \<or> r = Inr (Some k, Some v)) \<and>
      D (canon k) = Some v \<and> dict_rep (mp_ops e al) m' (D(canon k := None))"
proof (cases "D = Map.empty")
  case True
  then show ?thesis using used_rep [OF assms] rep_inv(2) [OF assms] by (simp add: dict_popitem_def)
next
  case False
  have used: "m_used m \<noteq> 0" using False used_rep [OF assms] by auto
  have "\<exists>i < m_alloc m. mp_map_slot_is_filled m i" using False filled_slots(1) [OF assms] by (fastforce simp: bij_betw_def)
  then have "dict_iter_next m 0 \<noteq> None" using dict_iter_next_None [of m 0] by blast
  then obtain p c where "dict_iter_next m 0 = Some (p, c)" by auto
  with dict_iter_next_Some [OF this] have p: "dict_iter_next m 0 = Some (p, p + 1)" "p < m_alloc m" "mp_map_slot_is_filled m p" by auto
  obtain k where k: "m_keys m ! p = Key k" using p(3) filled_key by blast
  have dv: "D (canon k) = m_values m ! p" using filled_slots(2) [OF assms p(2,3)] k by (simp add: slot_key_at_def)
  have dn: "D (canon k) \<noteq> None" using filled_slots(1) [OF assms] p(2,3) k by (force simp: bij_betw_def slot_key_at_def)
  obtain v where v: "D (canon k) = Some v" "m_values m ! p = Some v" using dv dn by auto
  moreover have "dict_popitem (mp_ops e al) m = Some (if al 2 then Inr (Some k, Some v) else Inl MemoryError, mark_deleted p m)"
    using used p(1) k v(2) rep_inv(2) [OF assms] by (simp add: dict_popitem_def Let_def mark_deleted_def)
  ultimately show ?thesis using False mark_deleted_rep [OF assms p(2) k] by (intro if_not_P [THEN iffD2] exI [of _ k] exI [of _ v]) auto
qed

subsection \<open>Two dictionaries\<close>

text \<open>The keys in the slots from \<open>cur\<close> on, which an iteration has still to visit.\<close>

definition keys_from :: "(mp_obj, 'v) mp_map \<Rightarrow> nat \<Rightarrow> key_value set" where
  "keys_from m cur = slot_key_at m ` {p. cur \<le> p \<and> p < m_alloc m \<and> mp_map_slot_is_filled m p}"

lemma keys_from_0: "dict_rep (mp_ops e al) m D \<Longrightarrow> keys_from m 0 = dom D"
  using filled_slots(1) by (fastforce simp: keys_from_def bij_betw_def)

lemma keys_from_None: "dict_iter_next m cur = None \<Longrightarrow> keys_from m cur = {}"
  using dict_iter_next_None by (auto simp: keys_from_def)

lemma keys_from_Some:
  assumes "dict_iter_next m cur = Some (p, c)"
  shows "keys_from m cur = insert (slot_key_at m p) (keys_from m c)"
proof -
  note s = dict_iter_next_Some [OF assms]
  have "q = p \<or> c \<le> q" if "cur \<le> q" "mp_map_slot_is_filled m q" for q
    using s that by (metis Suc_eq_plus1 not_less not_less_eq_eq le_antisym nat_le_linear)
  then have "{q. cur \<le> q \<and> q < m_alloc m \<and> mp_map_slot_is_filled m q} =
      insert p {q. c \<le> q \<and> q < m_alloc m \<and> mp_map_slot_is_filled m q}" using s by auto
  then show ?thesis by (simp add: keys_from_def)
qed

text \<open>What the slot that an iteration stops at holds.\<close>

lemma iter_slot:
  assumes "dict_rep (mp_ops e al) m D" and "dict_iter_next m cur = Some (p, c)"
  obtains k v where "m_keys m ! p = Key k" "slot_key_at m p = canon k" "m_values m ! p = Some v" "D (canon k) = Some v"
proof -
  note s = dict_iter_next_Some [OF assms(2)]
  obtain k where k: "m_keys m ! p = Key k" using s filled_key by blast
  have "D (slot_key_at m p) = m_values m ! p" using filled_slots(2) [OF assms(1)] s by blast
  moreover have "slot_key_at m p \<in> dom D" using filled_slots(1) [OF assms(1)] s by (auto simp: bij_betw_def)
  then obtain v where "D (slot_key_at m p) = Some v" by blast
  ultimately show thesis using that [of k v] k by (simp add: slot_key_at_def)
qed

lemma update_from_rep:
  assumes "dict_rep (mp_ops e al) other E"
  shows "dict_rep (mp_ops e al) m D \<Longrightarrow>
    (\<exists>m'. update_from (mp_ops e al) other cur m = Some (Inr (), m') \<and> dict_rep (mp_ops e al) m' (D ++ E |` keys_from other cur)) \<or>
    (\<exists>m' S. update_from (mp_ops e al) other cur m = Some (Inl MemoryError, m') \<and> S \<subseteq> keys_from other cur \<and>
      dict_rep (mp_ops e al) m' (D ++ E |` S))"
proof (induction "m_alloc other - cur" arbitrary: cur m D rule: less_induct)
  case less
  let ?ops = "mp_ops e al"
  show ?case
  proof (cases "dict_iter_next other cur")
    case None
    then show ?thesis using less.prems by (simp add: update_from.simps [of ?ops other cur m] keys_from_None)
  next
    case (Some pc)
    obtain p c where pc: "pc = (p, c)" by (cases pc)
    note it = Some [unfolded pc]
    obtain k v where k: "m_keys other ! p = Key k" "slot_key_at other p = canon k" "m_values other ! p = Some v" "E (canon k) = Some v"
      by (rule iter_slot [OF assms it])
    from lookup_add_rep [OF less.prems, of k] show ?thesis
    proof
      assume "dict_lookup ?ops k ADD_IF_NOT_FOUND m = Some (Inl MemoryError, m)"
      then have "update_from ?ops other cur m = Some (Inl MemoryError, m)" using it k by (simp add: update_from.simps [of ?ops other cur m])
      then show ?thesis using less.prems by (intro disjI2 exI [of _ m] exI [of _ "{}"]) simp
    next
      assume "\<exists>q m'. dict_lookup ?ops k ADD_IF_NOT_FOUND m = Some (Inr (Some q), m') \<and> q < m_alloc m' \<and>
        length (m_values m') = m_alloc m' \<and> m_values m' ! q = D (canon k) \<and>
        (\<forall>v. dict_rep ?ops (map_set_value q (Some v) m') (D(canon k \<mapsto> v)))"
      then obtain q m' where q: "dict_lookup ?ops k ADD_IF_NOT_FOUND m = Some (Inr (Some q), m')"
        "dict_rep ?ops (map_set_value q (Some v) m') (D(canon k \<mapsto> v))" by blast
      have e: "update_from ?ops other cur m = update_from ?ops other c (map_set_value q (Some v) m')"
        using it k q(1) by (simp add: update_from.simps [of ?ops other cur m])
      have u: "D(canon k \<mapsto> v) ++ E |` S = D ++ E |` insert (canon k) S" for S
        using k(4) by (auto simp: fun_eq_iff map_add_def restrict_map_def split: option.splits)
      have "m_alloc other - c < m_alloc other - cur" using dict_iter_next_Some [OF it] by auto
      from less.hyps [OF this q(2)] show ?thesis unfolding e u keys_from_Some [OF it] k(2) by blast
    qed
  qed
qed

text \<open>Pairs from an iterable: those before it ends, raises or delivers something that is not a pair.\<close>

fun pair_items :: "(mp_obj \<times> 'v) option result list \<Rightarrow> (mp_obj \<times> 'v) list \<times> unit result" where
  "pair_items [] = ([], Inr ())"
| "pair_items (Inl e # its) = ([], Inl e)"
| "pair_items (Inr None # its) = ([], Inl ValueError)"
| "pair_items (Inr (Some kv) # its) = (kv # fst (pair_items its), snd (pair_items its))"

definition puts :: "(mp_obj \<times> 'v) list \<Rightarrow> (key_value \<rightharpoonup> 'v) \<Rightarrow> (key_value \<rightharpoonup> 'v)" where
  "puts ps D = foldl (\<lambda>D (k, v). D(canon k \<mapsto> v)) D ps"

lemma puts_simps [simp]: "puts [] D = D" "puts ((k, v) # ps) D = puts ps (D(canon k \<mapsto> v))"
  by (simp_all add: puts_def)

lemma update_pairs_rep:
  "dict_rep (mp_ops e al) m D \<Longrightarrow>
   \<exists>r m' n. update_pairs (mp_ops e al) its m = Some (r, m') \<and> n \<le> length (fst (pair_items its)) \<and>
     dict_rep (mp_ops e al) m' (puts (take n (fst (pair_items its))) D) \<and>
     (r = Inl MemoryError \<or> n = length (fst (pair_items its)) \<and> r = snd (pair_items its))"
proof (induction its arbitrary: m D rule: pair_items.induct)
  case (4 kv its)
  obtain k v where kv: "kv = (k, v)" by (cases kv)
  from put_rep [OF "4.prems", of k v] show ?case
  proof
    assume "dict_put (mp_ops e al) k v m = Some (Inl MemoryError, m)"
    then show ?thesis using "4.prems" by (intro exI [of _ "Inl MemoryError"] exI [of _ m] exI [of _ 0]) (simp add: kv)
  next
    assume "\<exists>m'. dict_put (mp_ops e al) k v m = Some (Inr (), m') \<and> dict_rep (mp_ops e al) m' (D(canon k \<mapsto> v))"
    then obtain m1 where m1: "dict_put (mp_ops e al) k v m = Some (Inr (), m1)" "dict_rep (mp_ops e al) m1 (D(canon k \<mapsto> v))" by blast
    from "4.IH"(1) [OF m1(2)] obtain r m' n where "update_pairs (mp_ops e al) its m1 = Some (r, m')" "n \<le> length (fst (pair_items its))"
      "dict_rep (mp_ops e al) m' (puts (take n (fst (pair_items its))) (D(canon k \<mapsto> v)))"
      "r = Inl MemoryError \<or> n = length (fst (pair_items its)) \<and> r = snd (pair_items its)" by blast
    then show ?thesis using m1(1) by (intro exI [of _ r] exI [of _ m'] exI [of _ "Suc n"]) (auto simp: kv)
  qed
qed auto

lemma equal_loop_rep:
  assumes "dict_rep (mp_ops e al) m D" and "dict_rep (mp_ops e al) rhs E"
  shows "equal_loop (mp_ops e al) veq m rhs cur = Some (\<forall>c \<in> keys_from m cur. E c \<noteq> None \<and> veq (D c) (E c))"
proof (induction "m_alloc m - cur" arbitrary: cur rule: less_induct)
  case less
  let ?ops = "mp_ops e al"
  show ?case
  proof (cases "dict_iter_next m cur")
    case None
    then show ?thesis by (simp add: equal_loop.simps [of ?ops veq m rhs cur] keys_from_None)
  next
    case (Some pc)
    obtain p c where pc: "pc = (p, c)" by (cases pc)
    note it = Some [unfolded pc]
    obtain k v where k: "m_keys m ! p = Key k" "slot_key_at m p = canon k" "m_values m ! p = Some v" "D (canon k) = Some v"
      by (rule iter_slot [OF assms(1) it])
    have "m_alloc m - c < m_alloc m - cur" using dict_iter_next_Some [OF it] by auto
    note ih = less.hyps [OF this]
    show ?thesis
    proof (cases "E (canon k)")
      case None
      then show ?thesis using lookup_absent [OF assms(2) None, of LOOKUP] it k
        by (simp add: equal_loop.simps [of ?ops veq m rhs cur] keys_from_Some)
    next
      case (Some w)
      show ?thesis
        by (rule lookup_present [OF assms(2) Some])
          (simp add: equal_loop.simps [of ?ops veq m rhs cur] keys_from_Some [OF it] it k ih Some)
    qed
  qed
qed

lemma equal_rep:
  assumes "dict_rep (mp_ops e al) m D" and "dict_rep (mp_ops e al) rhs E"
  shows "dict_equal (mp_ops e al) veq m rhs = Some (dom D = dom E \<and> (\<forall>c \<in> dom D. veq (D c) (E c)))"
proof -
  have "dom D = dom E" if "dom D \<subseteq> dom E" "card (dom D) = card (dom E)"
    using card_subset_eq [OF used_rep(2) [OF assms(2)] that] .
  then have "card (dom D) = card (dom E) \<Longrightarrow> (\<forall>c \<in> dom D. E c \<noteq> None \<and> veq (D c) (E c)) \<longleftrightarrow>
      dom D = dom E \<and> (\<forall>c \<in> dom D. veq (D c) (E c))" by (auto simp: subset_iff domIff)
  then show ?thesis
    using equal_loop_rep [OF assms, of veq 0] used_rep(1) [OF assms(1)] used_rep(1) [OF assms(2)]
    by (auto simp: dict_equal_def keys_from_0 [OF assms(1)])
qed

end
