(* ===== verification/Dict_Refine.thy ===== *)
theory Dict_Refine
  imports Dict_Correct
begin

text \<open>
  The dictionaries of \<open>Dict\<close> as an abstract data type: an operation of \<^verbatim>\<open>py/objdict.c\<close> against the operation of Python on
  the finite map that the dictionary represents.
\<close>

subsection \<open>Operations and results\<close>

text \<open>Another dictionary among the arguments or results is a table for the code, and a finite map for Python.\<close>

datatype ('v, 'd) dict_op =
    DictStore mp_obj 'v | DictLoad mp_obj | DictDelete mp_obj | DictGet mp_obj "'v option" | DictPop mp_obj "'v option"
  | DictSetdefault mp_obj "'v option" | DictPopitem | DictClear | DictCopy | DictUpdate "('v, 'd) update_arg list" "(mp_obj \<times> 'v) list"
  | DictNew "('v, 'd) update_arg list" "(mp_obj \<times> 'v) list" | DictContains mp_obj | DictEqual 'd | DictLen | DictItems

datatype ('v, 'd) dict_res = NoRes | ValueRes 'v | PairRes mp_obj 'v | BoolRes bool | LenRes nat | DictRes 'd | ItemsRes "(mp_obj \<times> 'v) list"

text \<open>A loop over \<^verbatim>\<open>d.items()\<close> that leaves the dictionary alone.\<close>

function items_walk :: "mp_obj obj_ops \<Rightarrow> (mp_obj, 'v) mp_map \<Rightarrow> nat \<Rightarrow> (mp_obj \<times> 'v) list result option" where
  "items_walk ops m cur =
    (case dict_view_it_iternext ops MP_DICT_VIEW_ITEMS m cur of
       (Inl e, _) \<Rightarrow> Some (Inl e)
     | (Inr None, _) \<Rightarrow> Some (Inr [])
     | (Inr (Some (ViewPair (Some k) (Some v))), cur) \<Rightarrow> map_option (\<lambda>r. rbind r (\<lambda>its. Inr ((k, v) # its))) (items_walk ops m cur)
     | _ \<Rightarrow> None)"
  by pat_completeness auto
termination
  by (relation "measure (\<lambda>(ops, m, cur). m_alloc m - cur)")
    (auto simp: dict_view_it_iternext_def split: option.splits prod.splits if_splits dest!: dict_iter_next_Some)

declare items_walk.simps [simp del]

text \<open>The code; \<open>z\<close> is the object \<^verbatim>\<open>mp_const_none\<close> and \<open>veq\<close> the equality of values.\<close>

definition step_res :: "('r \<Rightarrow> ('v, 'd) dict_res) \<Rightarrow> ('r result \<times> 'm) option \<Rightarrow> (('v, 'd) dict_res result \<times> 'm) option" where
  "step_res f out = map_option (\<lambda>(r, m). (rbind r (\<lambda>x. Inr (f x)), m)) out"

definition query_res :: "('r \<Rightarrow> ('v, 'd) dict_res) \<Rightarrow> 'm \<Rightarrow> 'r result option \<Rightarrow> (('v, 'd) dict_res result \<times> 'm) option" where
  "query_res f m out = map_option (\<lambda>r. (rbind r (\<lambda>x. Inr (f x)), m)) out"

fun dict_step ::
  "mp_obj obj_ops \<Rightarrow> 'v \<Rightarrow> ('v option \<Rightarrow> 'v option \<Rightarrow> bool) \<Rightarrow> ('v, (mp_obj, 'v) mp_map) dict_op \<Rightarrow> (mp_obj, 'v) mp_map \<Rightarrow>
    (('v, (mp_obj, 'v) mp_map) dict_res result \<times> (mp_obj, 'v) mp_map) option" where
  "dict_step ops z veq (DictStore k v) m = step_res (\<lambda>_. NoRes) (dict_subscr ops z m k (SubscrStore v))"
| "dict_step ops z veq (DictLoad k) m = step_res (\<lambda>v. ValueRes (the v)) (dict_subscr ops z m k SubscrLoad)"
| "dict_step ops z veq (DictDelete k) m = step_res (\<lambda>_. NoRes) (dict_subscr ops z m k SubscrDelete)"
| "dict_step ops z veq (DictGet k d) m = step_res ValueRes (dict_get ops z m k d)"
| "dict_step ops z veq (DictPop k d) m = step_res ValueRes (dict_pop ops z m k d)"
| "dict_step ops z veq (DictSetdefault k d) m = step_res ValueRes (dict_setdefault ops z m k d)"
| "dict_step ops z veq DictPopitem m = step_res (\<lambda>(k, v). PairRes (the k) (the v)) (dict_popitem ops m)"
| "dict_step ops z veq DictClear m = step_res (\<lambda>_. NoRes) (Some (dict_clear m))"
| "dict_step ops z veq DictCopy m = query_res DictRes m (Some (mp_obj_dict_copy ops m))"
| "dict_step ops z veq (DictUpdate args kw) m = step_res (\<lambda>_. NoRes) (dict_update ops m args (mp_map_init_fixed_table kw))"
| "dict_step ops z veq (DictNew args kw) m = query_res DictRes m (mp_obj_dict_make_new ops args kw)"
| "dict_step ops z veq (DictContains k) m = query_res BoolRes m (map_option Inr (dict_contains ops m k))"
| "dict_step ops z veq (DictEqual other) m = query_res BoolRes m (map_option Inr (dict_equal ops veq m other))"
| "dict_step ops z veq DictLen m = query_res LenRes m (Some (Inr (mp_obj_dict_len m)))"
| "dict_step ops z veq DictItems m = query_res ItemsRes m (items_walk ops m 0)"

text \<open>Python: what an operation may return, and the map that it leaves then.\<close>

definition py_or :: "'v \<Rightarrow> 'v option \<Rightarrow> 'v" where
  "py_or z d = (case d of None \<Rightarrow> z | Some v \<Rightarrow> v)"

fun py_update1 :: "('v, key_value \<rightharpoonup> 'v) update_arg list \<Rightarrow> (key_value \<rightharpoonup> 'v) \<Rightarrow> unit result \<times> (key_value \<rightharpoonup> 'v)" where
  "py_update1 [OtherDict E] D = (Inr (), D ++ E)"
| "py_update1 [Pairs its] D = (snd (pair_items its), puts (fst (pair_items its)) D)"
| "py_update1 [SelfDict] D = (Inr (), D)"
| "py_update1 [] D = (Inr (), D)"
| "py_update1 _ D = (Inl TypeError, D)"

definition py_update :: "('v, key_value \<rightharpoonup> 'v) update_arg list \<Rightarrow> (mp_obj \<times> 'v) list \<Rightarrow> (key_value \<rightharpoonup> 'v) \<Rightarrow> unit result \<times> (key_value \<rightharpoonup> 'v)" where
  "py_update args kw D = (case py_update1 args D of (Inl e, D) \<Rightarrow> (Inl e, D) | (Inr _, D) \<Rightarrow> (Inr (), puts kw D))"

fun py_dict :: "'v \<Rightarrow> ('v option \<Rightarrow> 'v option \<Rightarrow> bool) \<Rightarrow> ('v, key_value \<rightharpoonup> 'v) dict_op \<Rightarrow> (key_value \<rightharpoonup> 'v) \<Rightarrow>
    (('v, key_value \<rightharpoonup> 'v) dict_res result \<times> (key_value \<rightharpoonup> 'v)) set" where
  "py_dict z veq (DictStore k v) D = {(Inr NoRes, D(canon k \<mapsto> v))}"
| "py_dict z veq (DictLoad k) D = {(case D (canon k) of None \<Rightarrow> Inl KeyError | Some v \<Rightarrow> Inr (ValueRes v), D)}"
| "py_dict z veq (DictDelete k) D = {if D (canon k) = None then (Inl KeyError, D) else (Inr NoRes, D(canon k := None))}"
| "py_dict z veq (DictGet k d) D = {(Inr (ValueRes (case D (canon k) of None \<Rightarrow> py_or z d | Some v \<Rightarrow> v)), D)}"
| "py_dict z veq (DictPop k d) D =
    {case D (canon k) of
       None \<Rightarrow> (case d of None \<Rightarrow> Inl KeyError | Some v \<Rightarrow> Inr (ValueRes v), D)
     | Some v \<Rightarrow> (Inr (ValueRes v), D(canon k := None))}"
| "py_dict z veq (DictSetdefault k d) D =
    {case D (canon k) of
       None \<Rightarrow> (Inr (ValueRes (py_or z d)), D(canon k \<mapsto> py_or z d))
     | Some v \<Rightarrow> (Inr (ValueRes v), D)}"
| "py_dict z veq DictPopitem D =
    (if D = Map.empty then {(Inl KeyError, D)} else {(Inr (PairRes k v), D(canon k := None)) | k v. D (canon k) = Some v})"
| "py_dict z veq DictClear D = {(Inr NoRes, Map.empty)}"
| "py_dict z veq DictCopy D = {(Inr (DictRes D), D)}"
| "py_dict z veq (DictUpdate args kw) D = {(rbind (fst (py_update args kw D)) (\<lambda>_. Inr NoRes), snd (py_update args kw D))}"
| "py_dict z veq (DictNew args kw) D =
    {(rbind (fst (py_update args kw Map.empty)) (\<lambda>_. Inr (DictRes (snd (py_update args kw Map.empty)))), D)}"
| "py_dict z veq (DictContains k) D = {(Inr (BoolRes (D (canon k) \<noteq> None)), D)}"
| "py_dict z veq (DictEqual E) D = {(Inr (BoolRes (dom D = dom E \<and> (\<forall>c \<in> dom D. veq (D c) (E c)))), D)}"
| "py_dict z veq DictLen D = {(Inr (LenRes (card (dom D))), D)}"
| "py_dict z veq DictItems D =
    {(Inr (ItemsRes its), D) | its. distinct (map (canon \<circ> fst) its) \<and> map_of (map (\<lambda>(k, v). (canon k, v)) its) = D}"

text \<open>
  What may be left when the memory runs out: the map as it was; without an item that \<^verbatim>\<open>popitem\<close> took out;
  with a part of what was to be added.
\<close>

fun update1_oom :: "('v, key_value \<rightharpoonup> 'v) update_arg list \<Rightarrow> (key_value \<rightharpoonup> 'v) \<Rightarrow> (key_value \<rightharpoonup> 'v) \<Rightarrow> bool" where
  "update1_oom [OtherDict E] D D' \<longleftrightarrow> (\<exists>S \<subseteq> dom E. D' = D ++ E |` S)"
| "update1_oom [Pairs its] D D' \<longleftrightarrow> (\<exists>n \<le> length (fst (pair_items its)). D' = puts (take n (fst (pair_items its))) D)"
| "update1_oom _ D D' \<longleftrightarrow> D' = D"

fun dict_oom :: "('v, key_value \<rightharpoonup> 'v) dict_op \<Rightarrow> (key_value \<rightharpoonup> 'v) \<Rightarrow> (key_value \<rightharpoonup> 'v) \<Rightarrow> bool" where
  "dict_oom (DictUpdate args kw) D D' \<longleftrightarrow>
    update1_oom args D D' \<or> (\<exists>n \<le> length kw. D' = puts (take n kw) (snd (py_update1 args D)))"
| "dict_oom DictPopitem D D' \<longleftrightarrow> (\<exists>c \<in> dom D. D' = D(c := None))"
| "dict_oom _ D D' \<longleftrightarrow> D' = D"

definition dict_ok where
  "dict_ok ops z veq op D out \<longleftrightarrow>
    (\<exists>r m'. out = Some (r, m') \<and>
      ((\<exists>r' D'. (r', D') \<in> py_dict z veq op D \<and> rel_sum (=) (rel_dict_res (=) (dict_rep ops)) r r' \<and> dict_rep ops m' D') \<or>
       r = Inl MemoryError \<and> (\<exists>D'. dict_oom op D D' \<and> dict_rep ops m' D')))"

subsection \<open>Iteration and updates\<close>

lemma kw_items_fixed [simp]: "kw_items (mp_map_init_fixed_table kw) = kw"
proof -
  have "filter (mp_map_slot_is_filled (mp_map_init_fixed_table kw)) [0..<length kw] = [0..<length kw]"
    by (rule filter_True) (simp add: mp_map_slot_is_filled_def mp_map_init_fixed_table_def)
  then show ?thesis by (auto simp: kw_items_def mp_map_init_fixed_table_def intro: nth_equalityI)
qed

lemma keys_from_next:
  assumes "dict_rep (mp_ops e al) m D" and "dict_iter_next m cur = Some (p, c)"
  shows "slot_key_at m p \<notin> keys_from m c"
proof
  note s = dict_iter_next_Some [OF assms(2)]
  assume "slot_key_at m p \<in> keys_from m c"
  then obtain q where q: "slot_key_at m p = slot_key_at m q" "c \<le> q" "q < m_alloc m" "mp_map_slot_is_filled m q"
    unfolding keys_from_def by blast
  then have "p = q" using filled_slots(1) [OF assms(1)] s by (auto simp: bij_betw_def inj_on_def)
  then show False using s q(2) by simp
qed

lemma items_walk_rep:
  assumes "dict_rep (mp_ops e al) m D"
  shows "items_walk (mp_ops e al) m cur = Some (Inl MemoryError) \<or>
    (\<exists>its. items_walk (mp_ops e al) m cur = Some (Inr its) \<and> distinct (map (canon \<circ> fst) its) \<and>
      map_of (map (\<lambda>(k, v). (canon k, v)) its) = D |` keys_from m cur)"
proof (induction "m_alloc m - cur" arbitrary: cur rule: less_induct)
  case less
  let ?ops = "mp_ops e al"
  note w = items_walk.simps [of ?ops m cur] dict_view_it_iternext_def
  show ?case
  proof (cases "dict_iter_next m cur")
    case None
    then show ?thesis by (simp add: w keys_from_None)
  next
    case (Some pc)
    obtain p c where pc: "pc = (p, c)" by (cases pc)
    note it = Some [unfolded pc]
    obtain k v where k: "m_keys m ! p = Key k" "slot_key_at m p = canon k" "m_values m ! p = Some v" "D (canon k) = Some v"
      by (rule iter_slot [OF assms it])
    have "m_alloc m - c < m_alloc m - cur" using dict_iter_next_Some [OF it] by auto
    from less [OF this] show ?thesis
    proof
      assume "items_walk ?ops m c = Some (Inl MemoryError)"
      then show ?thesis using it k by (simp add: w)
    next
      assume "\<exists>its. items_walk ?ops m c = Some (Inr its) \<and> distinct (map (canon \<circ> fst) its) \<and>
        map_of (map (\<lambda>(k, v). (canon k, v)) its) = D |` keys_from m c"
      then obtain its where its: "items_walk ?ops m c = Some (Inr its)" "distinct (map (canon \<circ> fst) its)"
        "map_of (map (\<lambda>(k, v). (canon k, v)) its) = D |` keys_from m c" by blast
      have "dom (map_of (map (\<lambda>(k, v). (canon k, v)) its)) = set (map (canon \<circ> fst) its)"
        by (auto simp: dom_map_of_conv_image_fst case_prod_unfold image_image)
      then have "canon k \<notin> set (map (canon \<circ> fst) its)" using keys_from_next [OF assms it] k(2) its(3) by auto
      moreover have "(D |` keys_from m c)(canon k \<mapsto> v) = D |` keys_from m cur"
        using k(2,4) by (auto simp: keys_from_Some [OF it] fun_eq_iff restrict_map_def)
      ultimately show ?thesis using it k(1,3) its by (auto simp: w)
    qed
  qed
qed

lemma update1_rep:
  assumes "dict_rep (mp_ops e al) m D" and "list_all2 (rel_update_arg (=) (dict_rep (mp_ops e al))) args args'" and "length args \<le> 1"
  shows "\<exists>r m' D'. (case args of OtherDict other # _ \<Rightarrow> update_from (mp_ops e al) other 0 m
      | Pairs its # _ \<Rightarrow> update_pairs (mp_ops e al) its m | _ \<Rightarrow> Some (Inr (), m)) = Some (r, m') \<and> dict_rep (mp_ops e al) m' D' \<and>
    (py_update1 args' D = (r, D') \<or> r = Inl MemoryError \<and> update1_oom args' D D')"
proof (cases args)
  case Nil
  then show ?thesis using assms by auto
next
  case (Cons a as)
  then obtain a' where a: "args = [a]" "args' = [a']" "rel_update_arg (=) (dict_rep (mp_ops e al)) a a'"
    using assms(2,3) by (auto simp: list_all2_Cons1)
  show ?thesis
  proof (cases a)
    case SelfDict
    then show ?thesis using a assms(1) by (cases a') auto
  next
    case (OtherDict other)
    then obtain E where E: "a' = OtherDict E" "dict_rep (mp_ops e al) other E" using a(3) by (cases a') auto
    have "E |` dom E = E" by (rule map_le_antisym) (auto simp: map_le_def)
    then show ?thesis using update_from_rep [OF E(2) assms(1), of 0] keys_from_0 [OF E(2)] OtherDict E a(1,2) by auto
  next
    case (Pairs its)
    then have "a' = Pairs its" using a(3) by (cases a') (auto simp: prod.rel_eq option.rel_eq sum.rel_eq list.rel_eq)
    then show ?thesis using update_pairs_rep [OF assms(1), of its] Pairs a(1,2) by fastforce
  qed
qed

lemma pair_items_kw [simp]: "pair_items (map (\<lambda>kv. Inr (Some kv)) kw) = (kw, Inr ())"
  by (induction kw) simp_all

lemma update_rep:
  assumes "dict_rep (mp_ops e al) m D" and "list_all2 (rel_update_arg (=) (dict_rep (mp_ops e al))) args args'"
  shows "\<exists>r m' D'. dict_update (mp_ops e al) m args (mp_map_init_fixed_table kw) = Some (r, m') \<and> dict_rep (mp_ops e al) m' D' \<and>
    (py_update args' kw D = (r, D') \<or> r = Inl MemoryError \<and> dict_oom (DictUpdate args' kw) D D')"
proof (cases "length args \<le> 1")
  case True
  note d = dict_update_def rep_inv(2) [OF assms(1)]
  obtain r m1 D1 where one: "(case args of OtherDict other # _ \<Rightarrow> update_from (mp_ops e al) other 0 m
      | Pairs its # _ \<Rightarrow> update_pairs (mp_ops e al) its m | _ \<Rightarrow> Some (Inr (), m)) = Some (r, m1)" "dict_rep (mp_ops e al) m1 D1"
    "py_update1 args' D = (r, D1) \<or> r = Inl MemoryError \<and> update1_oom args' D D1" using update1_rep [OF assms True] by blast
  show ?thesis
  proof (cases r)
    case (Inl x)
    then have "dict_update (mp_ops e al) m args (mp_map_init_fixed_table kw) = Some (Inl x, m1)" using one(1) True by (simp add: d)
    then show ?thesis using one(2,3) Inl by (auto simp: py_update_def)
  next
    case (Inr u)
    then have s: "py_update1 args' D = (Inr u, D1)" using one(3) by auto
    from update_pairs_rep [OF one(2), of "map (\<lambda>kv. Inr (Some kv)) kw"] obtain r2 m2 n where
      two: "update_pairs (mp_ops e al) (map (\<lambda>kv. Inr (Some kv)) kw) m1 = Some (r2, m2)" "n \<le> length kw"
      "dict_rep (mp_ops e al) m2 (puts (take n kw) D1)" "r2 = Inl MemoryError \<or> n = length kw \<and> r2 = Inr ()" by auto
    have "dict_update (mp_ops e al) m args (mp_map_init_fixed_table kw) = Some (r2, m2)"
      using one(1) two(1) Inr True by (simp add: d)
    then show ?thesis using two s by (auto simp: py_update_def)
  qed
next
  case False
  then obtain a b as where "args' = a # b # as" using list_all2_lengthD [OF assms(2)]
    by (metis One_nat_def le_SucI length_0_conv length_Cons le_zero_eq not_less_eq_eq neq_Nil_conv order_refl)
  then have "py_update1 args' D = (Inl TypeError, D)" by (cases a; cases b) simp_all
  then show ?thesis using False assms(1) by (auto simp: dict_update_def py_update_def)
qed

lemma dict_make_new_rep:
  fixes kw :: "(mp_obj \<times> 'v) list"
  assumes "list_all2 (rel_update_arg (=) (dict_rep (mp_ops e al))) args args'"
  shows "mp_obj_dict_make_new (mp_ops e al) args kw = Some (Inl MemoryError) \<or>
    (\<exists>r. mp_obj_dict_make_new (mp_ops e al) args kw = Some r \<and>
      rel_sum (=) (dict_rep (mp_ops e al)) r (rbind (fst (py_update args' kw Map.empty)) (\<lambda>_. Inr (snd (py_update args' kw Map.empty)))))"
proof (cases "mp_obj_new_dict (mp_ops e al) 0 :: (mp_obj, 'v) mp_map result")
  case (Inl x)
  then have "x = MemoryError" using new_dict_rep [of e al 0, where ?'v = 'v] by auto
  then show ?thesis using Inl by (simp add: mp_obj_dict_make_new_def)
next
  case (Inr m)
  then have m: "dict_rep (mp_ops e al) m Map.empty" using new_dict_rep [of e al 0, where ?'v = 'v] by auto
  show ?thesis
  proof (cases "args \<noteq> [] \<or> kw \<noteq> []")
    case True
    from update_rep [OF m assms, of kw] obtain r m' D' where
      "dict_update (mp_ops e al) m args (mp_map_init_fixed_table kw) = Some (r, m')" "dict_rep (mp_ops e al) m' D'"
      "py_update args' kw Map.empty = (r, D') \<or> r = Inl MemoryError" by blast
    then show ?thesis using Inr True by (cases r) (auto simp: mp_obj_dict_make_new_def)
  next
    case False
    then show ?thesis using Inr m assms by (simp add: mp_obj_dict_make_new_def py_update_def)
  qed
qed

subsection \<open>The simulation\<close>

lemmas dict_step_simps = dict_ok_def step_res_def query_res_def py_or_def

lemma dict_okI:
  assumes "(r', D') \<in> py_dict z veq op D" and "rel_sum (=) (rel_dict_res (=) (dict_rep ops)) r r'" and "dict_rep ops m' D'"
  shows "dict_ok ops z veq op D (Some (r, m'))"
  using assms unfolding dict_ok_def by blast

lemma dict_ok_oom: "dict_oom op D D' \<Longrightarrow> dict_rep ops m' D' \<Longrightarrow> dict_ok ops z veq op D (Some (Inl MemoryError, m'))"
  unfolding dict_ok_def by blast

lemma step_get:
  assumes "dict_rep (mp_ops e al) m D"
  shows "dict_ok (mp_ops e al) z veq (DictLoad k) D (dict_step (mp_ops e al) z veq (DictLoad k) m)"
    and "dict_ok (mp_ops e al) z veq (DictGet k d) D (dict_step (mp_ops e al) z veq (DictGet k d) m)"
    and "dict_ok (mp_ops e al) z veq (DictContains k) D (dict_step (mp_ops e al) z veq (DictContains k) m)"
    and "dict_ok (mp_ops e al) z veq DictLen D (dict_step (mp_ops e al) z veq DictLen m)"
proof -
  show "dict_ok (mp_ops e al) z veq (DictLoad k) D (dict_step (mp_ops e al) z veq (DictLoad k) m)"
    using get_rep [OF assms, of k] assms by (auto simp: dict_step_simps dict_subscr_def split: option.splits)
  show "dict_ok (mp_ops e al) z veq (DictGet k d) D (dict_step (mp_ops e al) z veq (DictGet k d) m)"
    using dict_get_rep [OF assms, of z k d] assms by (auto simp: dict_step_simps split: option.splits)
  show "dict_ok (mp_ops e al) z veq (DictContains k) D (dict_step (mp_ops e al) z veq (DictContains k) m)"
    using contains_rep [OF assms, of k] assms by (auto simp: dict_step_simps)
  show "dict_ok (mp_ops e al) z veq DictLen D (dict_step (mp_ops e al) z veq DictLen m)"
    using used_rep(1) [OF assms] assms by (auto simp: dict_step_simps mp_obj_dict_len_def)
qed

lemma step_one_key:
  assumes "dict_rep (mp_ops e al) m D"
  shows "dict_ok (mp_ops e al) z veq (DictStore k v) D (dict_step (mp_ops e al) z veq (DictStore k v) m)"
    and "dict_ok (mp_ops e al) z veq (DictDelete k) D (dict_step (mp_ops e al) z veq (DictDelete k) m)"
    and "dict_ok (mp_ops e al) z veq (DictPop k d) D (dict_step (mp_ops e al) z veq (DictPop k d) m)"
    and "dict_ok (mp_ops e al) z veq (DictSetdefault k d) D (dict_step (mp_ops e al) z veq (DictSetdefault k d) m)"
proof -
  show "dict_ok (mp_ops e al) z veq (DictStore k v) D (dict_step (mp_ops e al) z veq (DictStore k v) m)"
    using dict_store_rep [OF assms, of k v] assms by (auto simp: dict_step_simps dict_subscr_def)
  show "dict_ok (mp_ops e al) z veq (DictDelete k) D (dict_step (mp_ops e al) z veq (DictDelete k) m)"
    using delete_rep [OF assms, where x = k and z = z] assms by (auto simp: dict_step_simps dict_subscr_def split: if_splits)
  show "dict_ok (mp_ops e al) z veq (DictPop k d) D (dict_step (mp_ops e al) z veq (DictPop k d) m)"
    using dict_pop_rep [OF assms, where x = k and z = z and d = d] assms by (auto simp: dict_step_simps split: option.splits)
  show "dict_ok (mp_ops e al) z veq (DictSetdefault k d) D (dict_step (mp_ops e al) z veq (DictSetdefault k d) m)"
    using setdefault_rep [OF assms, where x = k and z = z and d = d] assms by (cases "D (canon k)") (auto simp: dict_step_simps split: option.splits)
qed

lemma step_whole:
  assumes "dict_rep (mp_ops e al) m D"
  shows "dict_ok (mp_ops e al) z veq DictPopitem D (dict_step (mp_ops e al) z veq DictPopitem m)"
    and "dict_ok (mp_ops e al) z veq DictClear D (dict_step (mp_ops e al) z veq DictClear m)"
    and "dict_ok (mp_ops e al) z veq DictCopy D (dict_step (mp_ops e al) z veq DictCopy m)"
    and "dict_ok (mp_ops e al) z veq DictItems D (dict_step (mp_ops e al) z veq DictItems m)"
proof -
  show "dict_ok (mp_ops e al) z veq DictPopitem D (dict_step (mp_ops e al) z veq DictPopitem m)"
  proof (cases "D = Map.empty")
    case False
    with popitem_rep [OF assms] obtain k v r m' where p: "dict_popitem (mp_ops e al) m = Some (r, m')"
      "r = Inl MemoryError \<or> r = Inr (Some k, Some v)" "D (canon k) = Some v" "dict_rep (mp_ops e al) m' (D(canon k := None))" by auto
    have "dict_ok (mp_ops e al) z veq DictPopitem D (Some (Inr (PairRes k v), m'))" by (rule dict_okI [OF _ _ p(4)]) (use p(3) False in auto)
    moreover have "dict_ok (mp_ops e al) z veq DictPopitem D (Some (Inl MemoryError, m'))" by (rule dict_ok_oom [OF _ p(4)]) (use p(3) in auto)
    ultimately show ?thesis using p(1,2) by (auto simp: step_res_def)
  qed (use popitem_rep [OF assms] assms in \<open>auto simp: dict_step_simps\<close>)
  show "dict_ok (mp_ops e al) z veq DictClear D (dict_step (mp_ops e al) z veq DictClear m)"
    using dict_clear_rep [OF assms] by (auto simp: dict_step_simps)
  show "dict_ok (mp_ops e al) z veq DictCopy D (dict_step (mp_ops e al) z veq DictCopy m)"
    using dict_copy_rep [OF assms] assms by (auto simp: dict_step_simps)
  have "D |` dom D = D" by (rule map_le_antisym) (auto simp: map_le_def)
  note walk = items_walk_rep [OF assms, of 0, unfolded keys_from_0 [OF assms] this]
  then show "dict_ok (mp_ops e al) z veq DictItems D (dict_step (mp_ops e al) z veq DictItems m)"
  proof
    assume "items_walk (mp_ops e al) m 0 = Some (Inl MemoryError)"
    then show ?thesis using dict_ok_oom [OF _ assms, of DictItems D] by (simp add: query_res_def)
  next
    assume "\<exists>its. items_walk (mp_ops e al) m 0 = Some (Inr its) \<and> distinct (map (canon \<circ> fst) its) \<and>
      map_of (map (\<lambda>(k, v). (canon k, v)) its) = D"
    then obtain its where its: "items_walk (mp_ops e al) m 0 = Some (Inr its)" "distinct (map (canon \<circ> fst) its)"
      "map_of (map (\<lambda>(k, v). (canon k, v)) its) = D" by blast
    have "dict_ok (mp_ops e al) z veq DictItems D (Some (Inr (ItemsRes its), m))"
      by (rule dict_okI [OF _ _ assms, of "Inr (ItemsRes its)"]) (use its(2,3) in \<open>auto simp: list.rel_eq prod.rel_eq\<close>)
    then show ?thesis using its(1) by (simp add: query_res_def)
  qed
qed

lemma step_two:
  assumes "dict_rep (mp_ops e al) m D"
  shows "dict_rep (mp_ops e al) other E \<Longrightarrow> dict_ok (mp_ops e al) z veq (DictEqual E) D (dict_step (mp_ops e al) z veq (DictEqual other) m)"
    and "list_all2 (rel_update_arg (=) (dict_rep (mp_ops e al))) args args' \<Longrightarrow>
      dict_ok (mp_ops e al) z veq (DictUpdate args' kw) D (dict_step (mp_ops e al) z veq (DictUpdate args kw) m)"
    and "list_all2 (rel_update_arg (=) (dict_rep (mp_ops e al))) args args' \<Longrightarrow>
      dict_ok (mp_ops e al) z veq (DictNew args' kw) D (dict_step (mp_ops e al) z veq (DictNew args kw) m)"
proof -
  show "dict_ok (mp_ops e al) z veq (DictEqual E) D (dict_step (mp_ops e al) z veq (DictEqual other) m)" if "dict_rep (mp_ops e al) other E"
    using equal_rep [OF assms that, of veq] assms by (auto simp: dict_step_simps)
  assume a: "list_all2 (rel_update_arg (=) (dict_rep (mp_ops e al))) args args'"
  have r: "rel_sum (=) (rel_dict_res (=) (dict_rep (mp_ops e al))) (rbind q (\<lambda>_. Inr NoRes)) (rbind q (\<lambda>_. Inr NoRes))" for q :: "unit result"
    by (cases q) auto
  from update_rep [OF assms a, of kw] obtain r m' D' where
    u: "dict_update (mp_ops e al) m args (mp_map_init_fixed_table kw) = Some (r, m')" "dict_rep (mp_ops e al) m' D'"
    "py_update args' kw D = (r, D') \<or> r = Inl MemoryError \<and> dict_oom (DictUpdate args' kw) D D'" by blast
  show "dict_ok (mp_ops e al) z veq (DictUpdate args' kw) D (dict_step (mp_ops e al) z veq (DictUpdate args kw) m)"
    using u r by (auto simp: dict_step_simps)
  show "dict_ok (mp_ops e al) z veq (DictNew args' kw) D (dict_step (mp_ops e al) z veq (DictNew args kw) m)"
    using dict_make_new_rep [OF a, of kw] assms by (cases "fst (py_update args' kw Map.empty)") (auto simp: dict_step_simps elim!: rel_sum.cases)
qed

lemmas dict_step_lemmas = step_get step_one_key step_whole step_two

lemma dict_step_ok:
  assumes "dict_rep (mp_ops e al) m D" and "rel_dict_op (=) (dict_rep (mp_ops e al)) op op'"
  shows "dict_ok (mp_ops e al) z veq op' D (dict_step (mp_ops e al) z veq op m)"
  using assms
  by (cases op; cases op')
    (simp_all add: dict_step_lemmas option.rel_eq prod.rel_eq list.rel_eq del: dict_step.simps)

text \<open>A dictionary in read-only memory refuses every operation that would change it.\<close>

lemma fixed_refuses:
  assumes "is_fixed m"
  shows "op \<in> {DictStore k v, DictDelete k, DictPop k d, DictSetdefault k d, DictPopitem, DictClear, DictUpdate args kw} \<Longrightarrow>
    dict_step ops z veq op m = Some (Inl TypeError, m)"
  using assms
  by (auto simp: step_res_def dict_subscr_def mp_obj_dict_store_def mp_obj_dict_delete_def out_unit_def dict_pop_def
      dict_setdefault_def dict_get_helper_def dict_popitem_def dict_clear_def dict_update_def)

text \<open>
  C5. The dictionary type implements the dictionaries of Python. On a table that represents the finite map \<open>D\<close> from key
  values to values, every operation (storing, loading and deleting a key, \<^verbatim>\<open>get\<close>, \<^verbatim>\<open>pop\<close>, \<^verbatim>\<open>setdefault\<close>,
  \<^verbatim>\<open>popitem\<close>, \<^verbatim>\<open>clear\<close>, \<^verbatim>\<open>copy\<close>, \<^verbatim>\<open>update\<close> from itself, from another dictionary or from an
  iterable and with keyword arguments, the constructor, membership, comparison, the length and a loop over the items) ends, and either
  returns what Python may return, raising the same exceptions, and leaves a table that represents what Python
  leaves, or it raises \<open>MemoryError\<close> and leaves the map as it was, except that a part of an update may be
  there and an item that was to be popped is gone. A loop over the items meets every key once. The other
  dictionary of an operation represents a map, too.
\<close>

theorem dict_refines_python:
  assumes "dict_rep (mp_ops e al) m D" and "rel_dict_op (=) (dict_rep (mp_ops e al)) op op'"
  shows "\<exists>r m'. dict_step (mp_ops e al) z veq op m = Some (r, m') \<and>
    ((\<exists>r' D'. (r', D') \<in> py_dict z veq op' D \<and> rel_sum (=) (rel_dict_res (=) (dict_rep (mp_ops e al))) r r' \<and>
        dict_rep (mp_ops e al) m' D') \<or>
     r = Inl MemoryError \<and> (\<exists>D'. dict_oom op' D D' \<and> dict_rep (mp_ops e al) m' D'))"
  using dict_step_ok [OF assms, of z veq] unfolding dict_ok_def .

text \<open>Two pairs with equal keys, and a keyword argument, into the dictionary that the constructor returns for no argument.\<close>

definition some_update :: "(string, 'd) dict_op" where
  "some_update = DictUpdate [Pairs [Inr (Some (SmallInt 1, ''a'')), Inr (Some (Bool True, ''b''))]] [(QstrObj [97], ''c'')]"

definition fresh_dict :: "(mp_obj, string) mp_map" where
  "fresh_dict = \<lparr>m_alloc = 0, m_used = 0, all_keys_are_qstrs = True, is_fixed = False, is_ordered = False, m_keys = [], m_values = []\<rparr>"

theorem dict_refines_python_witness:
  "\<exists>r m'. dict_step (mp_ops 4096 (\<lambda>n. n < 100)) ''None'' (=) some_update fresh_dict = Some (r, m') \<and>
    (r = Inr NoRes \<and> dict_rep (mp_ops 4096 (\<lambda>n. n < 100)) m' [CNum 1 \<mapsto> ''b'', CStr [97] \<mapsto> ''c''] \<or> r = Inl MemoryError)"
proof -
  let ?ops = "mp_ops 4096 (\<lambda>n. n < 100)"
  have a: "dict_rep ?ops fresh_dict Map.empty"
    by (rule empty_rep) (simp_all add: fresh_dict_def map_inv_def count_keys_def keys_of_def table_inv_def)
  have b: "rel_dict_op (=) (dict_rep ?ops) some_update some_update"
    by (simp add: some_update_def list.rel_eq option.rel_eq prod.rel_eq sum.rel_eq)
  have "py_dict ''None'' (=) some_update Map.empty = {(Inr NoRes, [CNum 1 \<mapsto> ''b'', CStr [97] \<mapsto> ''c''])}"
    by (simp add: some_update_def py_update_def)
  moreover have "r = Inr NoRes" if "rel_sum (=) (rel_dict_res (=) (dict_rep ?ops)) r (Inr NoRes)" for r
    using that by (auto elim: rel_sum.cases dict_res.rel_cases)
  ultimately show ?thesis using dict_refines_python [OF a b, of "''None''" "(=)"] by auto
qed

end
