(* ===== verification/Spec2Isabelle.thy ===== *)
theory Spec2Isabelle
  imports Prelude Gc_Correct Obj Malloc Port Pyexec_Screen Lexer_Repr Int_Text List_Refine Dict_Refine
begin

text \<open>
  A verification development of IPUpy, the port of MicroPython to the tiles of the Graphcore IPU. The
  program is one C file, \<^verbatim>\<open>src/libIPUpy/libIPUpy.c\<close>, which joins the files of MicroPython's core
  (\<^verbatim>\<open>py/\<close>, \<^verbatim>\<open>shared/\<close>) with the functions of the port, together with the headers under
  \<^verbatim>\<open>src/libIPUpy/micropython/py\<close> and the configuration \<^verbatim>\<open>src/libIPUpy/mpconfigport.h\<close>. A tile is a
  32-bit machine without an operating system: the interpreter's heap and stack are static arrays, its
  standard streams are buffers that the host fills and reads, and the host drives the prompt one
  character at a time.

  \<^bold>\<open>Parts and theories.\<close> Each theory models the functions of one source file under their names in the
  code; the theorems with a number C1, C2, \<open>\<dots>\<close> are the properties of the part.

  \<^item> \<open>Prelude\<close>: sizes and addresses of 32 bits (\<open>wrap32\<close>, \<open>sub32\<close>), the exceptions and the result type
    of functions that may raise (\<open>mp_exc\<close>, \<open>result\<close>, \<open>rbind\<close>), copying in buffers.
  \<^item> \<open>Gc\<close>, \<open>Gc_Alloc\<close>, \<open>Gc_Mark\<close>, \<open>Gc_Heap\<close>, \<open>Gc_Info\<close>, \<open>Gc_Correct\<close>: the mark-and-sweep collector
    of \<^verbatim>\<open>py/gc.c\<close>. The state is the allocation table of two bits per block and the pool of words; a
    collection takes the words of the roots. C1 to C4 and C6 to C8: a collection frees exactly what is unreachable,
    also when the mark stack overflows; allocation is fresh, zeroed and succeeds when there is room;
    resizing keeps contents; freeing is exact; the statistics are right; and a request near \<open>2 ^ 32\<close>
    bytes frees the object.
  \<^item> \<open>Qstr\<close>: interned strings of \<^verbatim>\<open>py/qstr.c\<close> in chained pools, with their characters in memory: an entry is a
    pointer, and a new string is copied into the free part of the last chunk. C9 to C11: what is interned is read back and
    no copy overwrites an earlier string (\<open>alloc_ok\<close> is what the memory manager has to promise); over any run from
    the constant pool on (a step relation), two strings get the same qstr exactly when they are equal; and exactly when interning fails.
  \<^item> \<open>Hash_Map\<close>, \<open>Map_Correct\<close>, \<open>Set_Correct\<close>, \<open>Obj\<close>: the open-addressing tables of \<^verbatim>\<open>py/map.c\<close>, stated over the
    locale of an equality and a hash that agree, and interpreted on the equality and hash of key objects
    (\<^verbatim>\<open>mp_obj_equal\<close>, \<^verbatim>\<open>mp_unary_op\<close>). C12 to C14, C16 and C17: lookup, insertion, removal and growth implement
    finite maps and sets, and running out of memory is reported.
  \<^item> \<open>Vstr\<close>, \<open>Malloc\<close>: growable strings of \<^verbatim>\<open>py/vstr.c\<close> and the allocation functions of \<^verbatim>\<open>py/malloc.c\<close>.
    The locale \<open>renewer\<close> is what a buffer relies on; \<open>Malloc\<close> shows that \<^verbatim>\<open>m_realloc\<close> on the collected
    heap provides it. C18: editing a string refines lists of bytes. C20: the contract of \<^verbatim>\<open>m_realloc\<close>.
  \<^item> \<open>Stdio\<close>, \<open>Pystack\<close>, \<open>Port\<close>: the character streams, the Python stack and the initialisation of the
    port. C21 to C24: output never leaves the host's buffer; blocks of the Python stack never overlap; the
    heap that \<^verbatim>\<open>IPUpy_init\<close> builds is well formed; and exactly which words a collection takes from the C
    stack, with what follows for the objects the stack refers to.
  \<^item> \<open>Readline\<close>, \<open>Readline_Correct\<close>: the line editor of \<^verbatim>\<open>shared/readline/readline.c\<close> as a state machine
    that sends bytes to a terminal. C25 and C26: a terminal that follows the escape sequences shows the line
    and the cursor of the editor after any keys, and typing a line returns it.
  \<^item> \<open>Unichar\<close>, \<open>Repl\<close>, \<open>Pyexec\<close>, \<open>Pyexec_Correct\<close>, \<open>Pyexec_Screen\<close>: character classes, continuation lines and
    completion, and the event-driven prompt of \<^verbatim>\<open>shared/runtime/pyexec.c\<close>. C27 to C33: the classes are those of ASCII; when
    another line is asked for; completion extends a name to the longest common prefix of the candidates; the
    invariant of the prompt over any sequence of characters (a step relation with rule induction), and that the terminal
    shows the prompt and the line; the protocol of the raw prompt; what Enter, Ctrl-C and Ctrl-D do at the
    first line and on continuation lines; and that completion keeps the screen in order.
  \<^item> \<open>Lexer_State\<close>, \<open>Lexer\<close>: the tokeniser of \<^verbatim>\<open>py/lexer.c\<close> on the memory reader of \<^verbatim>\<open>py/reader.c\<close>.
    \<open>Lexer_Stream\<close> (C34): the characters it works on are those of the source with line ends normalised.
    \<open>Lexer_Tables\<close> (C35): its tables of operators and keywords. \<open>Lexer_Text\<close>, \<open>Lexer_Run\<close>: what the function of each
    kind of token keeps, and runs of the tokeniser. C36 and C37: a run ends after a number of tokens linear in
    the source, and INDENT and DEDENT follow the stack of indentations (a step relation per token).
    \<open>Lexer_Repr\<close>: the printing of strings of \<^verbatim>\<open>py/objstr.c\<close>. C38: a printed string is read back by the tokeniser.
  \<^item> \<open>Small_Int\<close>, \<open>Int_Text\<close>: small integers, their object words, the operators of \<^verbatim>\<open>py/smallint.c\<close> and
    \<^verbatim>\<open>py/runtime.c\<close> on them, and their text (\<^verbatim>\<open>py/parsenum.c\<close>, \<^verbatim>\<open>py/objint.c\<close>). C39: the operators refine the unbounded
    integers with an overflow check. C40: formatting and parsing are inverse, and the buffer is large enough.
  \<^item> \<open>List_Sort\<close>, \<open>Mp_List\<close>, \<open>List_Correct\<close>, \<open>List_Refine\<close>: the list type of \<^verbatim>\<open>py/objlist.c\<close> with the indices, slices
    and sequence functions it calls (\<^verbatim>\<open>py/obj.c\<close>, \<^verbatim>\<open>py/objslice.c\<close>, \<^verbatim>\<open>py/sequence.c\<close>). A list is an array of slots with a
    length; \<open>list_rep\<close> relates it to the items. C15: every operation simulates the one of Python, also where it raises,
    but for slices with a step, which the code does not delete or store to, and says what is left when the memory runs out (one lemma per operation in \<open>List_Correct\<close>, which also shows that comparison
    is lexicographic). C19: the quicksort permutes and sorts, stated over the locale \<open>less_op\<close> of an operator that is a
    strict weak order and interpreted on small integers.
  \<^item> \<open>Dict\<close>, \<open>Dict_Correct\<close>, \<open>Dict_Refine\<close>: the dictionary type of \<^verbatim>\<open>py/objdict.c\<close> on the tables of \<open>Hash_Map\<close>.
    \<open>dict_rep\<close> relates a table to a finite map from the values of keys, and \<open>Dict_Correct\<close> has one lemma per operation, which rest
    on the facts of the table interpreted on key objects. C5: every operation simulates the one of Python, a
    loop over the items meets every key once, and what is left when the memory runs out.

  \<^bold>\<open>How the parts meet.\<close> Strings and tables ask the allocator for memory (an argument \<open>al\<close> of the
  functions, which refuses or delivers a buffer, or the heap itself in \<open>Malloc\<close>); the prompt calls the line
  editor, the continuation test and the completion, whose contract \<open>completer_ok\<close> is shown in C33; the
  editor writes to the streams of the port; the prompt hands the typed source to the tokeniser, which calls
  the character classes; the text of an integer token goes to \<^verbatim>\<open>mp_parse_num_integer\<close>. Lists compare their items with
  the equality of objects and sort them with the operators on the items. Dictionaries call the lookup of the tables, whose growth asks
  the allocator.

  \<^bold>\<open>Conventions and bounds.\<close> A C function that may raise returns \<open>Inl\<close> of an exception. Loops are
  recursive functions with a measure; a loop bounded by the size of a table counts down. Where a theorem
  needs that a size does not come near \<open>2 ^ 32\<close> it says so: strings and inputs below \<open>2 ^ 28\<close> to \<open>2 ^ 30\<close>
  bytes, screen columns below 1000 (the digits of an escape sequence), heaps as large as the address space
  allows. The search of a table that may grow takes a fuel of two rounds, and C14 shows that it is enough. The
  loop that collects a slice is a partial function, and C15 shows that it ends.

  \<^bold>\<open>Not modelled.\<close> The parser, compiler and virtual machine (what executing a source does is an argument of
  the prompt); the object types beyond the keys of tables, lists, dictionaries, small integers and the printing of strings; floats (the float results
  of integer operators are arguments) and formatted printing; file systems and
  modules; non-local jumps, which are result values here; the C++ vertices and host programs that call the
  port. Options that the port's configuration disables (f-strings, Unicode strings, threads, finalisers,
  debugging output) are left out of the functions that have them.
\<close>

end
